(* ===== verification/Operation.thy ===== *)
theory Operation
  imports Prelude
begin

text \<open>
  Request cancellation and retirement (\<open>src/src/operation.rs\<close>).

  A cancellation token can be raised by another thread at any moment, so sequential code that
  polls it is modelled against a \<^emph>\<open>probe\<close>: \<open>p k\<close> tells whether the \<open>k\<close>-th poll
  of the request finds the token cancelled. \<open>check_operation\<close> is one poll and returns the
  number of the next one. \<open>op_check\<close>, \<open>guard_disarm\<close>, \<open>guard_drop\<close> and \<open>work_check\<close>
  are the operations on the token state itself.
\<close>

type_synonym probe = "nat \<Rightarrow> bool"

datatype op_error = OpCancelled

datatype work_stop = RequestCancelled | EpochRetired

record cancel_state =
  parent_cancelled :: bool
  own_cancelled :: bool
  armed :: bool

definition new_guard :: "bool \<Rightarrow> cancel_state" where
  "new_guard parent = \<lparr>parent_cancelled = parent, own_cancelled = False, armed = True\<rparr>"

definition is_cancelled :: "cancel_state \<Rightarrow> bool" where
  "is_cancelled s \<longleftrightarrow> parent_cancelled s \<or> own_cancelled s"

definition op_check :: "cancel_state \<Rightarrow> op_error + unit" where
  "op_check s = (if is_cancelled s then Inl OpCancelled else Inr ())"

definition guard_disarm :: "cancel_state \<Rightarrow> cancel_state" where
  "guard_disarm s = s\<lparr>armed := False\<rparr>"

definition guard_drop :: "cancel_state \<Rightarrow> cancel_state" where
  "guard_drop s = (if armed s then s\<lparr>armed := False, own_cancelled := True\<rparr> else s)"

text \<open>An epoch guard captured generation \<open>expected\<close>; the shared counter now reads \<open>current\<close>.\<close>

definition work_check :: "cancel_state \<Rightarrow> (nat \<times> nat) option \<Rightarrow> work_stop + unit" where
  "work_check s epoch =
     (if is_cancelled s then Inl RequestCancelled
      else case epoch of
          None \<Rightarrow> Inr ()
        | Some (expected, current) \<Rightarrow>
            if current \<noteq> expected then Inl EpochRetired else Inr ())"

definition op_check_work :: "cancel_state \<Rightarrow> work_stop + unit" where
  "op_check_work s = (case op_check s of Inl OpCancelled \<Rightarrow> Inl RequestCancelled | Inr u \<Rightarrow> Inr u)"

lemma work_check_inline: "work_check s None = op_check_work s"
  by (simp add: work_check_def op_check_work_def op_check_def)

lemma guard_drop_disarmed: "guard_drop (guard_disarm s) = guard_disarm s"
  by (simp add: guard_drop_def guard_disarm_def)

lemma guard_drop_twice: "guard_drop (guard_drop s) = guard_drop s"
  by (simp add: guard_drop_def)

lemma guard_drop_armed: "armed s \<Longrightarrow> op_check (guard_drop s) = Inl OpCancelled"
  by (simp add: guard_drop_def op_check_def is_cancelled_def)

text \<open>One poll by sequential code; without an operation there is nothing to poll.\<close>

definition check_probe :: "'e \<Rightarrow> probe option \<Rightarrow> nat \<Rightarrow> 'e + nat" where
  "check_probe e op k =
     (case op of None \<Rightarrow> Inr k | Some p \<Rightarrow> if p k then Inl e else Inr (Suc k))"

definition never_cancelled :: "probe option \<Rightarrow> bool" where
  "never_cancelled op \<longleftrightarrow> (case op of None \<Rightarrow> True | Some p \<Rightarrow> (\<forall>k. \<not> p k))"

lemma check_probe_Inl: "check_probe e op k = Inl e' \<Longrightarrow> e' = e"
  by (auto simp: check_probe_def split: option.splits if_splits)

lemma check_probe_never [simp]:
  "never_cancelled op \<Longrightarrow> \<exists>k'. check_probe e op k = Inr k'"
  by (auto simp: check_probe_def never_cancelled_def split: option.splits)

lemma check_probe_None [simp]: "check_probe e None k = Inr k"
  by (simp add: check_probe_def)

end
