(* ===== verification/Ordering.thy ===== *)
theory Ordering
  imports Prelude
begin

text \<open>
  Comparators as the code uses them (\<open>std::cmp::Ordering\<close>, \<open>Ord\<close> on byte strings and
  options, \<open>then_with\<close>) and the standard library's stable \<open>sort_by\<close>. The locale
  \<open>comparator\<close> is the contract a comparison function has to keep; inside it the stable sort is
  characterised by its two defining properties, order and stability, which determine the result.
\<close>

section \<open>Comparators and the library's stable sort\<close>

datatype ordering = Less | Equal | Greater

type_synonym 'a comparator = "'a \<Rightarrow> 'a \<Rightarrow> ordering"

fun reverse_ordering :: "ordering \<Rightarrow> ordering" where
  "reverse_ordering Less = Greater"
| "reverse_ordering Equal = Equal"
| "reverse_ordering Greater = Less"

definition then_with :: "ordering \<Rightarrow> ordering \<Rightarrow> ordering" where
  "then_with a b = (if a = Equal then b else a)"

definition cmp_ord :: "'a::linorder comparator" where
  "cmp_ord x y = (if x < y then Less else if y < x then Greater else Equal)"

fun cmp_seq :: "'a::linorder list comparator" where
  "cmp_seq [] [] = Equal"
| "cmp_seq [] (y # ys) = Less"
| "cmp_seq (x # xs) [] = Greater"
| "cmp_seq (x # xs) (y # ys) = then_with (cmp_ord x y) (cmp_seq xs ys)"

fun cmp_option :: "'a comparator \<Rightarrow> 'a option comparator" where
  "cmp_option c None None = Equal"
| "cmp_option c None (Some y) = Less"
| "cmp_option c (Some x) None = Greater"
| "cmp_option c (Some x) (Some y) = c x y"

text \<open>\<open>slice::sort_by\<close> is a stable sort: an item goes in front of the later items it equals.\<close>

fun insert_by :: "'a comparator \<Rightarrow> 'a \<Rightarrow> 'a list \<Rightarrow> 'a list" where
  "insert_by c x [] = [x]"
| "insert_by c x (y # ys) = (if c x y = Greater then y # insert_by c x ys else x # y # ys)"

fun sort_by :: "'a comparator \<Rightarrow> 'a list \<Rightarrow> 'a list" where
  "sort_by c [] = []"
| "sort_by c (x # xs) = insert_by c x (sort_by c xs)"

section \<open>The comparator contract\<close>

locale comparator =
  fixes cmp :: "'a comparator"
  assumes cmp_swap: "cmp y x = reverse_ordering (cmp x y)"
    and cmp_trans: "cmp x y \<noteq> Greater \<Longrightarrow> cmp y z \<noteq> Greater \<Longrightarrow> cmp x z \<noteq> Greater"
begin

lemma cmp_refl [simp]: "cmp x x = Equal"
  using cmp_swap [of x x] by (cases "cmp x x") auto

lemma Greater_iff_Less: "cmp x y = Greater \<longleftrightarrow> cmp y x = Less"
  using cmp_swap [of x y] by (cases "cmp x y"; cases "cmp y x") auto

lemma Equal_sym: "cmp x y = Equal \<longleftrightarrow> cmp y x = Equal"
  using cmp_swap [of x y] by (cases "cmp x y"; cases "cmp y x") auto

lemma total: "cmp x y \<noteq> Greater \<or> cmp y x \<noteq> Greater"
  using cmp_swap [of x y] by (cases "cmp x y"; cases "cmp y x") auto

lemma Equal_iff: "cmp x y = Equal \<longleftrightarrow> cmp x y \<noteq> Greater \<and> cmp y x \<noteq> Greater"
  using cmp_swap [of x y] by (cases "cmp x y"; cases "cmp y x") auto

lemma Equal_trans: "cmp x y = Equal \<Longrightarrow> cmp y z = Equal \<Longrightarrow> cmp x z = Equal"
  by (meson Equal_iff cmp_trans)

lemma Equal_left: "cmp x y = Equal \<Longrightarrow> cmp y z = Equal \<longleftrightarrow> cmp x z = Equal"
  by (meson Equal_sym Equal_trans)

lemma Less_trans: "cmp x y \<noteq> Greater \<Longrightarrow> cmp y z = Less \<Longrightarrow> cmp x z = Less"
  by (metis Greater_iff_Less cmp_trans ordering.distinct(3) ordering.exhaust Equal_iff)

abbreviation ordered :: "'a list \<Rightarrow> bool" where
  "ordered \<equiv> sorted_wrt (\<lambda>x y. cmp x y \<noteq> Greater)"

abbreviation class_of :: "'a \<Rightarrow> 'a list \<Rightarrow> 'a list" where
  "class_of k \<equiv> filter (\<lambda>x. cmp k x = Equal)"

lemma set_insert_by [simp]: "set (insert_by cmp x ys) = insert x (set ys)"
  by (induction ys) auto

lemma ordered_insert_by: "ordered ys \<Longrightarrow> ordered (insert_by cmp x ys)"
proof (induction ys)
  case (Cons y ys)
  then show ?case
    using total [of x y] cmp_trans [of x y] by auto
qed simp

lemma ordered_sort_by: "ordered (sort_by cmp xs)"
  by (induction xs) (simp_all add: ordered_insert_by)

lemma class_of_insert_by:
  "class_of k (insert_by cmp x ys) = (if cmp k x = Equal then x # class_of k ys else class_of k ys)"
proof (induction ys)
  case (Cons y ys)
  have "cmp k x = Equal \<Longrightarrow> cmp k y = Equal \<Longrightarrow> cmp x y = Equal"
    by (meson Equal_sym Equal_trans)
  then show ?case using Cons by auto
qed simp

lemma class_of_sort_by: "class_of k (sort_by cmp xs) = class_of k xs"
  by (induction xs) (simp_all add: class_of_insert_by)

lemma mset_insert_by: "mset (insert_by cmp x ys) = add_mset x (mset ys)"
  by (induction ys) auto

lemma mset_sort_by: "mset (sort_by cmp xs) = mset xs"
  by (induction xs) (auto simp: mset_insert_by)

lemma set_from_classes: "(\<And>k. class_of k xs = class_of k ys) \<Longrightarrow> set xs = set ys"
proof (rule set_eqI)
  fix x
  assume "\<And>k. class_of k xs = class_of k ys"
  then have "x \<in> set (class_of x xs) \<longleftrightarrow> x \<in> set (class_of x ys)" by metis
  then show "x \<in> set xs \<longleftrightarrow> x \<in> set ys" by simp
qed

text \<open>Order and stability leave one possible result.\<close>

lemma stable_unique:
  "ordered xs \<Longrightarrow> ordered ys \<Longrightarrow> (\<And>k. class_of k xs = class_of k ys) \<Longrightarrow> xs = ys"
proof (induction xs arbitrary: ys)
  case Nil
  then have "set ([] :: 'a list) = set ys" by (intro set_from_classes) auto
  then show ?case by simp
next
  case (Cons x xs)
  have sets: "set (x # xs) = set ys" using Cons.prems(3) by (rule set_from_classes)
  then obtain y ys' where ys: "ys = y # ys'" by (cases ys) auto
  from sets ys have "y \<in> set (x # xs)" and "x \<in> set (y # ys')" by auto
  with Cons.prems(1,2) ys have "cmp x y \<noteq> Greater" and "cmp y x \<noteq> Greater" by auto
  then have eq: "cmp x y = Equal" by (simp add: Equal_iff)
  have "class_of x (x # xs) = class_of x ys" by (rule Cons.prems(3))
  with eq ys have xy: "x = y" by simp
  have "class_of k xs = class_of k ys'" for k
    using Cons.prems(3) [of k] ys xy by (auto split: if_splits)
  with Cons.IH [of ys'] Cons.prems(1,2) ys xy show ?case by auto
qed

lemma sort_by_unique:
  "ordered ys \<Longrightarrow> (\<And>k. class_of k ys = class_of k xs) \<Longrightarrow> ys = sort_by cmp xs"
  by (rule stable_unique) (simp_all add: ordered_sort_by class_of_sort_by)

lemma sort_by_ordered: "ordered xs \<Longrightarrow> sort_by cmp xs = xs"
  using sort_by_unique [of xs xs] by simp

end

section \<open>The code's building blocks keep the contract\<close>

lemma reverse_then_with:
  "reverse_ordering (then_with a b) = then_with (reverse_ordering a) (reverse_ordering b)"
  by (cases a) (auto simp: then_with_def)

lemma comparator_cmp_ord: "comparator (cmp_ord :: 'a::linorder comparator)"
  by unfold_locales (auto simp: cmp_ord_def split: if_splits)

lemma comparator_then_with:
  assumes "comparator c1" and "comparator c2"
  shows "comparator (\<lambda>x y. then_with (c1 x y) (c2 x y))"
proof
  fix x y z
  show "then_with (c1 y x) (c2 y x) = reverse_ordering (then_with (c1 x y) (c2 x y))"
    by (simp add: reverse_then_with comparator.cmp_swap [OF assms(1), of y x]
        comparator.cmp_swap [OF assms(2), of y x])
  assume xy: "then_with (c1 x y) (c2 x y) \<noteq> Greater"
    and yz: "then_with (c1 y z) (c2 y z) \<noteq> Greater"
  then have le: "c1 x y \<noteq> Greater" "c1 y z \<noteq> Greater"
    by (auto simp: then_with_def split: if_splits)
  then have xz: "c1 x z \<noteq> Greater" by (rule comparator.cmp_trans [OF assms(1)])
  show "then_with (c1 x z) (c2 x z) \<noteq> Greater"
  proof (cases "c1 x z = Equal")
    case True
    then have zx: "c1 z x \<noteq> Greater" by (simp add: comparator.Equal_iff [OF assms(1)])
    from le(2) zx have "c1 y x \<noteq> Greater" by (rule comparator.cmp_trans [OF assms(1)])
    moreover from zx le(1) have "c1 z y \<noteq> Greater" by (rule comparator.cmp_trans [OF assms(1)])
    ultimately have "c1 x y = Equal" "c1 y z = Equal"
      using le by (simp_all add: comparator.Equal_iff [OF assms(1)])
    with xy yz True show ?thesis
      using comparator.cmp_trans [OF assms(2)] by (simp add: then_with_def)
  qed (use xz in \<open>simp add: then_with_def\<close>)
qed

lemma comparator_on:
  assumes "comparator c"
  shows "comparator (\<lambda>x y. c (f x) (f y))"
  using comparator.cmp_swap [OF assms] comparator.cmp_trans [OF assms] by unfold_locales blast+

lemma comparator_flip:
  assumes "comparator c"
  shows "comparator (\<lambda>x y. c y x)"
  using comparator.cmp_swap [OF assms] comparator.cmp_trans [OF assms] by unfold_locales blast+

lemma cmp_option_simps_Greater:
  "cmp_option c x y \<noteq> Greater \<longleftrightarrow>
     (case x of None \<Rightarrow> True | Some a \<Rightarrow> (case y of None \<Rightarrow> False | Some b \<Rightarrow> c a b \<noteq> Greater))"
  by (cases x; cases y) auto

lemma comparator_cmp_option:
  assumes "comparator c"
  shows "comparator (cmp_option c)"
proof
  fix x y z
  show "cmp_option c y x = reverse_ordering (cmp_option c x y)"
    by (cases x; cases y) (auto intro: comparator.cmp_swap [OF assms])
  show "cmp_option c x y \<noteq> Greater \<Longrightarrow> cmp_option c y z \<noteq> Greater \<Longrightarrow> cmp_option c x z \<noteq> Greater"
    using comparator.cmp_trans [OF assms]
    by (auto simp: cmp_option_simps_Greater split: option.splits)
qed

lemma cmp_seq_swap: "cmp_seq ys xs = reverse_ordering (cmp_seq xs ys)"
proof (induction xs ys rule: cmp_seq.induct)
  case (4 x xs y ys)
  then show ?case
    using comparator.cmp_swap [OF comparator_cmp_ord, of y x]
    by (cases "cmp_ord x y") (auto simp: then_with_def)
qed simp_all

lemma cmp_seq_Equal: "cmp_seq xs ys = Equal \<longleftrightarrow> xs = ys"
  by (induction xs ys rule: cmp_seq.induct) (auto simp: then_with_def cmp_ord_def)

lemma cmp_seq_trans:
  "cmp_seq xs ys \<noteq> Greater \<Longrightarrow> cmp_seq ys zs \<noteq> Greater \<Longrightarrow> cmp_seq xs zs \<noteq> Greater"
proof (induction xs arbitrary: ys zs)
  case Nil
  then show ?case by (cases zs) auto
next
  case (Cons x xs)
  then obtain y ys' where ys: "ys = y # ys'" by (cases ys) auto
  with Cons.prems obtain z zs' where zs: "zs = z # zs'" by (cases zs) auto
  from Cons.prems Cons.IH [of ys' zs'] show ?case
    by (auto simp: ys zs then_with_def cmp_ord_def split: if_splits)
qed

lemma comparator_cmp_seq: "comparator (cmp_seq :: 'a::linorder list comparator)"
  by unfold_locales (auto intro: cmp_seq_swap dest: cmp_seq_trans)

lemmas comparator_blocks =
  comparator_cmp_ord comparator_cmp_seq comparator_cmp_option comparator_then_with comparator_on
  comparator_flip

end
