(* ===== verification/Bounded_Sort.thy ===== *)
theory Bounded_Sort
  imports Operation Ordering
begin

text \<open>
  Cancelable fixed-chunk sorting (\<open>src/src/bounded_sort.rs\<close>).

  The candidate list is cut into chunks of 4096 items, each chunk is sorted by the library's
  stable sort either inline or by a worker of the shared pool, and the chunks are merged through
  a binary heap of stream numbers. The model keeps the array heap, the polls of the cancellation
  token and the asynchronous arrival of worker results (a schedule of channel events). The
  theorems say that every successful run returns exactly the stable sort of the input, whatever
  was spawned and in whatever order the results came in, and that a run nobody disturbs does
  return.
\<close>

section \<open>The chunk merge\<close>

datatype sort_error = SortCancelled | WorkerPanicked | WorkerDisconnected | SortInvariant

definition sort_chunk_items :: nat where
  "sort_chunk_items = 4096"

definition merge_cancel_items :: nat where
  "merge_cancel_items = 1024"

abbreviation check_sort :: "probe option \<Rightarrow> nat \<Rightarrow> sort_error + nat" where
  "check_sort \<equiv> check_probe SortCancelled"

definition front :: "'a list list \<Rightarrow> nat \<Rightarrow> 'a option" where
  "front streams i =
     (if i < length streams then (case streams ! i of [] \<Rightarrow> None | x # _ \<Rightarrow> Some x) else None)"

definition stream_precedes ::
    "'a comparator \<Rightarrow> 'a list list \<Rightarrow> nat \<Rightarrow> nat \<Rightarrow> sort_error + bool" where
  "stream_precedes c streams left right =
     bind_r (ok_or SortInvariant (front streams left)) (\<lambda>left_item.
     bind_r (ok_or SortInvariant (front streams right)) (\<lambda>right_item.
       let ordering = c left_item right_item
       in Inr (ordering = Less \<or> ordering = Equal \<and> left < right)))"

fun sift_up ::
    "'a comparator \<Rightarrow> 'a list list \<Rightarrow> nat list \<Rightarrow> nat \<Rightarrow> sort_error + nat list" where
  "sift_up c streams heap child =
     (if 0 < child then
        let parent = (child - 1) div 2 in
        bind_r (stream_precedes c streams (heap ! child) (heap ! parent)) (\<lambda>b.
          if \<not> b then Inr heap else sift_up c streams (swap heap child parent) parent)
      else Inr heap)"

declare sift_up.simps [simp del]

definition heap_push ::
    "'a comparator \<Rightarrow> 'a list list \<Rightarrow> nat list \<Rightarrow> nat \<Rightarrow> sort_error + nat list" where
  "heap_push c streams heap value = sift_up c streams (heap @ [value]) (length heap)"

function sift_down ::
    "'a comparator \<Rightarrow> 'a list list \<Rightarrow> nat list \<Rightarrow> nat \<Rightarrow> sort_error + nat list" where
  "sift_down c streams heap parent =
     (let left = 2 * parent + 1; right = left + 1 in
      if length heap \<le> left then Inr heap
      else
        bind_r (if right < length heap
                then stream_precedes c streams (heap ! right) (heap ! left)
                else Inr False) (\<lambda>r.
        let child = (if r then right else left) in
        bind_r (stream_precedes c streams (heap ! child) (heap ! parent)) (\<lambda>b.
          if \<not> b then Inr heap else sift_down c streams (swap heap parent child) child)))"
  by pat_completeness auto
termination
  by (relation "measure (\<lambda>(c, streams, heap, parent). length heap - parent)") auto

declare sift_down.simps [simp del]

text \<open>\<open>swap_remove(0)\<close>: the last element takes the place of the first.\<close>

definition swap_remove0 :: "'a list \<Rightarrow> 'a list" where
  "swap_remove0 xs = butlast (xs[0 := last xs])"

definition heap_pop ::
    "'a comparator \<Rightarrow> 'a list list \<Rightarrow> nat list \<Rightarrow> sort_error + nat \<times> nat list" where
  "heap_pop c streams heap =
     (if heap = [] then Inl SortInvariant
      else bind_r (sift_down c streams (swap_remove0 heap) 0) (\<lambda>heap'. Inr (hd heap, heap')))"

text \<open>The heap starts with every non-empty stream, pushed in stream order.\<close>

fun heap_init ::
    "'a comparator \<Rightarrow> 'a list list \<Rightarrow> nat list \<Rightarrow> nat list \<Rightarrow> sort_error + nat list" where
  "heap_init c streams heap [] = Inr heap"
| "heap_init c streams heap (i # is) =
     (if streams ! i \<noteq> []
      then bind_r (heap_push c streams heap i) (\<lambda>heap'. heap_init c streams heap' is)
      else heap_init c streams heap is)"

lemma sum_length_pop:
  "front streams i = Some item \<Longrightarrow>
     sum_list (map length (streams[i := tl (streams ! i)])) < sum_list (map length streams)"
proof -
  assume "front streams i = Some item"
  then have i: "i < length streams" and ne: "streams ! i \<noteq> []"
    by (auto simp: front_def split: if_splits list.splits)
  have "length (concat (streams[i := tl (streams ! i)])) < length (concat streams)"
    using i ne by (simp add: concat_list_update concat_split_at [OF i])
  then show ?thesis by (simp add: length_concat)
qed

function (sequential) merge_loop ::
    "'a comparator \<Rightarrow> probe option \<Rightarrow> nat \<Rightarrow> 'a list list \<Rightarrow> nat list \<Rightarrow> 'a list
       \<Rightarrow> sort_error + 'a list \<times> nat" where
  "merge_loop c op k streams heap output =
     (if heap = [] then Inr (output, k)
      else
        bind_r (if output \<noteq> [] \<and> length output mod merge_cancel_items = 0
                then check_sort op k else Inr k) (\<lambda>k.
        bind_r (heap_pop c streams heap) (\<lambda>(i, heap).
        (case front streams i of
           None \<Rightarrow> Inl SortInvariant
         | Some item \<Rightarrow>
             let streams = streams[i := tl (streams ! i)] in
             bind_r (if streams ! i \<noteq> [] then heap_push c streams heap i else Inr heap)
               (\<lambda>heap. merge_loop c op k streams heap (output @ [item]))))))"
  by pat_completeness auto

termination
  by (relation "measure (\<lambda>(c, op, k, streams, heap, output). sum_list (map length streams))")
    (auto dest: sum_length_pop)

declare merge_loop.simps [simp del]

definition merge_sorted_chunks ::
    "'a comparator \<Rightarrow> probe option \<Rightarrow> nat \<Rightarrow> 'a list list \<Rightarrow> sort_error + 'a list \<times> nat \<times> nat" where
  "merge_sorted_chunks c op k chunks =
     (if length chunks = 1 then Inr (hd chunks, 0, k)
      else
        let total = sum_list (map length chunks) in
        if usize_max < total then Inl SortInvariant
        else
          bind_r (check_sort op k) (\<lambda>k.
          bind_r (heap_init c chunks [] [0..<length chunks]) (\<lambda>heap.
          bind_r (merge_loop c op k chunks heap []) (\<lambda>(output, k).
          bind_r (check_sort op k) (\<lambda>k. Inr (output, total, k))))))"

section \<open>Chunking, workers and the coordinator\<close>

fun chunks_of :: "nat \<Rightarrow> 'a list \<Rightarrow> 'a list list" where
  "chunks_of n xs = (if n = 0 \<or> xs = [] then [] else take n xs # chunks_of n (drop n xs))"

declare chunks_of.simps [simp del]

definition sort_inline_chunk ::
    "'a comparator \<Rightarrow> probe option \<Rightarrow> nat \<Rightarrow> 'a list \<Rightarrow> sort_error + 'a list \<times> nat" where
  "sort_inline_chunk c op k chunk =
     bind_r (check_sort op k) (\<lambda>k.
     bind_r (check_sort op k) (\<lambda>k'. Inr (sort_by c chunk, k')))"

text \<open>
  A worker polls before and after its sort; \<open>panicked\<close> stands for a panic inside the leaf. What
  it sends back is the sorted chunk or the failure.
\<close>

definition sort_worker ::
    "'a comparator \<Rightarrow> bool \<Rightarrow> bool \<Rightarrow> bool \<Rightarrow> 'a list \<Rightarrow> sort_error + 'a list" where
  "sort_worker c before panicked after chunk =
     (if panicked then Inl WorkerPanicked
      else if before then Inl SortCancelled
      else if after then Inl SortCancelled
      else Inr (sort_by c chunk))"

text \<open>
  What the coordinator's \<open>recv_timeout\<close> sees: the 10 ms poll expired, or worker \<open>i\<close> finished
  (with the cancellations and the panic it met). An exhausted schedule is a closed channel.
\<close>

datatype sort_event = RecvTimeout | WorkerDone nat bool bool bool

text \<open>Chunk \<open>i\<close> is spawned iff a ticket, a credit and the pool admit it.\<close>

fun dispatch_chunks ::
    "probe option \<Rightarrow> (nat \<Rightarrow> bool) \<Rightarrow> nat \<Rightarrow> (nat \<times> 'a list) list
       \<Rightarrow> sort_error + (nat \<times> 'a list) list \<times> (nat \<times> 'a list) list \<times> nat" where
  "dispatch_chunks op admit k [] = Inr ([], [], k)"
| "dispatch_chunks op admit k ((i, chunk) # rest) =
     bind_r (check_sort op k) (\<lambda>k.
     bind_r (dispatch_chunks op admit k rest) (\<lambda>(inline, spawned, k).
       if admit i then Inr (inline, (i, chunk) # spawned, k)
       else Inr ((i, chunk) # inline, spawned, k)))"

fun sort_inline_chunks ::
    "'a comparator \<Rightarrow> probe option \<Rightarrow> nat \<Rightarrow> (nat \<times> 'a list) list
       \<Rightarrow> sort_error + (nat \<times> 'a list) list \<times> nat" where
  "sort_inline_chunks c op k [] = Inr ([], k)"
| "sort_inline_chunks c op k ((i, chunk) # rest) =
     bind_r (sort_inline_chunk c op k chunk) (\<lambda>(chunk, k).
     bind_r (sort_inline_chunks c op k rest) (\<lambda>(rest, k). Inr ((i, chunk) # rest, k)))"

definition fill_slot :: "'a option list \<Rightarrow> nat \<Rightarrow> 'a \<Rightarrow> sort_error + 'a option list" where
  "fill_slot slots i x =
     (if length slots \<le> i then Inl SortInvariant
      else if slots ! i \<noteq> None then Inl SortInvariant
      else Inr (slots[i := Some x]))"

fun fill_slots :: "'a option list \<Rightarrow> (nat \<times> 'a) list \<Rightarrow> sort_error + 'a option list" where
  "fill_slots slots [] = Inr slots"
| "fill_slots slots ((i, x) # rest) = bind_r (fill_slot slots i x) (\<lambda>slots. fill_slots slots rest)"

text \<open>
  The receive loop runs until every spawned chunk has been received. A spawned worker sends one
  message, so an event of a worker that is not outstanding is no message and is passed over.
\<close>

fun receive_chunks ::
    "'a comparator \<Rightarrow> probe option \<Rightarrow> nat \<Rightarrow> sort_event list \<Rightarrow> (nat \<times> 'a list) list
       \<Rightarrow> 'a list option list \<Rightarrow> sort_error + 'a list option list \<times> nat" where
  "receive_chunks c op k events [] slots = Inr (slots, k)"
| "receive_chunks c op k [] pending slots =
     bind_r (check_sort op k) (\<lambda>_. Inl WorkerDisconnected)"
| "receive_chunks c op k (RecvTimeout # events) pending slots =
     bind_r (check_sort op k) (\<lambda>k. receive_chunks c op k events pending slots)"
| "receive_chunks c op k (WorkerDone i before panicked after # events) pending slots =
     (case map_of pending i of
        None \<Rightarrow> receive_chunks c op k events pending slots
      | Some chunk \<Rightarrow>
          bind_r (check_sort op k) (\<lambda>k.
          bind_r (sort_worker c before panicked after chunk) (\<lambda>sorted.
          bind_r (fill_slot slots i sorted) (\<lambda>slots.
            receive_chunks c op k events (filter (\<lambda>job. fst job \<noteq> i) pending) slots))))"

definition sort_cancelable ::
    "'a comparator \<Rightarrow> probe option \<Rightarrow> (nat \<Rightarrow> bool) \<Rightarrow> sort_event list \<Rightarrow> 'a list
       \<Rightarrow> sort_error + 'a list" where
  "sort_cancelable c op admit events items =
     bind_r (check_sort op 0) (\<lambda>k.
     if length items \<le> sort_chunk_items
     then bind_r (sort_inline_chunk c op k items) (\<lambda>(items, k). Inr items)
     else
       let chunks = chunks_of sort_chunk_items items in
       (case List.enumerate 0 chunks of
          [] \<Rightarrow> Inl SortInvariant
        | base # rest \<Rightarrow>
            bind_r (dispatch_chunks op admit k rest) (\<lambda>(inline, spawned, k).
            bind_r (sort_inline_chunks c op k (base # inline)) (\<lambda>(inline, k).
            bind_r (fill_slots (replicate (length chunks) None) inline) (\<lambda>slots.
            bind_r (receive_chunks c op k events spawned slots) (\<lambda>(slots, k).
            bind_r (check_sort op k) (\<lambda>k.
            bind_r (ok_or SortInvariant (those slots)) (\<lambda>sorted_chunks.
            bind_r (merge_sorted_chunks c op k sorted_chunks) (\<lambda>(items, pops, k).
              Inr items)))))))))"

section \<open>The heap\<close>

definition par :: "nat \<Rightarrow> nat" where
  "par c = (c - 1) div 2"

lemma par_less: "0 < c \<Longrightarrow> par c < c"
  by (simp add: par_def)

lemma par_children: "0 < j \<Longrightarrow> par j = p \<longleftrightarrow> j = 2 * p + 1 \<or> j = 2 * p + 2"
  by (auto simp: par_def)

definition heap_ordered :: "(nat \<Rightarrow> nat \<Rightarrow> bool) \<Rightarrow> nat list \<Rightarrow> bool" where
  "heap_ordered le h \<longleftrightarrow> (\<forall>j < length h. 0 < j \<longrightarrow> le (h ! par j) (h ! j))"

definition up_inv :: "(nat \<Rightarrow> nat \<Rightarrow> bool) \<Rightarrow> nat list \<Rightarrow> nat \<Rightarrow> bool" where
  "up_inv le h c \<longleftrightarrow>
     (\<forall>j < length h. 0 < j \<longrightarrow> j \<noteq> c \<longrightarrow> le (h ! par j) (h ! j)) \<and>
     (\<forall>j < length h. 0 < j \<longrightarrow> par j = c \<longrightarrow> 0 < c \<longrightarrow> le (h ! par c) (h ! j))"

definition down_inv :: "(nat \<Rightarrow> nat \<Rightarrow> bool) \<Rightarrow> nat list \<Rightarrow> nat \<Rightarrow> bool" where
  "down_inv le h p \<longleftrightarrow>
     (\<forall>j < length h. 0 < j \<longrightarrow> par j \<noteq> p \<longrightarrow> le (h ! par j) (h ! j)) \<and>
     (\<forall>j < length h. 0 < j \<longrightarrow> par j = p \<longrightarrow> 0 < p \<longrightarrow> le (h ! par p) (h ! j))"

text \<open>One swap of a sift keeps the invariant of the sift, for any total preorder on the entries.\<close>

lemma up_inv_swap:
  assumes inv: "up_inv le h c" and c: "0 < c" "c < length h"
    and lt: "le (h ! c) (h ! par c)"
    and trans: "\<And>x y z. le x y \<Longrightarrow> le y z \<Longrightarrow> le x z"
  shows "up_inv le (swap h c (par c)) (par c)"
proof -
  have p: "par c < c" "par c < length h" using c par_less [of c] by auto
  note nth = nth_swap [OF c(2) p(2)]
  have first: "\<And>j. j < length h \<Longrightarrow> 0 < j \<Longrightarrow> j \<noteq> c \<Longrightarrow> le (h ! par j) (h ! j)"
    and second: "\<And>j. j < length h \<Longrightarrow> 0 < j \<Longrightarrow> par j = c \<Longrightarrow> le (h ! par c) (h ! j)"
    using inv c by (auto simp: up_inv_def)
  have A: "le (swap h c (par c) ! par j) (swap h c (par c) ! j)"
    if j: "j < length h" "0 < j" "j \<noteq> par c" for j
  proof -
    have pj: "par j < length h" using j par_less [of j] by simp
    consider "j = c" | "j \<noteq> c" "par j = c" | "j \<noteq> c" "par j = par c"
      | "j \<noteq> c" "par j \<noteq> c" "par j \<noteq> par c" by blast
    then show ?thesis
    proof cases
      case 1
      then show ?thesis using j lt p by (simp add: nth)
    next
      case 2
      then show ?thesis using j pj second [of j] by (simp add: nth)
    next
      case 3
      then show ?thesis using j pj p trans [OF lt] first [of j] by (simp add: nth)
    next
      case 4
      then show ?thesis using j pj first [of j] by (simp add: nth)
    qed
  qed
  have B: "le (swap h c (par c) ! par (par c)) (swap h c (par c) ! j)"
    if j: "j < length h" "0 < j" "par j = par c" "0 < par c" for j
  proof -
    have pp: "par (par c) < par c" using par_less [OF j(4)] .
    have up: "le (h ! par (par c)) (h ! par c)" using first [of "par c"] j(4) p by simp
    have "le (h ! par (par c)) (h ! j)" if "j \<noteq> c"
      using trans [OF up] first [of j] j that by simp
    moreover have "j \<noteq> par c" using j par_less [of j] by auto
    ultimately show ?thesis using j pp p up by (auto simp: nth)
  qed
  from A B show ?thesis by (simp add: up_inv_def)
qed

lemma down_inv_swap:
  assumes inv: "down_inv le h p" and m: "m < length h" "par m = p" "0 < m"
    and lt: "le (h ! m) (h ! p)"
    and least: "\<And>j. j < length h \<Longrightarrow> 0 < j \<Longrightarrow> par j = p \<Longrightarrow> le (h ! m) (h ! j)"
  shows "down_inv le (swap h p m) m"
proof -
  have pm: "p < m" using m par_less [of m] by simp
  then have p: "p < length h" using m by simp
  note nth = nth_swap [OF p m(1)]
  have first: "\<And>j. j < length h \<Longrightarrow> 0 < j \<Longrightarrow> par j \<noteq> p \<Longrightarrow> le (h ! par j) (h ! j)"
    and second: "\<And>j. j < length h \<Longrightarrow> 0 < j \<Longrightarrow> par j = p \<Longrightarrow> 0 < p \<Longrightarrow> le (h ! par p) (h ! j)"
    using inv by (auto simp: down_inv_def)
  have A: "le (swap h p m ! par j) (swap h p m ! j)"
    if j: "j < length h" "0 < j" "par j \<noteq> m" for j
  proof -
    have pj: "par j < length h" "par j < j" using j par_less [of j] by auto
    consider "par j = p" | "j = p" | "par j \<noteq> p" "j \<noteq> p" by blast
    then show ?thesis
    proof cases
      case 1
      then show ?thesis using j pj lt least [of j] pm by (auto simp: nth)
    next
      case 2
      then show ?thesis using j pj second [of m] m pm by (auto simp: nth)
    next
      case 3
      then show ?thesis using j pj first [of j] m by (auto simp: nth)
    qed
  qed
  have B: "le (swap h p m ! par m) (swap h p m ! j)"
    if j: "j < length h" "0 < j" "par j = m" for j
    using j first [of j] m pm par_less [of j] p by (auto simp: nth)
  from A B show ?thesis by (simp add: down_inv_def)
qed

lemma heap_root_least:
  assumes h: "heap_ordered le h"
    and trans: "\<And>x y z. le x y \<Longrightarrow> le y z \<Longrightarrow> le x z" and refl: "\<And>x. le x x"
  shows "i < length h \<Longrightarrow> le (h ! 0) (h ! i)"
proof (induction i rule: less_induct)
  case (less i)
  show ?case
  proof (cases "i = 0")
    case False
    then have "par i < i" by (simp add: par_less)
    with less False h have "le (h ! 0) (h ! par i)" "le (h ! par i) (h ! i)"
      by (auto simp: heap_ordered_def)
    then show ?thesis by (rule trans)
  qed (simp add: refl)
qed

lemma swap_remove0_mset: "h \<noteq> [] \<Longrightarrow> add_mset (hd h) (mset (swap_remove0 h)) = mset h"
proof (cases h rule: rev_cases)
  case (snoc xs x)
  then show ?thesis by (cases xs) (auto simp: swap_remove0_def)
qed simp

lemma swap_remove0_nth: "0 < j \<Longrightarrow> j < length (swap_remove0 h) \<Longrightarrow> swap_remove0 h ! j = h ! j"
  by (simp add: swap_remove0_def nth_butlast)

lemma length_swap_remove0 [simp]: "length (swap_remove0 h) = length h - 1"
  by (simp add: swap_remove0_def)

lemma down_inv_swap_remove0:
  assumes h: "heap_ordered le h"
  shows "down_inv le (swap_remove0 h) 0"
proof -
  have "le (swap_remove0 h ! par j) (swap_remove0 h ! j)"
    if j: "j < length h - 1" "0 < j" "par j \<noteq> 0" for j
  proof -
    have "par j < j" by (rule par_less [OF j(2)])
    with j have "swap_remove0 h ! par j = h ! par j" "swap_remove0 h ! j = h ! j"
      by (auto intro!: swap_remove0_nth)
    with j h show ?thesis by (simp add: heap_ordered_def)
  qed
  then show ?thesis by (simp add: down_inv_def)
qed

text \<open>
  Undisturbed runs: no poll finds the token cancelled, no worker fails, and every spawned chunk is
  reported.
\<close>

definition benign :: "sort_event \<Rightarrow> bool" where
  "benign ev \<longleftrightarrow>
     (case ev of RecvTimeout \<Rightarrow> True
      | WorkerDone i before panicked after \<Rightarrow> \<not> before \<and> \<not> panicked \<and> \<not> after)"

definition all_report :: "sort_event list \<Rightarrow> nat set \<Rightarrow> bool" where
  "all_report events I \<longleftrightarrow> (\<forall>i \<in> I. WorkerDone i False False False \<in> set events)"

definition quiet :: "probe option \<Rightarrow> sort_event list \<Rightarrow> nat set \<Rightarrow> bool" where
  "quiet op events I \<longleftrightarrow> never_cancelled op \<and> list_all benign events \<and> all_report events I"

definition spawned_indices :: "(nat \<Rightarrow> bool) \<Rightarrow> nat \<Rightarrow> nat set" where
  "spawned_indices admit n = {i. admit i \<and> i < n}"

lemma quiet_Cons: "quiet op (ev # events) I \<Longrightarrow> (\<forall>i \<in> J. i \<in> I \<and> ev \<noteq> WorkerDone i False False False) \<Longrightarrow> quiet op events J"
  by (auto simp: quiet_def all_report_def)

context comparator
begin

text \<open>The code's tie-break by stream number makes the heap order a comparator of its own.\<close>

definition stream_cmp :: "'a list list \<Rightarrow> nat comparator" where
  "stream_cmp streams i j =
     then_with (cmp_option cmp (front streams i) (front streams j)) (cmp_ord i j)"

abbreviation leq :: "'a list list \<Rightarrow> nat \<Rightarrow> nat \<Rightarrow> bool" where
  "leq streams i j \<equiv> stream_cmp streams i j \<noteq> Greater"

lemma comparator_stream_cmp: "comparator (stream_cmp streams)"
proof -
  have "comparator (\<lambda>i j. cmp_option cmp (front streams i) (front streams j))"
    by (rule comparator_on [OF comparator_cmp_option [OF comparator_axioms]])
  from comparator_then_with [OF this comparator_cmp_ord] show ?thesis
    by (simp add: stream_cmp_def [abs_def])
qed

lemmas leq_trans = comparator.cmp_trans [OF comparator_stream_cmp]
lemmas leq_refl = comparator.cmp_refl [OF comparator_stream_cmp]
lemmas leq_total = comparator.total [OF comparator_stream_cmp]

lemma not_leq: "stream_cmp streams i j = Less \<longleftrightarrow> \<not> leq streams j i"
  using comparator.Greater_iff_Less [OF comparator_stream_cmp] by metis

lemma leq_of_Less: "stream_cmp streams i j = Less \<Longrightarrow> leq streams i j"
  by simp

definition valid :: "'a list list \<Rightarrow> nat list \<Rightarrow> bool" where
  "valid streams h \<longleftrightarrow> (\<forall>i \<in> set h. front streams i \<noteq> None)"

lemma stream_precedes_valid:
  assumes "front streams i \<noteq> None" and "front streams j \<noteq> None"
  shows "stream_precedes cmp streams i j = Inr (stream_cmp streams i j = Less)"
  using assms
  by (auto simp: stream_precedes_def stream_cmp_def then_with_def cmp_ord_def)

lemma valid_nth: "valid streams h \<Longrightarrow> i < length h \<Longrightarrow> front streams (h ! i) \<noteq> None"
  by (simp add: valid_def)

lemma valid_swap: "i < length h \<Longrightarrow> j < length h \<Longrightarrow> valid streams (swap h i j) = valid streams h"
  unfolding valid_def by (metis mset_swap_pair mset_eq_setD)

lemma sift_up_heap:
  "valid streams h \<Longrightarrow> c < length h \<Longrightarrow> up_inv (leq streams) h c \<Longrightarrow>
     \<exists>h'. sift_up cmp streams h c = Inr h' \<and> heap_ordered (leq streams) h' \<and> mset h' = mset h"
proof (induction c arbitrary: h rule: less_induct)
  case (less c)
  have step: "0 < c \<Longrightarrow> sift_up cmp streams h c =
      bind_r (stream_precedes cmp streams (h ! c) (h ! par c)) (\<lambda>b.
        if \<not> b then Inr h else sift_up cmp streams (swap h c (par c)) (par c))"
    by (subst sift_up.simps) (simp add: par_def Let_def cong: if_cong)
  show ?case
  proof (cases "0 < c")
    case False
    then have "heap_ordered (leq streams) h"
      using less.prems by (simp add: up_inv_def heap_ordered_def)
    with False show ?thesis by (simp add: sift_up.simps [of _ _ h])
  next
    case True
    have p: "par c < c" "par c < length h" using less.prems par_less [OF True] by auto
    have pre: "stream_precedes cmp streams (h ! c) (h ! par c)
        = Inr (stream_cmp streams (h ! c) (h ! par c) = Less)"
      using less.prems p by (intro stream_precedes_valid valid_nth) auto
    show ?thesis
    proof (cases "stream_cmp streams (h ! c) (h ! par c) = Less")
      case lt: True
      have "up_inv (leq streams) (swap h c (par c)) (par c)"
        using less.prems True leq_of_Less [OF lt] by (intro up_inv_swap [OF _ _ _ _ leq_trans]) auto
      with less.IH [of "par c" "swap h c (par c)"] less.prems p
      obtain h' where "sift_up cmp streams (swap h c (par c)) (par c) = Inr h'"
        "heap_ordered (leq streams) h'" "mset h' = mset h"
        by (auto simp: valid_swap)
      with True lt pre show ?thesis by (simp add: step)
    next
      case False
      then have "leq streams (h ! par c) (h ! c)" by (simp add: not_leq)
      with less.prems have "heap_ordered (leq streams) h"
        by (auto simp: up_inv_def heap_ordered_def)
      with True False pre show ?thesis by (simp add: step)
    qed
  qed
qed

lemma heap_push_heap:
  assumes h: "heap_ordered (leq streams) h" and "valid streams (h @ [v])"
  shows "\<exists>h'. heap_push cmp streams h v = Inr h' \<and> heap_ordered (leq streams) h' \<and>
    mset h' = add_mset v (mset h)"
proof -
  have "leq streams ((h @ [v]) ! par j) ((h @ [v]) ! j)" if "j < length h" "0 < j" for j
    using h that par_less [of j] by (simp add: heap_ordered_def nth_append)
  moreover have "par j \<noteq> length h" if "j < length (h @ [v])" "0 < j" for j
    using that par_less [of j] by auto
  ultimately have "up_inv (leq streams) (h @ [v]) (length h)"
    by (auto simp: up_inv_def less_Suc_eq)
  with sift_up_heap [OF assms(2)] show ?thesis by (simp add: heap_push_def)
qed

lemma sift_down_heap:
  "valid streams h \<Longrightarrow> down_inv (leq streams) h p \<Longrightarrow>
     \<exists>h'. sift_down cmp streams h p = Inr h' \<and> heap_ordered (leq streams) h' \<and> mset h' = mset h"
proof (induction "length h - p" arbitrary: h p rule: less_induct)
  case less
  show ?case
  proof (cases "length h \<le> 2 * p + 1")
    case True
    have "par j \<noteq> p" if "j < length h" "0 < j" for j
      using that True par_children [of j p] by auto
    with less.prems have "heap_ordered (leq streams) h"
      by (auto simp: down_inv_def heap_ordered_def)
    with True show ?thesis by (simp add: sift_down.simps [of _ _ h])
  next
    case False
    define l r where "l = 2 * p + 1" and "r = 2 * p + 2"
    have l: "l < length h" "p < length h" using False by (auto simp: l_def)
    define b where "b = (r < length h \<and> stream_cmp streams (h ! r) (h ! l) = Less)"
    define m where "m = (if b then r else l)"
    have m: "m < length h" "par m = p" "0 < m"
      using l by (auto simp: m_def b_def l_def r_def par_def)
    have first: "(if r < length h then stream_precedes cmp streams (h ! r) (h ! l) else Inr False)
        = Inr b"
      using less.prems l valid_nth [of streams h]
      by (auto simp: b_def stream_precedes_valid simp del: not_None_eq)
    have pre: "stream_precedes cmp streams (h ! m) (h ! p)
        = Inr (stream_cmp streams (h ! m) (h ! p) = Less)"
      using less.prems m l by (intro stream_precedes_valid valid_nth) auto
    have least: "leq streams (h ! m) (h ! j)" if "j < length h" "0 < j" "par j = p" for j
    proof -
      have "j = l \<or> j = r" using that par_children [of j p] by (auto simp: l_def r_def)
      then show ?thesis
        using that leq_total [of streams "h ! l" "h ! r"] by (auto simp: m_def b_def not_leq leq_refl)
    qed
    have "sift_down cmp streams h p =
        bind_r (if r < length h then stream_precedes cmp streams (h ! r) (h ! l) else Inr False)
          (\<lambda>b. bind_r (stream_precedes cmp streams (h ! (if b then r else l)) (h ! p)) (\<lambda>b'.
            if \<not> b' then Inr h
            else sift_down cmp streams (swap h p (if b then r else l)) (if b then r else l)))"
      using False by (subst sift_down.simps) (simp add: Let_def l_def r_def cong: if_cong)
    then have step: "sift_down cmp streams h p =
        (if stream_cmp streams (h ! m) (h ! p) = Less
         then sift_down cmp streams (swap h p m) m else Inr h)"
      using pre by (simp add: first m_def [symmetric])
    show ?thesis
    proof (cases "stream_cmp streams (h ! m) (h ! p) = Less")
      case lt: True
      have "down_inv (leq streams) (swap h p m) m"
        by (rule down_inv_swap) (use less.prems m leq_of_Less [OF lt] least in auto)
      moreover have "length (swap h p m) - m < length h - p"
        using m l par_less [of m] by auto
      ultimately show ?thesis
        using less.hyps [of "swap h p m" m] less.prems m l lt step by (simp add: valid_swap)
    next
      case False
      then have "leq streams (h ! p) (h ! m)" by (simp add: not_leq)
      then have "leq streams (h ! p) (h ! j)" if "j < length h" "0 < j" "par j = p" for j
        using leq_trans least that by blast
      with less.prems have "heap_ordered (leq streams) h"
        by (auto simp: down_inv_def heap_ordered_def)
      with False step show ?thesis by simp
    qed
  qed
qed

lemma valid_mset: "mset h = mset h' \<Longrightarrow> valid streams h = valid streams h'"
  by (metis valid_def mset_eq_setD)

lemma heap_pop_heap:
  assumes h: "heap_ordered (leq streams) h" and ne: "h \<noteq> []" and v: "valid streams h"
  shows "\<exists>i h'. heap_pop cmp streams h = Inr (i, h') \<and> heap_ordered (leq streams) h' \<and>
    mset h = add_mset i (mset h') \<and> (\<forall>j \<in> set h. leq streams i j)"
proof -
  have ms: "add_mset (hd h) (mset (swap_remove0 h)) = mset h"
    by (rule swap_remove0_mset [OF ne])
  then have "set (swap_remove0 h) \<subseteq> set h" by (metis set_mset_mset set_mset_add_mset_insert subset_insertI)
  with v have "valid streams (swap_remove0 h)" by (auto simp: valid_def)
  from sift_down_heap [OF this down_inv_swap_remove0 [OF h]] obtain h' where
    "sift_down cmp streams (swap_remove0 h) 0 = Inr h'" "heap_ordered (leq streams) h'"
    "mset h' = mset (swap_remove0 h)" by blast
  moreover have "leq streams (hd h) j" if "j \<in> set h" for j
    using that heap_root_least [OF h] leq_trans leq_refl ne
    by (auto simp: in_set_conv_nth hd_conv_nth)
  ultimately show ?thesis using ne ms by (auto simp: heap_pop_def)
qed

section \<open>The merge loop\<close>

definition nonempty_streams :: "'a list list \<Rightarrow> nat set" where
  "nonempty_streams streams = {i. i < length streams \<and> streams ! i \<noteq> []}"

definition merge_inv :: "'a list list \<Rightarrow> nat list \<Rightarrow> 'a list \<Rightarrow> bool" where
  "merge_inv streams heap output \<longleftrightarrow>
     distinct heap \<and> set heap = nonempty_streams streams \<and> heap_ordered (leq streams) heap \<and>
     (\<forall>s \<in> set streams. ordered s) \<and> ordered output \<and>
     (\<forall>x \<in> set output. \<forall>y \<in> set (concat streams). cmp x y \<noteq> Greater)"

lemma front_Some: "front streams i = Some a \<longleftrightarrow> i < length streams \<and> (\<exists>s. streams ! i = a # s)"
  by (auto simp: front_def split: list.splits)

lemma valid_nonempty: "set heap \<subseteq> nonempty_streams streams \<Longrightarrow> valid streams heap"
  by (auto simp: valid_def nonempty_streams_def front_def split: list.splits)

lemma heap_ordered_fronts:
  assumes "heap_ordered (leq streams) h" and "\<And>j. j \<in> set h \<Longrightarrow> front streams' j = front streams j"
  shows "heap_ordered (leq streams') h"
  using assms par_less
  by (auto simp: heap_ordered_def stream_cmp_def) (metis less_trans nth_mem)

text \<open>The popped item is least; streams before its own hold only strictly greater items.\<close>

lemma popped_least:
  assumes i: "front streams i = Some a" and ord: "\<forall>s \<in> set streams. ordered s"
    and least: "\<And>j. j \<in> nonempty_streams streams \<Longrightarrow> leq streams i j"
    and j: "j < length streams" and y: "y \<in> set (streams ! j)"
  shows "cmp a y \<noteq> Greater" and "j < i \<Longrightarrow> cmp a y = Less"
proof -
  from y obtain b s where b: "streams ! j = b # s" by (cases "streams ! j") auto
  then have fj: "front streams j = Some b" using j by (simp add: front_Some)
  have "ordered (b # s)" using ord j b by (metis nth_mem)
  then have b_y: "cmp b y \<noteq> Greater" using y b by auto
  have "j \<in> nonempty_streams streams" using j b by (simp add: nonempty_streams_def)
  then have "leq streams i j" by (rule least)
  with i fj have ab: "cmp a b \<noteq> Greater" and lt: "j < i \<Longrightarrow> cmp a b = Less"
    by (auto simp: stream_cmp_def then_with_def cmp_ord_def split: if_splits)
      (metis ordering.exhaust)+
  from ab b_y show "cmp a y \<noteq> Greater" by (rule cmp_trans)
  assume "j < i"
  from lt [OF this] b_y show "cmp a y = Less"
    by (metis Greater_iff_Less cmp_trans)
qed

lemma class_of_popped:
  assumes i: "front streams i = Some a" and ord: "\<forall>s \<in> set streams. ordered s"
    and least: "\<And>j. j \<in> nonempty_streams streams \<Longrightarrow> leq streams i j"
  shows "class_of k (concat streams) =
    (if cmp k a = Equal then [a] else []) @ class_of k (concat (streams[i := tl (streams ! i)]))"
proof -
  from i obtain s where s: "i < length streams" "streams ! i = a # s" by (auto simp: front_Some)
  have "class_of k (concat (take i streams)) = []" if k: "cmp k a = Equal"
  proof -
    have "cmp k y \<noteq> Equal" if y: "y \<in> set (concat (take i streams))" for y
    proof -
      from y obtain t where "t \<in> set (take i streams)" "y \<in> set t" by auto
      then obtain j where j: "j < i" "j < length streams" "y \<in> set (streams ! j)"
        by (auto simp: in_set_conv_nth [of t])
      then have "cmp a y = Less" using popped_least(2) [OF i ord least] by blast
      with k show ?thesis using Equal_left [of k a y] by auto
    qed
    then show ?thesis by (auto simp: filter_empty_conv)
  qed
  with s show ?thesis by (simp add: concat_split_at [OF s(1)] concat_list_update)
qed

lemma merge_inv_step:
  assumes inv: "merge_inv streams heap output"
    and pop: "mset heap = add_mset i (mset h')" "heap_ordered (leq streams) h'"
      "\<And>j. j \<in> set heap \<Longrightarrow> leq streams i j"
    and i: "front streams i = Some a"
  defines "streams' \<equiv> streams[i := tl (streams ! i)]"
  shows "\<exists>h''. (if streams' ! i \<noteq> [] then heap_push cmp streams' h' i else Inr h') = Inr h'' \<and>
    merge_inv streams' h'' (output @ [a])"
proof -
  from i obtain s where s: "i < length streams" "streams ! i = a # s" by (auto simp: front_Some)
  have heap: "distinct heap" "set heap = nonempty_streams streams"
    and ord: "\<forall>s \<in> set streams. ordered s"
    and out: "ordered output" "\<And>x y. x \<in> set output \<Longrightarrow> y \<in> set (concat streams) \<Longrightarrow> cmp x y \<noteq> Greater"
    using inv by (auto simp: merge_inv_def)
  have "distinct (i # h')" using heap(1) pop(1) mset_eq_imp_distinct_iff [of heap "i # h'"] by simp
  then have i_notin: "i \<notin> set h'" and dist: "distinct h'" by auto
  have set_h: "set heap = insert i (set h')" using pop(1) by (metis mset.simps(2) mset_eq_setD list.simps(15))
  have fronts: "front streams' j = front streams j" if "j \<noteq> i" for j
    using that by (simp add: front_def streams'_def)
  have h': "heap_ordered (leq streams') h'"
    by (rule heap_ordered_fronts [OF pop(2)]) (metis i_notin fronts)
  have ne': "nonempty_streams streams' = (if s = [] then set h' else insert i (set h'))"
  proof -
    have set_h': "set h' = nonempty_streams streams - {i}" using set_h heap(2) i_notin by blast
    have "streams' ! j = (if j = i then s else streams ! j)" if "j < length streams" for j
      using s that by (simp add: streams'_def nth_list_update)
    moreover have "length streams' = length streams" by (simp add: streams'_def)
    ultimately show ?thesis unfolding set_h' nonempty_streams_def using s(1)
      by (auto split: if_splits)
  qed
  have least: "leq streams i j" if "j \<in> nonempty_streams streams" for j
    using that heap(2) pop(3) by simp
  have below: "cmp a y \<noteq> Greater" if "y \<in> set (concat streams)" for y
  proof -
    from that obtain t where "t \<in> set streams" "y \<in> set t" by auto
    then show ?thesis
      using popped_least(1) [OF i ord least] by (metis in_set_conv_nth [of t])
  qed
  have sub: "set (concat streams') \<subseteq> set (concat streams)"
    using s by (auto simp: streams'_def concat_split_at [OF s(1)] concat_list_update)
  have "a \<in> set (concat streams)" using s by (auto simp: concat_split_at [OF s(1)])
  then have out': "ordered (output @ [a])" using out by (auto simp: sorted_wrt_append)
  have ord': "\<forall>s \<in> set streams'. ordered s"
  proof
    fix t assume "t \<in> set streams'"
    then have "t = s \<or> t \<in> set streams"
      using set_update_subset_insert [of streams i s] s by (auto simp: streams'_def)
    moreover have "ordered (a # s)" using ord s by (metis nth_mem)
    ultimately show "ordered t" using ord by auto
  qed
  have rest: "\<forall>x \<in> set (output @ [a]). \<forall>y \<in> set (concat streams'). cmp x y \<noteq> Greater"
    using out(2) below subsetD [OF sub] by (metis Un_iff empty_iff insert_iff list.set set_append)
  have si: "streams' ! i = s" using s by (simp add: streams'_def)
  show ?thesis
  proof (cases "s = []")
    case True
    with ne' h' dist out' ord' rest si show ?thesis by (simp add: merge_inv_def)
  next
    case False
    have "valid streams' (h' @ [i])" using False ne' by (intro valid_nonempty) auto
    from heap_push_heap [OF h' this] obtain h'' where h'':
      "heap_push cmp streams' h' i = Inr h''" "heap_ordered (leq streams') h''"
      "mset h'' = add_mset i (mset h')" by blast
    then have "set h'' = insert i (set h')" "distinct h''"
      using i_notin dist mset_eq_imp_distinct_iff [of h'' "i # h'"]
      by (auto dest: mset_eq_setD [of h'' "i # h'", simplified])
    with False ne' h'' out' ord' rest si show ?thesis by (simp add: merge_inv_def)
  qed
qed

definition merged_as :: "'a list \<Rightarrow> 'a list \<Rightarrow> bool" where
  "merged_as out target \<longleftrightarrow> ordered out \<and> (\<forall>k. class_of k out = class_of k target)"

lemma merge_loop_correct:
  "merge_inv streams heap acc \<Longrightarrow>
     (case merge_loop cmp op k streams heap acc of
        Inl e \<Rightarrow> e = SortCancelled \<and> \<not> never_cancelled op
      | Inr (out, k') \<Rightarrow> merged_as out (acc @ concat streams))"
proof (induction "sum_list (map length streams)" arbitrary: k streams heap acc rule: less_induct)
  case less
  show ?case
  proof (cases "heap = []")
    case True
    with less.prems have "nonempty_streams streams = {}" by (simp add: merge_inv_def)
    then have "concat streams = []" by (auto simp: nonempty_streams_def in_set_conv_nth)
    then have "class_of q (concat streams) = []" for q by (simp only: filter.simps)
    with True less.prems show ?thesis
      by (subst merge_loop.simps) (simp add: merge_inv_def merged_as_def del: concat_eq_Nil_conv)
  next
    case False
    have heap: "heap_ordered (leq streams) heap" "set heap = nonempty_streams streams"
      "\<forall>s \<in> set streams. ordered s"
      using less.prems by (auto simp: merge_inv_def)
    have "valid streams heap" by (rule valid_nonempty) (simp add: heap)
    from heap_pop_heap [OF heap(1) False this] obtain i h' where pop:
      "heap_pop cmp streams heap = Inr (i, h')" "heap_ordered (leq streams) h'"
      "mset heap = add_mset i (mset h')" "\<And>j. j \<in> set heap \<Longrightarrow> leq streams i j" by blast
    have "i \<in> set heap" using pop(3) by (metis set_mset_mset union_single_eq_member)
    then obtain a where i: "front streams i = Some a"
      using \<open>valid streams heap\<close> by (auto simp: valid_def)
    define streams' where "streams' = streams[i := tl (streams ! i)]"
    from merge_inv_step [OF less.prems pop(3,2,4) i] obtain h'' where h'':
      "(if streams' ! i \<noteq> [] then heap_push cmp streams' h' i else Inr h') = Inr h''"
      "merge_inv streams' h'' (acc @ [a])" unfolding streams'_def by blast
    have smaller: "sum_list (map length streams') < sum_list (map length streams)"
      unfolding streams'_def by (rule sum_length_pop [OF i])
    have classes: "merged_as out (acc @ concat streams) = merged_as out (acc @ a # concat streams')" for out
      using class_of_popped [OF i heap(3)] pop(4) heap(2) by (auto simp: merged_as_def streams'_def)
    define polled where "polled =
      (if acc \<noteq> [] \<and> length acc mod merge_cancel_items = 0 then check_sort op k else Inr k)"
    have step: "merge_loop cmp op k streams heap acc =
        bind_r polled (\<lambda>k. merge_loop cmp op k streams' h'' (acc @ [a]))"
      by (subst merge_loop.simps)
        (simp only: False if_False polled_def [symmetric] pop(1) bind_r.simps split_conv i
          option.case Let_def streams'_def [symmetric] h''(1))
    show ?thesis
    proof (cases polled)
      case (Inl e)
      then have "e = SortCancelled \<and> \<not> never_cancelled op"
        by (auto simp: polled_def check_probe_def never_cancelled_def split: if_splits option.splits)
      with Inl step show ?thesis by simp
    next
      case (Inr k')
      with less.hyps [OF smaller h''(2), of k'] step classes show ?thesis
        by (auto split: sum.splits)
    qed
  qed
qed

lemma heap_init_heap:
  "heap_ordered (leq streams) heap \<Longrightarrow> distinct (heap @ is) \<Longrightarrow> set heap \<subseteq> nonempty_streams streams \<Longrightarrow>
     \<forall>i \<in> set is. i < length streams \<Longrightarrow>
     \<exists>h. heap_init cmp streams heap is = Inr h \<and> heap_ordered (leq streams) h \<and> distinct h \<and>
       set h = set heap \<union> (set is \<inter> nonempty_streams streams)"
proof (induction "is" arbitrary: heap)
  case (Cons i "is")
  show ?case
  proof (cases "streams ! i = []")
    case True
    then have "i \<notin> nonempty_streams streams" by (simp add: nonempty_streams_def)
    with True Cons show ?thesis by auto
  next
    case False
    then have i: "i \<in> nonempty_streams streams" using Cons.prems by (simp add: nonempty_streams_def)
    have "valid streams (heap @ [i])" using Cons.prems i by (intro valid_nonempty) auto
    from heap_push_heap [OF Cons.prems(1) this] obtain h where h:
      "heap_push cmp streams heap i = Inr h" "heap_ordered (leq streams) h"
      "mset h = add_mset i (mset heap)" by blast
    have set_h: "set h = insert i (set heap)"
      using mset_eq_setD [of h "i # heap"] h(3) by simp
    have "distinct h" using mset_eq_imp_distinct_iff [of h "i # heap"] h(3) Cons.prems by simp
    with Cons.IH [OF h(2)] Cons.prems set_h i False h(1) show ?thesis by auto
  qed
qed simp

lemma merge_sorted_chunks_correct:
  assumes "\<forall>s \<in> set chunks. ordered s"
  shows "case merge_sorted_chunks cmp op k chunks of
      Inl e \<Rightarrow> e = SortCancelled \<and> \<not> never_cancelled op \<or>
               e = SortInvariant \<and> usize_max < length (concat chunks)
    | Inr (out, pops, k') \<Rightarrow> merged_as out (concat chunks)"
proof (cases "length chunks = 1")
  case True
  then obtain s where "chunks = [s]" by (auto simp: length_Suc_conv)
  with assms show ?thesis by (simp add: merge_sorted_chunks_def merged_as_def)
next
  case False
  from heap_init_heap [of chunks "[]" "[0..<length chunks]"] obtain h where h:
    "heap_init cmp chunks [] [0..<length chunks] = Inr h" "heap_ordered (leq chunks) h" "distinct h"
    "set h = {0..<length chunks} \<inter> nonempty_streams chunks"
    by (auto simp: heap_ordered_def)
  then have "merge_inv chunks h []" using assms by (auto simp: merge_inv_def nonempty_streams_def)
  note inv = this
  have loop_err: "merge_loop cmp op k chunks h [] = Inl e \<Longrightarrow> e = SortCancelled \<and> \<not> never_cancelled op"
    and loop_ok: "merge_loop cmp op k chunks h [] = Inr (out, k') \<Longrightarrow> merged_as out (concat chunks)"
    for k e out k'
    using merge_loop_correct [OF inv, of op k] by auto
  have poll: "check_sort op k = Inl e \<Longrightarrow> e = SortCancelled \<and> \<not> never_cancelled op" for k e
    by (auto simp: check_probe_def never_cancelled_def split: option.splits if_splits)
  have total: "sum_list (map length chunks) = length (concat chunks)" by (simp add: length_concat)
  show ?thesis
  proof (cases "merge_sorted_chunks cmp op k chunks")
    case (Inl e)
    then show ?thesis using False h(1)
      by (auto simp: merge_sorted_chunks_def Let_def total bind_simps split: if_splits
          dest: poll loop_err)
  next
    case (Inr r)
    then show ?thesis using False h(1)
      by (auto simp: merge_sorted_chunks_def Let_def bind_simps split: if_splits dest: loop_ok)
  qed
qed

lemma merged_as_sort_by: "merged_as out (concat (map (sort_by cmp) chunks)) \<longleftrightarrow> out = sort_by cmp (concat chunks)"
proof -
  have "class_of k (concat (map (sort_by cmp) chunks)) = class_of k (concat chunks)" for k
    by (induction chunks) (simp_all add: class_of_sort_by)
  then show ?thesis
    using sort_by_unique [of out "concat chunks"] ordered_sort_by class_of_sort_by
    by (auto simp: merged_as_def)
qed

section \<open>Slots\<close>

definition slots_inv :: "'a list list \<Rightarrow> 'a list option list \<Rightarrow> (nat \<times> 'a list) list \<Rightarrow> bool" where
  "slots_inv chunks slots todo \<longleftrightarrow>
     length slots = length chunks \<and> distinct (map fst todo) \<and>
     (\<forall>(i, ch) \<in> set todo. i < length chunks \<and> ch = chunks ! i) \<and>
     (\<forall>i < length chunks.
        slots ! i = (if i \<in> fst ` set todo then None else Some (sort_by cmp (chunks ! i))))"

lemma fill_slot_inv:
  assumes inv: "slots_inv chunks slots todo" and job: "(i, ch) \<in> set todo"
    and rest: "fst ` set todo' = fst ` set todo - {i}" "set todo' \<subseteq> set todo" "distinct (map fst todo')"
  shows "\<exists>slots'. fill_slot slots i (sort_by cmp ch) = Inr slots' \<and> slots_inv chunks slots' todo'"
proof -
  have i: "i < length chunks" "ch = chunks ! i" "i \<in> fst ` set todo"
    using inv job by (auto simp: slots_inv_def intro: rev_image_eqI)
  then have "fill_slot slots i (sort_by cmp ch) = Inr (slots[i := Some (sort_by cmp (chunks ! i))])"
    using inv by (auto simp: slots_inv_def fill_slot_def)
  moreover have "slots_inv chunks (slots[i := Some (sort_by cmp (chunks ! i))]) todo'"
    using inv rest i by (auto simp: slots_inv_def nth_list_update)
  ultimately show ?thesis by blast
qed

lemma fill_slots_inv:
  "slots_inv chunks slots (inline @ rest) \<Longrightarrow>
     \<exists>slots'. fill_slots slots (map (\<lambda>(i, ch). (i, sort_by cmp ch)) inline) = Inr slots' \<and>
       slots_inv chunks slots' rest"
proof (induction inline arbitrary: slots)
  case (Cons job inline)
  obtain i ch where job: "job = (i, ch)" by (cases job)
  have "i \<notin> fst ` set (inline @ rest)" "distinct (map fst (inline @ rest))"
    using Cons.prems by (auto simp: slots_inv_def job)
  then obtain slots' where
    "fill_slot slots i (sort_by cmp ch) = Inr slots'" "slots_inv chunks slots' (inline @ rest)"
    using fill_slot_inv [OF Cons.prems, of i ch "inline @ rest"] by (auto simp: job)
  with Cons.IH [of slots'] show ?case by (simp add: job)
qed simp

definition received :: "'a list list \<Rightarrow> bool \<Rightarrow> sort_error + 'a list option list \<times> nat \<Rightarrow> bool" where
  "received chunks q r \<longleftrightarrow>
     (case r of Inl e \<Rightarrow> e \<noteq> SortInvariant \<and> \<not> q | Inr (slots, k) \<Rightarrow> slots_inv chunks slots [])"

lemma received_mono: "received chunks q r \<Longrightarrow> (q' \<Longrightarrow> q) \<Longrightarrow> received chunks q' r"
  by (auto simp: received_def split: sum.splits)

lemma received_poll:
  "(q \<Longrightarrow> never_cancelled op) \<Longrightarrow> (\<And>k. received chunks q (f k)) \<Longrightarrow>
     received chunks q (bind_r (check_sort op k) f)"
  by (auto simp: received_def check_probe_def never_cancelled_def split: option.splits)

lemma receive_chunks_correct:
  "slots_inv chunks slots pending \<Longrightarrow>
     received chunks (quiet op events (fst ` set pending)) (receive_chunks cmp op k events pending slots)"
proof (induction events arbitrary: k pending slots)
  case Nil
  show ?case
  proof (cases pending)
    case (Cons p ps)
    then show ?thesis
      by (auto simp: received_def quiet_def all_report_def bind_simps dest: check_probe_Inl split: sum.splits)
  qed (use Nil in \<open>simp add: received_def\<close>)
next
  case (Cons ev events)
  show ?case
  proof (cases "pending = []")
    case True
    with Cons.prems show ?thesis by (simp add: received_def)
  next
    case ne: False
    then obtain p ps where pending: "pending = p # ps" by (cases pending) auto
    show ?thesis
    proof (cases ev)
      case RecvTimeout
      have "received chunks (quiet op (ev # events) (fst ` set pending))
          (bind_r (check_sort op k) (\<lambda>k. receive_chunks cmp op k events pending slots))"
        by (intro received_poll received_mono [OF Cons.IH [OF Cons.prems]])
          (auto simp: quiet_def all_report_def RecvTimeout)
      then show ?thesis by (simp add: RecvTimeout pending)
    next
      case (WorkerDone i before panicked after)
      show ?thesis
      proof (cases "map_of pending i")
        case None
        then have "i \<notin> fst ` set pending" by (simp add: map_of_eq_None_iff)
        then have "quiet op (ev # events) (fst ` set pending) \<Longrightarrow> quiet op events (fst ` set pending)"
          by (erule_tac quiet_Cons) (auto simp: WorkerDone)
        from received_mono [OF Cons.IH [OF Cons.prems] this] None show ?thesis
          by (simp add: WorkerDone pending del: map_of.simps)
      next
        case (Some chunk)
        let ?rest = "filter (\<lambda>job. fst job \<noteq> i) pending"
        have unfold: "receive_chunks cmp op k (ev # events) pending slots =
            bind_r (check_sort op k) (\<lambda>k.
            bind_r (sort_worker cmp before panicked after chunk) (\<lambda>sorted.
            bind_r (fill_slot slots i sorted) (\<lambda>slots. receive_chunks cmp op k events ?rest slots)))"
          using Some by (simp add: WorkerDone pending del: map_of.simps filter.simps)
        show ?thesis
        proof (cases "sort_worker cmp before panicked after chunk")
          case (Inl e)
          then have "e \<noteq> SortInvariant" "\<not> benign ev"
            by (auto simp: sort_worker_def benign_def WorkerDone split: if_splits)
          with Inl show ?thesis
            unfolding unfold by (intro received_poll) (auto simp: received_def quiet_def)
        next
          case w: (Inr sorted)
          then have sorted: "sorted = sort_by cmp chunk" by (simp add: sort_worker_def split: if_splits)
          have "(i, chunk) \<in> set pending" using Some by (rule map_of_SomeD)
          moreover have "distinct (map fst ?rest)"
            using Cons.prems by (simp add: slots_inv_def distinct_map_filter)
          ultimately obtain slots' where slots':
            "fill_slot slots i sorted = Inr slots'" "slots_inv chunks slots' ?rest"
            using fill_slot_inv [OF Cons.prems, of i chunk ?rest] by (auto simp: sorted)
          have "quiet op (ev # events) (fst ` set pending) \<Longrightarrow> quiet op events (fst ` set ?rest)"
            by (erule quiet_Cons) (auto simp: WorkerDone)
          from received_mono [OF Cons.IH [OF slots'(2)] this] show ?thesis
            unfolding unfold w slots'(1) by (intro received_poll) (auto simp: quiet_def w slots'(1))
        qed
      qed
    qed
  qed
qed

section \<open>The whole sort\<close>

lemma concat_chunks_of: "0 < n \<Longrightarrow> concat (chunks_of n xs) = xs"
proof (induction n xs rule: chunks_of.induct)
  case (1 n xs)
  then show ?case by (subst chunks_of.simps) (simp del: concat_eq_Nil_conv)
qed

lemma poll_cases:
  "check_sort op k = Inl e \<Longrightarrow> e = SortCancelled \<and> \<not> never_cancelled op"
  by (auto simp: check_probe_def never_cancelled_def split: option.splits if_splits)

lemma dispatch_chunks_Inr:
  "dispatch_chunks op admit k jobs = Inr (inline, spawned, k') \<Longrightarrow>
     inline = filter (\<lambda>j. \<not> admit (fst j)) jobs \<and> spawned = filter (\<lambda>j. admit (fst j)) jobs"
  by (induction jobs arbitrary: k k' inline spawned) (auto simp: bind_simps split: if_splits)

lemma dispatch_chunks_Inl:
  "dispatch_chunks op admit k jobs = Inl e \<Longrightarrow> e = SortCancelled \<and> \<not> never_cancelled op"
  by (induction jobs arbitrary: k) (auto simp: bind_simps split: if_splits dest!: poll_cases)

lemma sort_inline_chunk_Inl:
  "sort_inline_chunk c op k chunk = Inl e \<Longrightarrow> e = SortCancelled \<and> \<not> never_cancelled op"
  by (auto simp: sort_inline_chunk_def bind_simps dest: poll_cases)

lemma sort_inline_chunk_Inr:
  "sort_inline_chunk c op k chunk = Inr (out, k') \<Longrightarrow> out = sort_by c chunk"
  by (auto simp: sort_inline_chunk_def bind_simps)

lemma sort_inline_chunks_Inl:
  "sort_inline_chunks c op k jobs = Inl e \<Longrightarrow> e = SortCancelled \<and> \<not> never_cancelled op"
  by (induction jobs arbitrary: k) (auto simp: bind_simps dest!: sort_inline_chunk_Inl)

lemma sort_inline_chunks_Inr:
  "sort_inline_chunks c op k jobs = Inr (out, k') \<Longrightarrow> out = map (\<lambda>(i, ch). (i, sort_by c ch)) jobs"
  by (induction jobs arbitrary: k out k') (auto simp: bind_simps dest: sort_inline_chunk_Inr)

lemma length_sort_by: "length (sort_by cmp xs) = length xs"
  using mset_sort_by [of xs] by (metis size_mset)

lemma slots_inv_start:
  assumes chunks: "List.enumerate 0 chunks = base # rest"
  shows "slots_inv chunks (replicate (length chunks) None)
    ((base # filter (\<lambda>j. \<not> admit (fst j)) rest) @ filter (\<lambda>j. admit (fst j)) rest)"
proof -
  let ?todo = "(base # filter (\<lambda>j. \<not> admit (fst j)) rest) @ filter (\<lambda>j. admit (fst j)) rest"
  have ms: "mset ?todo = mset (List.enumerate 0 chunks)"
    unfolding chunks using multiset_partition [of "mset rest" "\<lambda>j. admit (fst j)"]
    by (simp add: add.commute flip: mset_filter)
  then have sets: "set ?todo = set (List.enumerate 0 chunks)" by (rule mset_eq_setD)
  have "mset (map fst ?todo) = mset (map fst (List.enumerate 0 chunks))"
    using ms by (simp only: mset_map)
  then have "distinct (map fst ?todo)"
    using mset_eq_imp_distinct_iff [of "map fst ?todo" "map fst (List.enumerate 0 chunks)"]
    by (simp only: distinct_enumerate map_fst_enumerate distinct_upt)
  moreover have "fst ` set ?todo = {0..<length chunks}"
    unfolding sets by (simp flip: set_map)
  moreover have "\<forall>(i, ch) \<in> set ?todo. i < length chunks \<and> ch = chunks ! i"
    unfolding sets by (auto simp: in_set_enumerate_eq)
  ultimately show ?thesis unfolding slots_inv_def
    by (simp only: length_replicate nth_replicate atLeastLessThan_iff) simp
qed

lemma slots_done: "slots_inv chunks slots [] \<Longrightarrow> those slots = Some (map (sort_by cmp) chunks)"
proof -
  assume "slots_inv chunks slots []"
  then have "slots = map Some (map (sort_by cmp) chunks)"
    by (intro nth_equalityI) (auto simp: slots_inv_def)
  moreover have "those (map Some xs) = Some xs" for xs :: "'a list list" by (induction xs) auto
  ultimately show ?thesis by (simp only:)
qed

lemma sort_cancelable_cases:
  "case sort_cancelable cmp op admit events items of
     Inl e \<Rightarrow> (e = SortInvariant \<longrightarrow> usize_max < length items) \<and>
       \<not> (quiet op events (spawned_indices admit (length (chunks_of sort_chunk_items items))) \<and>
          length items \<le> usize_max)
   | Inr out \<Rightarrow> out = sort_by cmp items"
proof (cases "length items \<le> sort_chunk_items")
  case True
  then show ?thesis
    by (cases "sort_cancelable cmp op admit events items")
      (auto simp: sort_cancelable_def quiet_def bind_simps split: if_splits
        dest: poll_cases sort_inline_chunk_Inl sort_inline_chunk_Inr)
next
  case False
  define chunks where "chunks = chunks_of sort_chunk_items items"
  have items: "concat chunks = items"
    unfolding chunks_def by (rule concat_chunks_of) (simp add: sort_chunk_items_def)
  with False have "chunks \<noteq> []" by auto
  then obtain base rest where enum: "List.enumerate 0 chunks = base # rest"
    by (cases "List.enumerate 0 chunks") (auto simp: enumerate_eq_zip)
  let ?spawned = "filter (\<lambda>j. admit (fst j)) rest"
  have sp: "fst ` set ?spawned \<subseteq> spawned_indices admit (length chunks)"
  proof -
    have "set rest \<subseteq> set (List.enumerate 0 chunks)" unfolding enum by auto
    then show ?thesis by (auto simp: spawned_indices_def in_set_enumerate_eq)
  qed
  have quiet_mono: "quiet op events I \<Longrightarrow> J \<subseteq> I \<Longrightarrow> quiet op events J" for I J
    by (auto simp: quiet_def all_report_def)
  from fill_slots_inv [OF slots_inv_start [OF enum]] obtain slots where slots:
    "fill_slots (replicate (length chunks) None)
       (map (\<lambda>(i, ch). (i, sort_by cmp ch)) (base # filter (\<lambda>j. \<not> admit (fst j)) rest)) = Inr slots"
    "slots_inv chunks slots ?spawned" by blast
  have recv_Inl: "receive_chunks cmp op k events ?spawned slots = Inl e \<Longrightarrow>
      e \<noteq> SortInvariant \<and> \<not> quiet op events (spawned_indices admit (length chunks))"
    and recv_Inr: "receive_chunks cmp op k events ?spawned slots = Inr (slots', k') \<Longrightarrow>
      those slots' = Some (map (sort_by cmp) chunks)" for k e slots' k'
    using receive_chunks_correct [OF slots(2), of op events k] quiet_mono [OF _ sp] slots_done
    by (auto simp: received_def)
  have sorted: "\<forall>s \<in> set (map (sort_by cmp) chunks). ordered s" by (simp add: ordered_sort_by)
  have "length (concat (map (sort_by cmp) chunks)) = length items"
    unfolding items [symmetric] by (simp add: length_concat comp_def length_sort_by)
  then have merge_Inl: "merge_sorted_chunks cmp op k (map (sort_by cmp) chunks) = Inl e \<Longrightarrow>
      e = SortCancelled \<and> \<not> never_cancelled op \<or> e = SortInvariant \<and> usize_max < length items"
    and merge_Inr: "merge_sorted_chunks cmp op k (map (sort_by cmp) chunks) = Inr (out, p, k') \<Longrightarrow>
      out = sort_by cmp items" for k e out p k'
    using merge_sorted_chunks_correct [OF sorted, of op k] merged_as_sort_by [of _ chunks]
    by (auto simp: items)
  show ?thesis
  proof (cases "sort_cancelable cmp op admit events items")
    case (Inl e)
    have "e = SortCancelled \<and> \<not> never_cancelled op \<or>
        e \<noteq> SortInvariant \<and> \<not> quiet op events (spawned_indices admit (length chunks)) \<or>
        e = SortInvariant \<and> usize_max < length items"
      using Inl False slots(1) unfolding sort_cancelable_def
      by (auto simp: chunks_def [symmetric] enum Let_def bind_simps recv_Inr
          dest!: dispatch_chunks_Inr sort_inline_chunks_Inr poll_cases dispatch_chunks_Inl
          sort_inline_chunks_Inl recv_Inl merge_Inl)
    then show ?thesis by (auto simp: Inl quiet_def chunks_def)
  next
    case (Inr out)
    have "out = sort_by cmp items"
      using Inr False slots(1) unfolding sort_cancelable_def
      by (auto simp: chunks_def [symmetric] enum Let_def bind_simps recv_Inr
          dest!: dispatch_chunks_Inr sort_inline_chunks_Inr dest: merge_Inr)
    then show ?thesis by (simp add: Inr)
  qed
qed

end

lemma sort_cancelable_stable_aux:
  assumes "comparator c" and "sort_cancelable c op admit events items = Inr out"
  shows "out = sort_by c items"
  using comparator.sort_cancelable_cases [OF assms(1), where op = op and admit = admit and events = events and items = items] assms(2) by simp

section \<open>Properties\<close>

text \<open>
  C1. Every successful run of the chunked, partly parallel sort returns exactly the stable sort of
  its input: whichever chunks were handed to workers, in whatever order their results arrived and
  however often the cancellation token was polled.
\<close>

theorem sort_cancelable_stable:
  assumes "comparator c" and "sort_cancelable c op admit events items = Inr out"
  shows "out = sort_by c items"
  by (rule sort_cancelable_stable_aux [OF assms])

theorem sort_cancelable_stable_witness:
  "[1, 2, 3 :: nat] = sort_by cmp_ord [3, 1, 2]"
proof -
  have run: "sort_cancelable cmp_ord (Some (\<lambda>k. k > 9)) (\<lambda>_. True) [] [3, 1, 2 :: nat] = Inr [1, 2, 3]"
    by (simp add: sort_cancelable_def sort_chunk_items_def sort_inline_chunk_def check_probe_def
        cmp_ord_def)
  show ?thesis by (rule sort_cancelable_stable [OF comparator_cmp_ord run])
qed

text \<open>
  C2. A run that nobody disturbs returns: when no poll finds the token cancelled and every chunk
  handed to a worker is reported back by a worker that neither panicked nor was cancelled, the sort
  yields the sorted list and none of its failures.
\<close>

theorem sort_cancelable_returns:
  assumes "comparator c" and "length items \<le> usize_max"
    and "quiet op events (spawned_indices admit (length (chunks_of sort_chunk_items items)))"
  shows "sort_cancelable c op admit events items = Inr (sort_by c items)"
  using comparator.sort_cancelable_cases [OF assms(1), where op = op and admit = admit and events = events and items = items] assms(2,3)
  by (cases "sort_cancelable c op admit events items") auto

theorem sort_cancelable_returns_witness:
  "sort_cancelable cmp_ord None (\<lambda>_. True) [RecvTimeout, WorkerDone 0 False False False] [2, 1 :: nat]
     = Inr (sort_by cmp_ord [2, 1])"
proof (rule sort_cancelable_returns [OF comparator_cmp_ord])
  have "chunks_of sort_chunk_items [2, 1 :: nat] = [[2, 1]]"
    by (simp add: chunks_of.simps sort_chunk_items_def)
  then show "quiet None [RecvTimeout, WorkerDone 0 False False False]
      (spawned_indices (\<lambda>_. True) (length (chunks_of sort_chunk_items [2, 1 :: nat])))"
    by (simp add: quiet_def never_cancelled_def benign_def all_report_def spawned_indices_def)
qed (simp add: usize_max_def)

text \<open>
  C3. The failure reserved for an inconsistent sort state is unreachable: for a vector the platform
  can hold, no run ends in \<open>SortInvariant\<close>, whatever the workers and the token do.
\<close>

theorem sort_never_inconsistent:
  assumes "comparator c" and "length items \<le> usize_max"
  shows "sort_cancelable c op admit events items \<noteq> Inl SortInvariant"
  using comparator.sort_cancelable_cases [OF assms(1), where op = op and admit = admit and events = events and items = items] assms(2) by auto

theorem sort_never_inconsistent_witness:
  "sort_cancelable cmp_ord (Some (\<lambda>k. k = 1)) (\<lambda>_. False) [] [5, 4 :: nat] \<noteq> Inl SortInvariant"
  by (rule sort_never_inconsistent [OF comparator_cmp_ord]) (simp add: usize_max_def)

text \<open>
  The k-way merge of individually sorted chunks is the stable sort of their concatenation: the
  heap's tie-break by stream number keeps equal items in chunk order.
\<close>

theorem merge_sorted_chunks_stable:
  assumes "comparator c" and "\<forall>s \<in> set chunks. sort_by c s = s"
    and "merge_sorted_chunks c op k chunks = Inr (out, pops, k')"
  shows "out = sort_by c (concat chunks)"
proof -
  have chunks: "map (sort_by c) chunks = chunks" by (rule map_idI) (use assms(2) in simp)
  have "\<forall>s \<in> set chunks. sorted_wrt (\<lambda>x y. c x y \<noteq> Greater) s"
    using assms(2) comparator.ordered_sort_by [OF assms(1)] by metis
  from comparator.merge_sorted_chunks_correct [OF assms(1) this, of op k]
  have "comparator.merged_as c out (concat (map (sort_by c) chunks))" by (simp add: assms(3) chunks)
  then show ?thesis by (simp add: comparator.merged_as_sort_by [OF assms(1)])
qed

theorem merge_sorted_chunks_stable_witness:
  "[(1, ''a''), (1, ''b''), (2, ''c'')] =
     sort_by (\<lambda>x y. cmp_ord (fst x) (fst y)) (concat [[(1 :: nat, ''a''), (2, ''c'')], [], [(1, ''b'')]])"
proof (rule merge_sorted_chunks_stable [where op = None and k = 0])
  show "comparator (\<lambda>x y. cmp_ord (fst x) (fst y))" by (rule comparator_on [OF comparator_cmp_ord])
  show "merge_sorted_chunks (\<lambda>x y. cmp_ord (fst x) (fst y)) None 0
      [[(1 :: nat, ''a''), (2, ''c'')], [], [(1, ''b'')]] =
    Inr ([(1, ''a''), (1, ''b''), (2, ''c'')], 3, 0)"
    by (simp add: merge_sorted_chunks_def usize_max_def heap_push_def sift_up.simps
        stream_precedes_def front_def cmp_ord_def swap_def upt_rec merge_loop.simps heap_pop_def
        sift_down.simps swap_remove0_def Let_def merge_cancel_items_def)
qed (auto simp: cmp_ord_def)

end
