(* ===== verification/Search_Order.thy ===== *)
theory Search_Order
  imports Bounded_Sort
begin

text \<open>
  The orders in which grep and glob present their files: \<open>compare_search_candidates\<close>
  (\<open>src/src/traversal.rs\<close>) and \<open>compare_match_entries\<close> (\<open>src/src/glob_tool.rs\<close>) over
  \<open>PathRecord\<close> (\<open>src/src/path_codec.rs\<close>). Both keep the comparator contract, so the chunked
  sort's guarantees hold for them; and the native key makes the order independent of the order in
  which the parallel walk found the files. Paths are byte strings (Unix), times nanoseconds, and the
  fingerprint, which no order reads, is a type parameter.
\<close>

record 'fp path_record =
  native :: "byte list"
  display :: "byte list"
  relative_match :: "byte list"
  native_key :: "byte list"
  modified :: "int option"
  traversal_len_hint :: "nat option"
  traversal_fingerprint :: "'fp option"

datatype sort_mode = SortPath | SortModified

definition compare_search_candidates :: "'fp path_record comparator" where
  "compare_search_candidates left right =
     then_with (then_with (cmp_option cmp_ord (modified right) (modified left))
                          (cmp_seq (display left) (display right)))
       (cmp_seq (native_key left) (native_key right))"

definition compare_match_entries :: "sort_mode \<Rightarrow> 'fp path_record comparator" where
  "compare_match_entries mode left right =
     (case mode of
        SortPath \<Rightarrow> then_with (cmp_seq (display left) (display right))
                      (cmp_seq (native_key left) (native_key right))
      | SortModified \<Rightarrow> then_with (cmp_option cmp_ord (modified right) (modified left))
                          (then_with (cmp_seq (display left) (display right))
                            (cmp_seq (native_key left) (native_key right))))"

lemma comparator_modified:
  "comparator (\<lambda>left right. cmp_option cmp_ord (modified right) (modified left))"
  by (rule comparator_flip [OF comparator_on [OF comparator_cmp_option [OF comparator_cmp_ord]]])

lemma comparator_display: "comparator (\<lambda>left right. cmp_seq (display left) (display right))"
  by (rule comparator_on [OF comparator_cmp_seq])

lemma comparator_native_key: "comparator (\<lambda>left right. cmp_seq (native_key left) (native_key right))"
  by (rule comparator_on [OF comparator_cmp_seq])

lemmas comparator_keys = comparator_modified comparator_display comparator_native_key

lemma compare_match_entries_modified: "compare_match_entries SortModified = compare_search_candidates"
  by (intro ext) (simp add: compare_match_entries_def compare_search_candidates_def then_with_def)

interpretation search_candidates: comparator compare_search_candidates
  unfolding compare_search_candidates_def [abs_def]
  by (intro comparator_then_with comparator_keys)

interpretation match_entries: comparator "compare_match_entries mode"
proof (cases mode)
  case SortPath
  then show "comparator (compare_match_entries mode)"
    unfolding compare_match_entries_def [abs_def]
    by (simp add: comparator_then_with comparator_keys)
next
  case SortModified
  then show "comparator (compare_match_entries mode)"
    by (simp add: compare_match_entries_modified search_candidates.comparator_axioms)
qed

lemma compare_match_entries_Equal:
  "compare_match_entries mode a b = Equal \<Longrightarrow> native_key a = native_key b"
  by (cases mode) (auto simp: compare_match_entries_def then_with_def cmp_seq_Equal split: if_splits)

text \<open>Distinct native keys leave one stable order, so the input order is irrelevant.\<close>

lemma sort_by_mset_cong:
  fixes xs ys :: "'fp path_record list"
  assumes "mset xs = mset ys" and "distinct (map native_key xs)"
  shows "sort_by (compare_match_entries mode) xs = sort_by (compare_match_entries mode) ys"
proof (rule match_entries.sort_by_unique [OF match_entries.ordered_sort_by])
  fix k :: "'fp path_record"
  let ?c = "compare_match_entries mode"
  let ?eq = "\<lambda>x. ?c k x = Equal"
  have "filter ?eq zs = [] \<or> (\<exists>z. filter ?eq zs = [z])"
    if "distinct (map native_key zs)" for zs
  proof -
    have "x = y" if "x \<in> set (filter ?eq zs)" "y \<in> set (filter ?eq zs)" for x y
      using that compare_match_entries_Equal [of mode k] \<open>distinct (map native_key zs)\<close>
      by (auto simp: distinct_map inj_on_def) metis
    moreover have "distinct (filter ?eq zs)"
      using \<open>distinct (map native_key zs)\<close> by (simp add: distinct_map)
    ultimately show ?thesis
      by (cases "filter ?eq zs" rule: list.exhaust) (auto, metis list.exhaust list.set_intros(1) set_ConsD)
  qed
  note single = this
  have "distinct (map native_key ys)"
    using assms mset_eq_imp_distinct_iff [of "map native_key xs" "map native_key ys"] by simp
  with single [OF assms(2)] single have
    "filter ?eq xs = [] \<or> (\<exists>z. filter ?eq xs = [z])" "filter ?eq ys = [] \<or> (\<exists>z. filter ?eq ys = [z])"
    by blast+
  moreover have "mset (filter ?eq xs) = mset (filter ?eq ys)"
    using assms(1) by (simp only: mset_filter)
  ultimately have "filter ?eq xs = filter ?eq ys"
    by (elim disjE exE) (simp_all del: mset_filter)
  then show "filter ?eq (sort_by ?c xs) = filter ?eq ys"
    by (simp add: match_entries.class_of_sort_by)
qed

section \<open>Properties\<close>

text \<open>
  C4. The file order is deterministic: two successful sorts of the same files, found by the walk in
  different orders and cut into different worker schedules, list them identically as soon as the
  files' native paths are distinct.
\<close>

theorem glob_order_deterministic:
  assumes "mset xs = mset ys" and "distinct (map native_key xs)"
    and "sort_cancelable (compare_match_entries mode) op admit events xs = Inr a"
    and "sort_cancelable (compare_match_entries mode) op' admit' events' ys = Inr b"
  shows "a = b"
  using sort_cancelable_stable_aux [OF match_entries.comparator_axioms assms(3)]
    sort_cancelable_stable_aux [OF match_entries.comparator_axioms assms(4)]
    sort_by_mset_cong [OF assms(1,2)] by simp

definition sample_file :: "byte \<Rightarrow> int \<Rightarrow> unit path_record" where
  "sample_file b t = \<lparr>native = [b], display = [b], relative_match = [b], native_key = [b],
     modified = Some t, traversal_len_hint = None, traversal_fingerprint = None\<rparr>"

theorem glob_order_deterministic_witness:
  "\<exists>a b. sort_cancelable (compare_match_entries SortModified) None (\<lambda>_. False) []
            [sample_file 1 5, sample_file 2 7] = Inr a \<and>
         sort_cancelable (compare_match_entries SortModified) None (\<lambda>_. True) []
            [sample_file 2 7, sample_file 1 5] = Inr b \<and> a = b"
proof -
  let ?run = "sort_cancelable (compare_match_entries SortModified) None"
  have a: "?run (\<lambda>_. False) [] [sample_file 1 5, sample_file 2 7] =
      Inr [sample_file 2 7, sample_file 1 5]"
    and b: "?run (\<lambda>_. True) [] [sample_file 2 7, sample_file 1 5] =
      Inr [sample_file 2 7, sample_file 1 5]"
    by (simp_all add: sort_cancelable_def sort_chunk_items_def sort_inline_chunk_def
        compare_match_entries_def sample_file_def then_with_def cmp_ord_def)
  have m: "mset [sample_file 1 5, sample_file 2 7] = mset [sample_file 2 7, sample_file 1 5]" by simp
  have d: "distinct (map native_key [sample_file 1 5, sample_file 2 7])" by (simp add: sample_file_def)
  from glob_order_deterministic [OF m d a b] a b show ?thesis by simp
qed

end
