(* ===== verification/Executor.thy ===== *)
theory Executor
  imports Prelude
begin

text \<open>
  The process-wide extra CPU capacity of grep and glob (\<open>src/src/file_executor.rs\<close>) and the
  resolution of its size (\<open>src/src/search_parallelism.rs\<close>).

  A \<open>CreditState\<close> is an atomic counter; permits and tickets are linear owners of one unit each.
  The locale \<open>credit_counter\<close> states what the counter promises, proves conservation of units over
  every interleaving of acquisitions and drops, and is interpreted on the model of
  \<open>CreditState\<close>. The executor is a transition system over everything that happens to it: permits
  and tickets taken and dropped by any thread, leaves submitted, finished and panicking.
\<close>

section \<open>Parallelism\<close>

definition max_search_parallelism :: nat where
  "max_search_parallelism = 16"

definition clamp :: "nat \<Rightarrow> nat \<Rightarrow> nat \<Rightarrow> nat" where
  "clamp lo hi x = (if x < lo then lo else if hi < x then hi else x)"

record search_parallelism =
  sp_available :: nat
  sp_configured :: "nat option"
  sp_effective :: nat

text \<open>The range error carries the maximum it reports.\<close>

datatype range_error = RangeError nat

definition validate :: "int \<Rightarrow> nat \<Rightarrow> range_error + nat" where
  "validate value maximum =
     (if 0 \<le> value \<and> value \<le> int usize_max \<and> 1 \<le> nat value \<and> nat value \<le> maximum
      then Inr (nat value) else Inl (RangeError maximum))"

definition resolve_with_available :: "int option \<Rightarrow> nat \<Rightarrow> range_error + search_parallelism" where
  "resolve_with_available configured available =
     (let available = clamp 1 max_search_parallelism available in
      bind_r (case configured of None \<Rightarrow> Inr None
              | Some value \<Rightarrow> map_r Some (validate value available)) (\<lambda>configured.
        Inr \<lparr>sp_available = available, sp_configured = configured,
             sp_effective = (case configured of None \<Rightarrow> available | Some n \<Rightarrow> n)\<rparr>))"

lemma clamp_bounds: "lo \<le> hi \<Longrightarrow> lo \<le> clamp lo hi x \<and> clamp lo hi x \<le> hi"
  by (simp add: clamp_def)

section \<open>Credits\<close>

record credit_state =
  capacity :: nat
  available :: nat

definition new_credits :: "nat \<Rightarrow> credit_state" where
  "new_credits n = \<lparr>capacity = n, available = n\<rparr>"

text \<open>
  The compare-exchange loop of \<open>try_acquire\<close>, run against the values the counter shows to its
  failed exchanges (\<open>observed\<close>): it gives up exactly when it sees zero. \<open>try_acquire\<close> is the
  loop without interference, the linearised operation.
\<close>

fun try_acquire_loop :: "nat \<Rightarrow> nat list \<Rightarrow> nat option" where
  "try_acquire_loop seen [] = (if seen = 0 then None else Some (seen - 1))"
| "try_acquire_loop seen (observed # rest) =
     (if seen = 0 then None else try_acquire_loop observed rest)"

definition try_acquire :: "credit_state \<Rightarrow> credit_state option" where
  "try_acquire s = map_option (\<lambda>n. s\<lparr>available := n\<rparr>) (try_acquire_loop (available s) [])"

definition release :: "credit_state \<Rightarrow> credit_state" where
  "release s = s\<lparr>available := available s + 1\<rparr>"

text \<open>\<open>try_up_to\<close>: at most \<open>maximum\<close> units, stopping at the first refusal.\<close>

fun try_up_to :: "nat \<Rightarrow> credit_state \<Rightarrow> nat \<times> credit_state" where
  "try_up_to 0 s = (0, s)"
| "try_up_to (Suc maximum) s =
     (case try_acquire s of
        None \<Rightarrow> (0, s)
      | Some s' \<Rightarrow> (let (n, s'') = try_up_to maximum s' in (Suc n, s'')))"

datatype credit_event = Take | Drop

text \<open>
  One event of any thread. \<open>Take\<close> may be refused; only a live unit can be dropped, which is what
  linear ownership of permits gives.
\<close>

fun credit_step :: "('s \<Rightarrow> 's option) \<Rightarrow> ('s \<Rightarrow> 's) \<Rightarrow> 's \<times> nat \<Rightarrow> credit_event \<Rightarrow> 's \<times> nat" where
  "credit_step acq rel (s, held) Take =
     (case acq s of None \<Rightarrow> (s, held) | Some s' \<Rightarrow> (s', Suc held))"
| "credit_step acq rel (s, held) Drop = (if held = 0 then (s, held) else (rel s, held - 1))"

locale credit_counter =
  fixes acquire :: "'s \<Rightarrow> 's option" and release :: "'s \<Rightarrow> 's"
    and free :: "'s \<Rightarrow> nat" and cap :: "'s \<Rightarrow> nat"
  assumes acquire_None: "acquire s = None \<longleftrightarrow> free s = 0"
    and acquire_Some: "acquire s = Some s' \<Longrightarrow> free s = Suc (free s') \<and> cap s' = cap s"
    and free_release: "free (release s) = Suc (free s)"
    and cap_release: "cap (release s) = cap s"
begin

definition conserved :: "'s \<times> nat \<Rightarrow> bool" where
  "conserved sys \<longleftrightarrow> free (fst sys) + snd sys = cap (fst sys)"

lemma conserved_event: "conserved sys \<Longrightarrow> conserved (credit_step acquire release sys ev)"
  by (cases sys; cases ev)
    (auto simp: conserved_def free_release cap_release split: option.splits dest: acquire_Some)

lemma cap_event: "cap (fst (credit_step acquire release sys ev)) = cap (fst sys)"
  by (cases sys; cases ev) (auto simp: cap_release split: option.splits dest: acquire_Some)

lemma conserved_run: "conserved sys \<Longrightarrow> conserved (foldl (credit_step acquire release) sys evs)"
proof (induction evs arbitrary: sys)
  case (Cons ev evs)
  then show ?case using conserved_event [of sys ev] by simp
qed simp

lemma cap_run: "cap (fst (foldl (credit_step acquire release) sys evs)) = cap (fst sys)"
  by (induction evs arbitrary: sys) (auto simp: cap_event)

lemma held_bounded: "conserved sys \<Longrightarrow> snd sys \<le> cap (fst sys)"
  by (simp add: conserved_def)

text \<open>A drop finds the counter below its capacity: no unit is returned twice.\<close>

lemma release_below_cap: "conserved sys \<Longrightarrow> 0 < snd sys \<Longrightarrow> free (fst sys) < cap (fst sys)"
  by (simp add: conserved_def)

lemma all_returned: "conserved (s, 0) \<Longrightarrow> free s = cap s"
  by (simp add: conserved_def)

end

interpretation credits: credit_counter try_acquire release available capacity
  by unfold_locales (auto simp: try_acquire_def release_def split: if_splits)

text \<open>Whatever a failing exchange observes, the loop never takes a unit that is not there.\<close>

lemma try_acquire_loop_last:
  "try_acquire_loop seen observed = Some n \<Longrightarrow> Suc n = last (seen # observed)"
  by (induction seen observed rule: try_acquire_loop.induct) (auto split: if_splits)

lemma try_up_to_count:
  "try_up_to maximum s = (n, s') \<Longrightarrow>
     n = min maximum (available s) \<and> available s' = available s - n \<and> capacity s' = capacity s"
proof (induction maximum arbitrary: s n s')
  case (Suc maximum)
  show ?case
  proof (cases "available s = 0")
    case True
    with Suc.prems show ?thesis by (simp add: try_acquire_def)
  next
    case False
    then obtain k where
      k: "try_up_to maximum (s\<lparr>available := available s - 1\<rparr>) = (k, s')" "n = Suc k"
      using Suc.prems by (auto simp: try_acquire_def split: prod.splits)
    from Suc.IH [OF k(1)] k(2) False show ?thesis by simp
  qed
qed simp

section \<open>The executor\<close>

record executor =
  parallelism :: nat
  extra_threads :: nat
  extra_pool :: "bool option"  \<comment> \<open>unset, or whether the private pool could be built\<close>
  extra_disabled :: bool
  burst :: credit_state
  leaf_tasks :: credit_state

definition with_parallelism :: "nat \<Rightarrow> executor" where
  "with_parallelism p =
     (let p = clamp 1 max_search_parallelism p; extra = p - 1 in
      \<lparr>parallelism = p, extra_threads = extra, extra_pool = None, extra_disabled = False,
       burst = new_credits extra, leaf_tasks = new_credits extra\<rparr>)"

definition extra_enabled :: "executor \<Rightarrow> bool" where
  "extra_enabled x \<longleftrightarrow> 0 < extra_threads x \<and> \<not> extra_disabled x"

definition try_burst :: "executor \<Rightarrow> executor option" where
  "try_burst x =
     (if extra_enabled x then map_option (\<lambda>c. x\<lparr>burst := c\<rparr>) (try_acquire (burst x)) else None)"

definition try_bursts :: "nat \<Rightarrow> executor \<Rightarrow> nat \<times> executor" where
  "try_bursts maximum x =
     (if extra_enabled x
      then (let (n, c) = try_up_to maximum (burst x) in (n, x\<lparr>burst := c\<rparr>)) else (0, x))"

definition try_runner_ticket :: "executor \<Rightarrow> executor option" where
  "try_runner_ticket x =
     (if extra_enabled x
      then map_option (\<lambda>c. x\<lparr>leaf_tasks := c\<rparr>) (try_acquire (leaf_tasks x)) else None)"

definition try_runner_tickets :: "nat \<Rightarrow> executor \<Rightarrow> nat \<times> executor" where
  "try_runner_tickets maximum x =
     (if extra_enabled x
      then (let (n, c) = try_up_to maximum (leaf_tasks x) in (n, x\<lparr>leaf_tasks := c\<rparr>)) else (0, x))"

definition drop_burst :: "executor \<Rightarrow> executor" where
  "drop_burst x = x\<lparr>burst := release (burst x)\<rparr>"

definition drop_ticket :: "executor \<Rightarrow> executor" where
  "drop_ticket x = x\<lparr>leaf_tasks := release (leaf_tasks x)\<rparr>"

definition disable_after_panic :: "executor \<Rightarrow> executor" where
  "disable_after_panic x = x\<lparr>extra_disabled := True\<rparr>"

text \<open>\<open>builds\<close> is whether the thread-pool builder would succeed; it is asked at most once.\<close>

definition pool :: "bool \<Rightarrow> executor \<Rightarrow> bool \<times> executor" where
  "pool builds x =
     (if extra_threads x = 0 then (False, x)
      else
        let ok = (case extra_pool x of None \<Rightarrow> builds | Some b \<Rightarrow> b) in
        (ok, x\<lparr>extra_pool := Some ok, extra_disabled := extra_disabled x \<or> \<not> ok\<rparr>))"

text \<open>
  \<open>try_spawn\<close> answers whether the leaf was submitted; otherwise ticket and job come back intact.
  \<open>panic_meanwhile\<close> is another leaf's panic between the two checks of the code.
\<close>

definition try_spawn :: "bool \<Rightarrow> bool \<Rightarrow> executor \<Rightarrow> bool \<times> executor" where
  "try_spawn builds panic_meanwhile x =
     (if \<not> extra_enabled x then (False, x)
      else
        let (ok, x) = pool builds x in
        if \<not> ok then (False, x)
        else
          let x = (if panic_meanwhile then disable_after_panic x else x) in
          if \<not> extra_enabled x then (False, x) else (True, x))"

section \<open>All interleavings\<close>

text \<open>
  The executor with its live owners: permits held by searches, walks and sorts, tickets held by
  coordinators, and submitted leaves (queued or running), each owning the ticket it came with.
\<close>

record exec_sys =
  exec :: executor
  permits :: nat
  tickets :: nat
  leaves :: nat

inductive exec_step :: "exec_sys \<Rightarrow> exec_sys \<Rightarrow> bool" where
  take_burst: "try_burst (exec s) = Some x \<Longrightarrow>
    exec_step s (s\<lparr>exec := x, permits := permits s + 1\<rparr>)"
| take_bursts: "try_bursts m (exec s) = (n, x) \<Longrightarrow>
    exec_step s (s\<lparr>exec := x, permits := permits s + n\<rparr>)"
| release_burst: "0 < permits s \<Longrightarrow>
    exec_step s (s\<lparr>exec := drop_burst (exec s), permits := permits s - 1\<rparr>)"
| take_ticket: "try_runner_ticket (exec s) = Some x \<Longrightarrow>
    exec_step s (s\<lparr>exec := x, tickets := tickets s + 1\<rparr>)"
| take_tickets: "try_runner_tickets m (exec s) = (n, x) \<Longrightarrow>
    exec_step s (s\<lparr>exec := x, tickets := tickets s + n\<rparr>)"
| return_ticket: "0 < tickets s \<Longrightarrow>
    exec_step s (s\<lparr>exec := drop_ticket (exec s), tickets := tickets s - 1\<rparr>)"
| submit: "0 < tickets s \<Longrightarrow> try_spawn builds panic (exec s) = (True, x) \<Longrightarrow>
    exec_step s (s\<lparr>exec := x, tickets := tickets s - 1, leaves := leaves s + 1\<rparr>)"
| refuse: "0 < tickets s \<Longrightarrow> try_spawn builds panic (exec s) = (False, x) \<Longrightarrow>
    exec_step s (s\<lparr>exec := x\<rparr>)"
| leaf_done: "0 < leaves s \<Longrightarrow>
    exec_step s (s\<lparr>exec := drop_ticket (exec s), leaves := leaves s - 1\<rparr>)"
| leaf_panic: "0 < leaves s \<Longrightarrow>
    exec_step s (s\<lparr>exec := drop_ticket (disable_after_panic (exec s)), leaves := leaves s - 1\<rparr>)"

definition exec_start :: "nat \<Rightarrow> exec_sys" where
  "exec_start p = \<lparr>exec = with_parallelism p, permits = 0, tickets = 0, leaves = 0\<rparr>"

inductive exec_reach :: "nat \<Rightarrow> exec_sys \<Rightarrow> bool" for p where
  start: "exec_reach p (exec_start p)"
| step: "exec_reach p s \<Longrightarrow> exec_step s t \<Longrightarrow> exec_reach p t"

definition exec_inv :: "nat \<Rightarrow> exec_sys \<Rightarrow> bool" where
  "exec_inv p s \<longleftrightarrow>
     parallelism (exec s) = clamp 1 max_search_parallelism p \<and>
     extra_threads (exec s) = clamp 1 max_search_parallelism p - 1 \<and>
     capacity (burst (exec s)) = extra_threads (exec s) \<and>
     capacity (leaf_tasks (exec s)) = extra_threads (exec s) \<and>
     available (burst (exec s)) + permits s = extra_threads (exec s) \<and>
     available (leaf_tasks (exec s)) + tickets s + leaves s = extra_threads (exec s)"

lemmas executor_ops =
  try_burst_def try_bursts_def try_runner_ticket_def try_runner_tickets_def drop_burst_def
  drop_ticket_def disable_after_panic_def

lemma try_acquire_Some:
  "try_acquire c = Some c' \<longleftrightarrow> 0 < available c \<and> c' = c\<lparr>available := available c - 1\<rparr>"
  by (auto simp: try_acquire_def)

text \<open>Submission touches the pool and the disabled flag only.\<close>

lemma try_spawn_frame:
  "try_spawn builds panic x = (b, x') \<Longrightarrow>
     parallelism x' = parallelism x \<and> extra_threads x' = extra_threads x \<and>
     burst x' = burst x \<and> leaf_tasks x' = leaf_tasks x"
  by (auto simp: try_spawn_def pool_def disable_after_panic_def Let_def split: if_splits prod.splits)

lemma exec_inv_start: "exec_inv p (exec_start p)"
  by (simp add: exec_inv_def exec_start_def with_parallelism_def new_credits_def Let_def)

lemma exec_inv_step: "exec_step s t \<Longrightarrow> exec_inv p s \<Longrightarrow> exec_inv p t"
proof (induction rule: exec_step.induct)
  case (take_bursts m s n x)
  then show ?case
    by (auto simp: exec_inv_def try_bursts_def split: if_splits prod.splits dest!: try_up_to_count)
next
  case (take_tickets m s n x)
  then show ?case
    by (auto simp: exec_inv_def try_runner_tickets_def split: if_splits prod.splits
        dest!: try_up_to_count)
next
  case (submit s builds panic x)
  then show ?case using try_spawn_frame [OF submit(2)] by (auto simp: exec_inv_def)
next
  case (refuse s builds panic x)
  then show ?case using try_spawn_frame [OF refuse(2)] by (auto simp: exec_inv_def)
qed (auto simp: exec_inv_def executor_ops try_acquire_Some release_def split: if_splits)

lemma exec_reach_inv: "exec_reach p s \<Longrightarrow> exec_inv p s"
  by (induction rule: exec_reach.induct) (auto intro: exec_inv_start exec_inv_step)

lemma disabled_stays: "exec_step s t \<Longrightarrow> extra_disabled (exec s) \<Longrightarrow> extra_disabled (exec t)"
  by (induction rule: exec_step.induct)
    (auto simp: executor_ops try_spawn_def pool_def Let_def extra_enabled_def
      split: if_splits prod.splits)

lemma disabled_no_growth:
  "exec_step s t \<Longrightarrow> extra_disabled (exec s) \<Longrightarrow>
     permits t \<le> permits s \<and> tickets t \<le> tickets s \<and> leaves t \<le> leaves s"
  by (induction rule: exec_step.induct)
    (auto simp: executor_ops try_spawn_def extra_enabled_def split: if_splits)

section \<open>Properties\<close>

text \<open>
  C5. The executor never lends more extra lanes than it has: after any interleaving of acquisitions,
  drops, submissions, completions and panics, the live permits are at most \<open>P - 1 <= 15\<close>, so are the
  tickets together with the queued and running leaves, and what is not lent is available.
\<close>

theorem executor_lanes_bounded:
  assumes "exec_reach p s"
  shows "permits s + available (burst (exec s)) = parallelism (exec s) - 1 \<and>
    tickets s + leaves s + available (leaf_tasks (exec s)) = parallelism (exec s) - 1 \<and>
    1 \<le> parallelism (exec s) \<and> parallelism (exec s) \<le> max_search_parallelism"
  using exec_reach_inv [OF assms] clamp_bounds [of 1 max_search_parallelism p]
  by (auto simp: exec_inv_def max_search_parallelism_def)

theorem executor_lanes_bounded_witness:
  "\<exists>s. exec_reach 3 s \<and> permits s = 1 \<and> leaves s = 1 \<and>
     permits s + available (burst (exec s)) = parallelism (exec s) - 1"
proof -
  define s1 where "s1 = (exec_start 3)\<lparr>exec := the (try_runner_ticket (exec (exec_start 3))), tickets := 1\<rparr>"
  define s2 where "s2 = s1\<lparr>exec := snd (try_spawn True False (exec s1)), tickets := 0, leaves := 1\<rparr>"
  define s3 where "s3 = s2\<lparr>exec := the (try_burst (exec s2)), permits := 1\<rparr>"
  note defs = exec_start_def with_parallelism_def clamp_def max_search_parallelism_def Let_def
    new_credits_def try_runner_ticket_def extra_enabled_def try_acquire_def try_spawn_def pool_def
    try_burst_def
  have "exec_step (exec_start 3) s1"
    using exec_step.take_ticket [of "exec_start 3"] by (simp add: s1_def defs)
  moreover have "exec_step s1 s2"
    using exec_step.submit [of s1 True False] by (simp add: s2_def s1_def defs)
  moreover have "exec_step s2 s3"
    using exec_step.take_burst [of s2] by (simp add: s3_def s2_def s1_def defs)
  ultimately have "exec_reach 3 s3" by (meson exec_reach.intros)
  with executor_lanes_bounded [OF this] show ?thesis
    by (intro exI [of _ s3]) (simp add: s3_def s2_def)
qed

text \<open>
  A configured CPU limit is used exactly or refused: resolution succeeds if and only if no limit
  is set or it lies between 1 and the engine's ceiling, the effective parallelism is then the limit
  itself (or the ceiling), and it always lies between 1 and 16.
\<close>

theorem resolve_parallelism:
  "case resolve_with_available configured avail of
     Inl e \<Rightarrow> e = RangeError (clamp 1 max_search_parallelism avail) \<and>
       (\<exists>v. configured = Some v \<and> \<not> (1 \<le> v \<and> v \<le> int (clamp 1 max_search_parallelism avail)))
   | Inr r \<Rightarrow> sp_effective r =
         (case configured of None \<Rightarrow> clamp 1 max_search_parallelism avail | Some v \<Rightarrow> nat v) \<and>
       1 \<le> sp_effective r \<and> sp_effective r \<le> max_search_parallelism"
proof -
  have "clamp 1 max_search_parallelism avail \<le> usize_max"
    using clamp_bounds [of 1 max_search_parallelism avail]
    by (simp add: max_search_parallelism_def usize_max_def)
  then show ?thesis
    using clamp_bounds [of 1 max_search_parallelism avail]
    by (cases configured)
      (auto simp: resolve_with_available_def validate_def max_search_parallelism_def Let_def)
qed

end
