(* ===== verification/Ordered_Window.thy ===== *)
theory Ordered_Window
  imports Executor
begin

text \<open>
  The ordered speculative window of grep (\<open>src/src/ordered_window.rs\<close>).

  \<open>window\<close> is \<open>RequestSpecShared\<close> with the state under its mutex; every method that takes the
  lock is one function on it. The second half composes them with runners, leases and the
  coordinator loop of \<open>for_each_ordered\<close> into a step relation over every interleaving, with the
  extra permits counted on the executor's \<open>credit_state\<close>.
\<close>

section \<open>The window\<close>

datatype ordered_error = OrderedCancelled | GenerationOverflow

datatype 'r spec_slot =
    RunningExtra (slot_index: nat) (slot_generation: nat) (slot_runner: nat)
  | Ready (slot_index: nat) (slot_generation: nat) (slot_value: 'r)

record 'r window =
  width :: nat
  candidate_count :: nat
  next_runner_id :: nat
  generation :: nat
  next_reduce :: nat
  accepting :: bool
  live_slots :: nat
  slots :: "'r spec_slot option list"

definition new_window :: "nat \<Rightarrow> nat \<Rightarrow> 'r window" where
  "new_window w n =
     (let w = max w 1 in
      \<lparr>width = w, candidate_count = n, next_runner_id = 0, generation = 0, next_reduce = 0,
       accepting = True, live_slots = 0, slots = replicate w None\<rparr>)"

definition slot_at :: "'r window \<Rightarrow> nat \<Rightarrow> 'r spec_slot option" where
  "slot_at w i =
     (case slots w ! (i mod width w) of
        None \<Rightarrow> None
      | Some s \<Rightarrow> if slot_index s = i then Some s else None)"

definition put_slot :: "nat \<Rightarrow> 'r spec_slot option \<Rightarrow> 'r window \<Rightarrow> 'r window" where
  "put_slot i s w = w\<lparr>slots := (slots w)[i mod width w := s]\<rparr>"

definition window_end :: "'r window \<Rightarrow> nat" where
  "window_end w = min (sat_add (next_reduce w) (width w)) (candidate_count w)"

definition speculative_range :: "'r window \<Rightarrow> nat list" where
  "speculative_range w = [sat_add (next_reduce w) 1 ..< window_end w]"

definition fill_snapshot :: "'r window \<Rightarrow> (nat \<times> nat) option" where
  "fill_snapshot w =
     (if \<not> accepting w \<or> candidate_count w \<le> next_reduce w then None
      else
        let vacancies = length (filter (\<lambda>i. slot_at w i = None) (speculative_range w)) in
        if 0 < vacancies then Some (generation w, vacancies) else None)"

text \<open>
  A lease owns one permit. \<open>try_claim\<close> first takes a runner id from an atomic counter, outside
  the lock, then claims the first vacant index of the window under it.
\<close>

record lease =
  l_index :: nat
  l_generation :: nat
  l_runner :: nat

definition alloc_runner_id :: "'r window \<Rightarrow> (nat \<times> 'r window) option" where
  "alloc_runner_id w =
     map_option (\<lambda>id. (id, w\<lparr>next_runner_id := id\<rparr>)) (checked_add (next_runner_id w) 1)"

definition claim_slot :: "nat \<Rightarrow> nat \<Rightarrow> 'r window \<Rightarrow> (lease \<times> 'r window) option" where
  "claim_slot gen runner w =
     (if \<not> accepting w \<or> generation w \<noteq> gen then None
      else case find (\<lambda>i. slot_at w i = None) (speculative_range w) of
          None \<Rightarrow> None
        | Some i \<Rightarrow>
            Some (\<lparr>l_index = i, l_generation = gen, l_runner = runner\<rparr>,
                  (put_slot i (Some (RunningExtra i gen runner)) w)
                    \<lparr>live_slots := live_slots w + 1\<rparr>))"

definition owns_slot :: "lease \<Rightarrow> 'r window \<Rightarrow> bool" where
  "owns_slot l w \<longleftrightarrow>
     (case slot_at w (l_index l) of
        Some (RunningExtra i g r) \<Rightarrow> i = l_index l \<and> g = l_generation l \<and> r = l_runner l
      | _ \<Rightarrow> False)"

text \<open>\<open>publish\<close> answers whether the value was stored; a lease that was not stored is dropped.\<close>

definition publish :: "lease \<Rightarrow> 'r \<Rightarrow> 'r window \<Rightarrow> bool \<times> 'r window" where
  "publish l v w =
     (if accepting w \<and> generation w = l_generation l \<and> owns_slot l w
      then (True, put_slot (l_index l) (Some (Ready (l_index l) (l_generation l) v)) w)
      else (False, w))"

definition drop_lease :: "lease \<Rightarrow> 'r window \<Rightarrow> 'r window" where
  "drop_lease l w =
     (if owns_slot l w
      then (put_slot (l_index l) None w)\<lparr>live_slots := live_slots w - 1\<rparr> else w)"

datatype 'r frontier = FReady 'r "'r window" | FInline | FWait

text \<open>One turn of the loop of \<open>take_frontier\<close>; \<open>FWait\<close> is the turn that waits and retries.\<close>

definition take_frontier :: "nat \<Rightarrow> 'r window \<Rightarrow> 'r frontier" where
  "take_frontier i w =
     (case slots w ! (i mod width w) of
        Some (Ready j g v) \<Rightarrow>
          if j = i \<and> g = generation w
          then FReady v ((put_slot i None w)\<lparr>live_slots := live_slots w - 1\<rparr>) else FInline
      | Some (RunningExtra j g r) \<Rightarrow> if j = i \<and> g = generation w then FWait else FInline
      | None \<Rightarrow> FInline)"

definition advance :: "nat \<Rightarrow> 'r window \<Rightarrow> 'r window" where
  "advance i w = w\<lparr>next_reduce := sat_add i 1\<rparr>"

definition clear_window :: "'r window \<Rightarrow> 'r window" where
  "clear_window w = w\<lparr>accepting := False, slots := map (\<lambda>_. None) (slots w), live_slots := 0\<rparr>"

definition retire_generation :: "bool \<Rightarrow> 'r window \<Rightarrow> (ordered_error + unit) \<times> 'r window" where
  "retire_generation reactivate w =
     (case checked_add (generation w) 1 of
        None \<Rightarrow> (Inl GenerationOverflow, clear_window w)
      | Some g \<Rightarrow> (Inr (), (clear_window w)\<lparr>generation := g, accepting := reactivate\<rparr>))"

section \<open>The window invariant\<close>

definition is_ready :: "'r spec_slot option \<Rightarrow> bool" where
  "is_ready s = (case s of Some (Ready i g v) \<Rightarrow> True | _ \<Rightarrow> False)"

definition ready_count :: "'r window \<Rightarrow> nat" where
  "ready_count w = length (filter is_ready (slots w))"

definition window_inv :: "'r window \<Rightarrow> bool" where
  "window_inv w \<longleftrightarrow>
     0 < width w \<and> length (slots w) = width w \<and> candidate_count w + width w \<le> usize_max \<and>
     next_reduce w \<le> candidate_count w \<and>
     live_slots w = length (filter (\<lambda>s. s \<noteq> None) (slots w)) \<and>
     (\<forall>k < width w. \<forall>s. slots w ! k = Some s \<longrightarrow>
        accepting w \<and> slot_index s mod width w = k \<and> slot_generation s = generation w \<and>
        next_reduce w \<le> slot_index s \<and> slot_index s < next_reduce w + width w \<and>
        slot_index s < candidate_count w)"

lemma is_ready_simps [simp]:
  "\<not> is_ready None" "\<not> is_ready (Some (RunningExtra i g r))" "is_ready (Some (Ready i g v))"
  by (simp_all add: is_ready_def)

lemma put_slot_fields [simp]:
  "width (put_slot i s w) = width w" "candidate_count (put_slot i s w) = candidate_count w"
  "generation (put_slot i s w) = generation w" "next_reduce (put_slot i s w) = next_reduce w"
  "accepting (put_slot i s w) = accepting w" "live_slots (put_slot i s w) = live_slots w"
  "next_runner_id (put_slot i s w) = next_runner_id w"
  "slots (put_slot i s w) = (slots w)[i mod width w := s]"
  by (simp_all add: put_slot_def)

lemma clear_window_fields [simp]:
  "width (clear_window w) = width w" "candidate_count (clear_window w) = candidate_count w"
  "generation (clear_window w) = generation w" "next_reduce (clear_window w) = next_reduce w"
  "accepting (clear_window w) = False" "live_slots (clear_window w) = 0"
  "next_runner_id (clear_window w) = next_runner_id w"
  "slots (clear_window w) = map (\<lambda>_. None) (slots w)"
  by (simp_all add: clear_window_def)

lemma advance_fields [simp]:
  "width (advance i w) = width w" "candidate_count (advance i w) = candidate_count w"
  "generation (advance i w) = generation w" "next_reduce (advance i w) = sat_add i 1"
  "accepting (advance i w) = accepting w" "live_slots (advance i w) = live_slots w"
  "next_runner_id (advance i w) = next_runner_id w" "slots (advance i w) = slots w"
  by (simp_all add: advance_def)

lemma retire_fields [simp]:
  "width (snd (retire_generation b w)) = width w"
  "candidate_count (snd (retire_generation b w)) = candidate_count w"
  "next_reduce (snd (retire_generation b w)) = next_reduce w"
  "next_runner_id (snd (retire_generation b w)) = next_runner_id w"
  "slots (snd (retire_generation b w)) = map (\<lambda>_. None) (slots w)"
  "live_slots (snd (retire_generation b w)) = 0"
  by (simp_all add: retire_generation_def split: option.split)

lemma window_slot:
  assumes "window_inv w" and "k < width w" and "slots w ! k = Some s"
  shows "accepting w" "slot_index s mod width w = k" "slot_generation s = generation w"
    "next_reduce w \<le> slot_index s" "slot_index s < next_reduce w + width w"
    "slot_index s < candidate_count w"
  using assms by (auto simp: window_inv_def)

lemma window_len: "window_inv w \<Longrightarrow> length (slots w) = width w \<and> 0 < width w"
  by (simp add: window_inv_def)

text \<open>Within one window, indices and ring positions correspond one to one.\<close>

lemma same_position:
  fixes i j :: nat
  assumes "i mod w = j mod w" and "n \<le> i" and "i < n + w" and "n \<le> j" and "j < n + w"
  shows "i = j"
proof (rule linorder_cases [of i j])
  assume "i < j"
  then have "w dvd j - i" using assms(1) mod_eq_dvd_iff_nat [of i j w] by auto
  with \<open>i < j\<close> assms show ?thesis using nat_dvd_not_less [of "j - i" w] by linarith
next
  assume "j < i"
  then have "w dvd i - j" using assms(1) mod_eq_dvd_iff_nat [of j i w] by auto
  with \<open>j < i\<close> assms show ?thesis using nat_dvd_not_less [of "i - j" w] by linarith
qed simp

lemma slot_at_in_window:
  assumes inv: "window_inv w" and i: "next_reduce w \<le> i" "i < next_reduce w + width w"
  shows "slot_at w i = slots w ! (i mod width w)"
proof (cases "slots w ! (i mod width w)")
  case (Some s)
  have k: "i mod width w < width w" using window_len [OF inv] by simp
  have "slot_index s = i"
    using same_position [of "slot_index s" "width w" i "next_reduce w"]
      window_slot [OF inv k Some] i by auto
  with Some show ?thesis by (simp add: slot_at_def)
qed (simp add: slot_at_def)

lemma window_inv_new: "n + max w 1 \<le> usize_max \<Longrightarrow> window_inv (new_window w n)"
  by (simp add: window_inv_def new_window_def Let_def)

lemma alloc_runner_id_Some:
  "alloc_runner_id w = Some (r, w') \<longleftrightarrow>
     next_runner_id w < usize_max \<and> r = next_runner_id w + 1 \<and> w' = w\<lparr>next_runner_id := r\<rparr>"
  by (auto simp: alloc_runner_id_def sat_simps)

lemma window_inv_alloc: "window_inv w \<Longrightarrow> window_inv (w\<lparr>next_runner_id := r\<rparr>)"
  by (simp add: window_inv_def)

lemma in_speculative_range:
  "window_inv w \<Longrightarrow> i \<in> set (speculative_range w) \<longleftrightarrow>
     next_reduce w < i \<and> i < next_reduce w + width w \<and> i < candidate_count w"
  by (auto simp: speculative_range_def window_end_def window_inv_def sat_add_def)

lemma claim_slot_Some:
  assumes inv: "window_inv w" and claim: "claim_slot g r w = Some (l, w')"
  shows "accepting w" "generation w = g" "l = \<lparr>l_index = l_index l, l_generation = g, l_runner = r\<rparr>"
    "next_reduce w < l_index l" "l_index l < next_reduce w + width w"
    "l_index l < candidate_count w" "slots w ! (l_index l mod width w) = None"
    "w' = (put_slot (l_index l) (Some (RunningExtra (l_index l) g r)) w)
            \<lparr>live_slots := live_slots w + 1\<rparr>"
proof -
  from claim obtain i where f: "find (\<lambda>i. slot_at w i = None) (speculative_range w) = Some i"
    and l: "l = \<lparr>l_index = i, l_generation = g, l_runner = r\<rparr>"
    and w': "w' = (put_slot i (Some (RunningExtra i g r)) w)\<lparr>live_slots := live_slots w + 1\<rparr>"
    and acc: "accepting w" "generation w = g"
    by (auto simp: claim_slot_def split: if_splits option.splits)
  from f have "i \<in> set (speculative_range w)" and vacant: "slot_at w i = None"
    by (auto simp: find_Some_iff)
  then have range: "next_reduce w < i" "i < next_reduce w + width w" "i < candidate_count w"
    using in_speculative_range [OF inv] by auto
  show "accepting w" "generation w = g" using acc .
  show "l = \<lparr>l_index = l_index l, l_generation = g, l_runner = r\<rparr>"
    "w' = (put_slot (l_index l) (Some (RunningExtra (l_index l) g r)) w)
            \<lparr>live_slots := live_slots w + 1\<rparr>" using l w' by simp_all
  show "next_reduce w < l_index l" "l_index l < next_reduce w + width w"
    "l_index l < candidate_count w" using l range by simp_all
  show "slots w ! (l_index l mod width w) = None"
    using slot_at_in_window [OF inv, of i] range vacant l by simp
qed

lemma owns_slot_position:
  "window_inv w \<Longrightarrow> owns_slot l w \<Longrightarrow>
     slots w ! (l_index l mod width w) = Some (RunningExtra (l_index l) (l_generation l) (l_runner l))"
  by (auto simp: owns_slot_def slot_at_def split: option.splits spec_slot.splits if_splits)

text \<open>Replacing one ring position.\<close>

lemma live_update:
  "k < length xs \<Longrightarrow>
     length (filter P (xs[k := x])) + (if P (xs ! k) then 1 else 0) =
     length (filter P xs) + (if P x then 1 else 0)"
proof (induction xs arbitrary: k)
  case (Cons a xs)
  then show ?case
  proof (cases k)
    case (Suc k')
    have "length (filter P (xs[k' := x])) + (if P (xs ! k') then 1 else 0) =
      length (filter P xs) + (if P x then 1 else 0)"
      using Cons.IH [of k'] Cons.prems Suc by simp
    with Suc show ?thesis by (auto split: if_splits)
  qed auto
qed simp

lemma window_inv_put:
  assumes inv: "window_inv w" and "slots w ! (i mod width w) = None"
    and "accepting w" "slot_generation s = generation w" "slot_index s = i"
    and "next_reduce w \<le> i" "i < next_reduce w + width w" "i < candidate_count w"
  shows "window_inv ((put_slot i (Some s) w)\<lparr>live_slots := live_slots w + 1\<rparr>)"
  using assms live_update [of "i mod width w" "slots w" "\<lambda>s. s \<noteq> None" "Some s"]
  by (auto simp: window_inv_def nth_list_update split: if_splits)

lemma window_inv_replace:
  assumes inv: "window_inv w" and "slots w ! (i mod width w) = Some s"
    and "slot_generation s' = slot_generation s" "slot_index s' = slot_index s"
  shows "window_inv (put_slot i (Some s') w)"
  using assms window_slot [OF inv _ assms(2)] window_len [OF inv] live_update [of "i mod width w" "slots w" "\<lambda>s. s \<noteq> None" "Some s'"]
  by (auto simp: window_inv_def nth_list_update split: if_splits)

lemma window_inv_clear_slot:
  assumes inv: "window_inv w" and "slots w ! (i mod width w) = Some s"
  shows "window_inv ((put_slot i None w)\<lparr>live_slots := live_slots w - 1\<rparr>)"
  using assms live_update [of "i mod width w" "slots w" "\<lambda>s. s \<noteq> None" None]
  by (auto simp: window_inv_def nth_list_update split: if_splits)

lemma window_inv_claim:
  "window_inv w \<Longrightarrow> claim_slot g r w = Some (l, w') \<Longrightarrow> window_inv w'"
  using claim_slot_Some [of w g r l w'] window_inv_put [of w "l_index l" "RunningExtra (l_index l) g r"]
  by simp

lemma window_inv_publish: "window_inv w \<Longrightarrow> publish l v w = (b, w') \<Longrightarrow> window_inv w'"
  using owns_slot_position [of w l]
    window_inv_replace [of w "l_index l" "RunningExtra (l_index l) (l_generation l) (l_runner l)"
      "Ready (l_index l) (l_generation l) v"]
  by (auto simp: publish_def split: if_splits)

lemma window_inv_drop: "window_inv w \<Longrightarrow> window_inv (drop_lease l w)"
  using owns_slot_position [of w l] window_inv_clear_slot [of w "l_index l"]
  by (simp add: drop_lease_def)

lemma window_inv_retire: "window_inv w \<Longrightarrow> window_inv (snd (retire_generation b w))"
  by (auto simp: window_inv_def filter_map o_def)

lemma window_inv_advance:
  assumes inv: "window_inv w" and empty: "slots w ! (next_reduce w mod width w) = None"
    and more: "next_reduce w < candidate_count w"
  shows "window_inv (advance (next_reduce w) w)"
proof -
  have "next_reduce w \<noteq> slot_index s"
    if "k < width w" "slots w ! k = Some s" for k s
    using window_slot(2) [OF inv that] empty that by auto
  with inv more show ?thesis
    by (force simp: window_inv_def sat_add_def)
qed

text \<open>
  The frontier index finds its own slot or none: a foreign occupant of the ring position would lie
  a whole window ahead.
\<close>

lemma take_frontier_cases:
  assumes inv: "window_inv w"
  shows "take_frontier (next_reduce w) w =
    (case slots w ! (next_reduce w mod width w) of
       None \<Rightarrow> FInline
     | Some (RunningExtra j g r) \<Rightarrow> FWait
     | Some (Ready j g v) \<Rightarrow>
         FReady v ((put_slot (next_reduce w) None w)\<lparr>live_slots := live_slots w - 1\<rparr>))"
proof -
  have k: "next_reduce w mod width w < width w" using window_len [OF inv] by simp
  have "slot_index s = next_reduce w \<and> slot_generation s = generation w"
    if "slots w ! (next_reduce w mod width w) = Some s" for s
    using window_slot [OF inv k that] same_position [of "slot_index s" "width w" "next_reduce w" "next_reduce w"]
      window_len [OF inv] by simp
  then show ?thesis by (auto simp: take_frontier_def split: option.split spec_slot.split)
qed

end
