(* ===== verification/Ordered_Execution.thy ===== *)
theory Ordered_Execution
  imports Ordered_Window
begin

text \<open>
  \<open>for_each_ordered\<close> and its runners (\<open>src/src/ordered_window.rs\<close>) as a step relation: the
  coordinator loop, the runner job of \<open>fill_epoch\<close> and every other user of the shared permits
  interleave freely, one step per critical section or atomic operation.

  \<open>work g i\<close> is what the worker (or, after a panic, \<open>panic_value\<close>) yields for item \<open>i\<close> when it runs
  entirely under generation \<open>g\<close>. A runner that outlives its generation may have computed
  anything, so its lease may try to publish any value.
\<close>

datatype 'r phase = Top | Taken nat 'r | Consuming nat | Stopped

record 'r ordered_sys =
  win :: "'r window"
  credit :: credit_state
  outside :: nat  \<comment> \<open>permits held by other searches, walks, sorts and by runners about to claim\<close>
  pending :: "(nat \<times> nat) list"  \<comment> \<open>generation and id of runners between id and claim\<close>
  leases :: "lease list"
  phase :: "'r phase"
  delivered :: "(nat \<times> nat \<times> 'r) list"  \<comment> \<open>index, generation at delivery, value\<close>

definition give_back :: "nat \<Rightarrow> credit_state \<Rightarrow> credit_state" where
  "give_back n c = (release ^^ n) c"

definition ordered_start :: "nat \<Rightarrow> nat \<Rightarrow> 'r ordered_sys" where
  "ordered_start w n =
     \<lparr>win = new_window w n, credit = new_credits (w - 1), outside = 0, pending = [], leases = [],
      phase = Top, delivered = []\<rparr>"

inductive ordered_step ::
    "(nat \<Rightarrow> nat \<Rightarrow> 'r) \<Rightarrow> 'r ordered_sys \<Rightarrow> 'r ordered_sys \<Rightarrow> bool" for work where
  take_permit: "try_acquire (credit s) = Some c \<Longrightarrow>
    ordered_step work s (s\<lparr>credit := c, outside := outside s + 1\<rparr>)"
| drop_permit: "0 < outside s \<Longrightarrow>
    ordered_step work s (s\<lparr>credit := release (credit s), outside := outside s - 1\<rparr>)"
| start_claim: "0 < outside s \<Longrightarrow> g \<le> generation (win s) \<Longrightarrow>
    alloc_runner_id (win s) = Some (r, w) \<Longrightarrow>
    ordered_step work s (s\<lparr>win := w, outside := outside s - 1, pending := (g, r) # pending s\<rparr>)"
| claim: "(g, r) \<in> set (pending s) \<Longrightarrow> claim_slot g r (win s) = Some (l, w) \<Longrightarrow>
    ordered_step work s
      (s\<lparr>win := w, pending := remove1 (g, r) (pending s), leases := l # leases s\<rparr>)"
| claim_refused: "(g, r) \<in> set (pending s) \<Longrightarrow> claim_slot g r (win s) = None \<Longrightarrow>
    ordered_step work s
      (s\<lparr>pending := remove1 (g, r) (pending s), credit := release (credit s)\<rparr>)"
| publish_stored: "l \<in> set (leases s) \<Longrightarrow>
    (l_generation l = generation (win s) \<Longrightarrow> v = work (l_generation l) (l_index l)) \<Longrightarrow>
    publish l v (win s) = (True, w) \<Longrightarrow>
    ordered_step work s (s\<lparr>win := w, leases := remove1 l (leases s)\<rparr>)"
| publish_stale: "l \<in> set (leases s) \<Longrightarrow> publish l v (win s) = (False, w) \<Longrightarrow>
    ordered_step work s
      (s\<lparr>win := drop_lease l w, leases := remove1 l (leases s), credit := release (credit s)\<rparr>)"
| abandon_lease: "l \<in> set (leases s) \<Longrightarrow>
    ordered_step work s
      (s\<lparr>win := drop_lease l (win s), leases := remove1 l (leases s),
         credit := release (credit s)\<rparr>)"
| take_ready: "phase s = Top \<Longrightarrow> next_reduce (win s) < candidate_count (win s) \<Longrightarrow>
    take_frontier (next_reduce (win s)) (win s) = FReady v w \<Longrightarrow>
    ordered_step work s
      (s\<lparr>win := w, credit := release (credit s), phase := Taken (next_reduce (win s)) v\<rparr>)"
| take_inline: "phase s = Top \<Longrightarrow> next_reduce (win s) < candidate_count (win s) \<Longrightarrow>
    take_frontier (next_reduce (win s)) (win s) = FInline \<Longrightarrow>
    ordered_step work s
      (s\<lparr>phase := Taken (next_reduce (win s)) (work (generation (win s)) (next_reduce (win s)))\<rparr>)"
| consume: "phase s = Taken i v \<Longrightarrow>
    ordered_step work s
      (s\<lparr>phase := Consuming i, delivered := delivered s @ [(i, generation (win s), v)]\<rparr>)"
| reducer_retire: "phase s = Consuming i \<Longrightarrow>
    ordered_step work s
      (s\<lparr>win := snd (retire_generation True (win s)), credit := give_back (ready_count (win s)) (credit s)\<rparr>)"
| go_on: "phase s = Consuming i \<Longrightarrow>
    ordered_step work s (s\<lparr>win := advance i (win s), phase := Top\<rparr>)"
| finish: "phase s = Top \<Longrightarrow> candidate_count (win s) \<le> next_reduce (win s) \<Longrightarrow>
    ordered_step work s
      (s\<lparr>win := snd (retire_generation False (win s)), phase := Stopped,
         credit := give_back (ready_count (win s)) (credit s)\<rparr>)"
| stop: "phase s \<noteq> Stopped \<Longrightarrow>
    ordered_step work s
      (s\<lparr>win := snd (retire_generation False (win s)), phase := Stopped,
         credit := give_back (ready_count (win s)) (credit s)\<rparr>)"

text \<open>\<open>stop\<close> is a cancellation at any check, a break of the consumer or its panic.\<close>

inductive ordered_reach :: "(nat \<Rightarrow> nat \<Rightarrow> 'r) \<Rightarrow> nat \<Rightarrow> nat \<Rightarrow> 'r ordered_sys \<Rightarrow> bool"
  for work w n where
  start: "ordered_reach work w n (ordered_start w n)"
| step: "ordered_reach work w n s \<Longrightarrow> ordered_step work s t \<Longrightarrow> ordered_reach work w n t"

section \<open>The system invariant\<close>

text \<open>Permits: every unit the counter has lent is held by exactly one owner.\<close>

definition permits_inv :: "'r ordered_sys \<Rightarrow> bool" where
  "permits_inv s \<longleftrightarrow>
     credits.conserved
       (credit s, outside s + length (pending s) + length (leases s) + ready_count (win s)) \<and>
     capacity (credit s) = width (win s) - 1"

text \<open>Slots: a running slot has its lease, a ready slot holds the right value.\<close>

definition slots_inv :: "(nat \<Rightarrow> nat \<Rightarrow> 'r) \<Rightarrow> 'r ordered_sys \<Rightarrow> bool" where
  "slots_inv work s \<longleftrightarrow>
     (\<forall>k < width (win s).
        (\<forall>i g r. slots (win s) ! k = Some (RunningExtra i g r) \<longrightarrow>
           \<lparr>l_index = i, l_generation = g, l_runner = r\<rparr> \<in> set (leases s)) \<and>
        (\<forall>i g v. slots (win s) ! k = Some (Ready i g v) \<longrightarrow> v = work g i))"

text \<open>Deliveries: a prefix of the indices in order, each with the value of its generation.\<close>

definition delivery_inv :: "(nat \<Rightarrow> nat \<Rightarrow> 'r) \<Rightarrow> 'r ordered_sys \<Rightarrow> bool" where
  "delivery_inv work s \<longleftrightarrow>
     (case phase s of
        Top \<Rightarrow> length (delivered s) = next_reduce (win s)
      | Taken i v \<Rightarrow> i = next_reduce (win s) \<and> length (delivered s) = i \<and> i < candidate_count (win s) \<and>
          slots (win s) ! (i mod width (win s)) = None \<and> v = work (generation (win s)) i
      | Consuming i \<Rightarrow> i = next_reduce (win s) \<and> length (delivered s) = Suc i \<and>
          i < candidate_count (win s) \<and> slots (win s) ! (i mod width (win s)) = None
      | Stopped \<Rightarrow> True) \<and>
     length (delivered s) \<le> candidate_count (win s) \<and>
     map fst (delivered s) = [0..<length (delivered s)] \<and>
     (\<forall>(i, g, v) \<in> set (delivered s). v = work g i \<and> g \<le> generation (win s))"

lemma ready_update:
  "window_inv w \<Longrightarrow>
     length (filter is_ready ((slots w)[i mod width w := x])) +
       (if is_ready (slots w ! (i mod width w)) then 1 else 0) =
     ready_count w + (if is_ready x then 1 else 0)"
  using live_update [of "i mod width w" "slots w" is_ready x] window_len [of w]
  by (simp add: ready_count_def)

lemma ready_count_claim:
  "window_inv w \<Longrightarrow> claim_slot g r w = Some (l, w') \<Longrightarrow> ready_count w' = ready_count w"
  using claim_slot_Some [of w g r l w'] ready_update [of w "l_index l"]
  by (simp add: ready_count_def)

lemma ready_count_publish:
  "window_inv w \<Longrightarrow> publish l v w = (True, w') \<Longrightarrow> ready_count w' = Suc (ready_count w)"
  using owns_slot_position [of w l]
    ready_update [of w "l_index l" "Some (Ready (l_index l) (l_generation l) v)"]
  by (auto simp: publish_def ready_count_def split: if_splits)

lemma ready_count_drop: "window_inv w \<Longrightarrow> ready_count (drop_lease l w) = ready_count w"
  using owns_slot_position [of w l] ready_update [of w "l_index l" None]
  by (auto simp: drop_lease_def ready_count_def split: if_splits)

lemma ready_count_take:
  "window_inv w \<Longrightarrow> take_frontier (next_reduce w) w = FReady v w' \<Longrightarrow>
     Suc (ready_count w') = ready_count w"
  using ready_update [of w "next_reduce w" None]
  by (auto simp: take_frontier_cases ready_count_def split: option.splits spec_slot.splits)

lemma ready_count_retire [simp]: "ready_count (snd (retire_generation b w)) = 0"
  by (simp add: ready_count_def filter_map o_def)

lemma give_back_fields [simp]:
  "available (give_back n c) = available c + n" "capacity (give_back n c) = capacity c"
  by (induction n) (simp_all add: give_back_def release_def)

lemma ready_count_frame [simp]:
  "ready_count (advance i w) = ready_count w" "ready_count (w\<lparr>next_runner_id := r\<rparr>) = ready_count w"
  by (simp_all add: ready_count_def)

definition ordered_inv :: "(nat \<Rightarrow> nat \<Rightarrow> 'r) \<Rightarrow> 'r ordered_sys \<Rightarrow> bool" where
  "ordered_inv work s \<longleftrightarrow>
     window_inv (win s) \<and> permits_inv s \<and> slots_inv work s \<and> delivery_inv work s"

lemma window_inv_step:
  "ordered_step work s t \<Longrightarrow> ordered_inv work s \<Longrightarrow> window_inv (win t)"
proof (induction rule: ordered_step.induct)
  case (publish_stale l s v w)
  then show ?case
    using window_inv_publish [of "win s" l v False w] window_inv_drop by (simp add: ordered_inv_def)
next
  case (take_ready s v w)
  then show ?case
    using window_inv_clear_slot [of "win s" "next_reduce (win s)"]
    by (auto simp: ordered_inv_def take_frontier_cases split: option.splits spec_slot.splits)
next
  case (go_on s i)
  then show ?case using window_inv_advance [of "win s"] by (auto simp: ordered_inv_def delivery_inv_def)
qed (auto simp: ordered_inv_def alloc_runner_id_Some
    intro: window_inv_alloc window_inv_claim window_inv_publish window_inv_drop window_inv_retire)

lemma width_step: "ordered_step work s t \<Longrightarrow> width (win t) = width (win s) \<and>
    candidate_count (win t) = candidate_count (win s)"
proof (induction rule: ordered_step.induct)
  case (claim g r s l w)
  then show ?case by (auto simp: claim_slot_def split: if_splits option.splits)
next
  case (take_ready s v w)
  then show ?case
    by (auto simp: take_frontier_def split: option.splits spec_slot.splits if_splits)
qed (auto simp: alloc_runner_id_Some publish_def drop_lease_def split: if_splits)

lemma length_remove1_in: "x \<in> set xs \<Longrightarrow> Suc (length (remove1 x xs)) = length xs"
  by (metis One_nat_def Suc_pred length_pos_if_in_set length_remove1)

lemma permits_inv_step:
  assumes "ordered_step work s t" and inv: "ordered_inv work s"
  shows "permits_inv t"
proof -
  have w: "window_inv (win s)" and p: "permits_inv s" using inv by (simp_all add: ordered_inv_def)
  note cons = permits_inv_def credits.conserved_def release_def
  show ?thesis
    using assms(1) w p width_step [OF assms(1)]
  proof (induction rule: ordered_step.induct)
    case (claim g r s l w)
    then show ?case
      using ready_count_claim [of "win s" g r l w] length_remove1_in [of "(g, r)" "pending s"]
      by (simp add: cons)
  next
    case (claim_refused g r s)
    then show ?case using length_remove1_in [of "(g, r)" "pending s"] by (simp add: cons)
  next
    case (publish_stored l s v w)
    then show ?case
      using ready_count_publish [of "win s" l v w] length_remove1_in [of l "leases s"]
      by (simp add: cons)
  next
    case (publish_stale l s v w)
    then show ?case
      using ready_count_drop [of "win s" l] length_remove1_in [of l "leases s"]
      by (auto simp: cons publish_def split: if_splits)
  next
    case (abandon_lease l s)
    then show ?case
      using ready_count_drop [of "win s" l] length_remove1_in [of l "leases s"]
      by (simp add: cons)
  next
    case (take_ready s v w)
    then show ?case using ready_count_take [of "win s" v w] by (simp add: cons)
  qed (auto simp: cons try_acquire_Some alloc_runner_id_Some)
qed

lemma nth_list_update_at: "j < length xs \<Longrightarrow> xs[k := x] ! j = (if j = k then x else xs ! j)"
  by (simp add: nth_list_update)

lemma slots_inv_put:
  assumes "slots_inv work s" and "length (slots (win s)) = width (win s)"
    and "slots w = (slots (win s))[k := x]" and "width w = width (win s)"
    and "\<And>i g r. x = Some (RunningExtra i g r) \<Longrightarrow>
      \<lparr>l_index = i, l_generation = g, l_runner = r\<rparr> \<in> set ls"
    and "\<And>i g v. x = Some (Ready i g v) \<Longrightarrow> v = work g i"
    and "\<And>j i g r. j < width (win s) \<Longrightarrow> j \<noteq> k \<Longrightarrow>
      slots (win s) ! j = Some (RunningExtra i g r) \<Longrightarrow>
      \<lparr>l_index = i, l_generation = g, l_runner = r\<rparr> \<in> set (leases s) \<Longrightarrow>
      \<lparr>l_index = i, l_generation = g, l_runner = r\<rparr> \<in> set ls"
  shows "slots_inv work (s\<lparr>win := w, leases := ls\<rparr>)"
  using assms by (simp add: slots_inv_def nth_list_update_at)

lemma slots_inv_frame:
  "slots_inv work s \<Longrightarrow> slots (win t) = slots (win s) \<Longrightarrow> width (win t) = width (win s) \<Longrightarrow>
     leases t = leases s \<Longrightarrow> slots_inv work t"
  by (simp add: slots_inv_def)

lemma slots_inv_clear:
  "window_inv (win s) \<Longrightarrow> width (win t) = width (win s) \<Longrightarrow>
     slots (win t) = map (\<lambda>_. None) (slots (win s)) \<Longrightarrow> slots_inv work t"
  by (simp add: slots_inv_def window_inv_def)

lemma slots_inv_leave:
  assumes w: "window_inv (win s)" and sl: "slots_inv work s"
  shows "slots_inv work (s\<lparr>win := drop_lease l (win s), leases := remove1 l (leases s)\<rparr>)"
proof (cases "owns_slot l (win s)")
  case True
  note pos = owns_slot_position [OF w True]
  show ?thesis
  proof (rule slots_inv_put [OF sl, of _ "l_index l mod width (win s)" None])
    fix j i g r
    assume j: "j < width (win s)" "j \<noteq> l_index l mod width (win s)"
      "slots (win s) ! j = Some (RunningExtra i g r)"
      "\<lparr>l_index = i, l_generation = g, l_runner = r\<rparr> \<in> set (leases s)"
    then have "\<lparr>l_index = i, l_generation = g, l_runner = r\<rparr> \<noteq> l"
      using window_slot(2) [OF w j(1,3)] by auto
    with j(4) show "\<lparr>l_index = i, l_generation = g, l_runner = r\<rparr> \<in> set (remove1 l (leases s))"
      by simp
  qed (use window_len [OF w] True in \<open>auto simp: drop_lease_def\<close>)
next
  case False
  have "\<lparr>l_index = i, l_generation = g, l_runner = r\<rparr> \<noteq> l"
    if "k < width (win s)" "slots (win s) ! k = Some (RunningExtra i g r)" for k i g r
    using window_slot(2) [OF w that] that False by (auto simp: owns_slot_def slot_at_def)
  with sl False show ?thesis by (auto simp: slots_inv_def drop_lease_def)
qed

lemma slots_inv_store:
  assumes w: "window_inv (win s)" and sl: "slots_inv work s"
    and stored: "publish l (work (l_generation l) (l_index l)) (win s) = (True, w)"
  shows "slots_inv work (s\<lparr>win := w, leases := remove1 l (leases s)\<rparr>)"
proof (rule slots_inv_put [OF sl, of _ "l_index l mod width (win s)"
      "Some (Ready (l_index l) (l_generation l) (work (l_generation l) (l_index l)))"])
  fix j i g r
  assume j: "j < width (win s)" "j \<noteq> l_index l mod width (win s)"
    "slots (win s) ! j = Some (RunningExtra i g r)"
    "\<lparr>l_index = i, l_generation = g, l_runner = r\<rparr> \<in> set (leases s)"
  then have "\<lparr>l_index = i, l_generation = g, l_runner = r\<rparr> \<noteq> l"
    using window_slot(2) [OF w j(1,3)] by auto
  with j(4) show "\<lparr>l_index = i, l_generation = g, l_runner = r\<rparr> \<in> set (remove1 l (leases s))"
    by simp
qed (use window_len [OF w] stored in \<open>auto simp: publish_def split: if_splits\<close>)

lemma publish_generation: "publish l v w = (True, w') \<Longrightarrow> l_generation l = generation w"
  by (auto simp: publish_def split: if_splits)

lemma slots_inv_step:
  assumes "ordered_step work s t" and inv: "ordered_inv work s"
  shows "slots_inv work t"
proof -
  have w: "window_inv (win s)" and sl: "slots_inv work s" using inv by (simp_all add: ordered_inv_def)
  show ?thesis
    using assms(1) w sl width_step [OF assms(1)]
  proof (induction rule: ordered_step.induct)
    case (claim g r s l w)
    from claim_slot_Some [OF claim.prems(1) claim.hyps(2)]
    have l: "l = \<lparr>l_index = l_index l, l_generation = g, l_runner = r\<rparr>"
      and w': "w = (put_slot (l_index l) (Some (RunningExtra (l_index l) g r)) (win s))
            \<lparr>live_slots := live_slots (win s) + 1\<rparr>" by blast+
    have "slots_inv work (s\<lparr>win := w, leases := l # leases s\<rparr>)"
      by (rule slots_inv_put [OF claim.prems(2), of _ "l_index l mod width (win s)"
            "Some (RunningExtra (l_index l) g r)"])
        (use window_len [OF claim.prems(1)] l w' in auto)
    then show ?case by (rule slots_inv_frame) auto
  next
    case (publish_stored l s v w)
    then have "slots_inv work (s\<lparr>win := w, leases := remove1 l (leases s)\<rparr>)"
      using slots_inv_store publish_generation by metis
    then show ?case by (rule slots_inv_frame) auto
  next
    case (publish_stale l s v w)
    then have "w = win s" by (auto simp: publish_def split: if_splits)
    from slots_inv_leave [OF publish_stale.prems(1,2)] show ?case
      by (rule slots_inv_frame) (simp_all add: \<open>w = win s\<close>)
  next
    case (abandon_lease l s)
    from slots_inv_leave [OF abandon_lease.prems(1,2)] show ?case by (rule slots_inv_frame) auto
  next
    case (take_ready s v w)
    have "slots_inv work (s\<lparr>win := w, leases := leases s\<rparr>)"
      by (rule slots_inv_put [OF take_ready.prems(2), of _ "next_reduce (win s) mod width (win s)" None])
        (use take_ready.hyps take_ready.prems window_len [OF take_ready.prems(1)] in
          \<open>auto simp: take_frontier_cases split: option.splits spec_slot.splits\<close>)
    then show ?case by (rule slots_inv_frame) auto
  next
    case (reducer_retire s i)
    then show ?case by (intro slots_inv_clear [of s]) auto
  next
    case (finish s)
    then show ?case by (intro slots_inv_clear [of s]) auto
  next
    case (stop s)
    then show ?case by (intro slots_inv_clear [of s]) auto
  qed (auto simp: alloc_runner_id_Some elim!: slots_inv_frame)
qed

text \<open>Only the coordinator moves the frontier, the phase and the generation.\<close>

lemma generation_step: "ordered_step work s t \<Longrightarrow> generation (win s) \<le> generation (win t)"
proof (induction rule: ordered_step.induct)
  case (claim g r s l w)
  then show ?case by (auto simp: claim_slot_def split: if_splits option.splits)
next
  case (take_ready s v w)
  then show ?case
    by (auto simp: take_frontier_def split: option.splits spec_slot.splits if_splits)
qed (auto simp: alloc_runner_id_Some publish_def drop_lease_def retire_generation_def sat_simps
    split: if_splits option.split)

text \<open>A frontier position found empty stays empty until the coordinator advances.\<close>

lemma delivery_inv_frame:
  assumes "delivery_inv work s" and "phase t = phase s" "delivered t = delivered s"
    and "next_reduce (win t) = next_reduce (win s)" "generation (win t) = generation (win s)"
    and "candidate_count (win t) = candidate_count (win s)" "width (win t) = width (win s)"
    and "slots (win s) ! (next_reduce (win s) mod width (win s)) = None \<Longrightarrow>
      slots (win t) ! (next_reduce (win s) mod width (win s)) = None"
  shows "delivery_inv work t"
  using assms by (auto simp: delivery_inv_def split: phase.splits)

lemma delivery_inv_claim:
  assumes w: "window_inv (win s)" and d: "delivery_inv work s"
    and c: "claim_slot g r (win s) = Some (l, w')"
  shows "delivery_inv work (s\<lparr>win := w', pending := ps, leases := ls\<rparr>)"
proof (rule delivery_inv_frame [OF d])
  note cl = claim_slot_Some [OF w c]
  have "l_index l mod width (win s) \<noteq> next_reduce (win s) mod width (win s)"
    using same_position [of "l_index l" "width (win s)" "next_reduce (win s)" "next_reduce (win s)"]
      cl(4,5) window_len [OF w] by auto
  then show "slots (win (s\<lparr>win := w', pending := ps, leases := ls\<rparr>)) !
      (next_reduce (win s) mod width (win s)) = None"
    if "slots (win s) ! (next_reduce (win s) mod width (win s)) = None"
    using that cl(8) by simp
qed (use claim_slot_Some(8) [OF w c] in auto)

lemma publish_frame:
  "publish l v w = (b, w') \<Longrightarrow>
     next_reduce w' = next_reduce w \<and> generation w' = generation w \<and>
     candidate_count w' = candidate_count w \<and> width w' = width w"
  by (auto simp: publish_def split: if_splits)

lemma publish_keeps_empty:
  "window_inv w \<Longrightarrow> publish l v w = (b, w') \<Longrightarrow> slots w ! k = None \<Longrightarrow> slots w' ! k = None"
  using owns_slot_position [of w l]
  by (cases "k = l_index l mod width w") (auto simp: publish_def split: if_splits)

lemma drop_lease_frame:
  "next_reduce (drop_lease l w) = next_reduce w" "generation (drop_lease l w) = generation w"
  "candidate_count (drop_lease l w) = candidate_count w" "width (drop_lease l w) = width w"
  by (simp_all add: drop_lease_def)

lemma drop_lease_keeps_empty:
  "window_inv w \<Longrightarrow> slots w ! k = None \<Longrightarrow> slots (drop_lease l w) ! k = None"
  using owns_slot_position [of w l]
  by (cases "k = l_index l mod width w") (auto simp: drop_lease_def split: if_splits)

lemma delivery_inv_retired:
  assumes "window_inv (win s)" and "delivery_inv work s"
    and "case ph of Consuming i \<Rightarrow> phase s = Consuming i | Stopped \<Rightarrow> True | _ \<Rightarrow> False"
  shows "delivery_inv work
    (s\<lparr>win := snd (retire_generation b (win s)), credit := c, phase := ph\<rparr>)"
proof -
  have "generation (win s) \<le> generation (snd (retire_generation b (win s)))"
    by (simp add: retire_generation_def sat_simps split: option.split)
  moreover have "k < width (win s) \<Longrightarrow>
      slots (snd (retire_generation b (win s))) ! k = None" for k
    using window_len [OF assms(1)] by simp
  ultimately show ?thesis
    using assms(2,3) window_len [OF assms(1)]
    by (fastforce simp: delivery_inv_def split: phase.splits)
qed

lemma sys_phase_update [simp]: "s\<lparr>phase := phase s\<rparr> = s" for s :: "'r ordered_sys"
  by simp

lemma delivery_inv_step:
  assumes "ordered_step work s t" and inv: "ordered_inv work s"
  shows "delivery_inv work t"
proof -
  have w: "window_inv (win s)" and d: "delivery_inv work s" and sl: "slots_inv work s"
    using inv by (simp_all add: ordered_inv_def)
  show ?thesis
    using assms(1) w d sl
  proof (induction rule: ordered_step.induct)
    case (start_claim s g r w)
    then show ?case by (auto simp: alloc_runner_id_Some elim!: delivery_inv_frame)
  next
    case (claim g r s l w)
    then show ?case by (auto intro: delivery_inv_claim)
  next
    case (publish_stored l s v w)
    from publish_frame [OF publish_stored(3)] publish_keeps_empty [OF publish_stored(4,3)]
    show ?case by (intro delivery_inv_frame [OF publish_stored(5)]) auto
  next
    case (publish_stale l s v w)
    then have "w = win s" by (auto simp: publish_def split: if_splits)
    then show ?case
      using drop_lease_keeps_empty [OF publish_stale.prems(1)]
      by (intro delivery_inv_frame [OF publish_stale.prems(2)]) (auto simp: drop_lease_frame)
  next
    case (abandon_lease l s)
    then show ?case
      using drop_lease_keeps_empty [OF abandon_lease.prems(1)]
      by (intro delivery_inv_frame [OF abandon_lease.prems(2)]) (auto simp: drop_lease_frame)
  next
    case (take_ready s v w)
    let ?k = "next_reduce (win s) mod width (win s)"
    have k: "?k < width (win s)" using window_len [OF take_ready.prems(1)] by simp
    from take_ready.hyps(3) obtain i g where
      slot: "slots (win s) ! ?k = Some (Ready i g v)"
      and w': "w = (put_slot (next_reduce (win s)) None (win s))
        \<lparr>live_slots := live_slots (win s) - 1\<rparr>"
      by (auto simp: take_frontier_cases [OF take_ready.prems(1)] split: option.splits spec_slot.splits)
    have "g = generation (win s) \<and> i = next_reduce (win s)"
      using window_slot [OF take_ready.prems(1) k slot] window_len [OF take_ready.prems(1)]
        same_position [of i "width (win s)" "next_reduce (win s)" "next_reduce (win s)"] by simp
    moreover have "v = work g i" using take_ready.prems(3) k slot by (auto simp: slots_inv_def)
    ultimately show ?case
      using take_ready.hyps take_ready.prems(2) k w' window_len [OF take_ready.prems(1)]
      by (auto simp: delivery_inv_def)
  next
    case (take_inline s)
    then have "slots (win s) ! (next_reduce (win s) mod width (win s)) = None"
      by (auto simp: take_frontier_cases split: option.splits spec_slot.splits)
    with take_inline show ?case by (auto simp: delivery_inv_def)
  next
    case (reducer_retire s i)
    then show ?case
      using delivery_inv_retired [where s = s and work = work and ph = "Consuming i" and b = True
          and c = "give_back (ready_count (win s)) (credit s)"] by (auto simp: delivery_inv_def)
  next
    case (go_on s i)
    then show ?case by (auto simp: delivery_inv_def sat_add_def window_inv_def)
  next
    case (finish s)
    then show ?case
      using delivery_inv_retired [where s = s and work = work and ph = Stopped and b = False
          and c = "give_back (ready_count (win s)) (credit s)"] by (simp add: delivery_inv_def)
  next
    case (stop s)
    then show ?case
      using delivery_inv_retired [where s = s and work = work and ph = Stopped and b = False
          and c = "give_back (ready_count (win s)) (credit s)"] by (simp add: delivery_inv_def)
  qed (auto simp: delivery_inv_def split: phase.splits)
qed

lemma ordered_inv_start:
  "1 \<le> w \<Longrightarrow> n + w \<le> usize_max \<Longrightarrow> ordered_inv work (ordered_start w n)"
  using window_inv_new [of n w]
  by (simp add: ordered_inv_def ordered_start_def permits_inv_def slots_inv_def
      delivery_inv_def credits.conserved_def new_credits_def new_window_def ready_count_def Let_def)

lemma ordered_reach_inv:
  assumes "1 \<le> w" and "n + w \<le> usize_max" and "ordered_reach work w n s"
  shows "ordered_inv work s \<and> width (win s) = w \<and> candidate_count (win s) = n"
  using assms(3)
proof (induction rule: ordered_reach.induct)
  case start
  then show ?case
    using assms(1,2) ordered_inv_start [of w n work]
    by (simp add: ordered_start_def new_window_def Let_def)
next
  case (step s t)
  then show ?case
    using window_inv_step permits_inv_step slots_inv_step delivery_inv_step width_step
    unfolding ordered_inv_def by metis
qed

section \<open>Occupancy\<close>

definition is_running :: "'r spec_slot option \<Rightarrow> bool" where
  "is_running s \<longleftrightarrow> s \<noteq> None \<and> \<not> is_ready s"

lemma is_running_eq: "is_running s \<longleftrightarrow> (\<exists>i g r. s = Some (RunningExtra i g r))"
  by (cases s) (auto simp: is_running_def is_ready_def split: spec_slot.splits)

lemma occupied_split:
  "length (filter (\<lambda>s. s \<noteq> None) xs) =
     length (filter is_ready xs) + length (filter is_running xs)"
  by (induction xs) (auto simp: is_running_def is_ready_def split: option.splits)

lemma running_bounded:
  assumes w: "window_inv (win s)" and sl: "slots_inv work s"
  shows "length (filter is_running (slots (win s))) \<le> length (leases s)"
proof -
  let ?R = "{k. k < width (win s) \<and> is_running (slots (win s) ! k)}"
  have "k \<in> (\<lambda>l. l_index l mod width (win s)) ` set (leases s)" if "k \<in> ?R" for k
  proof -
    from that obtain i g r where k: "k < width (win s)" "slots (win s) ! k = Some (RunningExtra i g r)"
      by (auto simp: is_running_eq)
    then have "\<lparr>l_index = i, l_generation = g, l_runner = r\<rparr> \<in> set (leases s)"
      using sl by (auto simp: slots_inv_def)
    moreover have "i mod width (win s) = k" using window_slot(2) [OF w k] by simp
    ultimately show ?thesis by force
  qed
  then have "card ?R \<le> card ((\<lambda>l. l_index l mod width (win s)) ` set (leases s))"
    by (intro card_mono) auto
  also have "\<dots> \<le> card (set (leases s))" by (simp add: card_image_le)
  also have "\<dots> \<le> length (leases s)" by (rule card_length)
  finally show ?thesis
    using window_len [OF w] by (simp add: length_filter_conv_card)
qed

lemma ordered_inv_live:
  assumes inv: "ordered_inv work s"
  shows "live_slots (win s) + outside s + length (pending s) + available (credit s) < width (win s)"
proof -
  have w: "window_inv (win s)" using inv by (simp add: ordered_inv_def)
  have "live_slots (win s) = ready_count (win s) + length (filter is_running (slots (win s)))"
    using w by (simp add: window_inv_def ready_count_def occupied_split del: not_None_eq)
  also have "\<dots> \<le> ready_count (win s) + length (leases s)"
    using running_bounded [OF w, of work] inv by (simp add: ordered_inv_def)
  finally show ?thesis
    using inv window_len [OF w] by (auto simp: ordered_inv_def permits_inv_def credits.conserved_def)
qed

section \<open>Properties\<close>

text \<open>
  C6. Speculation is invisible to the consumer: after any interleaving of runners, abandoned and
  stale leases, retirements and cancellations, the consumer has been given the items 0, 1, 2, ...
  in order, without gaps or repeats, each with the value the worker yields under the generation
  current at its delivery; when the loop runs out of items, it has been given all of them.
\<close>

theorem ordered_delivery:
  assumes "1 \<le> w" and "n + w \<le> usize_max" and "ordered_reach work w n s"
  shows "map fst (delivered s) = [0..<length (delivered s)] \<and> length (delivered s) \<le> n \<and>
    (\<forall>(i, g, v) \<in> set (delivered s). v = work g i \<and> g \<le> generation (win s)) \<and>
    (phase s = Top \<longrightarrow> n \<le> next_reduce (win s) \<longrightarrow> length (delivered s) = n)"
proof -
  from ordered_reach_inv [OF assms] have "delivery_inv work s" "candidate_count (win s) = n"
    by (simp_all add: ordered_inv_def)
  then show ?thesis by (auto simp: delivery_inv_def)
qed

text \<open>A run over two items on a window of two: the second item is speculated and consumed.\<close>

definition demo_work :: "nat \<Rightarrow> nat \<Rightarrow> nat" where
  "demo_work g i = 10 * g + i + 7"

definition demo_win :: "nat \<Rightarrow> nat \<Rightarrow> nat spec_slot option \<Rightarrow> nat window" where
  "demo_win nr live s1 =
     \<lparr>width = 2, candidate_count = 2, next_runner_id = 1, generation = 0, next_reduce = nr,
      accepting = True, live_slots = live, slots = [None, s1]\<rparr>"

definition demo_sys :: "nat window \<Rightarrow> nat \<Rightarrow> lease list \<Rightarrow> nat phase \<Rightarrow> (nat \<times> nat \<times> nat) list \<Rightarrow> nat ordered_sys" where
  "demo_sys w free ls ph d =
     \<lparr>win = w, credit = \<lparr>capacity = 1, available = free\<rparr>, outside = 0, pending = [], leases = ls,
      phase = ph, delivered = d\<rparr>"

definition demo_lease :: lease where
  "demo_lease = \<lparr>l_index = 1, l_generation = 0, l_runner = 1\<rparr>"

lemmas demo_defs = demo_sys_def demo_win_def demo_work_def demo_lease_def put_slot_def

lemma sat_add_small: "a + b \<le> 1000 \<Longrightarrow> sat_add a b = a + b"
  by (simp add: sat_add_def usize_max_def)

lemma demo_new: "(new_window 2 2)\<lparr>next_runner_id := 1\<rparr> = demo_win 0 0 None"
  by (simp add: new_window_def demo_win_def numeral_2_eq_2)

lemma demo_claimed:
  "ordered_reach demo_work 2 2
     (demo_sys (demo_win 0 1 (Some (RunningExtra 1 0 1))) 0 [demo_lease] Top [])"
proof -
  let ?s0 = "ordered_start 2 2 :: nat ordered_sys"
  let ?s1 = "?s0\<lparr>credit := \<lparr>capacity = 1, available = 0\<rparr>, outside := 1\<rparr>"
  let ?s2 = "?s1\<lparr>win := (new_window 2 2)\<lparr>next_runner_id := 1\<rparr>, outside := 0, pending := [(0, 1)]\<rparr>"
  have two: "[Suc 0..<2] = [1]" by (simp add: numeral_2_eq_2)
  have "ordered_step demo_work ?s0 ?s1"
    using ordered_step.take_permit [of ?s0 "\<lparr>capacity = 1, available = 0\<rparr>" demo_work]
    by (simp add: ordered_start_def try_acquire_def new_credits_def)
  moreover have "ordered_step demo_work ?s1 ?s2"
    using ordered_step.start_claim [of ?s1 0 1 "(new_window 2 2)\<lparr>next_runner_id := 1\<rparr>" demo_work]
    by (simp add: ordered_start_def alloc_runner_id_Some new_window_def Let_def usize_max_def)
  moreover have "claim_slot 0 1 (win ?s2) =
      Some (demo_lease, demo_win 0 1 (Some (RunningExtra 1 0 1)))"
    by (simp add: demo_new [simplified] claim_slot_def speculative_range_def two
        window_end_def sat_add_small slot_at_def demo_defs)
  then have "ordered_step demo_work ?s2
      (demo_sys (demo_win 0 1 (Some (RunningExtra 1 0 1))) 0 [demo_lease] Top [])"
    using ordered_step.claim [of 0 1 ?s2 demo_lease] by (simp add: ordered_start_def demo_sys_def)
  ultimately show ?thesis by (meson ordered_reach.intros)
qed

lemma demo_run:
  "ordered_reach demo_work 2 2 (demo_sys (demo_win 2 0 None) 1 [] Top [(0, 0, 7), (1, 0, 8)])"
proof -
  let ?a = "demo_sys (demo_win 0 1 (Some (RunningExtra 1 0 1))) 0 [demo_lease] Top []"
  let ?b = "demo_sys (demo_win 0 1 (Some (Ready 1 0 8))) 0 [] Top []"
  let ?c = "demo_sys (demo_win 0 1 (Some (Ready 1 0 8))) 0 [] (Taken 0 7) []"
  let ?d = "demo_sys (demo_win 0 1 (Some (Ready 1 0 8))) 0 [] (Consuming 0) [(0, 0, 7)]"
  let ?e = "demo_sys (demo_win 1 1 (Some (Ready 1 0 8))) 0 [] Top [(0, 0, 7)]"
  let ?f = "demo_sys (demo_win 1 0 None) 1 [] (Taken 1 8) [(0, 0, 7)]"
  let ?g = "demo_sys (demo_win 1 0 None) 1 [] (Consuming 1) [(0, 0, 7), (1, 0, 8)]"
  note sims = demo_defs publish_def owns_slot_def slot_at_def take_frontier_def advance_def
    sat_add_small release_def
  have "ordered_step demo_work ?a ?b"
    using ordered_step.publish_stored [of demo_lease ?a 8 demo_work "demo_win 0 1 (Some (Ready 1 0 8))"]
    by (simp add: sims)
  moreover have "ordered_step demo_work ?b ?c"
    using ordered_step.take_inline [of ?b demo_work] by (simp add: sims)
  moreover have "ordered_step demo_work ?c ?d"
    using ordered_step.consume [of ?c 0 7 demo_work] by (simp add: sims)
  moreover have "ordered_step demo_work ?d ?e"
    using ordered_step.go_on [of ?d 0 demo_work] by (simp add: sims)
  moreover have "ordered_step demo_work ?e ?f"
    using ordered_step.take_ready [of ?e 8 "demo_win 1 0 None" demo_work] by (simp add: sims)
  moreover have "ordered_step demo_work ?f ?g"
    using ordered_step.consume [of ?f 1 8 demo_work] by (simp add: sims)
  moreover have "ordered_step demo_work ?g
      (demo_sys (demo_win 2 0 None) 1 [] Top [(0, 0, 7), (1, 0, 8)])"
    using ordered_step.go_on [of ?g 1 demo_work] by (simp add: sims numeral_2_eq_2)
  ultimately show ?thesis using demo_claimed by (meson ordered_reach.step)
qed

theorem ordered_delivery_witness:
  "map fst [(0, 0, 7), (1, 0, 8 :: nat)] = [0..<length [(0 :: nat, 0 :: nat, 7), (1, 0, 8 :: nat)]] \<and>
    length (delivered (demo_sys (demo_win 2 0 None) 1 [] Top [(0, 0, 7), (1, 0, 8)])) = 2"
  using ordered_delivery [OF _ _ demo_run]
  by (simp add: demo_sys_def demo_win_def usize_max_def)

text \<open>
  C7. The window never fills: the live slots, together with every permit that is elsewhere, stay
  below the width, because each live slot and each lease owns one of the executor's width - 1
  permits. This is the assertion of \<open>try_claim\<close>, and no permit is lost or returned twice.
\<close>

theorem ordered_occupancy:
  assumes "1 \<le> w" and "n + w \<le> usize_max" and "ordered_reach work w n s"
  shows "live_slots (win s) + outside s + length (pending s) + available (credit s) < w \<and>
    live_slots (win s) = length (filter (\<lambda>s. s \<noteq> None) (slots (win s))) \<and>
    available (credit s) + outside s + length (pending s) + length (leases s) +
      ready_count (win s) = w - 1"
  using ordered_reach_inv [OF assms] ordered_inv_live [of work s]
  by (auto simp: ordered_inv_def permits_inv_def credits.conserved_def window_inv_def)

theorem ordered_occupancy_witness:
  "live_slots (win (demo_sys (demo_win 0 1 (Some (RunningExtra 1 0 1))) 0 [demo_lease] Top [])) < 2"
  using ordered_occupancy [OF _ _ demo_claimed] by (simp add: usize_max_def)

text \<open>
  C8. The coordinator is never stranded: with items left, the frontier is ready, or is computed
  inline, or belongs to a live lease; that lease's publication makes the frontier ready with its
  value, and abandoning it makes the frontier inline.
\<close>

theorem frontier_never_stranded:
  assumes "1 \<le> w" and "n + w \<le> usize_max" and "ordered_reach work w n s"
    and "phase s = Top" and "next_reduce (win s) < n"
  shows "(\<exists>v w'. take_frontier (next_reduce (win s)) (win s) = FReady v w') \<or>
    take_frontier (next_reduce (win s)) (win s) = FInline \<or>
    (\<exists>l \<in> set (leases s). l_index l = next_reduce (win s) \<and>
       take_frontier (next_reduce (win s)) (drop_lease l (win s)) = FInline \<and>
       (\<forall>v. \<exists>w' w''. publish l v (win s) = (True, w') \<and>
          take_frontier (next_reduce (win s)) w' = FReady v w''))"
proof -
  have inv: "window_inv (win s)" "slots_inv work s"
    using ordered_reach_inv [OF assms(1-3)] by (simp_all add: ordered_inv_def)
  let ?k = "next_reduce (win s) mod width (win s)"
  have k: "?k < width (win s)" "?k < length (slots (win s))" using window_len [OF inv(1)] by simp_all
  show ?thesis
  proof (cases "\<exists>i g r. slots (win s) ! ?k = Some (RunningExtra i g r)")
    case True
    then obtain i g r where slot: "slots (win s) ! ?k = Some (RunningExtra i g r)" by blast
    note ws = window_slot [OF inv(1) k(1) slot]
    have i: "i = next_reduce (win s)"
      using ws(2,4,5) window_len [OF inv(1)]
        same_position [of i "width (win s)" "next_reduce (win s)" "next_reduce (win s)"] by simp
    let ?l = "\<lparr>l_index = i, l_generation = g, l_runner = r\<rparr>"
    have "?l \<in> set (leases s)" using inv(2) k slot by (auto simp: slots_inv_def)
    moreover have "owns_slot ?l (win s)" using slot i by (simp add: owns_slot_def slot_at_def)
    ultimately show ?thesis
      using ws(1,3) i k
      by (intro disjI2 bexI [of _ ?l]) (simp_all add: publish_def drop_lease_def take_frontier_def)
  next
    case False
    then show ?thesis
      by (auto simp: take_frontier_cases [OF inv(1)] split: option.split spec_slot.split)
  qed
qed

lemma demo_waiting:
  "ordered_reach demo_work 2 2
     (demo_sys (demo_win 1 1 (Some (RunningExtra 1 0 1))) 0 [demo_lease] Top [(0, 0, 7)])"
proof -
  let ?a = "demo_sys (demo_win 0 1 (Some (RunningExtra 1 0 1))) 0 [demo_lease] Top []"
  let ?b = "demo_sys (demo_win 0 1 (Some (RunningExtra 1 0 1))) 0 [demo_lease] (Taken 0 7) []"
  let ?c = "demo_sys (demo_win 0 1 (Some (RunningExtra 1 0 1))) 0 [demo_lease] (Consuming 0) [(0, 0, 7)]"
  have "ordered_step demo_work ?a ?b"
    using ordered_step.take_inline [of ?a demo_work] by (simp add: demo_defs take_frontier_def)
  moreover have "ordered_step demo_work ?b ?c"
    using ordered_step.consume [of ?b 0 7 demo_work] by (simp add: demo_defs)
  moreover have "ordered_step demo_work ?c
      (demo_sys (demo_win 1 1 (Some (RunningExtra 1 0 1))) 0 [demo_lease] Top [(0, 0, 7)])"
    using ordered_step.go_on [of ?c 0 demo_work]
    by (simp add: demo_defs advance_def sat_add_small)
  ultimately show ?thesis using demo_claimed by (meson ordered_reach.step)
qed

theorem frontier_never_stranded_witness:
  "\<exists>w' w''. publish demo_lease 8 (demo_win 1 1 (Some (RunningExtra 1 0 1))) = (True, w') \<and>
     take_frontier 1 w' = FReady 8 w''"
  using frontier_never_stranded [OF _ _ demo_waiting]
  by (auto simp: usize_max_def demo_sys_def demo_win_def take_frontier_def)

end
