(* ===== verification/Tokens.thy ===== *)
theory Tokens
  imports Operation
begin

text \<open>
  Exact token accounting (\<open>src/src/budget.rs\<close>): the incremental prefix counter, the conservative
  line counter and the assembly of response text.

  The o200k tokenizer is a third-party crate, so it is a parameter: a record of its four entry
  points. What the code relies on is stated by name: \<open>tokenizer_contract\<close> (pieces lose no
  text, a count is the sum over pieces, no normalisation, a token is at least one byte), \<open>closes T t u\<close> (appending \<open>u\<close> to \<open>t\<close>
  changes no piece of \<open>t\<close> but the last) and \<open>subadditive\<close> (joining two texts never needs more
  tokens than encoding them separately).
\<close>

record tokenizer =
  normalize :: "utf8 \<Rightarrow> utf8"
  pieces :: "utf8 \<Rightarrow> utf8 list"
  bpe_count :: "utf8 \<Rightarrow> nat"
  estimate_tokens :: "utf8 \<Rightarrow> nat"

definition tokenizer_contract :: "tokenizer \<Rightarrow> bool" where
  "tokenizer_contract T \<longleftrightarrow>
     (\<forall>t. concat (pieces T t) = t \<and> [] \<notin> set (pieces T t) \<and> normalize T t = t \<and>
          estimate_tokens T t = sum_list (map (bpe_count T) (pieces T t)) \<and>
          bpe_count T t \<le> length t)"

definition last_piece :: "tokenizer \<Rightarrow> utf8 \<Rightarrow> utf8" where
  "last_piece T t = (if pieces T t = [] then [] else last (pieces T t))"

definition closes :: "tokenizer \<Rightarrow> utf8 \<Rightarrow> utf8 \<Rightarrow> bool" where
  "closes T t u \<longleftrightarrow> pieces T (t @ u) = butlast (pieces T t) @ pieces T (last_piece T t @ u)"

definition subadditive :: "tokenizer \<Rightarrow> bool" where
  "subadditive T \<longleftrightarrow>
     (\<forall>t u. estimate_tokens T (t @ u) \<le> estimate_tokens T t + estimate_tokens T u)"

section \<open>Polling\<close>

text \<open>Tokenising work polls a checkpoint that can report a cancellation or a retirement.\<close>

type_synonym work_probe = "nat \<Rightarrow> work_stop option"

datatype token_count_error =
  TokenStopped work_stop | TokenOverflow | UnsupportedNormalization

definition check_token_work :: "work_probe option \<Rightarrow> nat \<Rightarrow> token_count_error + nat" where
  "check_token_work op k =
     (case op of
        None \<Rightarrow> Inr k
      | Some p \<Rightarrow> (case p k of None \<Rightarrow> Inr (Suc k) | Some stop \<Rightarrow> Inl (TokenStopped stop)))"

definition undisturbed :: "work_probe option \<Rightarrow> bool" where
  "undisturbed op \<longleftrightarrow> (case op of None \<Rightarrow> True | Some p \<Rightarrow> (\<forall>k. p k = None))"

lemma check_token_work_Inl: "check_token_work op k = Inl e \<Longrightarrow> \<exists>s. e = TokenStopped s"
  by (auto simp: check_token_work_def split: option.splits)

lemma check_token_work_undisturbed: "undisturbed op \<Longrightarrow> check_token_work op k \<noteq> Inl e"
  by (auto simp: check_token_work_def undisturbed_def split: option.splits)

section \<open>The exact prefix counter\<close>

text \<open>\<open>ExactPrefixCounter\<close> and its snapshot \<open>TokenCheckpoint\<close> hold the same two fields.\<close>

record prefix_counter =
  committed_tokens :: nat
  unresolved_tail :: utf8

definition default_counter :: prefix_counter where
  "default_counter = \<lparr>committed_tokens = 0, unresolved_tail = []\<rparr>"

fun commit_pieces ::
    "tokenizer \<Rightarrow> work_probe option \<Rightarrow> nat \<Rightarrow> utf8 option \<Rightarrow> utf8 list \<Rightarrow> nat
       \<Rightarrow> token_count_error + nat \<times> utf8 option \<times> nat" where
  "commit_pieces T op committed pending [] k = Inr (committed, pending, k)"
| "commit_pieces T op committed pending (piece # rest) k =
     bind_r (check_token_work op k) (\<lambda>k.
       case pending of
         None \<Rightarrow> commit_pieces T op committed (Some piece) rest k
       | Some closed \<Rightarrow>
           bind_r (ok_or TokenOverflow (checked_add committed (bpe_count T closed))) (\<lambda>committed.
             commit_pieces T op committed (Some piece) rest k))"

definition append_fragment ::
    "tokenizer \<Rightarrow> work_probe option \<Rightarrow> utf8 \<Rightarrow> prefix_counter \<Rightarrow> nat
       \<Rightarrow> token_count_error + prefix_counter \<times> nat" where
  "append_fragment T op fragment c k =
     bind_r (check_token_work op k) (\<lambda>k.
       if fragment = [] then Inr (c, k)
       else
         let combined = unresolved_tail c @ fragment in
         if normalize T combined \<noteq> combined then Inl UnsupportedNormalization
         else
           bind_r (commit_pieces T op (committed_tokens c) None (pieces T (normalize T combined)) k)
             (\<lambda>(committed, pending, k).
               map_r (\<lambda>k. (\<lparr>committed_tokens = committed,
                            unresolved_tail = (case pending of None \<Rightarrow> [] | Some tail \<Rightarrow> tail)\<rparr>, k))
                 (check_token_work op k)))"

fun sum_pieces ::
    "tokenizer \<Rightarrow> work_probe option \<Rightarrow> nat \<Rightarrow> utf8 list \<Rightarrow> nat \<Rightarrow> token_count_error + nat \<times> nat" where
  "sum_pieces T op acc [] k = Inr (acc, k)"
| "sum_pieces T op acc (piece # rest) k =
     bind_r (check_token_work op k) (\<lambda>k.
       bind_r (ok_or TokenOverflow (checked_add acc (bpe_count T piece))) (\<lambda>acc.
         sum_pieces T op acc rest k))"

definition count_exact_pieces ::
    "tokenizer \<Rightarrow> work_probe option \<Rightarrow> utf8 \<Rightarrow> nat \<Rightarrow> token_count_error + nat \<times> nat" where
  "count_exact_pieces T op text k =
     bind_r (check_token_work op k) (\<lambda>k.
       if normalize T text \<noteq> text then Inl UnsupportedNormalization
       else bind_r (sum_pieces T op 0 (pieces T (normalize T text)) k) (\<lambda>(acc, k).
         map_r (\<lambda>k. (acc, k)) (check_token_work op k)))"

definition count_with_suffix ::
    "tokenizer \<Rightarrow> work_probe option \<Rightarrow> prefix_counter \<Rightarrow> utf8 \<Rightarrow> nat
       \<Rightarrow> token_count_error + nat \<times> nat" where
  "count_with_suffix T op c suffix k =
     bind_r (count_exact_pieces T op (unresolved_tail c @ suffix) k) (\<lambda>(n, k).
       map_r (\<lambda>acc. (acc, k)) (ok_or TokenOverflow (checked_add (committed_tokens c) n)))"

definition verify_full ::
    "tokenizer \<Rightarrow> work_probe option \<Rightarrow> utf8 \<Rightarrow> nat \<Rightarrow> token_count_error + nat \<times> nat" where
  "verify_full T op text k =
     bind_r (check_token_work op k) (\<lambda>k.
       map_r (\<lambda>k. (estimate_tokens T text, k)) (check_token_work op k))"

fun append_all ::
    "tokenizer \<Rightarrow> work_probe option \<Rightarrow> utf8 list \<Rightarrow> prefix_counter \<Rightarrow> nat
       \<Rightarrow> token_count_error + prefix_counter \<times> nat" where
  "append_all T op [] c k = Inr (c, k)"
| "append_all T op (f # fs) c k =
     bind_r (append_fragment T op f c k) (\<lambda>(c, k). append_all T op fs c k)"

section \<open>Exactness\<close>

definition counts_prefix :: "tokenizer \<Rightarrow> utf8 \<Rightarrow> prefix_counter \<Rightarrow> bool" where
  "counts_prefix T t c \<longleftrightarrow>
     committed_tokens c = sum_list (map (bpe_count T) (butlast (pieces T t))) \<and>
     unresolved_tail c = last_piece T t"

fun closes_all :: "tokenizer \<Rightarrow> utf8 \<Rightarrow> utf8 list \<Rightarrow> bool" where
  "closes_all T t [] \<longleftrightarrow> True"
| "closes_all T t (f # fs) \<longleftrightarrow> closes T t f \<and> closes_all T (t @ f) fs"

lemma pieces_empty: "tokenizer_contract T \<Longrightarrow> pieces T t = [] \<Longrightarrow> t = []"
  by (metis concat.simps(1) tokenizer_contract_def)

lemma tokenizer_contract_count:
  "tokenizer_contract T \<Longrightarrow> estimate_tokens T t = sum_list (map (bpe_count T) (pieces T t))"
  by (simp add: tokenizer_contract_def)

lemma sum_butlast:
  "xs \<noteq> [] \<Longrightarrow> sum_list (map f (butlast xs)) + f (last xs) = (sum_list (map f xs) :: nat)"
  by (induction xs) auto

lemma commit_pieces_result:
  "commit_pieces T op acc pending ps k = Inr (acc', pending', k') \<Longrightarrow>
     (let qs = (case pending of None \<Rightarrow> ps | Some p \<Rightarrow> p # ps) in
      acc' = acc + sum_list (map (bpe_count T) (butlast qs)) \<and>
      pending' = (if qs = [] then None else Some (last qs)))"
proof (induction ps arbitrary: acc pending k)
  case Nil
  then show ?case by (auto split: option.splits)
next
  case (Cons p ps)
  from Cons.prems obtain k1 where
    chk: "check_token_work op k = Inr k1" by (auto simp: bind_simps)
  show ?case
  proof (cases pending)
    case None
    with Cons.prems chk Cons.IH [of acc "Some p" k1] show ?thesis by (simp add: Let_def)
  next
    case (Some q)
    with Cons.prems chk have
      "commit_pieces T op (acc + bpe_count T q) (Some p) ps k1 = Inr (acc', pending', k')"
      by (auto simp: bind_simps sat_simps)
    from Cons.IH [OF this] Some show ?thesis by (simp add: Let_def)
  qed
qed

lemma commit_pieces_total:
  assumes "undisturbed op"
  shows "acc + sum_list (map (bpe_count T) (case pending of None \<Rightarrow> ps | Some p \<Rightarrow> p # ps)) \<le> usize_max
    \<Longrightarrow> \<exists>r. commit_pieces T op acc pending ps k = Inr r"
proof (induction ps arbitrary: acc pending k)
  case (Cons p ps)
  obtain k1 where chk: "check_token_work op k = Inr k1"
    using check_token_work_undisturbed [OF assms, of k] by (cases "check_token_work op k") auto
  show ?case
  proof (cases pending)
    case None
    with Cons.prems chk Cons.IH [of acc "Some p" k1] show ?thesis by simp
  next
    case (Some q)
    then have "checked_add acc (bpe_count T q) = Some (acc + bpe_count T q)"
      using Cons.prems by (simp add: sat_simps)
    with Some Cons.prems chk Cons.IH [of "acc + bpe_count T q" "Some p" k1] show ?thesis
      by (simp add: add.assoc)
  qed
qed simp

lemma append_counts_prefix:
  assumes T: "tokenizer_contract T" and c: "counts_prefix T t c" and cl: "closes T t f"
    and app: "append_fragment T op f c k = Inr (c', k')"
  shows "counts_prefix T (t @ f) c'"
proof (cases "f = []")
  case True
  with app c show ?thesis by (auto simp: append_fragment_def bind_simps)
next
  case False
  let ?qs = "pieces T (unresolved_tail c @ f)"
  from app False obtain committed pending k1 k2 where
    com: "commit_pieces T op (committed_tokens c) None ?qs k1 = Inr (committed, pending, k2)"
    and c': "c' = \<lparr>committed_tokens = committed,
      unresolved_tail = (case pending of None \<Rightarrow> [] | Some tail \<Rightarrow> tail)\<rparr>"
    by (auto simp: append_fragment_def bind_simps Let_def split: if_splits)
  have ne: "?qs \<noteq> []" using pieces_empty [OF T] False by blast
  from commit_pieces_result [OF com] ne have
    "committed = committed_tokens c + sum_list (map (bpe_count T) (butlast ?qs))"
    "pending = Some (last ?qs)" by (simp_all add: Let_def)
  moreover have "pieces T (t @ f) = butlast (pieces T t) @ ?qs"
    using cl c by (simp add: closes_def counts_prefix_def)
  ultimately show ?thesis
    using c c' ne by (simp add: counts_prefix_def last_piece_def butlast_append)
qed

lemma append_fragment_total:
  assumes T: "tokenizer_contract T" and c: "counts_prefix T t c" and cl: "closes T t f"
    and small: "estimate_tokens T (t @ f) \<le> usize_max" and op: "undisturbed op"
  shows "\<exists>r. append_fragment T op f c k = Inr r"
proof -
  let ?qs = "pieces T (unresolved_tail c @ f)"
  obtain k1 where k1: "check_token_work op k = Inr k1"
    using check_token_work_undisturbed [OF op, of k] by (cases "check_token_work op k") auto
  have "estimate_tokens T (t @ f) = committed_tokens c + sum_list (map (bpe_count T) ?qs)"
    using cl c tokenizer_contract_count [OF T] by (simp add: closes_def counts_prefix_def)
  with small obtain committed pending k2 where
    com: "commit_pieces T op (committed_tokens c) None ?qs k1 = Inr (committed, pending, k2)"
    using commit_pieces_total [OF op, where pending = None and acc = "committed_tokens c" and ps = ?qs and T = T and k = k1]
    by auto
  obtain k3 where "check_token_work op k2 = Inr k3"
    using check_token_work_undisturbed [OF op, of k2] by (cases "check_token_work op k2") auto
  with k1 com T show ?thesis
    by (simp add: append_fragment_def Let_def tokenizer_contract_def)
qed

lemma sum_pieces_result:
  "sum_pieces T op acc ps k = Inr (n, k') \<Longrightarrow> n = acc + sum_list (map (bpe_count T) ps)"
  by (induction ps arbitrary: acc k) (fastforce simp: bind_simps sat_simps)+

lemma sum_pieces_total:
  assumes "undisturbed op"
  shows "acc + sum_list (map (bpe_count T) ps) \<le> usize_max \<Longrightarrow>
    \<exists>r. sum_pieces T op acc ps k = Inr r"
proof (induction ps arbitrary: acc k)
  case (Cons p ps)
  obtain k1 where "check_token_work op k = Inr k1"
    using check_token_work_undisturbed [OF assms, of k] by (cases "check_token_work op k") auto
  moreover have "checked_add acc (bpe_count T p) = Some (acc + bpe_count T p)"
    using Cons.prems by (simp add: sat_simps)
  ultimately show ?case
    using Cons.prems Cons.IH [of "acc + bpe_count T p" k1] by (simp add: add.assoc)
qed simp

lemma count_with_suffix_exact:
  assumes T: "tokenizer_contract T" and c: "counts_prefix T t c" and cl: "closes T t u"
    and cnt: "count_with_suffix T op c u k = Inr (n, k')"
  shows "n = estimate_tokens T (t @ u)"
proof -
  from cnt obtain m k1 k2 where
    "sum_pieces T op 0 (pieces T (unresolved_tail c @ u)) k1 = Inr (m, k2)"
    and n: "n = committed_tokens c + m"
    using T by (auto simp: count_with_suffix_def count_exact_pieces_def bind_simps sat_simps
        tokenizer_contract_def split: if_splits)
  from sum_pieces_result [OF this(1)] n show ?thesis
    using cl c tokenizer_contract_count [OF T] by (simp add: closes_def counts_prefix_def)
qed

lemma count_with_suffix_total:
  assumes T: "tokenizer_contract T" and c: "counts_prefix T t c" and cl: "closes T t u"
    and small: "estimate_tokens T (t @ u) \<le> usize_max" and op: "undisturbed op"
  shows "\<exists>r. count_with_suffix T op c u k = Inr r"
proof -
  let ?qs = "pieces T (unresolved_tail c @ u)"
  obtain k1 where k1: "check_token_work op k = Inr k1"
    using check_token_work_undisturbed [OF op, of k] by (cases "check_token_work op k") auto
  have eq: "estimate_tokens T (t @ u) = committed_tokens c + sum_list (map (bpe_count T) ?qs)"
    using cl c tokenizer_contract_count [OF T] by (simp add: closes_def counts_prefix_def)
  with small obtain m k2 where s: "sum_pieces T op 0 ?qs k1 = Inr (m, k2)"
    using sum_pieces_total [OF op, of 0 T ?qs k1] by auto
  obtain k3 where "check_token_work op k2 = Inr k3"
    using check_token_work_undisturbed [OF op, of k2] by (cases "check_token_work op k2") auto
  moreover have "checked_add (committed_tokens c) m = Some (committed_tokens c + m)"
    using sum_pieces_result [OF s] eq small by (simp add: sat_simps)
  ultimately show ?thesis
    using k1 s T by (simp add: count_with_suffix_def count_exact_pieces_def tokenizer_contract_def)
qed

lemma counts_prefix_default: "pieces T [] = [] \<Longrightarrow> counts_prefix T [] default_counter"
  by (simp add: counts_prefix_def default_counter_def last_piece_def)

lemma append_all_counts:
  "tokenizer_contract T \<Longrightarrow> counts_prefix T t c \<Longrightarrow> closes_all T t fs \<Longrightarrow>
     append_all T op fs c k = Inr (c', k') \<Longrightarrow> counts_prefix T (t @ concat fs) c'"
proof (induction fs arbitrary: t c k)
  case (Cons f fs)
  from Cons.prems(4) obtain c1 k1 where
    step: "append_fragment T op f c k = Inr (c1, k1)" "append_all T op fs c1 k1 = Inr (c', k')"
    by (auto simp: bind_simps)
  with Cons.prems append_counts_prefix [of T t c f op k c1 k1] Cons.IH [of "t @ f" c1 k1]
  show ?case by simp
qed simp

section \<open>The conservative line counter\<close>

record line_counter =
  lc_tokens :: nat
  has_line :: bool

definition push_line :: "tokenizer \<Rightarrow> utf8 \<Rightarrow> line_counter \<Rightarrow> line_counter" where
  "push_line T line c =
     (let n = (if has_line c then sat_add (lc_tokens c) (estimate_tokens T [nl]) else lc_tokens c) in
      \<lparr>lc_tokens = sat_add n (estimate_tokens T line), has_line = True\<rparr>)"

definition default_line_counter :: line_counter where
  "default_line_counter = \<lparr>lc_tokens = 0, has_line = False\<rparr>"

section \<open>Assembly\<close>

definition assemble_text :: "utf8 list \<Rightarrow> utf8 list \<Rightarrow> utf8" where
  "assemble_text lines notes =
     (let text = join [nl] lines in
      if notes = [] then text
      else (if text = [] then [] else text @ [nl, nl]) @ join [nl] notes)"

section \<open>Properties\<close>

lemma token_bound: assumes "tokenizer_contract T" shows "estimate_tokens T t \<le> length t"
proof -
  have "sum_list (map (bpe_count T) ps) \<le> length (concat ps)" for ps
    using assms by (induction ps) (auto simp: tokenizer_contract_def intro: add_mono)
  then show ?thesis using assms by (metis tokenizer_contract_def)
qed

lemma pieces_of_empty: "tokenizer_contract T \<Longrightarrow> pieces T [] = []"
  by (metis concat_eq_Nil_conv ex_in_conv set_empty tokenizer_contract_def)

lemma append_all_total:
  assumes T: "tokenizer_contract T" and op: "undisturbed op"
  shows "counts_prefix T t c \<Longrightarrow> closes_all T t fs \<Longrightarrow> length (t @ concat fs) \<le> usize_max \<Longrightarrow>
    \<exists>r. append_all T op fs c k = Inr r"
proof (induction fs arbitrary: t c k)
  case (Cons f fs)
  have "estimate_tokens T (t @ f) \<le> usize_max"
    using token_bound [OF T, of "t @ f"] Cons.prems(3) by simp
  then obtain c1 k1 where step: "append_fragment T op f c k = Inr (c1, k1)"
    using append_fragment_total [OF T Cons.prems(1), of f op k] Cons.prems(2) op by auto
  moreover have "counts_prefix T (t @ f) c1"
    using append_counts_prefix [OF T Cons.prems(1) _ step] Cons.prems(2) by simp
  ultimately show ?case using Cons.IH [of "t @ f" c1 k1] Cons.prems by simp
qed simp

lemma closes_all_append:
  "closes_all T t (fs @ gs) \<longleftrightarrow> closes_all T t fs \<and> closes_all T (t @ concat fs) gs"
  by (induction fs arbitrary: t) auto

text \<open>
  C9. The incremental counter is exact: for any chunking of a text whose boundaries the tokenizer
  closes, appending the chunks and counting a suffix from the resulting checkpoint terminates
  without error and gives the token count of the whole text.
\<close>

theorem exact_prefix_count:
  assumes T: "tokenizer_contract T" and cl: "closes_all T [] (fs @ [u])"
    and small: "length (concat fs @ u) \<le> usize_max" and op: "undisturbed op"
  shows "\<exists>c k' k''. append_all T op fs default_counter k = Inr (c, k') \<and>
    count_with_suffix T op c u k' = Inr (estimate_tokens T (concat fs @ u), k'')"
proof -
  have zero: "counts_prefix T [] default_counter"
    by (simp add: counts_prefix_default pieces_of_empty [OF T])
  have cls: "closes_all T [] fs" "closes T (concat fs) u" using cl by (auto simp: closes_all_append)
  obtain c k' where app: "append_all T op fs default_counter k = Inr (c, k')"
    using append_all_total [OF T op zero cls(1), of k] small by auto
  have c: "counts_prefix T (concat fs) c" using append_all_counts [OF T zero cls(1) app] by simp
  have "estimate_tokens T (concat fs @ u) \<le> usize_max"
    using token_bound [OF T, of "concat fs @ u"] small by linarith
  then obtain n k'' where cnt: "count_with_suffix T op c u k' = Inr (n, k'')"
    using count_with_suffix_total [OF T c cls(2) _ op] by fastforce
  with app count_with_suffix_exact [OF T c cls(2) cnt] show ?thesis by auto
qed

text \<open>A tokenizer with one piece per byte and one token per piece satisfies every law.\<close>

definition byte_tokenizer :: tokenizer where
  "byte_tokenizer =
     \<lparr>normalize = (\<lambda>t. t), pieces = map (\<lambda>c. [c]), bpe_count = (\<lambda>p. min 1 (length p)),
      estimate_tokens = length\<rparr>"

lemma byte_tokenizer_contract: "tokenizer_contract byte_tokenizer"
proof -
  have "sum_list (map (\<lambda>c. min (Suc 0) (length [c])) t) = length t" for t :: utf8
    by (induction t) auto
  then show ?thesis
    by (auto simp: tokenizer_contract_def byte_tokenizer_def o_def)
qed

lemma byte_tokenizer_closes: "closes byte_tokenizer t u"
  by (cases t rule: rev_cases) (auto simp: closes_def byte_tokenizer_def last_piece_def)

lemma byte_tokenizer_closes_all: "closes_all byte_tokenizer t fs"
  by (induction fs arbitrary: t) (auto simp: byte_tokenizer_closes)

lemma byte_tokens: "estimate_tokens byte_tokenizer t = length t"
  by (simp add: byte_tokenizer_def)

lemma byte_tokenizer_subadditive: "subadditive byte_tokenizer"
  by (simp add: subadditive_def byte_tokenizer_def)

theorem exact_prefix_count_witness:
  "\<exists>c k' k''. append_all byte_tokenizer None [''ab'', ''c''] default_counter 0 = Inr (c, k') \<and>
    count_with_suffix byte_tokenizer None c ''de'' k' = Inr (length ''abcde'', k'')"
  using exact_prefix_count [OF byte_tokenizer_contract byte_tokenizer_closes_all,
      of "[''ab'', ''c'']" "''de''" None 0]
  by (simp add: undisturbed_def usize_large byte_tokens del: append_all.simps)

text \<open>
  The line counter is conservative: after any lines it reports at least the tokens of the lines
  joined by line feeds, although it only ever encodes one line at a time and saturates.
\<close>

theorem line_counter_conservative:
  assumes T: "tokenizer_contract T" and sub: "subadditive T"
    and small: "length (join [nl] lines) \<le> usize_max"
  shows "estimate_tokens T (join [nl] lines)
    \<le> lc_tokens (foldl (\<lambda>c line. push_line T line c) default_line_counter lines)"
  using small
proof (induction lines rule: rev_induct)
  case Nil
  then show ?case
    using token_bound [OF T, of "[]"] by simp
next
  case (snoc line lines)
  let ?c = "foldl (\<lambda>c line. push_line T line c) default_line_counter lines"
  have has: "has_line ?c \<longleftrightarrow> lines \<noteq> []"
    by (cases lines rule: rev_cases) (simp_all add: default_line_counter_def push_line_def Let_def)
  have bound: "estimate_tokens T (join [nl] (lines @ [line])) \<le> usize_max"
    using token_bound [OF T, of "join [nl] (lines @ [line])"] snoc.prems by linarith
  show ?case
  proof (cases "lines = []")
    case True
    with bound show ?thesis
      by (simp add: push_line_def default_line_counter_def sat_add_def)
  next
    case False
    then have j: "join [nl] (lines @ [line]) = join [nl] lines @ [nl] @ line" by (simp add: join_snoc)
    have "estimate_tokens T (join [nl] (lines @ [line])) \<le>
        estimate_tokens T (join [nl] lines) + (estimate_tokens T [nl] + estimate_tokens T line)"
      unfolding j using sub by (meson add_left_mono le_trans subadditive_def)
    moreover have "estimate_tokens T (join [nl] lines) \<le> lc_tokens ?c"
      using snoc j by simp
    ultimately show ?thesis
      using bound has False by (simp add: push_line_def Let_def sat_add_def)
  qed
qed

theorem line_counter_conservative_witness:
  "estimate_tokens byte_tokenizer (join [nl] [''ab'', ''c''])
    \<le> lc_tokens (push_line byte_tokenizer ''c'' (push_line byte_tokenizer ''ab'' default_line_counter))"
  using line_counter_conservative [OF byte_tokenizer_contract byte_tokenizer_subadditive, of "[''ab'', ''c'']"]
  by (simp add: usize_large)

end
