(* ===== verification/Render_Plan.thy ===== *)
theory Render_Plan
  imports Tokens
begin

text \<open>
  Immutable render plans (\<open>src/src/render_plan.rs\<close>): lines with a token checkpoint after every
  prefix, the prefix trie that shares checkpoints between views, and the graph of optional detail
  lines. Both kinds of line source meet the locale \<open>line_source\<close>, in which the agreement of
  incremental and full counts is proved once.
\<close>

datatype render_plan_error =
    RenderToken token_count_error
  | InvalidPrefix nat nat
  | InvalidTerminal
  | CountMismatch nat nat
  | OverBudget nat nat

record verified_render =
  vr_text :: utf8
  vr_tokens :: nat

text \<open>The stages of \<open>check_render_work\<close> are test hooks between two polls.\<close>

definition check_render_work :: "work_probe option \<Rightarrow> nat \<Rightarrow> render_plan_error + nat" where
  "check_render_work op k =
     bind_r (map_err RenderToken (check_token_work op k)) (\<lambda>k.
       map_err RenderToken (check_token_work op k))"

definition render_notes_suffix :: "nat \<Rightarrow> utf8 list \<Rightarrow> utf8" where
  "render_notes_suffix shown notes =
     (if notes = [] then [] else (if 0 < shown then [nl, nl] else []) @ join [nl] notes)"

definition render_text :: "utf8 list \<Rightarrow> utf8 list \<Rightarrow> utf8" where
  "render_text lines notes = join [nl] lines @ render_notes_suffix (length lines) notes"

definition add_line ::
    "tokenizer \<Rightarrow> work_probe option \<Rightarrow> bool \<Rightarrow> utf8 \<Rightarrow> prefix_counter \<Rightarrow> nat
       \<Rightarrow> render_plan_error + prefix_counter \<times> nat" where
  "add_line T op first line c k =
     map_err RenderToken
       (bind_r (if first then Inr (c, k) else append_fragment T op [nl] c k) (\<lambda>(c, k).
          append_fragment T op line c k))"

definition judge_render :: "utf8 \<Rightarrow> nat \<Rightarrow> nat \<Rightarrow> nat \<Rightarrow> render_plan_error + verified_render" where
  "judge_render text full incremental budget =
     (if full \<noteq> incremental then Inl (CountMismatch incremental full)
      else if budget < full then Inl (OverBudget full budget)
      else Inr \<lparr>vr_text = text, vr_tokens = full\<rparr>)"

section \<open>Lines with checkpoints\<close>

record line_graph =
  lg_lines :: "utf8 list"
  lg_checkpoints :: "prefix_counter list"

fun build_checkpoints ::
    "tokenizer \<Rightarrow> work_probe option \<Rightarrow> bool \<Rightarrow> utf8 list \<Rightarrow> prefix_counter \<Rightarrow> nat
       \<Rightarrow> render_plan_error + prefix_counter list \<times> nat" where
  "build_checkpoints T op first [] c k = Inr ([], k)"
| "build_checkpoints T op first (line # rest) c k =
     bind_r (check_render_work op k) (\<lambda>k.
       bind_r (add_line T op first line c k) (\<lambda>(c, k).
         map_r (\<lambda>(cs, k). (c # cs, k)) (build_checkpoints T op False rest c k)))"

definition line_graph_new ::
    "tokenizer \<Rightarrow> work_probe option \<Rightarrow> utf8 list \<Rightarrow> nat \<Rightarrow> render_plan_error + line_graph \<times> nat" where
  "line_graph_new T op lines k =
     map_r (\<lambda>(cs, k). (\<lparr>lg_lines = lines, lg_checkpoints = default_counter # cs\<rparr>, k))
       (build_checkpoints T op True lines default_counter k)"

definition graph_checkpoint :: "line_graph \<Rightarrow> nat \<Rightarrow> render_plan_error + prefix_counter" where
  "graph_checkpoint g shown =
     (if shown < length (lg_checkpoints g) then Inr (lg_checkpoints g ! shown)
      else Inl (InvalidPrefix shown (length (lg_lines g))))"

text \<open>The probe of one checkpoint, shared by every graph.\<close>

definition probe_suffix ::
    "tokenizer \<Rightarrow> work_probe option \<Rightarrow> prefix_counter \<Rightarrow> utf8 \<Rightarrow> nat
       \<Rightarrow> render_plan_error + nat \<times> nat" where
  "probe_suffix T op c suffix k = map_err RenderToken (count_with_suffix T op c suffix k)"

definition graph_probe_notes ::
    "tokenizer \<Rightarrow> work_probe option \<Rightarrow> line_graph \<Rightarrow> nat \<Rightarrow> utf8 list \<Rightarrow> nat
       \<Rightarrow> render_plan_error + nat \<times> nat" where
  "graph_probe_notes T op g shown notes k =
     bind_r (check_render_work op k) (\<lambda>k.
       bind_r (graph_checkpoint g shown) (\<lambda>c.
         probe_suffix T op c (render_notes_suffix shown notes) k))"

definition graph_finish ::
    "tokenizer \<Rightarrow> work_probe option \<Rightarrow> line_graph \<Rightarrow> nat \<Rightarrow> utf8 list \<Rightarrow> nat \<Rightarrow> nat \<Rightarrow> nat
       \<Rightarrow> render_plan_error + verified_render \<times> nat" where
  "graph_finish T op g shown notes incremental budget k =
     (if length (lg_lines g) < shown then Inl (InvalidPrefix shown (length (lg_lines g)))
      else
        bind_r (check_render_work op k) (\<lambda>k.
          let text = render_text (take shown (lg_lines g)) notes in
          bind_r (check_render_work op k) (\<lambda>k.
            bind_r (map_err RenderToken (verify_full T op text k)) (\<lambda>(full, k).
              map_r (\<lambda>v. (v, k)) (judge_render text full incremental budget)))))"

section \<open>The shared prefix trie\<close>

type_synonym trie_node = "prefix_counter \<times> (utf8 \<Rightarrow> nat option)"

record line_view =
  lv_lines :: "utf8 list"
  lv_checkpoint :: prefix_counter

definition shared_new :: "trie_node list" where
  "shared_new = [(default_counter, Map.empty)]"

text \<open>Nodes added before an error stay in the trie, so the walk returns it in every case.\<close>

fun trie_walk ::
    "tokenizer \<Rightarrow> work_probe option \<Rightarrow> nat \<Rightarrow> nat \<Rightarrow> utf8 list \<Rightarrow> trie_node list \<Rightarrow> nat
       \<Rightarrow> (render_plan_error + nat \<times> nat) \<times> trie_node list" where
  "trie_walk T op node depth [] nodes k = (Inr (node, k), nodes)"
| "trie_walk T op node depth (line # rest) nodes k =
     (case check_render_work op k of
        Inl e \<Rightarrow> (Inl e, nodes)
      | Inr k \<Rightarrow>
          (case snd (nodes ! node) line of
             Some child \<Rightarrow> trie_walk T op child (Suc depth) rest nodes k
           | None \<Rightarrow>
               (case add_line T op (depth = 0) line (fst (nodes ! node)) k of
                  Inl e \<Rightarrow> (Inl e, nodes)
                | Inr (c, k) \<Rightarrow>
                    trie_walk T op (length nodes) (Suc depth) rest
                      ((nodes @ [(c, Map.empty)])
                         [node := (fst (nodes ! node), (snd (nodes ! node))(line \<mapsto> length nodes))])
                      k)))"

definition prepare_view ::
    "tokenizer \<Rightarrow> work_probe option \<Rightarrow> utf8 list \<Rightarrow> trie_node list \<Rightarrow> nat
       \<Rightarrow> (render_plan_error + line_view \<times> nat) \<times> trie_node list" where
  "prepare_view T op lines nodes k =
     (let (r, nodes) = trie_walk T op 0 0 lines nodes k in
      (map_r (\<lambda>(node, k). (\<lparr>lv_lines = lines, lv_checkpoint = fst (nodes ! node)\<rparr>, k)) r, nodes))"

definition shared_probe_notes ::
    "tokenizer \<Rightarrow> work_probe option \<Rightarrow> line_view \<Rightarrow> utf8 list \<Rightarrow> nat
       \<Rightarrow> render_plan_error + nat \<times> nat" where
  "shared_probe_notes T op v notes k =
     bind_r (check_render_work op k) (\<lambda>k.
       probe_suffix T op (lv_checkpoint v) (render_notes_suffix (length (lv_lines v)) notes) k)"

definition shared_finish ::
    "tokenizer \<Rightarrow> work_probe option \<Rightarrow> line_view \<Rightarrow> utf8 list \<Rightarrow> nat \<Rightarrow> nat \<Rightarrow> nat
       \<Rightarrow> render_plan_error + verified_render \<times> nat" where
  "shared_finish T op v notes incremental budget k =
     bind_r (check_render_work op k) (\<lambda>k.
       let text = render_text (lv_lines v) notes in
       bind_r (check_render_work op k) (\<lambda>k.
         let full = estimate_tokens T text in
         bind_r (check_render_work op k) (\<lambda>k.
           map_r (\<lambda>v. (v, k)) (judge_render text full incremental budget))))"

section \<open>Detail lines\<close>

record detail_graph =
  prefix_has_body :: bool
  fixed_lines :: nat
  detail_lines :: nat
  dg_checkpoints :: "prefix_counter list"

definition append_note_line ::
    "tokenizer \<Rightarrow> work_probe option \<Rightarrow> utf8 \<Rightarrow> bool \<Rightarrow> nat \<Rightarrow> prefix_counter \<Rightarrow> nat
       \<Rightarrow> render_plan_error + prefix_counter \<times> nat" where
  "append_note_line T op line has_body existing c k =
     map_err RenderToken
       (bind_r (if 0 < existing then append_fragment T op [nl] c k
                else if has_body then append_fragment T op [nl, nl] c k else Inr (c, k))
         (\<lambda>(c, k). append_fragment T op line c k))"

fun append_note_lines ::
    "tokenizer \<Rightarrow> work_probe option \<Rightarrow> bool \<Rightarrow> nat \<Rightarrow> utf8 list \<Rightarrow> prefix_counter \<Rightarrow> nat
       \<Rightarrow> render_plan_error + prefix_counter list \<times> prefix_counter \<times> nat" where
  "append_note_lines T op has_body existing [] c k = Inr ([], c, k)"
| "append_note_lines T op has_body existing (line # rest) c k =
     bind_r (append_note_line T op line has_body existing c k) (\<lambda>(c, k).
       map_r (\<lambda>(cs, r). (c # cs, r)) (append_note_lines T op has_body (sat_add existing 1) rest c k))"

definition detail_graph_new ::
    "tokenizer \<Rightarrow> work_probe option \<Rightarrow> prefix_counter \<Rightarrow> bool \<Rightarrow> utf8 list \<Rightarrow> utf8 list \<Rightarrow> nat
       \<Rightarrow> render_plan_error + detail_graph \<times> nat" where
  "detail_graph_new T op body has_body fixed details k =
     bind_r (append_note_lines T op has_body 0 fixed body k) (\<lambda>(_, c, k).
       map_r (\<lambda>(cs, _, k).
           (\<lparr>prefix_has_body = has_body, fixed_lines = length fixed, detail_lines = length details,
             dg_checkpoints = c # cs\<rparr>, k))
         (append_note_lines T op has_body (length fixed) details c k))"

definition render_continuation_suffix :: "bool \<Rightarrow> nat \<Rightarrow> utf8 list \<Rightarrow> utf8" where
  "render_continuation_suffix has_body existing lines =
     (if lines = [] then []
      else (if 0 < existing then [nl] else if has_body then [nl, nl] else []) @ join [nl] lines)"

definition probe_tail ::
    "tokenizer \<Rightarrow> work_probe option \<Rightarrow> detail_graph \<Rightarrow> nat \<Rightarrow> utf8 list \<Rightarrow> nat
       \<Rightarrow> render_plan_error + nat \<times> nat" where
  "probe_tail T op g shown tail_lines k =
     bind_r (check_render_work op k) (\<lambda>k.
       if shown < length (dg_checkpoints g) then
         probe_suffix T op (dg_checkpoints g ! shown)
           (render_continuation_suffix (prefix_has_body g) (sat_add (fixed_lines g) shown) tail_lines) k
       else Inl (InvalidPrefix shown (detail_lines g)))"

section \<open>The text a checkpoint stands for\<close>

fun line_fragments :: "bool \<Rightarrow> utf8 list \<Rightarrow> utf8 list" where
  "line_fragments first [] = []"
| "line_fragments first (line # rest) =
     (if first then [line] else [[nl], line]) @ line_fragments False rest"

lemma concat_later_fragments:
  "concat (line_fragments False ls) = (if ls = [] then [] else nl # join [nl] ls)"
  by (induction ls rule: induct_list012) auto

lemma concat_line_fragments: "concat (line_fragments True ls) = join [nl] ls"
  by (cases ls) (auto simp: concat_later_fragments join_Cons)

lemma line_fragments_append:
  "line_fragments first (xs @ ys) = line_fragments first xs @ line_fragments (first \<and> xs = []) ys"
  by (induction xs arbitrary: first) auto

lemma add_line_counts:
  assumes T: "tokenizer_contract T" and c: "counts_prefix T t c"
    and cl: "closes_all T t (if first then [line] else [[nl], line])"
    and add: "add_line T op first line c k = Inr (c', k')"
  shows "counts_prefix T (t @ concat (if first then [line] else [[nl], line])) c'"
proof (cases first)
  case True
  with assms append_counts_prefix [OF T c, of line op k c' k'] show ?thesis
    by (simp add: add_line_def bind_simps)
next
  case False
  with add obtain c1 k1 where
    "append_fragment T op [nl] c k = Inr (c1, k1)" "append_fragment T op line c1 k1 = Inr (c', k')"
    by (auto simp: add_line_def bind_simps)
  with False cl append_counts_prefix [OF T c, of "[nl]" op k c1 k1]
    append_counts_prefix [OF T, of "t @ [nl]" c1 line op k1 c' k'] show ?thesis by simp
qed

lemma build_checkpoints_counts:
  assumes T: "tokenizer_contract T"
  shows "counts_prefix T t c \<Longrightarrow> closes_all T t (line_fragments first ls) \<Longrightarrow>
    build_checkpoints T op first ls c k = Inr (cs, k') \<Longrightarrow>
    length cs = length ls \<and>
    (\<forall>i < length ls. counts_prefix T (t @ concat (line_fragments first (take (Suc i) ls))) (cs ! i))"
proof (induction ls arbitrary: t first c k cs)
  case (Cons line ls)
  let ?fs = "if first then [line] else [[nl], line]"
  from Cons.prems(3) obtain k1 c1 k2 cs1 where
    add: "add_line T op first line c k1 = Inr (c1, k2)"
    and rest: "build_checkpoints T op False ls c1 k2 = Inr (cs1, k')" and cs: "cs = c1 # cs1"
    by (auto simp: bind_simps)
  have cl: "closes_all T t ?fs" "closes_all T (t @ concat ?fs) (line_fragments False ls)"
    using Cons.prems(2) by (auto simp: closes_all_append split: if_splits)
  note c1 = add_line_counts [OF T Cons.prems(1) cl(1) add]
  from Cons.IH [OF c1 cl(2) rest] have
    IH: "length cs1 = length ls"
      "\<And>i. i < length ls \<Longrightarrow> counts_prefix T
        ((t @ concat ?fs) @ concat (line_fragments False (take (Suc i) ls))) (cs1 ! i)" by auto
  have "counts_prefix T (t @ concat (line_fragments first (take (Suc i) (line # ls)))) (cs ! i)"
    if "i < length (line # ls)" for i
  proof (cases i)
    case 0
    with c1 cs show ?thesis by simp
  next
    case (Suc j)
    with IH(2) [of j] that cs show ?thesis by simp
  qed
  with IH(1) cs show ?case by simp
qed simp

lemma add_line_total:
  assumes T: "tokenizer_contract T" and c: "counts_prefix T t c" and op: "undisturbed op"
    and cl: "closes_all T t (if first then [line] else [[nl], line])"
    and len: "length (t @ concat (if first then [line] else [[nl], line])) \<le> usize_max"
  shows "\<exists>r. add_line T op first line c k = Inr r"
proof -
  have bound: "estimate_tokens T s \<le> usize_max" if "length s \<le> usize_max" for s
    using token_bound [OF T, of s] that by linarith
  show ?thesis
  proof (cases first)
    case True
    with append_fragment_total [OF T c, of line op k] cl len bound [of "t @ line"] op
    show ?thesis by (auto simp: add_line_def)
  next
    case False
    then obtain c1 k1 where step: "append_fragment T op [nl] c k = Inr (c1, k1)"
      using append_fragment_total [OF T c, of "[nl]" op k] cl len bound [of "t @ [nl]"] op by auto
    with False cl have "counts_prefix T (t @ [nl]) c1"
      using append_counts_prefix [OF T c _ step] by simp
    from append_fragment_total [OF T this, of line op k1] False step cl len op
      bound [of "t @ [nl] @ line"]
    show ?thesis by (auto simp: add_line_def)
  qed
qed

lemma undisturbed_check: "undisturbed op \<Longrightarrow> \<exists>k'. check_render_work op k = Inr k'"
  by (auto simp: check_render_work_def check_token_work_def undisturbed_def split: option.splits)

lemma build_checkpoints_total:
  assumes T: "tokenizer_contract T" and op: "undisturbed op"
  shows "counts_prefix T t c \<Longrightarrow> closes_all T t (line_fragments first ls) \<Longrightarrow>
    length (t @ concat (line_fragments first ls)) \<le> usize_max \<Longrightarrow>
    \<exists>r. build_checkpoints T op first ls c k = Inr r"
proof (induction ls arbitrary: t first c k)
  case (Cons line ls)
  let ?fs = "if first then [line] else [[nl], line]"
  have cl: "closes_all T t ?fs" "closes_all T (t @ concat ?fs) (line_fragments False ls)"
    using Cons.prems(2) by (auto simp: closes_all_append split: if_splits)
  obtain k1 where "check_render_work op k = Inr k1" using undisturbed_check [OF op] by blast
  moreover obtain c1 k2 where add: "add_line T op first line c k1 = Inr (c1, k2)"
    using add_line_total [OF T Cons.prems(1) op cl(1), of k1] Cons.prems(3) by auto
  moreover obtain r where "build_checkpoints T op False ls c1 k2 = Inr r"
    using Cons.IH [OF add_line_counts [OF T Cons.prems(1) cl(1) add] cl(2), of k2] Cons.prems(3)
    by auto
  ultimately show ?case by simp
qed simp

section \<open>Line sources\<close>

text \<open>
  A line source hands out views; the checkpoint of a valid view counts the view's lines joined by
  line feeds. That is all the agreement of probe and final verification needs.
\<close>

definition view_closes :: "tokenizer \<Rightarrow> utf8 list \<Rightarrow> utf8 list \<Rightarrow> bool" where
  "view_closes T lines notes \<longleftrightarrow>
     closes T (join [nl] lines) (render_notes_suffix (length lines) notes)"

locale line_source =
  fixes T :: tokenizer and valid :: "'v \<Rightarrow> bool" and lines_of :: "'v \<Rightarrow> utf8 list"
    and checkpoint_of :: "'v \<Rightarrow> prefix_counter"
  assumes checkpoint_counts:
    "tokenizer_contract T \<Longrightarrow> valid v \<Longrightarrow> counts_prefix T (join [nl] (lines_of v)) (checkpoint_of v)"
begin

lemma probe_exact:
  assumes T: "tokenizer_contract T" and "valid v" and "view_closes T (lines_of v) notes"
    and "probe_suffix T op (checkpoint_of v) (render_notes_suffix (length (lines_of v)) notes) k =
      Inr (n, k')"
  shows "n = estimate_tokens T (render_text (lines_of v) notes)"
  using count_with_suffix_exact [OF T checkpoint_counts] assms
  by (auto simp: probe_suffix_def bind_simps view_closes_def render_text_def)

lemma probe_judged:
  assumes "tokenizer_contract T" and "valid v" and "view_closes T (lines_of v) notes"
    and "probe_suffix T op (checkpoint_of v) (render_notes_suffix (length (lines_of v)) notes) k =
      Inr (n, k')"
    and "n \<le> budget"
  shows "judge_render (render_text (lines_of v) notes)
      (estimate_tokens T (render_text (lines_of v) notes)) n budget =
    Inr \<lparr>vr_text = render_text (lines_of v) notes, vr_tokens = n\<rparr>"
  using probe_exact [OF assms(1-4)] assms(5) by (simp add: judge_render_def)

lemma probe_total:
  assumes T: "tokenizer_contract T" and "valid v" and cl: "view_closes T (lines_of v) notes"
    and "undisturbed op" and len: "length (render_text (lines_of v) notes) \<le> usize_max"
  shows "\<exists>k'. probe_suffix T op (checkpoint_of v) (render_notes_suffix (length (lines_of v)) notes) k =
    Inr (estimate_tokens T (render_text (lines_of v) notes), k')"
proof -
  have "estimate_tokens T (render_text (lines_of v) notes) \<le> usize_max"
    using token_bound [OF T, of "render_text (lines_of v) notes"] len by linarith
  then obtain n k' where
    "probe_suffix T op (checkpoint_of v) (render_notes_suffix (length (lines_of v)) notes) k = Inr (n, k')"
    using count_with_suffix_total [OF T checkpoint_counts [OF T assms(2)], of _ op k] cl assms(4)
    by (fastforce simp: view_closes_def render_text_def probe_suffix_def)
  with probe_exact [OF T assms(2) cl this] show ?thesis by auto
qed

end

definition line_graph_valid :: "tokenizer \<Rightarrow> line_graph \<times> nat \<Rightarrow> bool" where
  "line_graph_valid T v \<longleftrightarrow>
     snd v \<le> length (lg_lines (fst v)) \<and>
     length (lg_checkpoints (fst v)) = Suc (length (lg_lines (fst v))) \<and>
     (\<forall>i \<le> length (lg_lines (fst v)).
        counts_prefix T (join [nl] (take i (lg_lines (fst v)))) (lg_checkpoints (fst v) ! i))"

interpretation line_graphs: line_source T "line_graph_valid T"
    "\<lambda>v. take (snd v) (lg_lines (fst v))" "\<lambda>v. lg_checkpoints (fst v) ! snd v"
  by unfold_locales (simp add: line_graph_valid_def)

lemma line_graph_new_valid:
  assumes T: "tokenizer_contract T" and cl: "closes_all T [] (line_fragments True lines)"
    and new: "line_graph_new T op lines k = Inr (g, k')" and shown: "shown \<le> length lines"
  shows "line_graph_valid T (g, shown) \<and> lg_lines g = lines"
proof -
  from new obtain cs where
    b: "build_checkpoints T op True lines default_counter k = Inr (cs, k')"
    and g: "g = \<lparr>lg_lines = lines, lg_checkpoints = default_counter # cs\<rparr>"
    by (auto simp: line_graph_new_def bind_simps)
  have zero: "counts_prefix T [] default_counter"
    by (simp add: counts_prefix_default pieces_of_empty [OF T])
  from build_checkpoints_counts [OF T zero cl b]
  have "length cs = length lines"
    "\<And>i. i < length lines \<Longrightarrow> counts_prefix T (join [nl] (take (Suc i) lines)) (cs ! i)"
    by (simp_all add: concat_line_fragments)
  then have "counts_prefix T (join [nl] (take i lines)) ((default_counter # cs) ! i)"
    if "i \<le> length lines" for i
    using that zero by (cases i) auto
  with g shown \<open>length cs = length lines\<close> show ?thesis by (simp add: line_graph_valid_def)
qed

lemma line_graph_new_total:
  assumes T: "tokenizer_contract T" and op: "undisturbed op"
    and cl: "closes_all T [] (line_fragments True lines)" and len: "length (join [nl] lines) \<le> usize_max"
  shows "\<exists>g k'. line_graph_new T op lines k = Inr (g, k')"
proof -
  have "counts_prefix T [] default_counter"
    by (simp add: counts_prefix_default pieces_of_empty [OF T])
  from build_checkpoints_total [OF T op this cl, of k] len show ?thesis
    by (auto simp: line_graph_new_def concat_line_fragments)
qed

section \<open>The trie invariant\<close>

inductive trie_path :: "trie_node list \<Rightarrow> utf8 list \<Rightarrow> nat \<Rightarrow> bool" for nodes where
  root: "trie_path nodes [] 0"
| edge: "trie_path nodes ls n \<Longrightarrow> n < length nodes \<Longrightarrow> snd (nodes ! n) line = Some m \<Longrightarrow>
    trie_path nodes (ls @ [line]) m"

definition trie_inv :: "tokenizer \<Rightarrow> trie_node list \<Rightarrow> bool" where
  "trie_inv T nodes \<longleftrightarrow>
     nodes \<noteq> [] \<and>
     (\<forall>n < length nodes. \<forall>line m. snd (nodes ! n) line = Some m \<longrightarrow> 0 < m \<and> m < length nodes) \<and>
     (\<forall>ls n. trie_path nodes ls n \<longrightarrow> closes_all T [] (line_fragments True ls) \<longrightarrow>
        counts_prefix T (join [nl] ls) (fst (nodes ! n)))"

lemma trie_path_bound: "trie_inv T nodes \<Longrightarrow> trie_path nodes ls n \<Longrightarrow> n < length nodes"
  by (erule trie_path.cases) (auto simp: trie_inv_def)

lemma trie_path_root: "trie_inv T nodes \<Longrightarrow> trie_path nodes ls n \<Longrightarrow> n = 0 \<longleftrightarrow> ls = []"
  by (erule trie_path.cases) (auto simp: trie_inv_def)

lemma trie_inv_new: "tokenizer_contract T \<Longrightarrow> trie_inv T shared_new"
proof -
  assume T: "tokenizer_contract T"
  have "trie_path shared_new ls n \<Longrightarrow> ls = [] \<and> n = 0" for ls n
    by (induction rule: trie_path.induct) (auto simp: shared_new_def)
  then have "counts_prefix T (join [nl] ls) (fst (shared_new ! n))" if "trie_path shared_new ls n" for ls n
    using T that by (fastforce simp: shared_new_def counts_prefix_default pieces_of_empty)
  moreover have "shared_new \<noteq> [] \<and> (\<forall>n < length shared_new. snd (shared_new ! n) = Map.empty)"
    by (simp add: shared_new_def)
  ultimately show ?thesis by (simp add: trie_inv_def)
qed

definition trie_add :: "nat \<Rightarrow> utf8 \<Rightarrow> prefix_counter \<Rightarrow> trie_node list \<Rightarrow> trie_node list" where
  "trie_add node line c nodes =
     (nodes @ [(c, Map.empty)])
       [node := (fst (nodes ! node), (snd (nodes ! node))(line \<mapsto> length nodes))]"

lemma trie_add_nth:
  assumes "node < length nodes" and "n < Suc (length nodes)"
  shows "trie_add node line c nodes ! n =
    (if n = length nodes then (c, Map.empty)
     else if n = node then (fst (nodes ! node), (snd (nodes ! node))(line \<mapsto> length nodes))
     else nodes ! n)"
  using assms by (auto simp: trie_add_def nth_append nth_list_update)

lemma length_trie_add [simp]: "length (trie_add node line c nodes) = Suc (length nodes)"
  by (simp add: trie_add_def)

lemma trie_path_keeps:
  assumes "trie_inv T nodes" and "node < length nodes" and "snd (nodes ! node) line = None"
  shows "trie_path nodes ls n \<Longrightarrow> trie_path (trie_add node line c nodes) ls n"
proof (induction rule: trie_path.induct)
  case (edge ls n x m)
  have "snd (trie_add node line c nodes ! n) x = Some m"
    using edge.hyps assms(2,3) by (auto simp: trie_add_nth)
  then show ?case using edge by (auto intro: trie_path.edge)
qed (rule trie_path.root)

lemma trie_path_added:
  assumes inv: "trie_inv T nodes" and node: "node < length nodes"
  shows "trie_path (trie_add node line c nodes) ls n \<Longrightarrow>
    trie_path nodes ls n \<and> n < length nodes \<or>
    n = length nodes \<and> (\<exists>ls'. ls = ls' @ [line] \<and> trie_path nodes ls' node)"
proof (induction rule: trie_path.induct)
  case root
  then show ?case using inv by (auto simp: trie_inv_def intro: trie_path.root)
next
  case (edge ls n x m)
  from edge.IH show ?case
  proof
    assume old: "trie_path nodes ls n \<and> n < length nodes"
    show ?thesis
    proof (cases "n = node \<and> x = line")
      case True
      with edge.hyps old node show ?thesis by (auto simp: trie_add_nth)
    next
      case False
      with edge.hyps old node have "snd (nodes ! n) x = Some m"
        by (auto simp: trie_add_nth split: if_splits)
      with old inv show ?thesis by (auto simp: trie_inv_def intro: trie_path.edge)
    qed
  next
    assume "n = length nodes \<and> (\<exists>ls'. ls = ls' @ [line] \<and> trie_path nodes ls' node)"
    with edge.hyps node show ?thesis by (simp add: trie_add_nth)
  qed
qed

lemma trie_inv_add:
  assumes T: "tokenizer_contract T" and inv: "trie_inv T nodes" and path: "trie_path nodes ls node"
    and add: "add_line T op (ls = []) line (fst (nodes ! node)) k = Inr (c, k')"
    and fresh: "snd (nodes ! node) line = None"
  shows "trie_inv T (trie_add node line c nodes)"
proof -
  have node: "node < length nodes" using trie_path_bound [OF inv path] .
  let ?nodes = "trie_add node line c nodes"
  have "counts_prefix T (join [nl] xs) (fst (?nodes ! n))"
    if p: "trie_path ?nodes xs n" and cl: "closes_all T [] (line_fragments True xs)" for xs n
    using trie_path_added [OF inv node p]
  proof
    assume old: "trie_path nodes xs n \<and> n < length nodes"
    then have "counts_prefix T (join [nl] xs) (fst (nodes ! n))" using inv cl by (simp add: trie_inv_def)
    with old node show ?thesis by (auto simp: trie_add_nth)
  next
    assume "n = length nodes \<and> (\<exists>ls'. xs = ls' @ [line] \<and> trie_path nodes ls' node)"
    then obtain ls' where n: "n = length nodes" and xs: "xs = ls' @ [line]"
      and p': "trie_path nodes ls' node" by blast
    let ?fs = "if ls' = [] then [line] else [[nl], line]"
    have frag: "line_fragments True xs = line_fragments True ls' @ ?fs"
      by (simp add: xs line_fragments_append)
    have cl': "closes_all T [] (line_fragments True ls')" "closes_all T (join [nl] ls') ?fs"
      using cl unfolding frag by (simp_all add: closes_all_append concat_line_fragments del: closes_all.simps)
    have "ls = [] \<longleftrightarrow> ls' = []" using trie_path_root [OF inv path] trie_path_root [OF inv p'] by simp
    moreover have "counts_prefix T (join [nl] ls') (fst (nodes ! node))"
      using inv p' cl'(1) by (simp add: trie_inv_def)
    ultimately have "counts_prefix T (join [nl] ls' @ concat ?fs) c"
      using add_line_counts [OF T _ cl'(2), of "fst (nodes ! node)" op k c k'] add by simp
    moreover have "join [nl] ls' @ concat ?fs = join [nl] xs"
      by (simp add: xs join_snoc)
    ultimately show ?thesis using n node by (simp add: trie_add_nth)
  qed
  moreover have "0 < m \<and> m < length ?nodes"
    if "n < length ?nodes" "snd (?nodes ! n) x = Some m" for n x m
  proof (cases "n = length nodes")
    case True
    with that node show ?thesis by (simp add: trie_add_nth)
  next
    case False
    with that node have n: "n < length nodes" by simp
    with that node False have "snd (nodes ! n) x = Some m \<or> m = length nodes"
      by (auto simp: trie_add_nth split: if_splits)
    with n inv show ?thesis by (fastforce simp: trie_inv_def)
  qed
  ultimately show ?thesis by (simp add: trie_inv_def trie_add_def)
qed

lemma trie_walk_inv:
  assumes T: "tokenizer_contract T"
  shows "trie_inv T nodes \<Longrightarrow> trie_path nodes ls node \<Longrightarrow> depth = length ls \<Longrightarrow>
    trie_walk T op node depth rest nodes k = (r, nodes') \<Longrightarrow>
    trie_inv T nodes' \<and>
    (case r of Inl e \<Rightarrow> True | Inr (n, k') \<Rightarrow> trie_path nodes' (ls @ rest) n)"
proof (induction rest arbitrary: ls node depth nodes k)
  case (Cons line rest)
  show ?case
  proof (cases "check_render_work op k")
    case (Inl e)
    with Cons.prems show ?thesis by auto
  next
    case (Inr k1)
    have bound: "node < length nodes" using trie_path_bound [OF Cons.prems(1,2)] .
    show ?thesis
    proof (cases "snd (nodes ! node) line")
      case (Some child)
      have "trie_path nodes (ls @ [line]) child"
        by (rule trie_path.edge [OF Cons.prems(2) bound Some])
      from Cons.IH [OF Cons.prems(1) this, of "Suc depth" k1] Cons.prems(3,4) Inr Some
      show ?thesis by (auto split: sum.splits)
    next
      case None
      show ?thesis
      proof (cases "add_line T op (depth = 0) line (fst (nodes ! node)) k1")
        case (Inl e)
        with Cons.prems Inr None show ?thesis by auto
      next
        case add: (Inr a)
        obtain c k2 where a: "a = (c, k2)" by (cases a)
        let ?nodes = "trie_add node line c nodes"
        have inv': "trie_inv T ?nodes"
          using trie_inv_add [OF T Cons.prems(1,2) _ None] add a Cons.prems(3) by simp
        have "snd (?nodes ! node) line = Some (length nodes)"
          using bound by (simp add: trie_add_nth)
        then have "trie_path ?nodes (ls @ [line]) (length nodes)"
          using trie_path_keeps [OF Cons.prems(1) bound None Cons.prems(2)] bound
          by (intro trie_path.edge) auto
        from Cons.IH [OF inv' this, of "Suc depth" k2] Cons.prems(3,4) Inr None add a
        show ?thesis by (auto simp: trie_add_def split: sum.splits)
      qed
    qed
  qed
qed (auto split: sum.splits)

definition view_valid :: "tokenizer \<Rightarrow> line_view \<Rightarrow> bool" where
  "view_valid T v \<longleftrightarrow> counts_prefix T (join [nl] (lv_lines v)) (lv_checkpoint v)"

interpretation shared_views: line_source T "view_valid T" lv_lines lv_checkpoint
  by unfold_locales (simp add: view_valid_def)

lemma prepare_view_valid:
  assumes T: "tokenizer_contract T" and inv: "trie_inv T nodes"
    and prep: "prepare_view T op lines nodes k = (r, nodes')"
  shows "trie_inv T nodes' \<and>
    (case r of Inl e \<Rightarrow> True | Inr (v, k') \<Rightarrow> lv_lines v = lines \<and>
       (closes_all T [] (line_fragments True lines) \<longrightarrow> view_valid T v))"
proof -
  obtain r' where w: "trie_walk T op 0 0 lines nodes k = (r', nodes')"
    and r: "r = map_r (\<lambda>(node, k). (\<lparr>lv_lines = lines, lv_checkpoint = fst (nodes' ! node)\<rparr>, k)) r'"
    using prep by (auto simp: prepare_view_def split: prod.splits)
  from trie_walk_inv [OF T inv trie_path.root _ w] have
    "trie_inv T nodes'" "\<And>n k'. r' = Inr (n, k') \<Longrightarrow> trie_path nodes' lines n" by auto
  with r show ?thesis by (cases r') (auto simp: trie_inv_def view_valid_def)
qed

section \<open>Properties\<close>

lemma judge_render_Inr:
  "judge_render text full inc budget = Inr v \<longleftrightarrow>
     full = inc \<and> full \<le> budget \<and> v = \<lparr>vr_text = text, vr_tokens = full\<rparr>"
  by (auto simp: judge_render_def)

lemma verify_full_Inr: "verify_full T op text k = Inr (n, k') \<Longrightarrow> n = estimate_tokens T text"
  by (auto simp: verify_full_def bind_simps)

text \<open>
  C12. Whatever the tokenizer does, no finished render breaks its budget: a successful \<open>finish\<close>, of
  a line graph or of a shared view, returns exactly the selected lines and notes, together with the
  full token count of that text, which is the predicted count and at most the budget.
\<close>

theorem finished_render_fits:
  "(graph_finish T op g shown notes n budget k = Inr (v, k') \<longrightarrow>
      vr_text v = render_text (take shown (lg_lines g)) notes \<and> shown \<le> length (lg_lines g) \<and>
      vr_tokens v = estimate_tokens T (vr_text v) \<and> vr_tokens v = n \<and> n \<le> budget) \<and>
   (shared_finish T op w notes n budget k = Inr (v, k') \<longrightarrow>
      vr_text v = render_text (lv_lines w) notes \<and>
      vr_tokens v = estimate_tokens T (vr_text v) \<and> vr_tokens v = n \<and> n \<le> budget)"
  by (auto simp: graph_finish_def shared_finish_def Let_def bind_simps judge_render_Inr
      dest!: verify_full_Inr split: if_splits)

lemma byte_tokenizer_view_closes: "view_closes byte_tokenizer lines notes"
  by (simp add: view_closes_def byte_tokenizer_closes)

lemma finish_undisturbed:
  assumes "undisturbed op" and "shown \<le> length (lg_lines g)"
  shows "\<exists>k'. graph_finish T op g shown notes n budget k =
    map_r (\<lambda>v. (v, k')) (judge_render (render_text (take shown (lg_lines g)) notes)
      (estimate_tokens T (render_text (take shown (lg_lines g)) notes)) n budget)"
proof -
  obtain k1 k2 k3 k4 where
    "check_render_work op k = Inr k1" "check_render_work op k1 = Inr k2"
    "check_token_work op k2 = Inr k3" "check_token_work op k3 = Inr k4"
    using undisturbed_check [OF assms(1)] check_token_work_undisturbed [OF assms(1)]
    by (metis old.sum.exhaust)
  with assms(2) show ?thesis by (auto simp: graph_finish_def verify_full_def Let_def)
qed

theorem finished_render_fits_witness:
  "\<exists>v k'. graph_finish byte_tokenizer None \<lparr>lg_lines = [''ab''], lg_checkpoints = []\<rparr> 1 [] 2 5 0 =
     Inr (v, k') \<and> vr_text v = ''ab'' \<and> vr_tokens v \<le> 5"
proof -
  let ?g = "\<lparr>lg_lines = [''ab''], lg_checkpoints = []\<rparr>"
  obtain v k' where fin: "graph_finish byte_tokenizer None ?g 1 [] 2 5 0 = Inr (v, k')"
    using finish_undisturbed [of None 1 ?g byte_tokenizer "[]" 2 5 0]
    by (auto simp: undisturbed_def judge_render_def byte_tokens render_text_def render_notes_suffix_def)
  with finished_render_fits [of byte_tokenizer None ?g 1 "[]" 2 5 0 v k']
  show ?thesis by (auto simp: render_text_def render_notes_suffix_def byte_tokens)
qed

text \<open>
  C13. Probe and final verification agree. For lines whose boundaries the tokenizer closes, building
  the graph, probing any prefix with notes and finishing with the probed count never reports a
  mismatch: the probe is the token count of the text that \<open>finish\<close> assembles, and \<open>finish\<close>
  succeeds exactly when that count is within the budget.
\<close>

theorem probe_agrees_with_finish:
  assumes T: "tokenizer_contract T" and cl: "closes_all T [] (line_fragments True lines)"
    and new: "line_graph_new T op lines k = Inr (g, k1)" and shown: "shown \<le> length lines"
    and tail: "view_closes T (take shown lines) notes" and op: "undisturbed op"
    and probe: "graph_probe_notes T op g shown notes k2 = Inr (n, k3)"
  shows "n = estimate_tokens T (render_text (take shown lines) notes) \<and>
    (\<exists>k5. graph_finish T op g shown notes n budget k4 =
       (if n \<le> budget
        then Inr (\<lparr>vr_text = render_text (take shown lines) notes, vr_tokens = n\<rparr>, k5)
        else Inl (OverBudget n budget)))"
proof -
  note v = line_graph_new_valid [OF T cl new shown]
  have g: "lg_lines g = lines" and len: "length (take shown lines) = shown" using v shown by simp_all
  obtain k' where probe': "probe_suffix T op (lg_checkpoints g ! shown)
      (render_notes_suffix shown notes) k' = Inr (n, k3)"
    using probe by (auto simp: graph_probe_notes_def graph_checkpoint_def bind_simps split: if_splits)
  have n: "n = estimate_tokens T (render_text (take shown lines) notes)"
    using line_graphs.probe_exact [OF T conjunct1 [OF v]] tail probe' g len by auto
  obtain k5 where "graph_finish T op g shown notes n budget k4 =
      map_r (\<lambda>v. (v, k5)) (judge_render (render_text (take shown lines) notes) n n budget)"
    using finish_undisturbed [OF op, of shown g T "notes" n budget k4] shown g n by auto
  with n show ?thesis by (auto simp: judge_render_def)
qed

theorem probe_agrees_with_finish_witness:
  "\<exists>g n k3 k5. graph_probe_notes byte_tokenizer None g 2 [''(x)''] 0 = Inr (n, k3) \<and>
     graph_finish byte_tokenizer None g 2 [''(x)''] n 20 0 =
       Inr (\<lparr>vr_text = render_text [''a'', ''bc''] [''(x)''], vr_tokens = n\<rparr>, k5)"
proof -
  let ?T = byte_tokenizer and ?text = "render_text [''a'', ''bc''] [''(x)'']"
  obtain g k1 where new: "line_graph_new ?T None [''a'', ''bc''] 0 = Inr (g, k1)"
    using line_graph_new_total [OF byte_tokenizer_contract _ byte_tokenizer_closes_all,
        of None "[''a'', ''bc'']" 0] by (auto simp: undisturbed_def usize_large)
  have v: "line_graph_valid ?T (g, 2)" "lg_lines g = [''a'', ''bc'']"
    using line_graph_new_valid [OF byte_tokenizer_contract byte_tokenizer_closes_all new, of 2] by auto
  obtain k' where "probe_suffix ?T None (lg_checkpoints g ! 2) (render_notes_suffix 2 [''(x)'']) 0 =
      Inr (estimate_tokens ?T ?text, k')"
    using line_graphs.probe_total [OF byte_tokenizer_contract v(1), of "[''(x)'']" None 0] v(2)
      byte_tokenizer_view_closes
    by (auto simp: undisturbed_def usize_large render_text_def render_notes_suffix_def)
  then have p: "graph_probe_notes ?T None g 2 [''(x)''] 0 = Inr (estimate_tokens ?T ?text, k')"
    using v by (simp add: graph_probe_notes_def check_render_work_def check_token_work_def
        graph_checkpoint_def line_graph_valid_def)
  have "estimate_tokens ?T ?text \<le> 20"
    by (simp add: byte_tokens render_text_def render_notes_suffix_def)
  with probe_agrees_with_finish [OF byte_tokenizer_contract byte_tokenizer_closes_all new _ _ _ p,
      of 20 0] p
  show ?thesis by (auto simp: byte_tokenizer_view_closes undisturbed_def)
qed

text \<open>
  C14. The trie is only a cache: whatever views were prepared before, successfully or not, a probe of
  a prepared view gives the token count of that view's own text, so a shared view and a graph built
  from scratch are indistinguishable.
\<close>

theorem shared_view_exact:
  assumes T: "tokenizer_contract T"
    and nodes: "nodes = foldl (\<lambda>ns (ls, op, k). snd (prepare_view T op ls ns k)) shared_new history"
    and prep: "fst (prepare_view T op lines nodes k) = Inr (v, k1)"
    and cl: "closes_all T [] (line_fragments True lines)" "view_closes T lines notes"
    and probe: "shared_probe_notes T op v notes k2 = Inr (n, k3)"
  shows "lv_lines v = lines \<and> n = estimate_tokens T (render_text lines notes)"
proof -
  have "trie_inv T (foldl (\<lambda>ns (ls, op, k). snd (prepare_view T op ls ns k)) shared_new history)"
  proof (induction history rule: rev_induct)
    case Nil
    show ?case by (simp add: trie_inv_new [OF T])
  next
    case (snoc h history)
    let ?ns = "foldl (\<lambda>ns (ls, op, k). snd (prepare_view T op ls ns k)) shared_new history"
    obtain ls op' k' where h: "h = (ls, op', k')" by (cases h)
    have "trie_inv T (snd (prepare_view T op' ls ?ns k'))"
      using prepare_view_valid [OF T snoc, of op' ls k'] by (simp add: prod_eq_iff)
    then show ?case by (simp add: h)
  qed
  then have inv: "trie_inv T nodes" by (simp add: nodes)
  have "prepare_view T op lines nodes k = (Inr (v, k1), snd (prepare_view T op lines nodes k))"
    using prep by (metis prod.collapse)
  from prepare_view_valid [OF T inv this] cl(1) have v: "lv_lines v = lines" "view_valid T v" by auto
  obtain k' where "probe_suffix T op (lv_checkpoint v)
      (render_notes_suffix (length (lv_lines v)) notes) k' = Inr (n, k3)"
    using probe by (auto simp: shared_probe_notes_def bind_simps)
  from shared_views.probe_exact [OF T v(2) _ this] v(1) cl(2) show ?thesis by simp
qed

theorem shared_view_exact_witness:
  "\<exists>v n k1 k3. fst (prepare_view byte_tokenizer None [''a''] shared_new 0) = Inr (v, k1) \<and>
     shared_probe_notes byte_tokenizer None v [''n''] 0 = Inr (n, k3) \<and>
     n = estimate_tokens byte_tokenizer (render_text [''a''] [''n''])"
proof -
  let ?T = byte_tokenizer
  have zero: "counts_prefix ?T [] default_counter"
    by (simp add: counts_prefix_default byte_tokenizer_def)
  obtain c k' where add: "add_line ?T None True ''a'' default_counter 0 = Inr (c, k')"
    using add_line_total [OF byte_tokenizer_contract zero, of None True "''a''" 0]
    by (auto simp: undisturbed_def usize_large byte_tokenizer_closes)
  then obtain v k1 where prep: "fst (prepare_view ?T None [''a''] shared_new 0) = Inr (v, k1)"
    by (simp add: prepare_view_def shared_new_def check_render_work_def check_token_work_def)
  have v: "lv_lines v = [''a''] \<and> view_valid ?T v"
    using prepare_view_valid [OF byte_tokenizer_contract trie_inv_new [OF byte_tokenizer_contract],
        of None "[''a'']" 0 "Inr (v, k1)" "snd (prepare_view ?T None [''a''] shared_new 0)"]
      prep byte_tokenizer_closes by (simp add: prod_eq_iff)
  obtain n k3 where p: "shared_probe_notes ?T None v [''n''] 0 = Inr (n, k3)"
    using shared_views.probe_total [OF byte_tokenizer_contract conjunct2 [OF v], of "[''n'']" None 0] v
      byte_tokenizer_view_closes
    by (auto simp: shared_probe_notes_def check_render_work_def check_token_work_def undisturbed_def
        usize_large render_text_def render_notes_suffix_def)
  from shared_view_exact [OF byte_tokenizer_contract _ prep byte_tokenizer_closes_all
      byte_tokenizer_view_closes p, of "[]"] prep p
  show ?thesis by auto
qed

section \<open>Detail prefixes\<close>

fun note_fragments :: "bool \<Rightarrow> nat \<Rightarrow> utf8 list \<Rightarrow> utf8 list" where
  "note_fragments has_body existing [] = []"
| "note_fragments has_body existing (line # rest) =
     (if 0 < existing then [[nl], line] else if has_body then [[nl, nl], line] else [line]) @
     note_fragments has_body (Suc existing) rest"

lemma concat_note_fragments:
  "concat (note_fragments has_body existing ls) = render_continuation_suffix has_body existing ls"
  by (induction ls arbitrary: existing) (auto simp: render_continuation_suffix_def join_Cons)

lemma note_fragments_append:
  "note_fragments has_body existing (xs @ ys) =
     note_fragments has_body existing xs @ note_fragments has_body (existing + length xs) ys"
  by (induction xs arbitrary: existing) auto

lemma append_note_line_counts:
  assumes T: "tokenizer_contract T" and c: "counts_prefix T t c"
    and cl: "closes_all T t (note_fragments has_body existing [line])"
    and add: "append_note_line T op line has_body existing c k = Inr (c', k')"
  shows "counts_prefix T (t @ concat (note_fragments has_body existing [line])) c'"
proof (cases "0 < existing \<or> has_body")
  case True
  let ?sep = "if 0 < existing then [nl] else [nl, nl]"
  from True add obtain c1 k1 where
    "append_fragment T op ?sep c k = Inr (c1, k1)" "append_fragment T op line c1 k1 = Inr (c', k')"
    by (auto simp: append_note_line_def bind_simps split: if_splits)
  with True cl append_counts_prefix [OF T c, of ?sep op k c1 k1]
    append_counts_prefix [OF T, of "t @ ?sep" c1 line op k1 c' k'] show ?thesis
    by (auto split: if_splits)
next
  case False
  with assms append_counts_prefix [OF T c, of line op k c' k'] show ?thesis
    by (simp add: append_note_line_def bind_simps)
qed

lemma append_note_lines_counts:
  assumes T: "tokenizer_contract T"
  shows "counts_prefix T t c \<Longrightarrow> closes_all T t (note_fragments has_body existing ls) \<Longrightarrow>
    existing + length ls \<le> usize_max \<Longrightarrow>
    append_note_lines T op has_body existing ls c k = Inr (cs, c', k') \<Longrightarrow>
    length cs = length ls \<and>
    (\<forall>i \<le> length ls. counts_prefix T (t @ concat (note_fragments has_body existing (take i ls)))
        ((c # cs) ! i)) \<and> c' = (c # cs) ! length ls"
proof (induction ls arbitrary: t existing c k cs)
  case (Cons line ls)
  let ?fs = "note_fragments has_body existing [line]"
  from Cons.prems(4) obtain c1 k1 cs1 where
    add: "append_note_line T op line has_body existing c k = Inr (c1, k1)"
    and rest: "append_note_lines T op has_body (Suc existing) ls c1 k1 = Inr (cs1, c', k')"
    and cs: "cs = c1 # cs1"
    using Cons.prems(3) by (auto simp: bind_simps sat_add_exact)
  have cl: "closes_all T t ?fs" "closes_all T (t @ concat ?fs) (note_fragments has_body (Suc existing) ls)"
    using Cons.prems(2) by (auto simp: closes_all_append split: if_splits)
  note c1 = append_note_line_counts [OF T Cons.prems(1) cl(1) add]
  from Cons.IH [OF c1 cl(2) _ rest] Cons.prems(3) have IH: "length cs1 = length ls"
    "\<And>i. i \<le> length ls \<Longrightarrow> counts_prefix T
      ((t @ concat ?fs) @ concat (note_fragments has_body (Suc existing) (take i ls))) ((c1 # cs1) ! i)"
    "c' = (c1 # cs1) ! length ls" by auto
  have "counts_prefix T (t @ concat (note_fragments has_body existing (take i (line # ls)))) ((c # cs) ! i)"
    if "i \<le> length (line # ls)" for i
  proof (cases i)
    case 0
    with Cons.prems(1) show ?thesis by simp
  next
    case (Suc j)
    with IH(2) [of j] that cs show ?thesis by (simp split: if_splits)
  qed
  with IH cs show ?case by simp
qed auto

text \<open>
  Optional details are counted exactly: a detail graph built on a body prefix, probed with any
  number of its detail lines and mandatory trailing lines, gives the token count of the body
  followed by the fixed lines, those details and the trailing lines as one note block.
\<close>

theorem detail_probe_exact:
  assumes T: "tokenizer_contract T" and cl: "closes_all T [] (line_fragments True lines)"
    and new: "line_graph_new T op lines k = Inr (g, k1)" and shown: "shown \<le> length lines"
    and body: "graph_checkpoint g shown = Inr body"
    and cl2: "closes_all T (join [nl] (take shown lines)) (note_fragments (0 < shown) 0 (fixed @ details))"
    and cl3: "closes T (join [nl] (take shown lines) @
        render_continuation_suffix (0 < shown) 0 (fixed @ take d details))
      (render_continuation_suffix (0 < shown) (length fixed + d) tail_lines)"
    and len: "length fixed + length details \<le> usize_max"
    and graph: "detail_graph_new T op body (0 < shown) fixed details k2 = Inr (dg, k3)"
    and probe: "probe_tail T op dg d tail_lines k4 = Inr (n, k5)"
  shows "d \<le> length details \<and>
    n = estimate_tokens T (render_text (take shown lines) (fixed @ take d details @ tail_lines))"
proof -
  let ?t = "join [nl] (take shown lines)"
  have c0: "counts_prefix T ?t body"
    using line_graph_new_valid [OF T cl new shown] body
    by (auto simp: line_graph_valid_def graph_checkpoint_def split: if_splits)
  from graph obtain c1 cs1 k' cs k'' c2 where
    fixd: "append_note_lines T op (0 < shown) 0 fixed body k2 = Inr (cs1, c1, k')"
    and det: "append_note_lines T op (0 < shown) (length fixed) details c1 k' = Inr (cs, c2, k'')"
    and dg: "dg = \<lparr>prefix_has_body = (0 < shown), fixed_lines = length fixed,
      detail_lines = length details, dg_checkpoints = c1 # cs\<rparr>"
    by (auto simp: detail_graph_new_def bind_simps)
  have cls: "closes_all T ?t (note_fragments (0 < shown) 0 fixed)"
    "closes_all T (?t @ concat (note_fragments (0 < shown) 0 fixed))
       (note_fragments (0 < shown) (length fixed) details)"
    using cl2 by (simp_all add: note_fragments_append closes_all_append)
  have c1: "counts_prefix T (?t @ concat (note_fragments (0 < shown) 0 fixed)) c1"
    using append_note_lines_counts [OF T c0 cls(1) _ fixd] len by auto
  from append_note_lines_counts [OF T c1 cls(2) len det] have
    lcs: "length cs = length details"
    and cd: "\<And>i. i \<le> length details \<Longrightarrow> counts_prefix T
      (?t @ concat (note_fragments (0 < shown) 0 (fixed @ take i details))) ((c1 # cs) ! i)"
    by (simp_all add: note_fragments_append)
  from probe dg lcs have d: "d \<le> length details"
    by (auto simp: probe_tail_def bind_simps split: if_splits)
  with probe dg lcs len obtain k6 where
    p: "count_with_suffix T op ((c1 # cs) ! d)
      (render_continuation_suffix (0 < shown) (length fixed + d) tail_lines) k6 = Inr (n, k5)"
    by (auto simp: probe_tail_def probe_suffix_def bind_simps sat_add_exact split: if_splits)
  have "n = estimate_tokens T ((?t @ render_continuation_suffix (0 < shown) 0 (fixed @ take d details)) @
      render_continuation_suffix (0 < shown) (length fixed + d) tail_lines)"
    using count_with_suffix_exact [OF T cd [OF d] _ p] cl3 by (simp add: concat_note_fragments)
  also have "(?t @ render_continuation_suffix (0 < shown) 0 (fixed @ take d details)) @
      render_continuation_suffix (0 < shown) (length fixed + d) tail_lines =
      ?t @ concat (note_fragments (0 < shown) 0 ((fixed @ take d details) @ tail_lines))"
    unfolding note_fragments_append [of _ _ "fixed @ take d details"] concat_append
      concat_note_fragments using d by simp
  also have "\<dots> = render_text (take shown lines) (fixed @ take d details @ tail_lines)"
    using shown by (auto simp: concat_note_fragments render_text_def render_continuation_suffix_def
        render_notes_suffix_def)
  finally show ?thesis using d by simp
qed

theorem detail_probe_exact_witness:
  "\<exists>dg k3 k5. detail_graph_new byte_tokenizer None default_counter False [] [''d''] 0 = Inr (dg, k3) \<and>
     probe_tail byte_tokenizer None dg 1 [''t''] 0 =
       Inr (estimate_tokens byte_tokenizer (render_text [] [''d'', ''t'']), k5)"
proof -
  let ?T = byte_tokenizer
  have new: "line_graph_new ?T None [] 0 = Inr (\<lparr>lg_lines = [], lg_checkpoints = [default_counter]\<rparr>, 0)"
    by (simp add: line_graph_new_def)
  have zero: "counts_prefix ?T [] default_counter"
    by (simp add: counts_prefix_default byte_tokenizer_def)
  obtain c k' where app: "append_fragment ?T None ''d'' default_counter 0 = Inr (c, k')"
    using append_fragment_total [OF byte_tokenizer_contract zero byte_tokenizer_closes, of "''d''" None 0]
    by (auto simp: byte_tokens usize_large undisturbed_def)
  then have graph: "detail_graph_new ?T None default_counter (0 < (0::nat)) [] [''d''] 0 =
      Inr (\<lparr>prefix_has_body = False, fixed_lines = 0, detail_lines = 1,
        dg_checkpoints = [default_counter, c]\<rparr>, k')" (is "_ = Inr (?dg, _)")
    by (simp add: detail_graph_new_def append_note_line_def)
  have "counts_prefix ?T ''d'' c"
    using append_counts_prefix [OF byte_tokenizer_contract zero byte_tokenizer_closes app] by simp
  then obtain n k5 where "count_with_suffix ?T None c (nl # ''t'') 0 = Inr (n, k5)"
    using count_with_suffix_total [OF byte_tokenizer_contract _ byte_tokenizer_closes, of "''d''" c "nl # ''t''" None 0]
    by (auto simp: byte_tokens usize_large undisturbed_def)
  then have probe: "probe_tail ?T None ?dg 1 [''t''] 0 = Inr (n, k5)"
    by (simp add: probe_tail_def probe_suffix_def check_render_work_def check_token_work_def
        render_continuation_suffix_def sat_add_exact usize_large)
  have "n = estimate_tokens ?T (render_text (take 0 []) ([] @ take 1 [''d''] @ [''t'']))"
    by (rule detail_probe_exact [OF byte_tokenizer_contract _ new _ _ _ _ _ graph probe, THEN conjunct2])
      (auto simp: graph_checkpoint_def byte_tokenizer_closes_all byte_tokenizer_closes usize_large
        simp del: closes_all.simps)
  with graph probe show ?thesis by simp
qed

end
