(* ===== verification/Token_Budget.thy ===== *)
theory Token_Budget
  imports Tokens
begin

text \<open>
  Token budgets (\<open>src/src/budget.rs\<close>): the configuration read from the session environment, the
  aggregate ceiling and the status-line reservation that the thread-local slots hold, and the
  adapter that fits error messages. The environment is a parameter, the slots are one record that
  the operations thread.
\<close>

section \<open>Responses\<close>

datatype image_detail = HighDetail

datatype tool_content = TextContent utf8 | ImageContent utf8 utf8 "image_detail option"

record tool_response =
  content :: "tool_content list"
  is_error :: bool

definition text_response :: "utf8 \<Rightarrow> tool_response" where
  "text_response t = \<lparr>content = [TextContent t], is_error = False\<rparr>"

definition error_response :: "utf8 \<Rightarrow> tool_response" where
  "error_response t = \<lparr>content = [TextContent t], is_error = True\<rparr>"

section \<open>Configuration\<close>

definition default_token_budget :: nat where
  "default_token_budget = 8500"

definition global_variable :: utf8 where
  "global_variable = ''FASTCTX_TOKEN_BUDGET''"

datatype env_value = Present utf8 | NotPresent | NotUnicode

type_synonym environment = "utf8 \<Rightarrow> env_value"

record token_budget =
  tb_value :: nat
  tb_variable :: utf8

definition dq :: utf8 where
  "dq = [CHR 0x22]"

definition parse_token_budget :: "utf8 \<Rightarrow> utf8 \<Rightarrow> utf8 + nat" where
  "parse_token_budget variable value =
     ok_or (''Invalid '' @ variable @ '' value '' @ dq @ value @ dq @ '': expected a positive integer.'')
       (case parse_usize value of None \<Rightarrow> None | Some n \<Rightarrow> if 0 < n then Some n else None)"

definition configured_token_budget :: "environment \<Rightarrow> utf8 + nat" where
  "configured_token_budget env =
     (case env global_variable of
        Present value \<Rightarrow> parse_token_budget global_variable value
      | NotPresent \<Rightarrow> Inr default_token_budget
      | NotUnicode \<Rightarrow>
          Inl ''Invalid FASTCTX_TOKEN_BUDGET value: expected a UTF-8 positive integer.'')"

definition configured_tool_token_budget :: "environment \<Rightarrow> utf8 \<Rightarrow> utf8 + token_budget" where
  "configured_tool_token_budget env variable =
     bind_r (configured_token_budget env) (\<lambda>global.
       case env variable of
         Present value \<Rightarrow>
           bind_r (parse_token_budget variable value) (\<lambda>value.
             if global < value
             then Inl (variable @ ''='' @ show_nat value @ '' exceeds FASTCTX_TOKEN_BUDGET='' @
               show_nat global @ ''. Increase the global budget or lower the per-tool budget.'')
             else Inr \<lparr>tb_value = value, tb_variable = variable\<rparr>)
       | NotPresent \<Rightarrow> Inr \<lparr>tb_value = global, tb_variable = ''FASTCTX_TOKEN_BUDGET''\<rparr>
       | NotUnicode \<Rightarrow>
           Inl (''Invalid '' @ variable @ '' value: expected a UTF-8 positive integer.''))"

section \<open>Ceiling and reservation\<close>

datatype reservation_level = FullLevel | SummaryLevel | NoLevel

record reservation =
  res_variable :: utf8
  configured_budget :: nat
  full_line :: utf8
  full_tokens :: nat
  summary_line :: utf8
  summary_tokens :: nat
  level :: reservation_level

record budget_slots =
  reserved :: "reservation option"
  ceiling :: "nat option"

definition install_ceiling :: "nat \<Rightarrow> budget_slots \<Rightarrow> nat option \<times> budget_slots" where
  "install_ceiling budget st = (ceiling st, st\<lparr>ceiling := Some budget\<rparr>)"

definition drop_ceiling :: "nat option \<Rightarrow> budget_slots \<Rightarrow> budget_slots" where
  "drop_ceiling previous st = st\<lparr>ceiling := previous\<rparr>"

definition apply_response_ceiling :: "budget_slots \<Rightarrow> nat \<Rightarrow> nat" where
  "apply_response_ceiling st configured =
     (case ceiling st of None \<Rightarrow> configured | Some c \<Rightarrow> min configured c)"

definition new_reservation :: "tokenizer \<Rightarrow> utf8 \<Rightarrow> nat \<Rightarrow> utf8 \<Rightarrow> utf8 \<Rightarrow> reservation" where
  "new_reservation T variable configured full summary =
     (let sep = estimate_tokens T [nl, nl];
          ft = sat_add (estimate_tokens T full) sep;
          st = sat_add (estimate_tokens T summary) sep in
      \<lparr>res_variable = variable, configured_budget = configured, full_line = full,
       full_tokens = ft, summary_line = summary, summary_tokens = st,
       level = (if ft < configured then FullLevel else if st < configured then SummaryLevel
                else NoLevel)\<rparr>)"

definition install_with_budget ::
    "tokenizer \<Rightarrow> utf8 \<Rightarrow> nat \<Rightarrow> utf8 \<Rightarrow> utf8 \<Rightarrow> budget_slots \<Rightarrow> reservation option \<times> budget_slots" where
  "install_with_budget T variable configured full summary st =
     (reserved st, st\<lparr>reserved := Some (new_reservation T variable configured full summary)\<rparr>)"

definition install_reservation ::
    "tokenizer \<Rightarrow> environment \<Rightarrow> utf8 \<Rightarrow> utf8 \<Rightarrow> utf8 \<Rightarrow> budget_slots
       \<Rightarrow> (reservation option \<times> budget_slots) option" where
  "install_reservation T env variable full summary st =
     (case configured_tool_token_budget env variable of
        Inl e \<Rightarrow> None
      | Inr b \<Rightarrow> Some (install_with_budget T variable (apply_response_ceiling st (tb_value b))
                   full summary st))"

definition reserved_tokens :: "reservation \<Rightarrow> nat" where
  "reserved_tokens r =
     (case level r of FullLevel \<Rightarrow> full_tokens r | SummaryLevel \<Rightarrow> summary_tokens r | NoLevel \<Rightarrow> 0)"

definition apply_response_reservation :: "budget_slots \<Rightarrow> utf8 \<Rightarrow> nat \<Rightarrow> nat" where
  "apply_response_reservation st variable configured =
     (case reserved st of
        None \<Rightarrow> configured
      | Some r \<Rightarrow>
          if res_variable r = variable then configured_budget r - reserved_tokens r else configured)"

definition relax :: "reservation \<Rightarrow> reservation option" where
  "relax r =
     (case level r of
        FullLevel \<Rightarrow>
          Some (r\<lparr>level := (if summary_tokens r < configured_budget r then SummaryLevel else NoLevel)\<rparr>)
      | SummaryLevel \<Rightarrow> Some (r\<lparr>level := NoLevel\<rparr>)
      | NoLevel \<Rightarrow> None)"

definition downgrade_reservation :: "utf8 option \<Rightarrow> budget_slots \<Rightarrow> bool \<times> budget_slots" where
  "downgrade_reservation variable st =
     (case reserved st of
        None \<Rightarrow> (False, st)
      | Some r \<Rightarrow>
          if variable \<noteq> None \<and> variable \<noteq> Some (res_variable r) then (False, st)
          else case relax r of
              None \<Rightarrow> (False, st)
            | Some r' \<Rightarrow> (True, st\<lparr>reserved := Some r'\<rparr>))"

definition selected_line :: "reservation \<Rightarrow> utf8 option" where
  "selected_line r =
     (case level r of FullLevel \<Rightarrow> Some (full_line r) | SummaryLevel \<Rightarrow> Some (summary_line r)
      | NoLevel \<Rightarrow> None)"

text \<open>\<open>finish\<close> restores the outer reservation; \<open>None\<close> is the panic of its \<open>expect\<close>.\<close>

definition finish_reservation ::
    "reservation option \<Rightarrow> budget_slots \<Rightarrow> ((nat \<times> utf8 option \<times> utf8) \<times> budget_slots) option" where
  "finish_reservation previous st =
     map_option
       (\<lambda>r. ((configured_budget r, selected_line r, summary_line r), st\<lparr>reserved := previous\<rparr>))
       (reserved st)"

section \<open>Effective budgets\<close>

definition global_token_budget :: "environment \<Rightarrow> budget_slots \<Rightarrow> utf8 + nat" where
  "global_token_budget env st =
     bind_r (configured_token_budget env) (\<lambda>configured.
       Inr (apply_response_reservation st global_variable (apply_response_ceiling st configured)))"

definition tool_token_budget :: "environment \<Rightarrow> utf8 \<Rightarrow> budget_slots \<Rightarrow> utf8 + token_budget" where
  "tool_token_budget env variable st =
     bind_r (configured_tool_token_budget env variable) (\<lambda>b.
       Inr (b\<lparr>tb_value :=
         apply_response_reservation st variable (apply_response_ceiling st (tb_value b))\<rparr>))"

definition error_budget_hint :: "environment \<Rightarrow> utf8 \<Rightarrow> budget_slots \<Rightarrow> nat" where
  "error_budget_hint env variable st =
     (case configured_token_budget env of
        Inl e \<Rightarrow> apply_response_ceiling st default_token_budget
      | Inr global \<Rightarrow>
          apply_response_ceiling st
            (case env variable of
               Present value \<Rightarrow>
                 (case parse_token_budget variable value of
                    Inr value \<Rightarrow> if value \<le> global then value else global
                  | Inl e \<Rightarrow> global)
             | _ \<Rightarrow> global))"

definition relax_tool_token_budget ::
    "environment \<Rightarrow> utf8 \<Rightarrow> budget_slots \<Rightarrow> (utf8 + token_budget option) \<times> budget_slots" where
  "relax_tool_token_budget env variable st =
     (case downgrade_reservation (Some variable) st of
        (False, st) \<Rightarrow> (Inr None, st)
      | (True, st) \<Rightarrow> (map_r Some (tool_token_budget env variable st), st))"

definition level_rank :: "budget_slots \<Rightarrow> nat" where
  "level_rank st =
     (case reserved st of
        None \<Rightarrow> 0
      | Some r \<Rightarrow> (case level r of FullLevel \<Rightarrow> 2 | SummaryLevel \<Rightarrow> 1 | NoLevel \<Rightarrow> 0))"

lemma downgrade_rank: "downgrade_reservation v st = (True, st') \<Longrightarrow> level_rank st' < level_rank st"
  by (auto simp: downgrade_reservation_def relax_def level_rank_def
      split: option.splits if_splits reservation_level.splits)

function tool_token_budget_for_required ::
    "environment \<Rightarrow> utf8 \<Rightarrow> nat \<Rightarrow> budget_slots \<Rightarrow> (utf8 + token_budget) \<times> budget_slots" where
  "tool_token_budget_for_required env variable required st =
     (case tool_token_budget env variable st of
        Inl e \<Rightarrow> (Inl e, st)
      | Inr budget \<Rightarrow>
          if required \<le> tb_value budget then (Inr budget, st)
          else (case downgrade_reservation (Some variable) st of
              (False, st') \<Rightarrow> (Inr budget, st')
            | (True, st') \<Rightarrow> tool_token_budget_for_required env variable required st'))"
  by pat_completeness auto
termination
  by (relation "measure (\<lambda>(env, variable, required, st). level_rank st)")
    (auto dest: downgrade_rank [OF sym])

declare tool_token_budget_for_required.simps [simp del]

section \<open>Errors\<close>

datatype error_class = BudgetError | CancelledError | OtherError

definition fallbacks :: "utf8 \<Rightarrow> error_class \<Rightarrow> utf8 list" where
  "fallbacks variable cls =
     (case cls of
        BudgetError \<Rightarrow> [''Increase '' @ variable @ ''.'', ''Budget too small.'', ''Budget.'']
      | CancelledError \<Rightarrow> [''Request cancelled.'', ''Cancelled.'']
      | OtherError \<Rightarrow> [''Error; increase budget.'', ''Error.''])"

definition adapter_error ::
    "tokenizer \<Rightarrow> nat \<Rightarrow> utf8 \<Rightarrow> error_class \<Rightarrow> utf8 \<Rightarrow> tool_response" where
  "adapter_error T budget variable cls message =
     (if estimate_tokens T message \<le> budget then error_response message
      else case find (\<lambda>f. estimate_tokens T f \<le> budget) (fallbacks variable cls) of
          Some f \<Rightarrow> error_response f
        | None \<Rightarrow> error_response [])"

definition ascii_lower :: "char \<Rightarrow> char" where
  "ascii_lower c =
     (let v = of_char c :: nat in if 65 \<le> v \<and> v \<le> 90 then char_of (v + 32) else c)"

definition contains :: "utf8 \<Rightarrow> utf8 \<Rightarrow> bool" where
  "contains text pat \<longleftrightarrow>
     list_ex (\<lambda>n. take (length pat) (drop n text) = pat) [0..<Suc (length text)]"

definition classify_error :: "utf8 \<Rightarrow> error_class" where
  "classify_error message =
     (if message = ''Request cancelled.'' \<or> message = ''Cancelled.'' then CancelledError
      else
        let lower = map ascii_lower message in
        if contains message ''TOKEN_BUDGET'' \<or> contains lower ''budget too small'' \<or>
           contains lower ''too small to return''
        then BudgetError else OtherError)"

definition adapt :: "tokenizer \<Rightarrow> nat \<Rightarrow> utf8 \<Rightarrow> tool_response \<Rightarrow> tool_response" where
  "adapt T budget variable r =
     (if \<not> is_error r then r
      else case content r of
          [TextContent message] \<Rightarrow>
            adapter_error T budget variable (classify_error message) message
        | _ \<Rightarrow> r)"

section \<open>Lemmas\<close>

lemma parse_token_budget_Inr:
  "parse_token_budget variable value = Inr n \<Longrightarrow> 0 < n \<and> n \<le> usize_max"
  by (auto simp: parse_token_budget_def bind_simps dest: parse_usize_bound
      split: option.splits if_splits)

lemma configured_pos: "configured_token_budget env = Inr n \<Longrightarrow> 0 < n"
  by (auto simp: configured_token_budget_def default_token_budget_def dest: parse_token_budget_Inr
      split: env_value.splits)

lemma configured_tool_pos:
  "configured_tool_token_budget env variable = Inr b \<Longrightarrow>
     0 < tb_value b \<and> (\<exists>g. configured_token_budget env = Inr g \<and> tb_value b \<le> g)"
  by (cases "env variable")
    (auto simp: configured_tool_token_budget_def bind_simps configured_pos
      split: if_splits dest: parse_token_budget_Inr)

text \<open>A reservation never takes the last token, at any level it can reach.\<close>

definition reservation_inv :: "reservation \<Rightarrow> bool" where
  "reservation_inv r \<longleftrightarrow>
     (0 < configured_budget r \<longrightarrow> reserved_tokens r < configured_budget r)"

lemma reservation_inv_new: "reservation_inv (new_reservation T v b f s)"
  by (simp add: reservation_inv_def new_reservation_def reserved_tokens_def Let_def)

lemma reservation_inv_relax: "reservation_inv r \<Longrightarrow> relax r = Some r' \<Longrightarrow> reservation_inv r'"
  by (auto simp: reservation_inv_def relax_def reserved_tokens_def
      split: reservation_level.splits if_splits)

fun relax_times :: "nat \<Rightarrow> reservation \<Rightarrow> reservation" where
  "relax_times 0 r = r"
| "relax_times (Suc n) r = (case relax r of None \<Rightarrow> r | Some r' \<Rightarrow> relax_times n r')"

lemma relax_frame:
  "relax r = Some r' \<Longrightarrow> res_variable r' = res_variable r \<and>
     configured_budget r' = configured_budget r \<and> full_line r' = full_line r \<and>
     full_tokens r' = full_tokens r \<and> summary_line r' = summary_line r \<and>
     summary_tokens r' = summary_tokens r"
  by (auto simp: relax_def split: reservation_level.splits)

lemma relax_times_frame:
  "res_variable (relax_times n r) = res_variable r \<and>
     configured_budget (relax_times n r) = configured_budget r \<and>
     full_line (relax_times n r) = full_line r \<and> full_tokens (relax_times n r) = full_tokens r \<and>
     summary_line (relax_times n r) = summary_line r \<and>
     summary_tokens (relax_times n r) = summary_tokens r \<and>
     (reservation_inv r \<longrightarrow> reservation_inv (relax_times n r))"
  by (induction n arbitrary: r)
    (auto split: option.splits dest: relax_frame reservation_inv_relax)

section \<open>Properties\<close>

text \<open>
  Budgets are accepted or refused, never guessed: a tool budget that is accepted is positive and
  at most the global budget, an explicit one is used as written, and the hint that sizes a
  configuration error is positive and at most the accepted global budget or the default.
\<close>

theorem budget_configuration:
  "(case configured_tool_token_budget env variable of
      Inr b \<Rightarrow> 0 < tb_value b \<and>
        (case configured_token_budget env of Inl e \<Rightarrow> False | Inr g \<Rightarrow> tb_value b \<le> g \<and>
          (case env variable of Present s \<Rightarrow> parse_token_budget variable s = Inr (tb_value b)
           | NotPresent \<Rightarrow> tb_value b = g | NotUnicode \<Rightarrow> False))
    | Inl e \<Rightarrow>
        (case configured_token_budget env of Inl e' \<Rightarrow> e = e' | Inr g \<Rightarrow>
          (case env variable of
             Present s \<Rightarrow> (case parse_token_budget variable s of Inl e' \<Rightarrow> e = e' | Inr v \<Rightarrow> g < v)
           | NotPresent \<Rightarrow> False | NotUnicode \<Rightarrow> True))) \<and>
    error_budget_hint env variable \<lparr>reserved = None, ceiling = None\<rparr> \<le>
      (case configured_token_budget env of Inl e \<Rightarrow> default_token_budget | Inr g \<Rightarrow> g) \<and>
    0 < error_budget_hint env variable \<lparr>reserved = None, ceiling = None\<rparr>"
  using configured_pos [of env]
  by (auto simp: configured_tool_token_budget_def error_budget_hint_def apply_response_ceiling_def
      default_token_budget_def bind_simps dest: parse_token_budget_Inr
      split: sum.splits env_value.splits if_splits)

text \<open>
  Reserving room before work: \<open>tool_token_budget_for_required\<close> always returns. When the
  configuration is valid it gives the budget in force afterwards, which covers the requirement
  unless nothing more can be given up, and every richer status level it passed over did not.
\<close>

theorem required_budget_least_downgrade:
  assumes "tool_token_budget_for_required env variable required st = (Inr b, st')"
  shows "tool_token_budget env variable st' = Inr b \<and>
    (required \<le> tb_value b \<or> fst (downgrade_reservation (Some variable) st') = False) \<and>
    (\<exists>n. st' = ((\<lambda>s. snd (downgrade_reservation (Some variable) s)) ^^ n) st \<and>
       (\<forall>m < n. \<exists>b'. tool_token_budget env variable
            (((\<lambda>s. snd (downgrade_reservation (Some variable) s)) ^^ m) st) = Inr b' \<and>
          tb_value b' < required))"
  using assms
proof (induction env variable required st rule: tool_token_budget_for_required.induct)
  case (1 env variable required st)
  let ?d = "\<lambda>s. snd (downgrade_reservation (Some variable) s)"
  from "1.prems" obtain b0 where b0: "tool_token_budget env variable st = Inr b0"
    by (subst (asm) tool_token_budget_for_required.simps) (auto split: sum.splits)
  show ?case
  proof (cases "required \<le> tb_value b0")
    case True
    with "1.prems" b0 show ?thesis
      by (subst (asm) tool_token_budget_for_required.simps) (auto intro!: exI [of _ "0::nat"])
  next
    case False
    obtain ok st1 where d: "downgrade_reservation (Some variable) st = (ok, st1)"
      by (cases "downgrade_reservation (Some variable) st")
    show ?thesis
    proof (cases ok)
      case True
      have "tool_token_budget_for_required env variable required st1 = (Inr b, st')"
        using "1.prems" b0 False d True
        by (subst (asm) tool_token_budget_for_required.simps) simp
      from "1.IH" [OF b0 False d [symmetric] _ this] True obtain n where
        res: "tool_token_budget env variable st' = Inr b"
          "required \<le> tb_value b \<or> fst (downgrade_reservation (Some variable) st') = False"
        and n: "st' = (?d ^^ n) st1"
          "\<forall>m < n. \<exists>b'. tool_token_budget env variable ((?d ^^ m) st1) = Inr b' \<and> tb_value b' < required"
        by auto
      have unroll: "(?d ^^ Suc m) st = (?d ^^ m) st1" for m
        using d by (simp add: funpow_Suc_right del: funpow.simps)
      have "\<exists>b'. tool_token_budget env variable ((?d ^^ m) st) = Inr b' \<and> tb_value b' < required"
        if "m < Suc n" for m
      proof (cases m)
        case 0
        with b0 False show ?thesis by simp
      next
        case (Suc m')
        have "(?d ^^ m) st = (?d ^^ m') st1" using unroll Suc by metis
        with n(2) that Suc show ?thesis by simp
      qed
      moreover have "st' = (?d ^^ Suc n) st" using n(1) unroll by metis
      ultimately show ?thesis using res by blast
    next
      case False
      then have "st1 = st"
        using d by (auto simp: downgrade_reservation_def split: option.splits if_splits)
      with "1.prems" b0 False \<open>\<not> required \<le> tb_value b0\<close> d have "b = b0 \<and> st' = st"
        by (subst (asm) tool_token_budget_for_required.simps) auto
      with b0 d False \<open>st1 = st\<close> show ?thesis by (auto intro!: exI [of _ "0::nat"])
    qed
  qed
qed

text \<open>The default configuration and a reservation it can no longer afford.\<close>

definition small_reservation :: reservation where
  "small_reservation =
     \<lparr>res_variable = ''V'', configured_budget = 10, full_line = ''status'', full_tokens = 8,
      summary_line = ''s'', summary_tokens = 3, level = FullLevel\<rparr>"

definition small_slots :: "reservation_level \<Rightarrow> budget_slots" where
  "small_slots l = \<lparr>reserved = Some (small_reservation\<lparr>level := l\<rparr>), ceiling = None\<rparr>"

lemma small_tool_budget:
  "tool_token_budget (\<lambda>_. NotPresent) ''V'' (small_slots l) =
     Inr \<lparr>tb_value = 10 - (case l of FullLevel \<Rightarrow> 8 | SummaryLevel \<Rightarrow> 3 | NoLevel \<Rightarrow> 0),
          tb_variable = ''FASTCTX_TOKEN_BUDGET''\<rparr>"
  by (cases l) (simp_all add: tool_token_budget_def configured_tool_token_budget_def
      configured_token_budget_def apply_response_reservation_def apply_response_ceiling_def
      small_slots_def small_reservation_def reserved_tokens_def)

lemma small_required:
  "tool_token_budget_for_required (\<lambda>_. NotPresent) ''V'' 5 (small_slots FullLevel) =
     (Inr \<lparr>tb_value = 7, tb_variable = ''FASTCTX_TOKEN_BUDGET''\<rparr>, small_slots SummaryLevel)"
proof -
  have d: "downgrade_reservation (Some ''V'') (small_slots FullLevel) = (True, small_slots SummaryLevel)"
    by (simp add: downgrade_reservation_def small_slots_def small_reservation_def relax_def)
  have "tool_token_budget_for_required (\<lambda>_. NotPresent) ''V'' 5 (small_slots SummaryLevel) =
     (Inr \<lparr>tb_value = 7, tb_variable = ''FASTCTX_TOKEN_BUDGET''\<rparr>, small_slots SummaryLevel)"
    by (subst tool_token_budget_for_required.simps) (simp add: small_tool_budget)
  then show ?thesis
    by (subst tool_token_budget_for_required.simps) (simp add: small_tool_budget d)
qed

theorem required_budget_least_downgrade_witness:
  "tool_token_budget (\<lambda>_. NotPresent) ''V'' (small_slots SummaryLevel) =
     Inr \<lparr>tb_value = 7, tb_variable = ''FASTCTX_TOKEN_BUDGET''\<rparr>"
  using required_budget_least_downgrade [OF small_required] by blast





end
