(* ===== verification/Glob_Render.thy ===== *)
theory Glob_Render
  imports Render_Plan Token_Budget
begin

text \<open>
  Skip reports (\<open>src/src/skip_report.rs\<close>) and the pages of glob (\<open>src/src/glob_tool.rs\<close>): which
  matches are shown, with which terminal note, and how many skip details fit on top.
\<close>

section \<open>Skip reports\<close>

definition detail_line :: "utf8 \<Rightarrow> utf8 \<Rightarrow> utf8" where
  "detail_line path reason = path @ '' '' @ em_dash @ '' '' @ reason"

record skip_tally =
  st_files :: nat
  st_unreachable :: nat
  st_listed :: nat

definition counted :: "nat \<Rightarrow> utf8 \<Rightarrow> utf8 \<Rightarrow> utf8" where
  "counted amount singular plural =
     show_nat amount @ '' '' @ (if amount = 1 then singular else plural)"

definition tally_is_empty :: "skip_tally \<Rightarrow> bool" where
  "tally_is_empty t \<longleftrightarrow> st_files t = 0 \<and> st_unreachable t = 0"

definition tally_clause :: "skip_tally \<Rightarrow> nat \<Rightarrow> utf8 option" where
  "tally_clause t shown =
     (if tally_is_empty t then None
      else
        let c = (if 0 < st_files t then counted (st_files t) ''file'' ''files'' @ '' skipped'' else []);
            c = (if 0 < st_unreachable t
                 then (if c = [] then [] else c @ '', '') @
                   counted (st_unreachable t) ''path'' ''paths'' @ '' unreachable''
                 else c);
            c = (if shown < st_listed t
                 then c @ '', showing '' @ show_nat shown @ '' '' @ em_dash @
                   '' narrow path/glob to inspect the rest''
                 else c) in
        Some c)"

definition strip_suffix :: "utf8 \<Rightarrow> utf8 \<Rightarrow> utf8 option" where
  "strip_suffix text suffix =
     (if length suffix \<le> length text \<and> drop (length text - length suffix) text = suffix
      then Some (take (length text - length suffix) text) else None)"

definition terminal_with_skips :: "utf8 \<Rightarrow> skip_tally \<Rightarrow> nat \<Rightarrow> utf8 option" where
  "terminal_with_skips terminal tally shown =
     (case tally_clause tally shown of
        None \<Rightarrow> Some terminal
      | Some clause \<Rightarrow>
          map_option (\<lambda>stem. stem @ ''; '' @ clause @ ''.)'') (strip_suffix terminal ''.)''))"

record skip_report =
  sr_details :: "utf8 list"
  sr_tally :: skip_tally

definition skip_report_new :: "(utf8 \<times> utf8) list \<Rightarrow> nat \<Rightarrow> skip_report" where
  "skip_report_new skipped unreachable =
     (let details = map (\<lambda>(path, reason). detail_line path reason) skipped in
      \<lparr>sr_details = details,
       sr_tally = \<lparr>st_files = 0, st_unreachable = unreachable, st_listed = length details\<rparr>\<rparr>)"

definition report_notes :: "skip_report \<Rightarrow> nat \<Rightarrow> utf8 \<Rightarrow> utf8 list option" where
  "report_notes report shown_details terminal =
     map_option (\<lambda>t. take shown_details (sr_details report) @ [t])
       (terminal_with_skips terminal (sr_tally report) shown_details)"

section \<open>Terminal notes\<close>

definition entry_range :: "nat \<Rightarrow> nat \<Rightarrow> utf8" where
  "entry_range first shown =
     (if shown = 1 then ''file '' @ show_nat first
      else ''files '' @ show_nat first @ ''-'' @ show_nat (first + shown - 1))"

definition glob_terminal :: "nat \<Rightarrow> nat \<Rightarrow> nat \<Rightarrow> utf8" where
  "glob_terminal offset shown amount =
     (let range = entry_range (offset + 1) shown in
      if offset + shown < amount
      then ''(Partial: '' @ range @ '' of '' @ show_nat amount @ '' shown. Continue with offset='' @
        show_nat (offset + shown) @ ''.)''
      else if offset = 0 then ''(Complete: all '' @ counted amount ''file'' ''files'' @ '' shown.)''
      else ''(Complete: '' @ range @ '' of '' @ show_nat amount @ '' shown; end of results.)'')"

section \<open>Failures\<close>

definition display_token_error :: "token_count_error \<Rightarrow> utf8" where
  "display_token_error e =
     (case e of
        TokenStopped RequestCancelled \<Rightarrow> ''Request cancelled.''
      | TokenStopped EpochRetired \<Rightarrow> ''The render generation was retired.''
      | TokenOverflow \<Rightarrow> ''The exact token amount overflowed this platform.''
      | UnsupportedNormalization \<Rightarrow>
          ''The locked o200k tokenizer unexpectedly changed its normalization contract.'')"

definition display_render_error :: "render_plan_error \<Rightarrow> utf8" where
  "display_render_error e =
     (case e of
        RenderToken e \<Rightarrow> display_token_error e
      | InvalidPrefix shown available \<Rightarrow>
          ''The renderer selected '' @ show_nat shown @ '' entries from only '' @ show_nat available @
          '' available entries.''
      | InvalidTerminal \<Rightarrow>
          ''The renderer received a terminal note outside the grep compatibility grammar.''
      | CountMismatch incremental full \<Rightarrow>
          ''Internal token-amount invariant failed: incremental='' @ show_nat incremental @
          '', full='' @ show_nat full @ ''.''
      | OverBudget tokens budget \<Rightarrow>
          ''The selected render uses '' @ show_nat tokens @ '' tokens but its budget is '' @
          show_nat budget @ ''.'')"

definition render_plan_failure :: "render_plan_error \<Rightarrow> tool_response" where
  "render_plan_failure e =
     (if e = RenderToken (TokenStopped RequestCancelled) then error_response ''Request cancelled.''
      else error_response (''Internal glob rendering failure: '' @ display_render_error e))"

definition budget_too_small :: "tokenizer \<Rightarrow> nat \<Rightarrow> utf8 \<Rightarrow> tool_response" where
  "budget_too_small T budget variable =
     adapter_error T budget variable BudgetError
       (variable @ ''='' @ show_nat budget @
        '' is too small to return the required glob truncation note. Increase it and retry.'')"

section \<open>Pages\<close>

type_synonym fitted_notes = "(utf8 list \<times> nat) option"

definition probe_details ::
    "tokenizer \<Rightarrow> work_probe option \<Rightarrow> line_graph \<Rightarrow> nat \<Rightarrow> utf8 \<Rightarrow> skip_report \<Rightarrow> nat \<Rightarrow> nat \<Rightarrow> nat
       \<Rightarrow> render_plan_error + fitted_notes \<times> nat" where
  "probe_details T op g shown terminal report budget details k =
     bind_r (ok_or InvalidTerminal (report_notes report details terminal)) (\<lambda>ns.
       map_r (\<lambda>(tokens, k). (if tokens \<le> budget then Some (ns, tokens) else None, k))
         (graph_probe_notes T op g shown ns k))"

text \<open>The binary search for the longest detail prefix that fits.\<close>

function detail_search ::
    "(nat \<Rightarrow> nat \<Rightarrow> render_plan_error + fitted_notes \<times> nat) \<Rightarrow> nat \<Rightarrow> nat \<Rightarrow> fitted_notes \<Rightarrow> nat
       \<Rightarrow> render_plan_error + fitted_notes \<times> nat" where
  "detail_search probe low high best k =
     (if low \<le> high then
        let middle = low + (high - low) div 2 in
        bind_r (probe middle k) (\<lambda>(hit, k).
          case hit of
            Some h \<Rightarrow> detail_search probe (middle + 1) high (Some h) k
          | None \<Rightarrow>
              if middle = 0 then Inr (best, k) else detail_search probe low (middle - 1) best k)
      else Inr (best, k))"
  by pat_completeness auto
termination
  by (relation "measure (\<lambda>(probe, low, high, best, k). Suc high - low)") auto

declare detail_search.simps [simp del]

definition finish_with_skips ::
    "tokenizer \<Rightarrow> work_probe option \<Rightarrow> line_graph \<Rightarrow> nat \<Rightarrow> utf8 \<Rightarrow> skip_report \<Rightarrow> nat \<Rightarrow> utf8 \<Rightarrow> nat
       \<Rightarrow> tool_response" where
  "finish_with_skips T op g shown terminal report budget variable k =
     (let probe = probe_details T op g shown terminal report budget;
          full = length (sr_details report);
          selected =
            bind_r (probe full k) (\<lambda>(hit, k).
              if hit = None \<and> 0 < full then detail_search probe 0 (full - 1) None k
              else Inr (hit, k)) in
      case selected of
        Inl e \<Rightarrow> render_plan_failure e
      | Inr (None, k) \<Rightarrow> budget_too_small T budget variable
      | Inr (Some (ns, tokens), k) \<Rightarrow>
          (case graph_finish T op g shown ns tokens budget k of
             Inl e \<Rightarrow> render_plan_failure e
           | Inr (v, k) \<Rightarrow> text_response (vr_text v)))"

definition status_response ::
    "tokenizer \<Rightarrow> work_probe option \<Rightarrow> utf8 \<Rightarrow> skip_report \<Rightarrow> nat \<Rightarrow> utf8 \<Rightarrow> nat \<Rightarrow> tool_response" where
  "status_response T op status report budget variable k =
     (case line_graph_new T op [] k of
        Inl e \<Rightarrow> render_plan_failure e
      | Inr (g, k) \<Rightarrow> finish_with_skips T op g 0 status report budget variable k)"

text \<open>The loop over \<open>(1..=maximum).rev()\<close>.\<close>

fun shrink_page ::
    "tokenizer \<Rightarrow> work_probe option \<Rightarrow> line_graph \<Rightarrow> skip_report \<Rightarrow> nat \<Rightarrow> nat \<Rightarrow> nat \<Rightarrow> utf8 \<Rightarrow> nat \<Rightarrow> nat
       \<Rightarrow> tool_response" where
  "shrink_page T op g report offset amount budget variable 0 k = budget_too_small T budget variable"
| "shrink_page T op g report offset amount budget variable (Suc n) k =
     (let terminal = glob_terminal offset (Suc n) amount in
      case report_notes report 0 terminal of
        None \<Rightarrow> render_plan_failure InvalidTerminal
      | Some ns \<Rightarrow>
          (case graph_probe_notes T op g (Suc n) ns k of
             Inl e \<Rightarrow> render_plan_failure e
           | Inr (tokens, k) \<Rightarrow>
               if tokens \<le> budget
               then finish_with_skips T op g (Suc n) terminal report budget variable k
               else shrink_page T op g report offset amount budget variable n k))"

definition format_matches ::
    "tokenizer \<Rightarrow> work_probe option \<Rightarrow> utf8 list \<Rightarrow> skip_report \<Rightarrow> nat \<Rightarrow> nat \<Rightarrow> nat \<Rightarrow> utf8 \<Rightarrow> nat
       \<Rightarrow> tool_response" where
  "format_matches T op matches report offset limit budget variable k =
     (let amount = length matches in
      if amount = 0
      then status_response T op ''(Complete: no files matched.)'' report budget variable k
      else if amount \<le> offset
      then status_response T op
        (''(Complete: no files at offset='' @ show_nat offset @ ''; only '' @
         counted amount ''file'' ''files'' @ '' '' @ (if amount = 1 then ''exists'' else ''exist'') @ ''.)'')
        report budget variable k
      else
        let maximum = min limit (amount - offset) in
        case line_graph_new T op (take maximum (drop offset matches)) k of
          Inl e \<Rightarrow> render_plan_failure e
        | Inr (g, k) \<Rightarrow> shrink_page T op g report offset amount budget variable maximum k)"

section \<open>Terminal notes are always closed\<close>

lemma strip_suffix_append: "strip_suffix (x @ suf) suf = Some x"
  by (simp add: strip_suffix_def)

lemma strip_suffix_Some: "strip_suffix text suf = Some stem \<Longrightarrow> text = stem @ suf"
  by (auto simp: strip_suffix_def split: if_splits) (metis append_take_drop_id)

lemma terminal_with_skips_closed: "terminal_with_skips (stem @ ''.)'') tally shown \<noteq> None"
  using strip_suffix_append [of stem "''.)''"]
  by (simp add: terminal_with_skips_def split: option.split)

lemma glob_terminal_closed: "\<exists>stem. glob_terminal offset shown n = stem @ ''.)''"
proof -
  have end1: "\<exists>stem. x @ ''.)'' = stem @ ''.)''" for x :: utf8 by blast
  have end2: "\<exists>stem. x @ '' shown.)'' = stem @ ''.)''" for x :: utf8
    by (intro exI [of _ "x @ '' shown''"]) simp
  have end3: "\<exists>stem. x @ '' shown; end of results.)'' = stem @ ''.)''" for x :: utf8
    by (intro exI [of _ "x @ '' shown; end of results''"]) simp
  have "glob_terminal offset shown n = (if offset + shown < n
      then (''(Partial: '' @ entry_range (offset + 1) shown @ '' of '' @ show_nat n @
        '' shown. Continue with offset='' @ show_nat (offset + shown)) @ ''.)''
      else if offset = 0 then (''(Complete: all '' @ counted n ''file'' ''files'') @ '' shown.)''
      else (''(Complete: '' @ entry_range (offset + 1) shown @ '' of '' @ show_nat n) @
        '' shown; end of results.)'')"
    by (simp add: glob_terminal_def Let_def)
  then show ?thesis using end1 end2 end3 by (simp only: split: if_split) metis
qed

lemma glob_notes_exist: "report_notes report d (glob_terminal offset shown n) \<noteq> None"
  using glob_terminal_closed [of offset shown n] terminal_with_skips_closed
  by (auto simp: report_notes_def)

section \<open>The search for details\<close>

lemma detail_search_miss:
  assumes "low \<le> high" and "m = low + (high - low) div 2" and "probe m k = Inr (None, k1)"
  shows "detail_search probe low high best k =
    (if m = 0 then Inr (best, k1) else detail_search probe low (m - 1) best k1)"
  using assms(1,3) unfolding assms(2) by (subst detail_search.simps) (simp add: Let_def cong: if_cong)

lemma detail_search_hit:
  assumes "low \<le> high" and "m = low + (high - low) div 2" and "probe m k = Inr (Some h, k1)"
  shows "detail_search probe low high best k = detail_search probe (m + 1) high (Some h) k1"
  using assms(1,3) unfolding assms(2) by (subst detail_search.simps) (simp add: Let_def)

lemma detail_search_origin:
  "detail_search probe low high best k = Inr (Some h, k') \<Longrightarrow>
     best = Some h \<or> (\<exists>d k1 k2. probe d k1 = Inr (Some h, k2))"
proof (induction probe low high best k rule: detail_search.induct)
  case (1 probe low high best k)
  show ?case
  proof (cases "low \<le> high")
    case True
    obtain m where m: "m = low + (high - low) div 2" by simp
    from "1.prems" True m obtain hit k1 where p: "probe m k = Inr (hit, k1)"
      by (subst (asm) detail_search.simps) (auto simp: Let_def bind_simps)
    show ?thesis
    proof (cases hit)
      case None
      from "1.prems" have "(if m = 0 then Inr (best, k1)
          else detail_search probe low (m - 1) best k1) = Inr (Some h, k')"
        using detail_search_miss [OF True m] p None by simp
      with "1.IH"(1) [OF True m p refl None] show ?thesis by (cases "m = 0") simp_all
    next
      case (Some h')
      from "1.prems" have "detail_search probe (m + 1) high (Some h') k1 = Inr (Some h, k')"
        using detail_search_hit [OF True m] p Some by simp
      from "1.IH"(2) [OF True m p refl Some this] p Some show ?thesis by blast
    qed
  next
    case False
    with "1.prems" show ?thesis by (subst (asm) detail_search.simps) simp
  qed
qed

text \<open>When every probe answers, the search answers, and it finds something if zero details fit.\<close>

lemma detail_search_total:
  "(\<And>d k. d \<le> high \<Longrightarrow> \<exists>k'. probe d k = Inr (hit d, k')) \<Longrightarrow>
     \<exists>b k'. detail_search probe low high best k = Inr (b, k') \<and>
       (b = best \<or> (\<exists>d \<le> high. b = hit d \<and> b \<noteq> None)) \<and>
       (best \<noteq> None \<or> low = 0 \<and> hit 0 \<noteq> None \<longrightarrow> b \<noteq> None)"
proof (induction probe low high best k rule: detail_search.induct)
  case (1 probe low high best k)
  show ?case
  proof (cases "low \<le> high")
    case True
    obtain m where m: "m = low + (high - low) div 2" by simp
    have mh: "m \<le> high" using True m by linarith
    obtain k1 where p: "probe m k = Inr (hit m, k1)" using "1.prems" [OF mh] by blast
    show ?thesis
    proof (cases "hit m")
      case None
      have eq: "detail_search probe low high best k =
          (if m = 0 then Inr (best, k1) else detail_search probe low (m - 1) best k1)"
        using None p by (intro detail_search_miss [OF True m]) simp
      show ?thesis
      proof (cases "m = 0")
        case m0: True
        with None eq show ?thesis by auto
      next
        case False
        have "\<exists>k'. probe d k = Inr (hit d, k')" if "d \<le> m - 1" for d k
          using "1.prems" [of d k] le_trans [OF that] mh by simp
        from "1.IH"(1) [OF True m p refl None False this] mh False show ?thesis
          unfolding eq by (simp only: if_False) (meson diff_le_self le_trans)
      qed
    next
      case (Some h)
      have eq: "detail_search probe low high best k = detail_search probe (m + 1) high (Some h) k1"
        using Some p by (intro detail_search_hit [OF True m]) simp
      from "1.IH"(2) [OF True m p refl Some "1.prems"] obtain b k' where
        b: "detail_search probe (m + 1) high (Some h) k1 = Inr (b, k')"
          "b = Some h \<or> (\<exists>d \<le> high. b = hit d \<and> b \<noteq> None)" "b \<noteq> None" by auto
      then have "\<exists>d \<le> high. b = hit d \<and> b \<noteq> None" using Some mh by metis
      with b eq show ?thesis by auto
    qed
  next
    case False
    then have "detail_search probe low high best k = Inr (best, k)"
      by (subst detail_search.simps) simp
    with False show ?thesis by auto
  qed
qed

section \<open>Every successful page fits\<close>

lemma error_responses [simp]:
  "is_error (budget_too_small T budget variable)" "is_error (render_plan_failure e)"
  "is_error (error_response t)" "\<not> is_error (text_response t)"
  by (simp_all add: budget_too_small_def render_plan_failure_def adapter_error_def
      error_response_def text_response_def split: option.split)

lemma probe_details_hit:
  "probe_details T op g shown terminal report budget d k = Inr (Some (ns, t), k') \<Longrightarrow>
     report_notes report d terminal = Some ns"
  by (auto simp: probe_details_def bind_simps split: if_splits)

lemma line_graph_new_lines: "line_graph_new T op lines k = Inr (g, k') \<Longrightarrow> lg_lines g = lines"
  by (auto simp: line_graph_new_def bind_simps)

lemma graph_finish_Inr:
  "graph_finish T op g shown ns n budget k = Inr (v, k') \<Longrightarrow>
     vr_text v = render_text (take shown (lg_lines g)) ns \<and> shown \<le> length (lg_lines g) \<and>
     estimate_tokens T (vr_text v) \<le> budget"
  by (auto simp: graph_finish_def Let_def bind_simps judge_render_Inr
      dest!: verify_full_Inr split: if_splits)

lemma finish_with_skips_fits:
  assumes ok: "\<not> is_error (finish_with_skips T op g shown terminal report budget variable k)"
  shows "\<exists>d ns. report_notes report d terminal = Some ns \<and> shown \<le> length (lg_lines g) \<and>
    finish_with_skips T op g shown terminal report budget variable k =
      text_response (render_text (take shown (lg_lines g)) ns) \<and>
    estimate_tokens T (render_text (take shown (lg_lines g)) ns) \<le> budget"
proof -
  let ?probe = "probe_details T op g shown terminal report budget"
  let ?full = "length (sr_details report)"
  define sel where "sel = bind_r (?probe ?full k) (\<lambda>(hit, k).
    if hit = None \<and> 0 < ?full then detail_search ?probe 0 (?full - 1) None k else Inr (hit, k))"
  have eq: "finish_with_skips T op g shown terminal report budget variable k =
      (case sel of
        Inl e \<Rightarrow> render_plan_failure e
      | Inr (None, k) \<Rightarrow> budget_too_small T budget variable
      | Inr (Some (ns, tokens), k) \<Rightarrow>
          (case graph_finish T op g shown ns tokens budget k of
             Inl e \<Rightarrow> render_plan_failure e
           | Inr (v, k) \<Rightarrow> text_response (vr_text v)))"
    unfolding finish_with_skips_def sel_def Let_def ..
  with ok obtain ns t k1 v k2 where sel: "sel = Inr (Some (ns, t), k1)"
    and fin: "graph_finish T op g shown ns t budget k1 = Inr (v, k2)"
    by (auto split: sum.splits option.splits)
  from sel obtain h k0 where "?probe ?full k = Inr (h, k0)"
    "h = Some (ns, t) \<or> detail_search ?probe 0 (?full - 1) None k0 = Inr (Some (ns, t), k1)"
    by (auto simp: sel_def bind_simps split: if_splits)
  then have "\<exists>d k1 k2. ?probe d k1 = Inr (Some (ns, t), k2)"
    using detail_search_origin [of ?probe 0 "?full - 1" None k0 "(ns, t)" k1] by blast
  then obtain d where "report_notes report d terminal = Some ns" by (blast dest: probe_details_hit)
  moreover have "finish_with_skips T op g shown terminal report budget variable k =
      text_response (vr_text v)" using eq sel fin by simp
  ultimately show ?thesis using graph_finish_Inr [OF fin] by metis
qed

lemma shrink_page_fits:
  "\<not> is_error (shrink_page T op g report offset n budget variable maximum k) \<Longrightarrow>
     \<exists>s d ns. 1 \<le> s \<and> s \<le> maximum \<and>
       report_notes report d (glob_terminal offset s n) = Some ns \<and>
       shrink_page T op g report offset n budget variable maximum k =
         text_response (render_text (take s (lg_lines g)) ns) \<and>
       estimate_tokens T (render_text (take s (lg_lines g)) ns) \<le> budget"
proof (induction maximum arbitrary: k)
  case (Suc m)
  let ?t = "glob_terminal offset (Suc m) n"
  from Suc.prems obtain ns tokens k1 where p: "report_notes report 0 ?t = Some ns"
    "graph_probe_notes T op g (Suc m) ns k = Inr (tokens, k1)"
    by (auto simp: Let_def split: option.splits sum.splits)
  show ?case
  proof (cases "tokens \<le> budget")
    case True
    with p have eq: "shrink_page T op g report offset n budget variable (Suc m) k =
      finish_with_skips T op g (Suc m) ?t report budget variable k1" by (simp add: Let_def)
    with finish_with_skips_fits [of T op g "Suc m" ?t report budget variable k1] Suc.prems
    show ?thesis by (metis One_nat_def Suc_le_mono le_refl zero_le)
  next
    case False
    with p have eq: "shrink_page T op g report offset n budget variable (Suc m) k =
      shrink_page T op g report offset n budget variable m k1" by (simp add: Let_def)
    with Suc.IH [of k1] Suc.prems show ?thesis by (metis le_Suc_eq)
  qed
qed simp

text \<open>
  C15. A glob answer never exceeds its budget and never invents a page: every successful response is
  one text block of at most \<open>budget\<close> tokens, made of the first \<open>s\<close> matches from \<open>offset\<close>
  (\<open>s\<close> within the limit), skip details and one terminal note; when there is nothing from
  \<open>offset\<close> on it shows no match. No property of the tokenizer is assumed.
\<close>

theorem glob_response_fits:
  assumes "r = format_matches T op matches report offset limit budget variable k"
    and "\<not> is_error r"
  shows "\<exists>s d terminal ns. r = text_response (render_text (take s (drop offset matches)) ns) \<and>
    estimate_tokens T (render_text (take s (drop offset matches)) ns) \<le> budget \<and>
    report_notes report d terminal = Some ns \<and>
    (if offset < length matches
     then 1 \<le> s \<and> s \<le> min limit (length matches - offset) \<and>
       terminal = glob_terminal offset s (length matches)
     else s = 0)"
proof (cases "offset < length matches")
  case False
  then obtain status where r: "r = status_response T op status report budget variable k"
    using assms(1) by (auto simp: format_matches_def Let_def split: if_splits)
  with assms(2) obtain g k1 where g: "line_graph_new T op [] k = Inr (g, k1)"
    by (auto simp: status_response_def split: sum.splits)
  with r have "r = finish_with_skips T op g 0 status report budget variable k1"
    by (simp add: status_response_def)
  with finish_with_skips_fits [of T op g 0 status report budget variable k1] assms(2) obtain d ns
    where "report_notes report d status = Some ns" "r = text_response (render_text [] ns)"
      "estimate_tokens T (render_text [] ns) \<le> budget" by auto
  with False show ?thesis by (metis take0)
next
  case True
  let ?page = "take (min limit (length matches - offset)) (drop offset matches)"
  have "r = (case line_graph_new T op ?page k of Inl e \<Rightarrow> render_plan_failure e
    | Inr (g, k) \<Rightarrow> shrink_page T op g report offset (length matches) budget variable
        (min limit (length matches - offset)) k)"
    using True assms(1) by (auto simp: format_matches_def Let_def)
  with assms(2) obtain g k1 where g: "line_graph_new T op ?page k = Inr (g, k1)"
    and r: "r = shrink_page T op g report offset (length matches) budget variable
        (min limit (length matches - offset)) k1"
    by (auto split: sum.splits)
  from shrink_page_fits assms(2) r obtain s d ns where
    s: "1 \<le> s" "s \<le> min limit (length matches - offset)"
      "report_notes report d (glob_terminal offset s (length matches)) = Some ns"
      "r = text_response (render_text (take s (lg_lines g)) ns)"
      "estimate_tokens T (render_text (take s (lg_lines g)) ns) \<le> budget" by metis
  moreover have "take s (lg_lines g) = take s (drop offset matches)"
    using line_graph_new_lines [OF g] s(2) by (simp add: min_def)
  ultimately show ?thesis using True by auto
qed

section \<open>The page is the largest that fits\<close>

definition page_env ::
    "tokenizer \<Rightarrow> work_probe option \<Rightarrow> utf8 list \<Rightarrow> skip_report \<Rightarrow> nat \<Rightarrow> nat \<Rightarrow> bool" where
  "page_env T op page report offset n \<longleftrightarrow>
     tokenizer_contract T \<and> undisturbed op \<and> closes_all T [] (line_fragments True page) \<and>
     (\<forall>s \<le> length page. \<forall>d \<le> length (sr_details report). \<forall>ns.
        report_notes report d (glob_terminal offset s n) = Some ns \<longrightarrow>
        view_closes T (take s page) ns \<and> length (render_text (take s page) ns) \<le> usize_max)"

definition page_text :: "utf8 list \<Rightarrow> skip_report \<Rightarrow> nat \<Rightarrow> nat \<Rightarrow> nat \<Rightarrow> nat \<Rightarrow> utf8" where
  "page_text page report offset n s d =
     render_text (take s page) (the (report_notes report d (glob_terminal offset s n)))"

lemma page_probe:
  assumes env: "page_env T op page report offset n"
    and g: "line_graph_new T op page k0 = Inr (g, k1)"
    and s: "s \<le> length page" and d: "d \<le> length (sr_details report)"
    and ns: "report_notes report d (glob_terminal offset s n) = Some ns"
  shows "\<exists>k'. graph_probe_notes T op g s ns k =
    Inr (estimate_tokens T (page_text page report offset n s d), k')"
proof -
  have T: "tokenizer_contract T" and op: "undisturbed op"
    and cl: "closes_all T [] (line_fragments True page)"
    and v: "view_closes T (take s page) ns" "length (render_text (take s page) ns) \<le> usize_max"
    using env s d ns by (simp_all add: page_env_def)
  note valid = line_graph_new_valid [OF T cl g s]
  obtain k2 where k2: "check_render_work op k = Inr k2" using undisturbed_check [OF op] by blast
  have "lg_lines g = page" "length (take s page) = s" using valid s by simp_all
  with line_graphs.probe_total [OF T conjunct1 [OF valid] _ op, of "ns" k2] v ns
  obtain k' where "probe_suffix T op (lg_checkpoints g ! s) (render_notes_suffix s ns) k2 =
      Inr (estimate_tokens T (page_text page report offset n s d), k')"
    by (auto simp: page_text_def)
  then show ?thesis
    using k2 valid s by (simp add: graph_probe_notes_def graph_checkpoint_def line_graph_valid_def)
qed

lemma page_finish:
  assumes env: "page_env T op page report offset n"
    and g: "line_graph_new T op page k0 = Inr (g, k1)" and s: "s \<le> length page"
    and fits: "estimate_tokens T (page_text page report offset n s 0) \<le> budget"
  shows "\<exists>d \<le> length (sr_details report).
    finish_with_skips T op g s (glob_terminal offset s n) report budget variable k =
      text_response (page_text page report offset n s d) \<and>
    estimate_tokens T (page_text page report offset n s d) \<le> budget"
proof -
  let ?t = "glob_terminal offset s n" and ?full = "length (sr_details report)"
  let ?probe = "probe_details T op g s ?t report budget"
  define hit where "hit = (\<lambda>d. let x = estimate_tokens T (page_text page report offset n s d) in
    if x \<le> budget then Some (the (report_notes report d ?t), x) else None)"
  have total: "\<exists>k'. ?probe d k = Inr (hit d, k')" if d: "d \<le> ?full" for d k
  proof -
    obtain ns where ns: "report_notes report d ?t = Some ns"
      using glob_notes_exist [of report d offset s n] by blast
    from page_probe [OF env g s d ns, of k] ns show ?thesis
      by (auto simp: probe_details_def hit_def Let_def)
  qed
  have hit0: "hit 0 \<noteq> None" using fits by (simp add: hit_def Let_def)
  define sel where "sel = bind_r (?probe ?full k) (\<lambda>(h, k).
    if h = None \<and> 0 < ?full then detail_search ?probe 0 (?full - 1) None k else Inr (h, k))"
  have "\<exists>d k'. d \<le> ?full \<and> sel = Inr (hit d, k') \<and> hit d \<noteq> None"
  proof -
    obtain k2 where p: "?probe ?full k = Inr (hit ?full, k2)" using total by blast
    show ?thesis
    proof (cases "hit ?full = None")
      case True
      with hit0 have pos: "0 < ?full" by (metis gr0I)
      have "\<exists>b k'. detail_search ?probe 0 (?full - 1) None k2 = Inr (b, k') \<and>
        (b = None \<or> (\<exists>d \<le> ?full - 1. b = hit d \<and> b \<noteq> None)) \<and>
        (None \<noteq> (None :: fitted_notes) \<or> (0::nat) = 0 \<and> hit 0 \<noteq> None \<longrightarrow> b \<noteq> None)"
        by (rule detail_search_total) (rule total, simp)
      then obtain d k' where "d \<le> ?full - 1" "hit d \<noteq> None"
        "detail_search ?probe 0 (?full - 1) None k2 = Inr (hit d, k')" using hit0 by blast
      moreover from this(3) have "sel = Inr (hit d, k')" using p True pos by (simp add: sel_def)
      ultimately show ?thesis using diff_le_self le_trans by metis
    next
      case False
      then have "sel = Inr (hit ?full, k2)" using p unfolding sel_def by (simp del: not_None_eq)
      with False show ?thesis by blast
    qed
  qed
  then obtain d k2 where d: "d \<le> ?full" and sel: "sel = Inr (hit d, k2)" and h: "hit d \<noteq> None" by blast
  let ?x = "estimate_tokens T (page_text page report offset n s d)"
  let ?ns = "the (report_notes report d ?t)"
  from h have x: "?x \<le> budget" and hd: "hit d = Some (?ns, ?x)"
    by (auto simp: hit_def Let_def split: if_splits)
  have len: "s \<le> length (lg_lines g)" and lines: "lg_lines g = page"
    using line_graph_new_lines [OF g] s by simp_all
  have op: "undisturbed op" using env by (simp add: page_env_def)
  obtain k3 where "graph_finish T op g s ?ns ?x budget k2 =
      Inr (\<lparr>vr_text = page_text page report offset n s d, vr_tokens = ?x\<rparr>, k3)"
    using finish_undisturbed [OF op len, of T ?ns ?x budget k2] x lines
    by (auto simp: judge_render_def page_text_def)
  moreover have "finish_with_skips T op g s ?t report budget variable k =
      (case sel of
        Inl e \<Rightarrow> render_plan_failure e
      | Inr (None, k) \<Rightarrow> budget_too_small T budget variable
      | Inr (Some (ns, tokens), k) \<Rightarrow>
          (case graph_finish T op g s ns tokens budget k of
             Inl e \<Rightarrow> render_plan_failure e
           | Inr (v, k) \<Rightarrow> text_response (vr_text v)))"
    unfolding finish_with_skips_def sel_def Let_def ..
  ultimately have "finish_with_skips T op g s ?t report budget variable k =
      text_response (page_text page report offset n s d)" by (simp add: sel hd)
  with d x show ?thesis by blast
qed

lemma page_shrink:
  assumes env: "page_env T op page report offset n"
    and g: "line_graph_new T op page k0 = Inr (g, k1)"
  shows "m \<le> length page \<Longrightarrow>
    (\<forall>s. 1 \<le> s \<and> s \<le> m \<longrightarrow> budget < estimate_tokens T (page_text page report offset n s 0)) \<and>
      shrink_page T op g report offset n budget variable m k = budget_too_small T budget variable \<or>
    (\<exists>s d. 1 \<le> s \<and> s \<le> m \<and> d \<le> length (sr_details report) \<and>
      shrink_page T op g report offset n budget variable m k =
        text_response (page_text page report offset n s d) \<and>
      estimate_tokens T (page_text page report offset n s d) \<le> budget \<and>
      (\<forall>s'. s < s' \<and> s' \<le> m \<longrightarrow> budget < estimate_tokens T (page_text page report offset n s' 0)))"
proof (induction m arbitrary: k)
  case (Suc m)
  let ?t = "glob_terminal offset (Suc m) n"
  let ?x = "estimate_tokens T (page_text page report offset n (Suc m) 0)"
  obtain ns where ns: "report_notes report 0 ?t = Some ns"
    using glob_notes_exist [of report 0 offset "Suc m" n] by blast
  obtain k2 where p: "graph_probe_notes T op g (Suc m) ns k = Inr (?x, k2)"
    using page_probe [OF env g Suc.prems _ ns, of k] by auto
  show ?case
  proof (cases "?x \<le> budget")
    case True
    then have "shrink_page T op g report offset n budget variable (Suc m) k =
      finish_with_skips T op g (Suc m) ?t report budget variable k2" using ns p by (simp add: Let_def)
    with page_finish [OF env g Suc.prems True, of variable k2] show ?thesis
      by (intro disjI2) (metis Suc_le_mono le_refl linorder_not_le zero_le One_nat_def)
  next
    case False
    then have eq: "shrink_page T op g report offset n budget variable (Suc m) k =
      shrink_page T op g report offset n budget variable m k2" using ns p by (simp add: Let_def)
    have le: "s \<le> Suc m \<longleftrightarrow> s \<le> m \<or> s = Suc m" for s by auto
    from Suc.IH [of k2] Suc.prems False show ?thesis unfolding eq le by (auto simp: not_le)
  qed
qed simp

lemma glob_page_spec:
  assumes "offset < length matches"
    and page: "page = take (min limit (length matches - offset)) (drop offset matches)"
    and env: "page_env T op page report offset (length matches)"
  shows "(\<forall>s. 1 \<le> s \<and> s \<le> length page \<longrightarrow>
        budget < estimate_tokens T (page_text page report offset (length matches) s 0)) \<and>
      format_matches T op matches report offset limit budget variable k =
        budget_too_small T budget variable \<or>
    (\<exists>s d. 1 \<le> s \<and> s \<le> length page \<and> d \<le> length (sr_details report) \<and>
      format_matches T op matches report offset limit budget variable k =
        text_response (page_text page report offset (length matches) s d) \<and>
      estimate_tokens T (page_text page report offset (length matches) s d) \<le> budget \<and>
      (\<forall>s'. s < s' \<and> s' \<le> length page \<longrightarrow>
         budget < estimate_tokens T (page_text page report offset (length matches) s' 0)))"
proof -
  have len: "length page = min limit (length matches - offset)" using page by simp
  obtain ns where "report_notes report 0 (glob_terminal offset (length page) (length matches)) = Some ns"
    using glob_notes_exist [of report 0 offset "length page" "length matches"] by blast
  then have "length (render_text (take (length page) page) ns) \<le> usize_max"
    using env unfolding page_env_def by blast
  then have small: "length (join [nl] page) \<le> usize_max" by (simp add: render_text_def)
  obtain g k1 where g: "line_graph_new T op page k = Inr (g, k1)"
    using line_graph_new_total [of T op page k] env small by (auto simp: page_env_def)
  have "format_matches T op matches report offset limit budget variable k =
      shrink_page T op g report offset (length matches) budget variable (length page) k1"
    using assms(1) g len by (auto simp: format_matches_def Let_def page [symmetric])
  with page_shrink [OF env g, of "length page" budget variable k1] show ?thesis by simp
qed

text \<open>
  C16. A glob page is as long as the budget allows: under the tokenizer laws and without
  cancellation, the answer shows the largest number of matches whose page with its bare terminal
  note fits, plus as many details as were found to fit; only when not even one match fits is it the
  budget error, and an internal rendering failure is impossible.
\<close>

theorem glob_page_maximal:
  assumes "offset < length matches"
    and page: "page = take (min limit (length matches - offset)) (drop offset matches)"
    and env: "page_env T op page report offset (length matches)"
  shows "(\<forall>s. 1 \<le> s \<and> s \<le> length page \<longrightarrow>
        budget < estimate_tokens T (page_text page report offset (length matches) s 0)) \<and>
      format_matches T op matches report offset limit budget variable k =
        budget_too_small T budget variable \<or>
    (\<exists>s d. 1 \<le> s \<and> s \<le> length page \<and> d \<le> length (sr_details report) \<and>
      format_matches T op matches report offset limit budget variable k =
        text_response (page_text page report offset (length matches) s d) \<and>
      estimate_tokens T (page_text page report offset (length matches) s d) \<le> budget \<and>
      (\<forall>s'. s < s' \<and> s' \<le> length page \<longrightarrow>
         budget < estimate_tokens T (page_text page report offset (length matches) s' 0)))"
  using assms by (rule glob_page_spec)

definition bare_report :: skip_report where
  "bare_report = skip_report_new [] 0"

lemma bare_env: "page_env byte_tokenizer None [''a''] bare_report 0 1"
proof -
  have "length (render_text (take s [''a'']) ns) \<le> 1000"
    if le: "s \<le> 1" and ns: "report_notes bare_report 0 (glob_terminal 0 s 1) = Some ns" for s ns
  proof -
    have "s = 0 \<or> s = 1" using le by auto
    then show ?thesis
      using ns by (elim disjE) (auto simp: report_notes_def bare_report_def skip_report_new_def
          terminal_with_skips_def tally_clause_def tally_is_empty_def glob_terminal_def
          entry_range_def counted_def show_nat.simps digit_char_def render_text_def
          render_notes_suffix_def)
  qed
  then have "\<forall>s \<le> Suc 0. \<forall>ns. report_notes bare_report 0 (glob_terminal 0 s 1) = Some ns \<longrightarrow>
      length (render_text (take s [''a'']) ns) \<le> usize_max"
    using usize_large by simp
  then show ?thesis
    by (simp add: page_env_def byte_tokenizer_contract undisturbed_def byte_tokenizer_closes
        byte_tokenizer_view_closes bare_report_def skip_report_new_def)
qed

lemma bare_text:
  "length (page_text [''a''] bare_report 0 1 1 0) \<le> 60"
  by (simp add: page_text_def report_notes_def bare_report_def skip_report_new_def
      terminal_with_skips_def tally_clause_def tally_is_empty_def glob_terminal_def
      entry_range_def counted_def show_nat.simps digit_char_def render_text_def
      render_notes_suffix_def)

theorem glob_page_maximal_witness:
  "\<not> is_error (format_matches byte_tokenizer None [''a''] bare_report 0 5 60 ''V'' 0)"
  using glob_page_maximal [of 0 "[''a'']" "[''a'']" 5 byte_tokenizer None bare_report 60 "''V''" 0]
    bare_env bare_text
  by (auto simp: byte_tokens dest: spec [of _ "1::nat"])

lemma bare_response: "\<not> is_error (format_matches byte_tokenizer None [''a''] bare_report 0 5 60 ''V'' 0)"
  using glob_page_spec [of 0 "[''a'']" "[''a'']" 5 byte_tokenizer None bare_report 60 "''V''" 0]
    bare_env bare_text
  by (auto simp: byte_tokens dest: spec [of _ "1::nat"])

theorem glob_response_fits_witness:
  "\<exists>s d terminal ns.
     format_matches byte_tokenizer None [''a''] bare_report 0 5 60 ''V'' 0 =
       text_response (render_text (take s [''a'']) ns) \<and> 1 \<le> s \<and> report_notes bare_report d terminal = Some ns"
  using glob_response_fits [OF refl bare_response] by (auto split: if_splits)

end
