(* ===== verification/Characters.thy ===== *)
theory Characters
  imports Prelude
begin

text \<open>
  Characters of UTF-8 text: boundaries (\<open>str::is_char_boundary\<close>), the character iterator
  (\<open>str::chars\<close>), scalar values and their UTF-8 and UTF-32 bytes. Shared by the edit path and by
  the decoding of command output.
\<close>

section \<open>Characters\<close>

abbreviation cr :: char where
  "cr \<equiv> CHR 0x0D"

definition is_continuation :: "char \<Rightarrow> bool" where
  "is_continuation c \<longleftrightarrow> 128 \<le> (of_char c :: nat) \<and> (of_char c :: nat) < 192"

definition is_char_boundary :: "utf8 \<Rightarrow> nat \<Rightarrow> bool" where
  "is_char_boundary t i \<longleftrightarrow>
     i = 0 \<or> i = length t \<or> (i < length t \<and> \<not> is_continuation (t ! i))"

text \<open>A place where UTF-8 text may be cut: no continuation byte follows an ASCII byte either.\<close>

definition splits_at :: "utf8 \<Rightarrow> utf8 \<Rightarrow> bool" where
  "splits_at a b \<longleftrightarrow>
     a = [] \<or> b = [] \<or> \<not> is_continuation (hd b) \<or> (of_char (last a) :: nat) < 128"

lemma not_continuation [simp]: "\<not> is_continuation nl" "\<not> is_continuation cr"
  by (simp_all add: is_continuation_def)

lemma splits_simps [simp]:
  "splits_at a []" "splits_at [] b" "splits_at a (nl # b)" "splits_at a (cr # b)"
  "splits_at (a @ [nl]) b" "splits_at [nl] b" "splits_at [cr] b"
  by (auto simp: splits_at_def)

lemma boundary_splits: "is_char_boundary t i \<Longrightarrow> splits_at (take i t) (drop i t)"
  by (auto simp: is_char_boundary_def splits_at_def hd_drop_conv_nth)

section \<open>Unicode scalars\<close>

text \<open>
  The characters of a text: a lead byte with the continuation bytes after it. An ASCII byte stands
  alone. On well-formed UTF-8 this is the iterator \<open>str::chars\<close>.
\<close>

function chars :: "utf8 \<Rightarrow> utf8 list" where
  "chars [] = []"
| "chars (c # cs) =
     (if (of_char c :: nat) < 128 then [c] # chars cs
      else (c # takeWhile is_continuation cs) # chars (dropWhile is_continuation cs))"
  by pat_completeness auto
termination
  by (relation "measure length") (auto intro: le_imp_less_Suc length_dropWhile_le)

definition lead_bits :: "nat \<Rightarrow> nat \<Rightarrow> nat" where
  "lead_bits len lead = (if len = 1 then lead else lead mod 2 ^ (7 - len))"

definition scalar :: "utf8 \<Rightarrow> nat" where
  "scalar c = foldl (\<lambda>acc b. acc * 64 + of_char b mod 64) (lead_bits (length c) (of_char (hd c))) (tl c)"

text \<open>\<open>char::from_u32\<close> and \<open>String::push\<close>.\<close>

definition is_scalar :: "nat \<Rightarrow> bool" where
  "is_scalar v \<longleftrightarrow> v < 0x110000 \<and> \<not> (0xD800 \<le> v \<and> v < 0xE000)"

definition utf8_of :: "nat \<Rightarrow> utf8" where
  "utf8_of v =
     map char_of
       (if v < 0x80 then [v]
        else if v < 0x800 then [0xC0 + v div 64, 0x80 + v mod 64]
        else if v < 0x10000 then [0xE0 + v div 4096, 0x80 + v div 64 mod 64, 0x80 + v mod 64]
        else [0xF0 + v div 262144, 0x80 + v div 4096 mod 64, 0x80 + v div 64 mod 64, 0x80 + v mod 64])"

fun le_bytes :: "nat \<Rightarrow> nat \<Rightarrow> byte list" where
  "le_bytes 0 v = []"
| "le_bytes (Suc n) v = of_nat v # le_bytes n (v div 256)"

definition be_bytes :: "nat \<Rightarrow> nat \<Rightarrow> byte list" where
  "be_bytes n v = rev (le_bytes n v)"

fun le_value :: "byte list \<Rightarrow> nat" where
  "le_value [] = 0"
| "le_value (b # bs) = unat b + 256 * le_value bs"

section \<open>Lemmas\<close>

lemma takeWhile_continuation:
  assumes "b = [] \<or> \<not> is_continuation (hd b)"
  shows "takeWhile is_continuation (cs @ b) = takeWhile is_continuation cs"
    and "dropWhile is_continuation (cs @ b) = dropWhile is_continuation cs @ b"
  using assms by (induction cs; cases b; auto)+

lemma dropWhile_last:
  "dropWhile P cs \<noteq> [] \<Longrightarrow> last (dropWhile P cs) = last cs"
  by (metis last_appendR takeWhile_dropWhile_id)

lemma chars_append: "splits_at a b \<Longrightarrow> chars (a @ b) = chars a @ chars b"
proof (induction a rule: chars.induct)
  case (2 c cs)
  show ?case
  proof (cases "(of_char c :: nat) < 128")
    case True
    have "splits_at cs b" using "2.prems" by (auto simp: splits_at_def split: if_splits)
    with True "2.IH"(1) show ?thesis by simp
  next
    case False
    show ?thesis
    proof (cases "dropWhile is_continuation cs = []")
      case True
      then have all: "\<forall>x \<in> set cs. is_continuation x" by simp
      have "\<not> (of_char (last (c # cs)) :: nat) < 128"
        using False all by (cases cs rule: rev_cases) (auto simp: is_continuation_def)
      then have b: "b = [] \<or> \<not> is_continuation (hd b)"
        using "2.prems" by (auto simp: splits_at_def)
      from takeWhile_continuation [OF b, of cs] False True show ?thesis
        by (simp del: dropWhile_eq_Nil_conv)
    next
      case rest: False
      then obtain x where x: "x \<in> set cs" "\<not> is_continuation x" by auto
      then have tw: "takeWhile is_continuation (cs @ b) = takeWhile is_continuation cs"
        "dropWhile is_continuation (cs @ b) = dropWhile is_continuation cs @ b"
        by (auto intro: takeWhile_append1 dropWhile_append1)
      have "splits_at (dropWhile is_continuation cs) b"
        using "2.prems" dropWhile_last [OF rest] x(1) by (auto simp: splits_at_def split: if_splits)
      with "2.IH"(2) False tw show ?thesis by simp
    qed
  qed
qed simp

lemma le_value_bytes: "v < 256 ^ n \<Longrightarrow> le_value (le_bytes n v) = v"
proof (induction n arbitrary: v)
  case (Suc n)
  have "v div 256 < 256 ^ n" using Suc.prems by (simp add: less_mult_imp_div_less mult.commute)
  with Suc.IH show ?case by (simp add: unat_of_nat)
qed simp

lemma length_le_bytes [simp]: "length (le_bytes n v) = n"
  by (induction n arbitrary: v) auto

text \<open>A scalar value is read back from its UTF-8 bytes, alone and in front of any text.\<close>

lemma radix64: "\<exists>q a. (v :: nat) = 64 * q + a \<and> a < 64"
  by (intro exI [of _ "v div 64"] exI [of _ "v mod 64"]) simp

lemma mod_shift: "(k :: nat) mod n = 0 \<Longrightarrow> q < n \<Longrightarrow> (k + q) mod n = q"
  by (metis add.commute mod_add_right_eq add.right_neutral mod_less)

lemmas tag_mods =
  mod_shift [where k = 192 and n = 32, simplified] mod_shift [where k = 224 and n = 16, simplified]
  mod_shift [where k = 240 and n = 8, simplified] mod_shift [where k = 128 and n = 64, simplified]

lemma utf8_of_char:
  assumes v: "is_scalar v"
  shows "scalar (utf8_of v) = v"
proof -
  obtain q a where a: "v = 64 * q + a" "a < 64" using radix64 by blast
  obtain r b where b: "q = 64 * r + b" "b < 64" using radix64 by blast
  obtain d c where c: "r = 64 * d + c" "c < 64" using radix64 by blast
  have q: "v div 64 = q" "v mod 64 = a" using a by simp_all
  have "v div 4096 = q div 64" unfolding q(1) [symmetric] by (simp add: div_mult2_eq [symmetric])
  then have r: "v div 4096 = r" "v div 64 mod 64 = b" using b q by simp_all
  have "v div 262144 = v div 4096 div 64" by (simp add: div_mult2_eq [symmetric])
  then have d: "v div 262144 = d" "v div 4096 mod 64 = c" using c r by simp_all
  have lt: "v < 0x110000" using v by (simp add: is_scalar_def)
  consider "v < 0x80" | "0x80 \<le> v" "v < 0x800" | "0x800 \<le> v" "v < 0x10000" | "0x10000 \<le> v"
    by linarith
  then show ?thesis
  proof cases
    case 1
    then show ?thesis by (simp add: scalar_def utf8_of_def lead_bits_def)
  next
    case 2
    then have "q < 32" using a by simp
    with 2 a q show ?thesis by (simp add: tag_mods scalar_def utf8_of_def lead_bits_def)
  next
    case 3
    then have "r < 16" using a b by simp
    with 3 a b q r show ?thesis by (simp add: tag_mods scalar_def utf8_of_def lead_bits_def)
  next
    case 4
    then have "d < 5" using a b c lt by simp
    with 4 a b c q r d show ?thesis by (simp add: tag_mods scalar_def utf8_of_def lead_bits_def)
  qed
qed

text \<open>Well-formed text: its characters are the encodings pushed.\<close>

lemma chars_utf8_of:
  assumes v: "is_scalar v" and t: "t = [] \<or> \<not> is_continuation (hd t)"
  shows "chars (utf8_of v @ t) = utf8_of v # chars t"
proof -
  have lt: "v < 0x110000" using v by (simp add: is_scalar_def)
  have cont: "is_continuation (char_of (128 + x mod 64))" for x :: nat
  proof -
    have "x mod 64 < 64" by simp
    then show ?thesis unfolding is_continuation_def by (simp del: mod_less_divisor)
  qed
  consider "v < 0x80" | "0x80 \<le> v" "v < 0x800" | "0x800 \<le> v" "v < 0x10000" | "0x10000 \<le> v"
    by linarith
  then show ?thesis
  proof cases
    case 1
    then show ?thesis by (simp add: utf8_of_def)
  next
    case 2
    have "v div 64 < 32" using 2 by (simp add: less_mult_imp_div_less)
    with 2 cont takeWhile_continuation [OF t, of "[]"] show ?thesis by (simp add: utf8_of_def)
  next
    case 3
    have "v div 4096 < 16" using 3 by (simp add: less_mult_imp_div_less)
    with 3 cont takeWhile_continuation [OF t, of "[]"] show ?thesis by (simp add: utf8_of_def)
  next
    case 4
    have "v div 262144 < 8" using 4 lt by (simp add: less_mult_imp_div_less)
    with 4 cont takeWhile_continuation [OF t, of "[]"] show ?thesis by (simp add: utf8_of_def)
  qed
qed

lemma utf8_of_start: "is_scalar v \<Longrightarrow> utf8_of v \<noteq> [] \<and> \<not> is_continuation (hd (utf8_of v))"
proof -
  assume v: "is_scalar v"
  then have "v div 64 < 32 \<or> \<not> v < 0x800" "v div 4096 < 16 \<or> \<not> v < 0x10000" "v div 262144 < 8"
    by (auto simp: is_scalar_def less_mult_imp_div_less)
  then show ?thesis by (auto simp: utf8_of_def is_continuation_def)
qed

lemma chars_scalars:
  "list_all is_scalar vs \<Longrightarrow> chars (concat (map utf8_of vs)) = map utf8_of vs"
proof (induction vs)
  case (Cons v vs)
  have "concat (map utf8_of vs) = [] \<or> \<not> is_continuation (hd (concat (map utf8_of vs)))"
    using Cons.prems by (cases vs) (auto dest: utf8_of_start)
  with Cons show ?case by (simp add: chars_utf8_of)
qed simp

end
