(* ===== verification/Text_Encoding.thy ===== *)
theory Text_Encoding
  imports Characters
begin

text \<open>
  The fragment encoder of a file
  (\<open>ValidatedFileEncoding::encode_fragment\<close> of \<open>src/src/encoding.rs\<close>).

  The Unicode encoders are written out. The legacy tables belong to the third-party crate
  encoding_rs: such an encoder is the parameter of \<open>Legacy\<close>. \<open>codec_splits\<close> is what the edit path
  relies on, text encodes piece by piece at character boundaries; it is proved here of every
  Unicode encoder and is a hypothesis on a legacy one.
\<close>

section \<open>Codecs\<close>

type_synonym codec = "utf8 \<Rightarrow> byte list option"

definition codec_splits :: "codec \<Rightarrow> bool" where
  "codec_splits enc \<longleftrightarrow>
     enc [] = Some [] \<and>
     (\<forall>a b. splits_at a b \<longrightarrow>
        enc (a @ b) =
          (case (enc a, enc b) of (Some x, Some y) \<Rightarrow> Some (x @ y) | _ \<Rightarrow> None))"

lemma codec_append:
  "codec_splits enc \<Longrightarrow> splits_at a b \<Longrightarrow> enc (a @ b) = Some z \<longleftrightarrow>
     (\<exists>x y. enc a = Some x \<and> enc b = Some y \<and> z = x @ y)"
  by (auto simp: codec_splits_def split: option.splits)

definition utf16_units :: "nat \<Rightarrow> nat list" where
  "utf16_units v =
     (if v < 0x10000 then [v]
      else [0xD800 + (v - 0x10000) div 0x400, 0xDC00 + (v - 0x10000) mod 0x400])"

section \<open>The encoder\<close>

datatype encoding_kind =
  Utf32Le | Utf32Be | Utf8 | Utf16Le | Utf16Be | Legacy codec | Stateful

definition encode_chars :: "(nat \<Rightarrow> byte list) \<Rightarrow> codec" where
  "encode_chars f t = Some (concat (map (f \<circ> scalar) (chars t)))"

definition encode_fragment :: "encoding_kind \<Rightarrow> codec" where
  "encode_fragment kind t =
     (case kind of
        Utf32Le \<Rightarrow> encode_chars (le_bytes 4) t
      | Utf32Be \<Rightarrow> encode_chars (be_bytes 4) t
      | Utf8 \<Rightarrow> Some (map (\<lambda>c. of_nat (of_char c)) t)
      | Utf16Le \<Rightarrow> encode_chars (\<lambda>v. concat (map (le_bytes 2) (utf16_units v))) t
      | Utf16Be \<Rightarrow> encode_chars (\<lambda>v. concat (map (be_bytes 2) (utf16_units v))) t
      | Legacy enc \<Rightarrow> enc t
      | Stateful \<Rightarrow> None)"

lemma encode_chars_splits: "codec_splits (encode_chars f)"
  by (simp add: codec_splits_def encode_chars_def chars_append)

lemma unicode_splits:
  "codec_splits (encode_fragment Utf32Le)" "codec_splits (encode_fragment Utf32Be)"
  "codec_splits (encode_fragment Utf8)"
  "codec_splits (encode_fragment Utf16Le)" "codec_splits (encode_fragment Utf16Be)"
proof -
  have "encode_fragment Utf32Le = encode_chars (le_bytes 4)"
    "encode_fragment Utf32Be = encode_chars (be_bytes 4)"
    "encode_fragment Utf16Le = encode_chars (\<lambda>v. concat (map (le_bytes 2) (utf16_units v)))"
    "encode_fragment Utf16Be = encode_chars (\<lambda>v. concat (map (be_bytes 2) (utf16_units v)))"
    by (simp_all add: fun_eq_iff encode_fragment_def)
  then show "codec_splits (encode_fragment Utf32Le)" "codec_splits (encode_fragment Utf32Be)"
    "codec_splits (encode_fragment Utf16Le)" "codec_splits (encode_fragment Utf16Be)"
    by (simp_all add: encode_chars_splits)
  show "codec_splits (encode_fragment Utf8)" by (simp add: codec_splits_def encode_fragment_def)
qed

end
