(* ===== verification/Document.thy ===== *)
theory Document
  imports Text_Encoding
begin

text \<open>
  Editable text snapshots (\<open>src/src/edit/document.rs\<close>): the LF view of a file, the packed record of
  its original line endings, and the cursor that maps offsets of the view back to raw bytes.

  The codec of a file is a field of the document; \<open>codec_splits\<close> (theory Text_Encoding) is all the
  proofs use of it.
\<close>

section \<open>Line endings\<close>

datatype eol_style = Lf | Crlf

definition eol_str :: "eol_style \<Rightarrow> utf8" where
  "eol_str e = (case e of Lf \<Rightarrow> [nl] | Crlf \<Rightarrow> [cr, nl])"

record source_line_endings =
  crlf_bits :: "64 word list"
  endings_len :: nat

definition no_endings :: source_line_endings where
  "no_endings = \<lparr>crlf_bits = [], endings_len = 0\<rparr>"

definition push_ending :: "source_line_endings \<Rightarrow> bool \<Rightarrow> source_line_endings" where
  "push_ending s is_crlf =
     (let index = endings_len s;
          words = (if index mod 64 = 0 then crlf_bits s @ [0] else crlf_bits s);
          words = (if is_crlf
                   then words[index div 64 := words ! (index div 64) OR push_bit (index mod 64) 1]
                   else words) in
      \<lparr>crlf_bits = words, endings_len = sat_add index 1\<rparr>)"

definition is_crlf :: "source_line_endings \<Rightarrow> nat \<Rightarrow> bool" where
  "is_crlf s index \<longleftrightarrow>
     index div 64 < length (crlf_bits s) \<and>
     (crlf_bits s ! (index div 64)) AND push_bit (index mod 64) 1 \<noteq> 0"

definition endings_hold :: "source_line_endings \<Rightarrow> bool list \<Rightarrow> bool" where
  "endings_hold s flags \<longleftrightarrow>
     endings_len s = length flags \<and>
     length (crlf_bits s) = (length flags + 63) div 64 \<and>
     (\<forall>i < 64 * length (crlf_bits s).
        bit (crlf_bits s ! (i div 64)) (i mod 64) \<longleftrightarrow> i < length flags \<and> flags ! i)"

lemma endings_hold_empty: "endings_hold no_endings []"
  by (simp add: endings_hold_def no_endings_def)

lemma bit_or_push:
  fixes w :: "64 word"
  assumes "j < 64" "k < 64"
  shows "bit (w OR push_bit k 1) j \<longleftrightarrow> bit w j \<or> j = k"
  using assms by (auto simp: bit_or_iff bit_push_bit_iff bit_exp_iff)

lemma ceil_words:
  fixes n :: nat
  assumes "n mod 64 \<noteq> 0"
  shows "(n + 63) div 64 = (n + 64) div 64"
proof -
  obtain q r where n: "n = 64 * q + r" "r < 64" "0 < r"
    using assms mult_div_mod_eq [of 64 n] mod_less_divisor [of 64 n]
    by (metis neq0_conv zero_less_numeral)
  have "(64 * q + r + 63) div 64 = q + 1"
    using n by (intro div_nat_eqI) auto
  moreover have "(64 * q + r + 64) div 64 = q + 1"
    using n by (intro div_nat_eqI) auto
  ultimately show ?thesis using n by simp
qed

lemma push_ending_hold:
  assumes h: "endings_hold s flags" and small: "length flags < usize_max"
  shows "endings_hold (push_ending s b) (flags @ [b])"
proof -
  let ?n = "length flags"
  define words where "words = (if ?n mod 64 = 0 then crlf_bits s @ [0] else crlf_bits s)"
  have len: "length words = (?n + 64) div 64"
  proof (cases "?n mod 64 = 0")
    case True
    then obtain q where "?n = 64 * q" by (metis mod_0_imp_dvd dvdE)
    with h True show ?thesis by (simp add: words_def endings_hold_def)
  next
    case False
    from ceil_words [OF False] have "(?n + 63) div 64 = (?n + 64) div 64" .
    with h False show ?thesis by (simp add: words_def endings_hold_def)
  qed
  have old: "bit (words ! (i div 64)) (i mod 64) \<longleftrightarrow> i < ?n \<and> flags ! i"
    if i: "i < 64 * length words" for i
  proof (cases "i < 64 * length (crlf_bits s)")
    case True
    then have "i div 64 < length (crlf_bits s)" by auto
    with h True show ?thesis by (simp add: words_def nth_append endings_hold_def)
  next
    case False
    then have new: "words = crlf_bits s @ [0]" using i by (auto simp: words_def split: if_splits)
    then have "i div 64 = length (crlf_bits s)" using False i by simp
    moreover have "\<not> i < ?n" using False h by (simp add: endings_hold_def)
    ultimately show ?thesis by (simp add: new)
  qed
  have pos: "?n div 64 < length words" using len by simp
  let ?ws = "if b then words[?n div 64 := words ! (?n div 64) OR push_bit (?n mod 64) 1] else words"
  have "bit (?ws ! (i div 64)) (i mod 64) \<longleftrightarrow> i < Suc ?n \<and> (flags @ [b]) ! i"
    if i: "i < 64 * length ?ws" for i
  proof -
    have i': "i < 64 * length words" "i div 64 < length words" using i by (auto split: if_splits)
    have "i = ?n \<longleftrightarrow> i div 64 = ?n div 64 \<and> i mod 64 = ?n mod 64"
      by (metis div_mult_mod_eq)
    then show ?thesis
      using old [OF i'(1)] i' pos bit_or_push [of "i mod 64" "?n mod 64" "words ! (?n div 64)"]
      by (auto simp: nth_append nth_list_update less_Suc_eq)
  qed
  moreover have "push_ending s b = \<lparr>crlf_bits = ?ws, endings_len = Suc ?n\<rparr>"
    using h small by (simp add: push_ending_def Let_def words_def endings_hold_def sat_add_exact)
  ultimately show ?thesis using len by (simp add: endings_hold_def)
qed

lemma endings_hold_is_crlf:
  assumes "endings_hold s flags" and "i < length flags"
  shows "is_crlf s i = flags ! i"
proof -
  have i: "i < 64 * length (crlf_bits s)" "i div 64 < length (crlf_bits s)"
    using assms by (auto simp: endings_hold_def)
  have "(crlf_bits s ! (i div 64)) AND push_bit (i mod 64) 1 \<noteq> 0 \<longleftrightarrow>
      bit (crlf_bits s ! (i div 64)) (i mod 64)"
    by (simp add: push_bit_eq_mult and_exp_eq_0_iff_not_bit)
  with assms i show ?thesis by (simp add: is_crlf_def endings_hold_def)
qed

section \<open>The logical view\<close>

record view_state =
  v_logical :: utf8
  v_endings :: source_line_endings
  v_crlf :: nat
  v_lf :: nat

fun view_loop :: "utf8 \<Rightarrow> view_state \<Rightarrow> view_state" where
  "view_loop [] s = s"
| "view_loop (c # rest) s =
     (if c = cr \<and> rest \<noteq> [] \<and> hd rest = nl
      then view_loop (tl rest)
        (s\<lparr>v_logical := v_logical s @ [nl], v_endings := push_ending (v_endings s) True,
           v_crlf := v_crlf s + 1\<rparr>)
      else if c = nl
      then view_loop rest
        (s\<lparr>v_logical := v_logical s @ [c], v_endings := push_ending (v_endings s) False,
           v_lf := v_lf s + 1\<rparr>)
      else view_loop rest (s\<lparr>v_logical := v_logical s @ [c]\<rparr>))"

definition logical_view :: "utf8 \<Rightarrow> utf8 \<times> source_line_endings \<times> eol_style" where
  "logical_view src =
     (let s = view_loop src
        \<lparr>v_logical = [], v_endings = no_endings, v_crlf = 0, v_lf = 0\<rparr> in
      (v_logical s, v_endings s, if v_lf s < v_crlf s then Crlf else Lf))"

text \<open>What the view stands for: its lines, and for each line feed whether it was CRLF.\<close>

fun strip_crlf :: "utf8 \<Rightarrow> utf8 \<times> bool list" where
  "strip_crlf [] = ([], [])"
| "strip_crlf (c # rest) =
     (if c = cr \<and> rest \<noteq> [] \<and> hd rest = nl
      then (let (l, fs) = strip_crlf (tl rest) in (nl # l, True # fs))
      else let (l, fs) = strip_crlf rest in
        if c = nl then (nl # l, False # fs) else (c # l, fs))"

fun restore :: "utf8 \<Rightarrow> bool list \<Rightarrow> utf8" where
  "restore [] fs = []"
| "restore (c # cs) fs =
     (if c = nl then (if fs \<noteq> [] \<and> hd fs then [cr, nl] else [nl]) @ restore cs (tl fs)
      else c # restore cs fs)"

abbreviation newlines :: "utf8 \<Rightarrow> nat" where
  "newlines t \<equiv> length (filter (\<lambda>c. c = nl) t)"

lemma restore_strip: "restore (fst (strip_crlf src)) (snd (strip_crlf src)) = src"
proof (induction src rule: strip_crlf.induct)
  case (2 c rest)
  show ?case
  proof (cases "c = cr \<and> rest \<noteq> [] \<and> hd rest = nl")
    case True
    then have "rest = nl # tl rest" by (metis list.collapse)
    with 2(1) True show ?thesis by (simp add: case_prod_beta Let_def)
  next
    case False
    with 2(2) show ?thesis by (auto simp: case_prod_beta Let_def)
  qed
qed simp

lemma strip_flags: "length (snd (strip_crlf src)) = newlines (fst (strip_crlf src))"
  by (induction src rule: strip_crlf.induct) (auto simp: case_prod_beta Let_def)

lemma restore_append:
  "restore (a @ b) fs = restore a fs @ restore b (drop (newlines a) fs)"
  by (induction a arbitrary: fs) (auto simp: drop_Suc)

lemma view_loop_strip:
  "endings_hold (v_endings s) fs \<Longrightarrow> length fs + length src \<le> usize_max \<Longrightarrow>
     v_logical (view_loop src s) = v_logical s @ fst (strip_crlf src) \<and>
     endings_hold (v_endings (view_loop src s)) (fs @ snd (strip_crlf src)) \<and>
     v_crlf (view_loop src s) = v_crlf s + length (filter id (snd (strip_crlf src))) \<and>
     v_lf (view_loop src s) = v_lf s + length (filter Not (snd (strip_crlf src)))"
proof (induction src s arbitrary: fs rule: view_loop.induct)
  case (2 c rest s)
  show ?case
  proof (cases "c = cr \<and> rest \<noteq> [] \<and> hd rest = nl")
    case True
    have "endings_hold (push_ending (v_endings s) True) (fs @ [True])"
      using 2(4,5) by (intro push_ending_hold) auto
    with 2(1) [OF True, of "fs @ [True]"] 2(5) True show ?thesis
      by (simp add: case_prod_beta Let_def)
  next
    case False
    show ?thesis
    proof (cases "c = nl")
      case nl: True
      have "endings_hold (push_ending (v_endings s) False) (fs @ [False])"
        using 2(4,5) by (intro push_ending_hold) auto
      with 2(2) [OF False nl, of "fs @ [False]"] 2(5) False nl show ?thesis
        by (simp add: case_prod_beta Let_def)
    next
      case other: False
      with 2(3) [OF False other, of fs] 2(4,5) False show ?thesis
        by (auto simp: case_prod_beta Let_def)
    qed
  qed
qed simp

lemma logical_view_spec:
  assumes "length src \<le> usize_max"
  shows "\<exists>s. logical_view src = (fst (strip_crlf src), s,
      if length (filter Not (snd (strip_crlf src))) < length (filter id (snd (strip_crlf src)))
      then Crlf else Lf) \<and> endings_hold s (snd (strip_crlf src))"
  using view_loop_strip [of "\<lparr>v_logical = [], v_endings = no_endings, v_crlf = 0, v_lf = 0\<rparr>" "[]" src]
    assms by (auto simp: logical_view_def Let_def endings_hold_empty)

section \<open>Documents\<close>

datatype edit_error =
    FileChanged | StatefulEncoding | NotReproduced | BoundaryFailure | UnchangedFailure
  | LineEndingFailure | CannotEncode | TooLargeResult nat nat

definition decode_chunk_bytes :: nat where
  "decode_chunk_bytes = 64 * 1024"

definition offset_chunk_bytes :: nat where
  "offset_chunk_bytes = 64 * 1024"

fun back_to_boundary :: "utf8 \<Rightarrow> nat \<Rightarrow> nat \<Rightarrow> nat" where
  "back_to_boundary t start e =
     (if start < e \<and> \<not> is_char_boundary t e then back_to_boundary t start (e - 1) else e)"

declare back_to_boundary.simps [simp del]

text \<open>The two variants of \<open>next_char_boundary\<close>: of the encoding check and of the cursor.\<close>

definition decode_boundary :: "utf8 \<Rightarrow> nat \<Rightarrow> nat \<Rightarrow> nat" where
  "decode_boundary t start maximum =
     (let e = back_to_boundary t start (min (sat_add start maximum) (length t)) in
      if e = start \<and> start < length t
      then start + 1 + length (takeWhile is_continuation (drop (start + 1) t)) else e)"

definition next_char_boundary :: "utf8 \<Rightarrow> nat \<Rightarrow> nat \<Rightarrow> nat \<Rightarrow> nat" where
  "next_char_boundary t start target maximum =
     (let e = back_to_boundary t start (min (sat_add start maximum) target) in
      if e = start then target else e)"

lemma back_to_boundary_bounds:
  "start \<le> e \<Longrightarrow> start \<le> back_to_boundary t start e \<and> back_to_boundary t start e \<le> e \<and>
     (back_to_boundary t start e = start \<or> is_char_boundary t (back_to_boundary t start e))"
proof (induction t start e rule: back_to_boundary.induct)
  case (1 t start e)
  show ?case
  proof (cases "start < e \<and> \<not> is_char_boundary t e")
    case True
    with 1 show ?thesis by (simp add: back_to_boundary.simps [of t start e]) linarith
  next
    case False
    with 1 show ?thesis by (auto simp: back_to_boundary.simps [of t start e])
  qed
qed

lemma decode_boundary_bounds:
  assumes "start < length t" and "length t \<le> usize_max"
  shows "start < decode_boundary t start maximum \<and> decode_boundary t start maximum \<le> length t \<and>
    is_char_boundary t (decode_boundary t start maximum)"
proof -
  let ?m = "min (sat_add start maximum) (length t)"
  let ?w = "takeWhile is_continuation (drop (start + 1) t)"
  have m: "start \<le> ?m" using assms by (simp add: sat_add_def)
  note b = back_to_boundary_bounds [OF m, of t]
  show ?thesis
  proof (cases "back_to_boundary t start ?m = start")
    case True
    obtain k where k: "k = start + 1 + length ?w" by simp
    have "k \<le> length t"
      using length_takeWhile_le [of is_continuation "drop (start + 1) t"] assms(1) k by simp
    moreover have "\<not> is_continuation (t ! k)" if "k < length t"
    proof -
      have "length ?w < length (drop (start + 1) t)" using that k by simp
      from nth_length_takeWhile [OF this] show ?thesis using that k by simp
    qed
    moreover have "decode_boundary t start maximum = k"
      using True assms(1) k by (simp add: decode_boundary_def Let_def)
    ultimately show ?thesis using k by (auto simp: is_char_boundary_def)
  next
    case False
    with b show ?thesis by (auto simp: decode_boundary_def Let_def)
  qed
qed

lemma next_char_boundary_bounds:
  assumes "start < target" and "is_char_boundary t target" and "target \<le> usize_max"
  shows "start < next_char_boundary t start target maximum \<and>
    next_char_boundary t start target maximum \<le> target \<and>
    is_char_boundary t (next_char_boundary t start target maximum)"
proof -
  let ?m = "min (sat_add start maximum) target"
  have m: "start \<le> ?m" using assms by (simp add: sat_add_def)
  from back_to_boundary_bounds [OF m, of t] show ?thesis
    using assms by (auto simp: next_char_boundary_def Let_def)
qed

text \<open>
  \<open>decode_editable_snapshot\<close>: the decoded text must reproduce the raw bytes after the BOM. The
  bound on lengths in the loops below holds of every Rust string; it makes them total here.
\<close>

function check_snapshot ::
    "codec \<Rightarrow> byte list \<Rightarrow> utf8 \<Rightarrow> nat \<Rightarrow> nat \<Rightarrow> edit_error + nat" where
  "check_snapshot enc raw t text_offset raw_off =
     (if text_offset < length t \<and> length t \<le> usize_max then
        let e = decode_boundary t text_offset decode_chunk_bytes in
        case enc (take (e - text_offset) (drop text_offset t)) of
          None \<Rightarrow> Inl StatefulEncoding
        | Some fragment \<Rightarrow>
            (case checked_add raw_off (length fragment) of
               None \<Rightarrow> Inl NotReproduced
             | Some raw_end \<Rightarrow>
                 if raw_end \<le> length raw \<and> take (raw_end - raw_off) (drop raw_off raw) = fragment
                 then check_snapshot enc raw t e raw_end else Inl NotReproduced)
      else Inr raw_off)"
  by pat_completeness auto
termination
  by (relation "measure (\<lambda>(enc, raw, t, text_offset, raw_off). length t - text_offset)")
    (auto dest: decode_boundary_bounds [where maximum = decode_chunk_bytes])

declare check_snapshot.simps [simp del]

definition decode_editable_snapshot ::
    "codec \<Rightarrow> (byte list \<Rightarrow> utf8 option) \<Rightarrow> nat \<Rightarrow> byte list \<Rightarrow> edit_error + utf8" where
  "decode_editable_snapshot enc decode bom raw =
     bind_r (ok_or FileChanged (decode raw)) (\<lambda>t.
       bind_r (check_snapshot enc raw t 0 bom) (\<lambda>raw_off.
         if raw_off \<noteq> length raw then Inl NotReproduced else Inr t))"

record document =
  raw_bytes :: "byte list"
  encode :: codec
  raw_start :: nat
  logical :: utf8
  endings :: source_line_endings
  eol :: eol_style
  trailing_newline :: bool

definition ends_newline :: "utf8 \<Rightarrow> bool" where
  "ends_newline t \<longleftrightarrow> t \<noteq> [] \<and> last t = nl"

text \<open>The pure part of \<open>TextDocument::open\<close>, after the bytes were read and the encoding validated.\<close>

definition open_document ::
    "codec \<Rightarrow> (byte list \<Rightarrow> utf8 option) \<Rightarrow> nat \<Rightarrow> byte list \<Rightarrow> edit_error + document" where
  "open_document enc decode bom bytes =
     map_r (\<lambda>t. let (l, e, style) = logical_view t in
       \<lparr>raw_bytes = bytes, encode = enc, raw_start = bom, logical = l, endings = e, eol = style,
        trailing_newline = ends_newline l\<rparr>)
     (decode_editable_snapshot enc decode bom bytes)"

definition encode_for_target :: "document \<Rightarrow> utf8 \<Rightarrow> edit_error + byte list" where
  "encode_for_target d t =
     ok_or CannotEncode
       (encode d (concat (map (\<lambda>c. if c = nl then eol_str (eol d) else [c]) t)))"

record cursor =
  logical_offset :: nat
  raw_offset :: nat
  newline_index :: nat
  cr_bytes :: nat

definition raw_offset_cursor :: "document \<Rightarrow> edit_error + cursor" where
  "raw_offset_cursor d =
     map_r (\<lambda>b. \<lparr>logical_offset = 0, raw_offset = raw_start d, newline_index = 0,
                cr_bytes = length b\<rparr>)
       (ok_or LineEndingFailure (encode d [cr]))"

text \<open>One pass over the line feeds of a chunk.\<close>

fun count_endings :: "source_line_endings \<Rightarrow> nat \<Rightarrow> nat \<Rightarrow> nat \<Rightarrow> nat \<Rightarrow> nat \<times> nat" where
  "count_endings s crb 0 off idx = (off, idx)"
| "count_endings s crb (Suc n) off idx =
     count_endings s crb n (if is_crlf s idx then sat_add off crb else off) (sat_add idx 1)"

function advance_loop :: "document \<Rightarrow> nat \<Rightarrow> cursor \<Rightarrow> edit_error + cursor" where
  "advance_loop d target c =
     (if logical_offset c < target \<and> is_char_boundary (logical d) target \<and> target \<le> usize_max then
        let e = next_char_boundary (logical d) (logical_offset c) target offset_chunk_bytes;
            chunk = take (e - logical_offset c) (drop (logical_offset c) (logical d)) in
        case encode d chunk of
          None \<Rightarrow> Inl UnchangedFailure
        | Some bytes \<Rightarrow>
            (let (off, idx) = count_endings (endings d) (cr_bytes c) (newlines chunk)
                   (sat_add (raw_offset c) (length bytes)) (newline_index c) in
             advance_loop d target
               (c\<lparr>raw_offset := off, newline_index := idx, logical_offset := e\<rparr>))
      else Inr c)"
  by pat_completeness auto
termination
  by (relation "measure (\<lambda>(d, target, c). target - logical_offset c)")
    (auto dest: next_char_boundary_bounds [where maximum = offset_chunk_bytes])

declare advance_loop.simps [simp del]

definition advance_to :: "document \<Rightarrow> nat \<Rightarrow> cursor \<Rightarrow> edit_error + nat \<times> cursor" where
  "advance_to d target c =
     (if target < logical_offset c \<or> length (logical d) < target \<or>
         \<not> is_char_boundary (logical d) target
      then Inl BoundaryFailure
      else map_r (\<lambda>c. (raw_offset c, c)) (advance_loop d target c))"

section \<open>Raw offsets\<close>

lemma restore_no_newline: "nl \<notin> set p \<Longrightarrow> restore p fs = p"
  by (induction p arbitrary: fs) auto

lemma newlines_zero: "nl \<notin> set p \<Longrightarrow> newlines p = 0"
  by (induction p) auto

lemma chunk_splits:
  assumes "is_char_boundary t e" and "k \<le> e" and "e \<le> length t"
  shows "splits_at (take (e - k) (drop k t)) (drop e t)"
  using assms by (auto simp: is_char_boundary_def splits_at_def hd_drop_conv_nth)

lemma take_chunk:
  "k \<le> e \<Longrightarrow> e \<le> length t \<Longrightarrow> take (e - k) (drop k t) @ drop e t = drop k t"
  by (metis append_take_drop_id drop_drop le_add_diff_inverse2)

lemma take_upto: "k \<le> e \<Longrightarrow> take k t @ take (e - k) (drop k t) = take e t"
  by (metis le_add_diff_inverse take_add)

lemma check_snapshot_step:
  assumes "check_snapshot enc raw t k r = Inr r'" and "k < length t" and "length t \<le> usize_max"
    and e: "e = decode_boundary t k decode_chunk_bytes"
  shows "\<exists>fragment. enc (take (e - k) (drop k t)) = Some fragment \<and>
    r + length fragment \<le> length raw \<and> take (length fragment) (drop r raw) = fragment \<and>
    check_snapshot enc raw t e (r + length fragment) = Inr r'"
  using assms(1-3) unfolding e
  by (subst (asm) check_snapshot.simps)
    (auto simp: Let_def sat_simps split: option.splits if_splits)

text \<open>The check reproduces the rest of the text byte for byte.\<close>

lemma check_snapshot_exact:
  assumes enc: "codec_splits enc" and small: "length t \<le> usize_max"
  shows "check_snapshot enc raw t k r = Inr r' \<Longrightarrow> k \<le> length t \<Longrightarrow> r \<le> length raw \<Longrightarrow>
    \<exists>x. enc (drop k t) = Some x \<and> r' = r + length x \<and> r' \<le> length raw \<and>
        take (length x) (drop r raw) = x"
proof (induction "length t - k" arbitrary: k r rule: less_induct)
  case less
  show ?case
  proof (cases "k < length t")
    case True
    obtain e where e: "e = decode_boundary t k decode_chunk_bytes" by simp
    note b = decode_boundary_bounds [OF True small, of decode_chunk_bytes, folded e]
    from check_snapshot_step [OF less.prems(1) True small e] obtain x where
      x: "enc (take (e - k) (drop k t)) = Some x" "r + length x \<le> length raw"
        "take (length x) (drop r raw) = x" "check_snapshot enc raw t e (r + length x) = Inr r'" by blast
    have "length t - e < length t - k" using b True by linarith
    from less.hyps [OF this x(4) _ x(2)] b obtain y where
      y: "enc (drop e t) = Some y" "r' = r + length x + length y" "r' \<le> length raw"
        "take (length y) (drop (r + length x) raw) = y" by auto
    have "enc (drop k t) = Some (x @ y)"
      using codec_append [OF enc chunk_splits, of t e k "x @ y"] x(1) y(1) b take_chunk [of k e t] by auto
    moreover have "take (length (x @ y)) (drop r raw) = x @ y"
      using x(3) y(4) by (simp add: take_add add.commute)
    ultimately show ?thesis using y(2,3) by auto
  next
    case False
    with less.prems have "r' = r" "k = length t"
      by (subst (asm) check_snapshot.simps, auto)
    with less.prems enc show ?thesis by (auto simp: codec_splits_def)
  qed
qed

definition document_ok :: "document \<Rightarrow> utf8 \<Rightarrow> bool" where
  "document_ok d t \<longleftrightarrow>
     codec_splits (encode d) \<and> length t \<le> usize_max \<and> length (raw_bytes d) \<le> usize_max \<and>
     raw_start d \<le> length (raw_bytes d) \<and> encode d t = Some (drop (raw_start d) (raw_bytes d)) \<and>
     logical d = fst (strip_crlf t) \<and> endings_hold (endings d) (snd (strip_crlf t)) \<and>
     trailing_newline d = ends_newline (logical d)"

lemma open_document_ok:
  assumes enc: "codec_splits enc" and sizes: "length bytes \<le> usize_max" "bom \<le> length bytes"
    and text_size: "\<And>t. decode bytes = Some t \<Longrightarrow> length t \<le> usize_max"
    and opened: "open_document enc decode bom bytes = Inr d"
  shows "\<exists>t. decode bytes = Some t \<and> document_ok d t \<and> raw_bytes d = bytes \<and> raw_start d = bom \<and> encode d = enc"
proof -
  from opened obtain t r where t: "decode bytes = Some t"
    and chk: "check_snapshot enc bytes t 0 bom = Inr r" and r: "r = length bytes"
    by (auto simp: open_document_def decode_editable_snapshot_def bind_simps split: if_splits)
  have d: "d = (let (l, e, style) = logical_view t in
       \<lparr>raw_bytes = bytes, encode = enc, raw_start = bom, logical = l, endings = e, eol = style,
        trailing_newline = ends_newline l\<rparr>)"
    using opened t chk r
    by (auto simp: open_document_def decode_editable_snapshot_def bind_simps)
  from check_snapshot_exact [OF enc text_size [OF t] chk] sizes obtain x where
    "enc t = Some x" "r = bom + length x" "take (length x) (drop bom bytes) = x" by auto
  with r have "enc t = Some (drop bom bytes)" by simp
  with d t sizes enc text_size [OF t] logical_view_spec [OF text_size [OF t]] show ?thesis
    by (auto simp: document_ok_def)
qed

text \<open>The length of an encoding with its original line endings.\<close>

lemma restore_encoding:
  assumes enc: "codec_splits enc" and b: "enc [cr] = Some b"
  shows "newlines p \<le> length fs \<Longrightarrow> enc (restore p fs) = Some y \<Longrightarrow>
    \<exists>x. enc p = Some x \<and> length y = length x + length b * length (filter id (take (newlines p) fs))"
proof (induction "length p" arbitrary: p fs y rule: less_induct)
  case less
  show ?case
  proof (cases "nl \<in> set p")
    case False
    with less.prems newlines_zero [OF False] show ?thesis by (simp add: restore_no_newline)
  next
    case True
    then obtain a q where p: "p = a @ nl # q" and a: "nl \<notin> set a" by (meson split_list_first)
    note na = newlines_zero [OF a]
    from less.prems(1) p na obtain f fs' where fs: "fs = f # fs'" by (cases fs) auto
    have r: "restore p fs = a @ (if f then [cr, nl] else [nl]) @ restore q fs'"
      using a by (simp add: p fs restore_append restore_no_newline na)
    then obtain xa z where z: "enc a = Some xa" "y = xa @ z"
      "enc ((if f then [cr, nl] else [nl]) @ restore q fs') = Some z"
      using less.prems(2) codec_append [OF enc, of a] by (auto split: if_splits)
    have nlq: "enc (nl # restore q fs') = Some w \<longleftrightarrow>
        (\<exists>xn yq. enc [nl] = Some xn \<and> enc (restore q fs') = Some yq \<and> w = xn @ yq)" for w
      using codec_append [OF enc, of "[nl]" "restore q fs'" w] by simp
    have "\<exists>xn yq. enc [nl] = Some xn \<and> enc (restore q fs') = Some yq \<and>
        z = (if f then b else []) @ xn @ yq"
    proof (cases f)
      case f: True
      from z(3) f obtain w where w: "enc (nl # restore q fs') = Some w" "z = b @ w"
        using codec_append [OF enc, of "[cr]" "nl # restore q fs'"] b by auto
      from w(1) have "\<exists>xn yq. enc [nl] = Some xn \<and> enc (restore q fs') = Some yq \<and> w = xn @ yq"
        by (simp only: nlq)
      with f w(2) show ?thesis by simp
    next
      case f: False
      with z(3) nlq show ?thesis by auto
    qed
    then obtain xn yq where n: "enc [nl] = Some xn" "enc (restore q fs') = Some yq"
      "z = (if f then b else []) @ xn @ yq" by blast
    from less.hyps [OF _ _ n(2)] less.prems(1) p fs na obtain xq where
      q: "enc q = Some xq" "length yq = length xq + length b * length (filter id (take (newlines q) fs'))"
      by auto
    have "enc p = Some (xa @ xn @ xq)"
      using codec_append [OF enc, of a "nl # q"] codec_append [OF enc, of "[nl]" q] z(1) n(1) q(1) p by auto
    with q(2) n(3) z(2) fs p na show ?thesis by (simp add: algebra_simps)
  qed
qed

lemma count_endings_spec:
  assumes h: "endings_hold s fs"
  shows "idx + n \<le> length fs \<Longrightarrow> length fs \<le> usize_max \<Longrightarrow>
    off + crb * length (filter id (take n (drop idx fs))) \<le> usize_max \<Longrightarrow>
    count_endings s crb n off idx = (off + crb * length (filter id (take n (drop idx fs))), idx + n)"
proof (induction n arbitrary: off idx)
  case (Suc n)
  have d: "drop idx fs = fs ! idx # drop (Suc idx) fs" using Suc.prems(1) by (simp add: Cons_nth_drop_Suc)
  have "is_crlf s idx = fs ! idx" using endings_hold_is_crlf [OF h] Suc.prems(1) by simp
  show ?case
  proof (cases "fs ! idx")
    case True
    have "off + crb \<le> usize_max" using Suc.prems(3) True by (simp add: d)
    with Suc d True \<open>is_crlf s idx = fs ! idx\<close> show ?thesis by (simp add: sat_add_exact add.assoc)
  next
    case False
    with Suc d \<open>is_crlf s idx = fs ! idx\<close> show ?thesis by (simp add: sat_add_exact)
  qed
qed simp

section \<open>The cursor\<close>

lemma strip_lengths:
  "length (fst (strip_crlf u)) \<le> length u \<and> length (snd (strip_crlf u)) \<le> length u"
proof -
  have "length l \<le> length (restore l fs)" for l fs
    by (induction l arbitrary: fs) (auto intro: le_SucI)
  then have "length (fst (strip_crlf u)) \<le> length u" by (metis restore_strip)
  moreover have "length (snd (strip_crlf u)) \<le> length (fst (strip_crlf u))"
    by (simp add: strip_flags)
  ultimately show ?thesis by simp
qed

definition flags :: "utf8 \<Rightarrow> bool list" where
  "flags t = snd (strip_crlf t)"

definition segment :: "utf8 \<Rightarrow> nat \<Rightarrow> nat \<Rightarrow> utf8" where
  "segment t k e =
     (let l = fst (strip_crlf t) in
      restore (take (e - k) (drop k l)) (drop (newlines (take k l)) (flags t)))"

text \<open>The original text before logical offset \<open>k\<close>, and where it ends in the file.\<close>

definition prefix_text :: "utf8 \<Rightarrow> nat \<Rightarrow> utf8" where
  "prefix_text t k = restore (take k (fst (strip_crlf t))) (flags t)"

definition raw_at :: "document \<Rightarrow> utf8 \<Rightarrow> nat \<Rightarrow> nat" where
  "raw_at d t k = raw_start d + length (the (encode d (prefix_text t k)))"

lemma restore_cut:
  assumes "is_char_boundary l k"
  shows "splits_at (restore (take k l) fs) (restore (drop k l) gs)"
proof (cases "drop k l")
  case (Cons c cs)
  then have k: "k < length l" "l ! k = c" by (metis drop_eq_Nil2 linorder_not_le list.distinct(1),
      metis hd_drop_conv_nth drop_eq_Nil2 linorder_not_le list.distinct(1) list.sel(1))
  show ?thesis
  proof (cases "k = 0 \<or> c = nl")
    case True
    with Cons show ?thesis by auto
  next
    case False
    with assms k have "\<not> is_continuation c" by (auto simp: is_char_boundary_def)
    with False Cons show ?thesis by (simp add: splits_at_def)
  qed
qed simp

lemma prefix_segment:
  "k \<le> e \<Longrightarrow> prefix_text t e = prefix_text t k @ segment t k e"
  by (simp add: prefix_text_def segment_def Let_def restore_append [symmetric] take_upto flip: flags_def)

lemma prefix_rest:
  "prefix_text t k @ restore (drop k (fst (strip_crlf t))) (drop (newlines (take k (fst (strip_crlf t)))) (flags t)) = t"
  using restore_strip [of t] restore_append [of "take k (fst (strip_crlf t))" "drop k (fst (strip_crlf t))" "flags t"]
  by (simp add: prefix_text_def flags_def)

lemma prefix_encodes:
  assumes ok: "document_ok d t" and k: "is_char_boundary (logical d) k"
  shows "\<exists>x y. encode d (prefix_text t k) = Some x \<and> drop (raw_start d) (raw_bytes d) = x @ y \<and>
    raw_at d t k = raw_start d + length x \<and> raw_at d t k \<le> length (raw_bytes d)"
proof -
  let ?l = "fst (strip_crlf t)"
  have enc: "codec_splits (encode d)" and l: "logical d = ?l" using ok by (simp_all add: document_ok_def)
  have "splits_at (prefix_text t k) (restore (drop k ?l) (drop (newlines (take k ?l)) (flags t)))"
    unfolding prefix_text_def using restore_cut k l by simp
  with codec_append [OF enc this, of "drop (raw_start d) (raw_bytes d)"] ok obtain x y where
    x: "encode d (prefix_text t k) = Some x" "drop (raw_start d) (raw_bytes d) = x @ y"
    unfolding prefix_rest by (auto simp: document_ok_def)
  from x(2) have "length (raw_bytes d) - raw_start d = length x + length y"
    by (metis length_append length_drop)
  with x ok show ?thesis by (auto simp: raw_at_def document_ok_def)
qed

lemma segment_encodes:
  assumes ok: "document_ok d t" and k: "is_char_boundary (logical d) k"
    and e: "is_char_boundary (logical d) e" "k \<le> e"
  shows "\<exists>s. encode d (segment t k e) = Some s \<and> raw_at d t e = raw_at d t k + length s \<and>
    s = take (raw_at d t e - raw_at d t k) (drop (raw_at d t k) (raw_bytes d))"
proof -
  have enc: "codec_splits (encode d)" using ok by (simp add: document_ok_def)
  obtain x y where x: "encode d (prefix_text t k) = Some x" "drop (raw_start d) (raw_bytes d) = x @ y"
    "raw_at d t k = raw_start d + length x" using prefix_encodes [OF ok k] by blast
  obtain x' y' where x': "encode d (prefix_text t e) = Some x'" "drop (raw_start d) (raw_bytes d) = x' @ y'"
    "raw_at d t e = raw_start d + length x'" using prefix_encodes [OF ok e(1)] by blast
  have l: "logical d = fst (strip_crlf t)" using ok by (simp add: document_ok_def)
  have cut: "splits_at (prefix_text t k) (segment t k e)"
  proof (cases "k < e \<and> k < length (logical d)")
    case True
    have "take (e - k) (drop k (logical d)) = drop k (take e (logical d))" by (simp add: drop_take)
    moreover have "is_char_boundary (take e (logical d)) k"
      using k True by (auto simp: is_char_boundary_def)
    moreover have "take k (take e (logical d)) = take k (logical d)" using True by (simp add: min_def)
    ultimately show ?thesis
      using restore_cut [of "take e (logical d)" k] l by (simp add: prefix_text_def segment_def Let_def)
  next
    case False
    then have "segment t k e = []" using l e(2) by (auto simp: segment_def Let_def)
    then show ?thesis by simp
  qed
  from codec_append [OF enc cut, of x'] x'(1) x(1) prefix_segment [OF e(2), of t] obtain s where
    s: "encode d (segment t k e) = Some s" "x' = x @ s" by auto
  moreover have "s = take (length s) (drop (length x) (drop (raw_start d) (raw_bytes d)))"
    using x'(2) s(2) by simp
  ultimately show ?thesis using x(3) x'(3) by (simp add: add.commute)
qed

definition cursor_at :: "document \<Rightarrow> utf8 \<Rightarrow> cursor \<Rightarrow> nat \<Rightarrow> bool" where
  "cursor_at d t c k \<longleftrightarrow>
     logical_offset c = k \<and> is_char_boundary (logical d) k \<and>
     newline_index c = newlines (take k (logical d)) \<and> raw_offset c = raw_at d t k \<and>
     (\<exists>b. encode d [cr] = Some b \<and> cr_bytes c = length b)"

lemma cursor_start:
  assumes ok: "document_ok d t" and c: "raw_offset_cursor d = Inr c"
  shows "cursor_at d t c 0"
  using assms prefix_encodes [OF ok, of 0]
  by (auto simp: raw_offset_cursor_def cursor_at_def bind_simps is_char_boundary_def raw_at_def
      prefix_text_def document_ok_def codec_splits_def)

lemma cursor_chunk:
  assumes ok: "document_ok d t" and c: "cursor_at d t c k"
    and e: "is_char_boundary (logical d) e" "k \<le> e"
  shows "\<exists>bytes. encode d (take (e - k) (drop k (logical d))) = Some bytes \<and>
    count_endings (endings d) (cr_bytes c) (newlines (take (e - k) (drop k (logical d))))
      (sat_add (raw_offset c) (length bytes)) (newline_index c) =
      (raw_at d t e, newlines (take e (logical d)))"
proof -
  let ?l = "logical d" and ?chunk = "take (e - k) (drop k (logical d))"
  let ?n = "newlines ?chunk" and ?i = "newlines (take k (logical d))"
  have enc: "codec_splits (encode d)" and l: "?l = fst (strip_crlf t)"
    and fl: "endings_hold (endings d) (flags t)" and small: "length (raw_bytes d) \<le> usize_max"
    "length t \<le> usize_max" using ok by (simp_all add: document_ok_def flags_def)
  have k: "is_char_boundary ?l k" using c by (simp add: cursor_at_def)
  obtain b where b: "encode d [cr] = Some b" "cr_bytes c = length b" using c by (auto simp: cursor_at_def)
  obtain s where s: "encode d (segment t k e) = Some s" "raw_at d t e = raw_at d t k + length s"
    using segment_encodes [OF ok k e] by blast
  have idx: "?i + ?n = newlines (take e ?l)"
    using take_upto [OF e(2), of ?l] by (metis filter_append length_append)
  have "newlines (take e ?l) \<le> newlines ?l"
    by (metis append_take_drop_id filter_append le_add1 length_append)
  then have lim: "?i + ?n \<le> length (flags t)" using idx l strip_flags [of t] by (simp add: flags_def)
  have seg: "segment t k e = restore ?chunk (drop ?i (flags t))" by (simp add: segment_def l Let_def)
  have "?n \<le> length (drop ?i (flags t))" using lim by simp
  from restore_encoding [OF enc b(1) this] s(1) seg obtain bytes where
    bytes: "encode d ?chunk = Some bytes"
      "length s = length bytes + length b * length (filter id (take ?n (drop ?i (flags t))))" by auto
  have top: "raw_at d t e \<le> usize_max" using prefix_encodes [OF ok e(1)] small by auto
  then have sat: "sat_add (raw_offset c) (length bytes) = raw_at d t k + length bytes"
    using c s(2) bytes(2) by (simp add: cursor_at_def sat_add_exact)
  have "length (flags t) \<le> usize_max" using strip_lengths [of t] small(2) by (simp add: flags_def)
  from count_endings_spec [OF fl lim this, of "raw_at d t k + length bytes" "length b"] top s(2) bytes(2)
  have "count_endings (endings d) (length b) ?n (raw_at d t k + length bytes) ?i = (raw_at d t e, ?i + ?n)"
    by simp
  with bytes(1) sat b(2) idx c show ?thesis by (auto simp: cursor_at_def)
qed

lemma advance_loop_exact:
  assumes ok: "document_ok d t"
  shows "cursor_at d t c k \<Longrightarrow> k \<le> target \<Longrightarrow> is_char_boundary (logical d) target \<Longrightarrow>
    target \<le> usize_max \<Longrightarrow> \<exists>c'. advance_loop d target c = Inr c' \<and> cursor_at d t c' target"
proof (induction "target - k" arbitrary: c k rule: less_induct)
  case less
  have off: "logical_offset c = k" using less.prems(1) by (simp add: cursor_at_def)
  show ?case
  proof (cases "k < target")
    case True
    obtain e where e: "e = next_char_boundary (logical d) k target offset_chunk_bytes" by simp
    note b = next_char_boundary_bounds [OF True less.prems(3,4), of offset_chunk_bytes, folded e]
    obtain bytes where bytes: "encode d (take (e - k) (drop k (logical d))) = Some bytes"
      "count_endings (endings d) (cr_bytes c) (newlines (take (e - k) (drop k (logical d))))
        (sat_add (raw_offset c) (length bytes)) (newline_index c) =
        (raw_at d t e, newlines (take e (logical d)))"
      using cursor_chunk [OF ok less.prems(1), of e] b by auto
    let ?c = "c\<lparr>raw_offset := raw_at d t e, newline_index := newlines (take e (logical d)), logical_offset := e\<rparr>"
    have step: "advance_loop d target c = advance_loop d target ?c"
      using True less.prems(3,4) bytes off e
      by (subst advance_loop.simps) (simp add: Let_def)
    have "cursor_at d t ?c e" using less.prems(1) b by (auto simp: cursor_at_def)
    from less.hyps [OF _ this _ less.prems(3,4)] b True step show ?thesis by auto
  next
    case False
    with less.prems off show ?thesis by (subst advance_loop.simps) auto
  qed
qed

lemma advance_to_exact:
  assumes ok: "document_ok d t" and "cursor_at d t c k" and "k \<le> target"
    and target: "is_char_boundary (logical d) target"
  shows "\<exists>c'. advance_to d target c = Inr (raw_at d t target, c') \<and> cursor_at d t c' target"
proof -
  have "length (logical d) \<le> usize_max" using strip_lengths [of t] ok by (simp add: document_ok_def)
  moreover have "target \<le> length (logical d)" using target by (auto simp: is_char_boundary_def)
  ultimately obtain c' where "advance_loop d target c = Inr c'" "cursor_at d t c' target"
    using advance_loop_exact [OF assms(1-4)] by auto
  with assms(2,3) target \<open>target \<le> length (logical d)\<close> show ?thesis
    by (auto simp: advance_to_def cursor_at_def)
qed

end
