(* ===== verification/Replacement.thy ===== *)
theory Replacement
  imports Document
begin

text \<open>
  Byte-preserving replacement (\<open>src/src/edit/replace.rs\<close>): \<open>process_replacement\<close> over the matches of
  one file, as validation (lengths only) and as materialisation.

  The regular-expression engine is third-party, so the matches are a parameter: for every capture
  set its start and end in the logical text and the expanded replacement. \<open>matches_ok\<close> is what a
  match iterator over a string yields.
\<close>

section \<open>The output\<close>

record replacement_output =
  out_bytes :: "byte list option"
  out_len :: nat

definition new_output :: "bool \<Rightarrow> replacement_output" where
  "new_output materialize = \<lparr>out_bytes = (if materialize then Some [] else None), out_len = 0\<rparr>"

definition checked_result_size :: "nat \<Rightarrow> nat \<Rightarrow> nat \<Rightarrow> edit_error + nat" where
  "checked_result_size max_mib current additional =
     (let projected = sat_add current additional in
      if sat_mul max_mib (1024 * 1024) < projected then Inl (TooLargeResult projected max_mib)
      else Inr projected)"

definition extend_output ::
    "nat \<Rightarrow> byte list \<Rightarrow> replacement_output \<Rightarrow> edit_error + replacement_output" where
  "extend_output max_mib bytes out =
     map_r (\<lambda>n. \<lparr>out_bytes = map_option (\<lambda>b. b @ bytes) (out_bytes out), out_len = n\<rparr>)
       (checked_result_size max_mib (out_len out) (length bytes))"

definition has_suffix :: "'a list \<Rightarrow> 'a list \<Rightarrow> bool" where
  "has_suffix xs suf \<longleftrightarrow> length suf \<le> length xs \<and> drop (length xs - length suf) xs = suf"

definition remove_suffix :: "byte list \<Rightarrow> replacement_output \<Rightarrow> replacement_output" where
  "remove_suffix suf out =
     (if (case out_bytes out of None \<Rightarrow> True | Some b \<Rightarrow> has_suffix b suf) \<and>
         length suf \<le> out_len out
      then (let n = out_len out - length suf in
        \<lparr>out_bytes = map_option (take n) (out_bytes out), out_len = n\<rparr>)
      else out)"

section \<open>The pass over the matches\<close>

type_synonym span = "nat \<times> nat \<times> utf8"

record replace_state =
  output_of :: replacement_output
  previous_raw :: nat
  previous_logical :: nat
  matches :: nat
  result_ends_newline :: bool
  raw_cursor :: cursor

definition observe_tail :: "utf8 \<Rightarrow> bool \<Rightarrow> bool" where
  "observe_tail t ends = (if t = [] then ends else ends_newline t)"

definition byte_slice :: "'a list \<Rightarrow> nat \<Rightarrow> nat \<Rightarrow> 'a list" where
  "byte_slice xs i j = take (j - i) (drop i xs)"

definition replace_one ::
    "document \<Rightarrow> nat \<Rightarrow> span \<Rightarrow> replace_state \<Rightarrow> edit_error + replace_state" where
  "replace_one d max_mib m st =
     (let (s, e, expanded) = m in
      if s = e \<and> expanded = [] then Inr st
      else
        bind_r (advance_to d s (raw_cursor st)) (\<lambda>(start, c).
        bind_r (advance_to d e c) (\<lambda>(stop, c).
        bind_r (extend_output max_mib (byte_slice (raw_bytes d) (previous_raw st) start) (output_of st)) (\<lambda>out.
        bind_r (encode_for_target d expanded) (\<lambda>encoded.
        bind_r (extend_output max_mib encoded out) (\<lambda>out.
          Inr \<lparr>output_of = out, previous_raw = stop, previous_logical = e,
               matches = sat_add (matches st) 1,
               result_ends_newline = observe_tail expanded
                 (observe_tail (byte_slice (logical d) (previous_logical st) s) (result_ends_newline st)),
               raw_cursor = c\<rparr>))))))"

fun replace_loop ::
    "document \<Rightarrow> nat \<Rightarrow> span list \<Rightarrow> replace_state \<Rightarrow> edit_error + replace_state" where
  "replace_loop d max_mib [] st = Inr st"
| "replace_loop d max_mib (m # rest) st =
     bind_r (replace_one d max_mib m st) (replace_loop d max_mib rest)"

definition finish_replacement ::
    "document \<Rightarrow> nat \<Rightarrow> replace_state \<Rightarrow> edit_error + replacement_output \<times> nat" where
  "finish_replacement d max_mib st =
     bind_r (extend_output max_mib (drop (previous_raw st) (raw_bytes d)) (output_of st)) (\<lambda>out.
       let ends = observe_tail (drop (previous_logical st) (logical d)) (result_ends_newline st) in
       bind_r (encode_for_target d [nl]) (\<lambda>newline.
         map_r (\<lambda>out. (out, matches st))
           (if trailing_newline d \<and> \<not> ends then extend_output max_mib newline out
            else if \<not> trailing_newline d \<and> ends then Inr (remove_suffix newline out)
            else Inr out)))"

definition process_replacement ::
    "document \<Rightarrow> span list \<Rightarrow> nat \<Rightarrow> bool \<Rightarrow> edit_error + replacement_output \<times> nat" where
  "process_replacement d spans max_mib materialize =
     bind_r (raw_offset_cursor d) (\<lambda>c.
       bind_r (replace_loop d max_mib spans
         \<lparr>output_of = new_output materialize, previous_raw = 0, previous_logical = 0, matches = 0,
          result_ends_newline = False, raw_cursor = c\<rparr>)
       (finish_replacement d max_mib))"

definition validate_replacement :: "document \<Rightarrow> span list \<Rightarrow> nat \<Rightarrow> edit_error + unit" where
  "validate_replacement d spans max_mib = map_r (\<lambda>_. ()) (process_replacement d spans max_mib False)"

text \<open>\<open>the\<close> is the \<open>expect\<close> of the source: a materialised output always has its buffer.\<close>

definition build_replacement :: "document \<Rightarrow> span list \<Rightarrow> nat \<Rightarrow> edit_error + byte list \<times> nat" where
  "build_replacement d spans max_mib =
     map_r (\<lambda>(out, n). (the (out_bytes out), n)) (process_replacement d spans max_mib True)"

section \<open>Validation and materialisation take the same path\<close>

definition same_path :: "replace_state \<Rightarrow> replace_state \<Rightarrow> bool" where
  "same_path a b \<longleftrightarrow>
     out_len (output_of a) = out_len (output_of b) \<and> previous_raw a = previous_raw b \<and>
     previous_logical a = previous_logical b \<and> matches a = matches b \<and>
     result_ends_newline a = result_ends_newline b \<and> raw_cursor a = raw_cursor b"

definition lift_same :: "('a \<Rightarrow> 'b \<Rightarrow> bool) \<Rightarrow> 'e + 'a \<Rightarrow> 'e + 'b \<Rightarrow> bool" where
  "lift_same R x y =
     (case (x, y) of (Inl e, Inl f) \<Rightarrow> e = f | (Inr a, Inr b) \<Rightarrow> R a b | _ \<Rightarrow> False)"

lemma lift_same_bind:
  "lift_same R x y \<Longrightarrow> (\<And>a b. R a b \<Longrightarrow> lift_same S (f a) (g b)) \<Longrightarrow>
     lift_same S (bind_r x f) (bind_r y g)"
  by (cases x; cases y) (auto simp: lift_same_def)

lemma lift_same_refl: "lift_same (=) x x"
  by (cases x) (auto simp: lift_same_def)

lemma lift_same_Inr [simp]: "lift_same R (Inr a) (Inr b) = R a b"
  by (simp add: lift_same_def)

lemma extend_same:
  "out_len a = out_len b \<Longrightarrow>
     lift_same (\<lambda>x y. out_len x = out_len y) (extend_output m bs a) (extend_output m bs b)"
  by (simp add: extend_output_def checked_result_size_def Let_def lift_same_def)

lemma replace_one_same:
  "same_path a b \<Longrightarrow> lift_same same_path (replace_one d mx m a) (replace_one d mx m b)"
  unfolding replace_one_def Let_def
  by (auto simp: same_path_def intro!: lift_same_bind [OF lift_same_refl] lift_same_bind [OF extend_same]
      split: prod.split)

lemma replace_loop_same:
  "same_path a b \<Longrightarrow> lift_same same_path (replace_loop d mx ms a) (replace_loop d mx ms b)"
proof (induction ms arbitrary: a b)
  case (Cons m ms)
  show ?case by (simp, rule lift_same_bind [OF replace_one_same [OF Cons.prems]]) (rule Cons.IH)
qed simp

lemma finish_same:
  "same_path a b \<Longrightarrow>
     lift_same (\<lambda>x y. snd x = snd y) (finish_replacement d mx a) (finish_replacement d mx b)"
  unfolding finish_replacement_def Let_def
  by (rule lift_same_bind [where R = "\<lambda>x y. out_len x = out_len y"],
      simp add: same_path_def extend_same, rule lift_same_bind [OF lift_same_refl])
    (auto simp: same_path_def lift_same_def extend_output_def checked_result_size_def Let_def)

section \<open>What is written\<close>

definition starts_char :: "utf8 \<Rightarrow> bool" where
  "starts_char t \<longleftrightarrow> t = [] \<or> \<not> is_continuation (hd t)"

fun matches_ok :: "utf8 \<Rightarrow> nat \<Rightarrow> span list \<Rightarrow> bool" where
  "matches_ok l k [] \<longleftrightarrow> is_char_boundary l k"
| "matches_ok l k ((s, e, x) # rest) \<longleftrightarrow>
     is_char_boundary l k \<and> k \<le> s \<and> s \<le> e \<and> is_char_boundary l s \<and> starts_char x \<and>
     matches_ok l e rest"

definition eolize :: "document \<Rightarrow> utf8 \<Rightarrow> utf8" where
  "eolize d t = concat (map (\<lambda>c. if c = nl then eol_str (eol d) else [c]) t)"

text \<open>The original text from offset \<open>k\<close> with the matches replaced, endings kept elsewhere.\<close>

fun edited_text :: "document \<Rightarrow> utf8 \<Rightarrow> nat \<Rightarrow> span list \<Rightarrow> utf8" where
  "edited_text d t k [] = segment t k (length (logical d))"
| "edited_text d t k ((s, e, x) # rest) =
     (if s = e \<and> x = [] then edited_text d t k rest
      else segment t k s @ eolize d x @ edited_text d t e rest)"

definition settle_newline :: "document \<Rightarrow> bool \<Rightarrow> byte list \<Rightarrow> byte list \<Rightarrow> byte list" where
  "settle_newline d ends newline base =
     (if trailing_newline d \<and> \<not> ends then base @ newline
      else if \<not> trailing_newline d \<and> ends \<and> has_suffix base newline
      then take (length base - length newline) base else base)"

lemma matches_ok_boundary: "matches_ok l k ms \<Longrightarrow> is_char_boundary l k"
  by (cases ms) auto

lemma starts_splits: "starts_char b \<Longrightarrow> splits_at a b"
  by (auto simp: starts_char_def splits_at_def)

lemma restore_shape:
  "restore p fs = [] \<longleftrightarrow> p = []" "ends_newline (restore p fs) \<longleftrightarrow> ends_newline p"
proof -
  show "restore p fs = [] \<longleftrightarrow> p = []" by (cases p) auto
  show "ends_newline (restore p fs) \<longleftrightarrow> ends_newline p"
    by (cases p rule: rev_cases) (auto simp: restore_append ends_newline_def)
qed

lemma eolize_shape: "eolize d x = [] \<longleftrightarrow> x = []" "ends_newline (eolize d x) \<longleftrightarrow> ends_newline x"
  by (cases x; simp add: eolize_def eol_str_def split: eol_style.split)
    (cases x rule: rev_cases, auto simp: ends_newline_def eolize_def eol_str_def split: eol_style.split)

lemma starts_restore: "starts_char p \<Longrightarrow> starts_char (restore p fs)"
  by (cases p) (auto simp: starts_char_def)

lemma starts_eolize: "starts_char x \<Longrightarrow> starts_char (eolize d x)"
  by (cases x) (auto simp: starts_char_def eolize_def eol_str_def split: eol_style.split)

lemma starts_append: "starts_char a \<Longrightarrow> starts_char b \<Longrightarrow> starts_char (a @ b)"
  by (cases a) (auto simp: starts_char_def)

lemma starts_segment:
  assumes "starts_char (fst (strip_crlf t))" and "is_char_boundary (fst (strip_crlf t)) k"
  shows "starts_char (segment t k e)"
proof -
  let ?l = "fst (strip_crlf t)"
  have "starts_char (take (e - k) (drop k ?l))"
    using assms
    by (cases "k < e \<and> k < length ?l")
      (auto simp: starts_char_def is_char_boundary_def hd_take hd_drop_conv_nth hd_conv_nth)
  then show ?thesis by (simp add: segment_def Let_def starts_restore)
qed

lemma segment_slice: "segment t k e = restore (byte_slice (fst (strip_crlf t)) k e)
    (drop (newlines (take k (fst (strip_crlf t)))) (flags t))"
  by (simp add: segment_def byte_slice_def Let_def)

lemma observe_segment:
  "observe_tail (byte_slice (fst (strip_crlf t)) k s) (ends_newline acc) = ends_newline (acc @ segment t k s)"
  using restore_shape [of "byte_slice (fst (strip_crlf t)) k s"]
  by (auto simp: observe_tail_def segment_slice ends_newline_def)

lemma observe_eolize: "observe_tail x (ends_newline acc) = ends_newline (acc @ eolize d x)"
  using eolize_shape [of d x] by (auto simp: observe_tail_def ends_newline_def)

lemma slice_join:
  assumes "i \<le> j" and "j \<le> k"
  shows "byte_slice xs i j @ byte_slice xs j k = byte_slice xs i k"
proof -
  have "k - i = (j - i) + (k - j)" "drop j xs = drop (j - i) (drop i xs)" using assms by simp_all
  then show ?thesis by (simp only: byte_slice_def take_add)
qed

lemma extend_output_Inr:
  assumes "extend_output m bs out = Inr out'" and "m * (1024 * 1024) < usize_max"
  shows "out_bytes out' = map_option (\<lambda>b. b @ bs) (out_bytes out) \<and>
    out_len out' = out_len out + length bs \<and> out_len out' \<le> m * (1024 * 1024)"
  using assms
  by (auto simp: extend_output_def checked_result_size_def Let_def sat_add_def sat_mul_def bind_simps
      split: if_splits)

definition replace_inv :: "document \<Rightarrow> utf8 \<Rightarrow> replace_state \<Rightarrow> nat \<Rightarrow> utf8 \<Rightarrow> bool" where
  "replace_inv d t st k acc \<longleftrightarrow>
     previous_logical st = k \<and> cursor_at d t (raw_cursor st) k \<and> previous_raw st \<le> raw_at d t k \<and>
     result_ends_newline st = ends_newline acc \<and>
     (\<exists>x b. encode d acc = Some x \<and> out_bytes (output_of st) = Some b \<and>
        out_len (output_of st) = length b \<and>
        b @ byte_slice (raw_bytes d) (previous_raw st) (raw_at d t k) = take (raw_start d) (raw_bytes d) @ x)"

lemma replace_one_inv:
  assumes ok: "document_ok d t" and l: "starts_char (logical d)" and lim: "mx * (1024 * 1024) < usize_max"
    and inv: "replace_inv d t st k acc" and k: "k \<le> s" "s \<le> e"
    and b: "is_char_boundary (logical d) k" "is_char_boundary (logical d) s" "is_char_boundary (logical d) e"
    and x: "starts_char x" and some: "\<not> (s = e \<and> x = [])"
    and one: "replace_one d mx (s, e, x) st = Inr st'"
  shows "replace_inv d t st' e (acc @ segment t k s @ eolize d x)"
proof -
  have enc: "codec_splits (encode d)" and ll: "logical d = fst (strip_crlf t)"
    using ok by (simp_all add: document_ok_def)
  have cur: "cursor_at d t (raw_cursor st) k" using inv by (simp add: replace_inv_def)
  obtain c1 where c1: "advance_to d s (raw_cursor st) = Inr (raw_at d t s, c1)" "cursor_at d t c1 s"
    using advance_to_exact [OF ok cur k(1) b(2)] by blast
  obtain c2 where c2: "advance_to d e c1 = Inr (raw_at d t e, c2)" "cursor_at d t c2 e"
    using advance_to_exact [OF ok c1(2) k(2) b(3)] by blast
  from one some c1(1) c2(1) obtain o1 xe o2 where
    o1: "extend_output mx (byte_slice (raw_bytes d) (previous_raw st) (raw_at d t s)) (output_of st) = Inr o1"
    and xe: "encode_for_target d x = Inr xe"
    and o2: "extend_output mx xe o1 = Inr o2"
    and st': "st' = \<lparr>output_of = o2, previous_raw = raw_at d t e, previous_logical = e,
      matches = sat_add (matches st) 1, result_ends_newline = observe_tail x
        (observe_tail (byte_slice (logical d) (previous_logical st) s) (result_ends_newline st)),
      raw_cursor = c2\<rparr>"
    by (auto simp: replace_one_def Let_def bind_simps)
  have xe': "encode d (eolize d x) = Some xe"
    using xe by (simp add: encode_for_target_def eolize_def bind_simps)
  obtain y ob where y: "encode d acc = Some y" "out_bytes (output_of st) = Some ob"
    "out_len (output_of st) = length ob" "previous_raw st \<le> raw_at d t k"
    "ob @ byte_slice (raw_bytes d) (previous_raw st) (raw_at d t k) = take (raw_start d) (raw_bytes d) @ y"
    using inv by (auto simp: replace_inv_def)
  obtain sg where sg: "encode d (segment t k s) = Some sg"
    "raw_at d t s = raw_at d t k + length sg" "sg = byte_slice (raw_bytes d) (raw_at d t k) (raw_at d t s)"
    using segment_encodes [OF ok b(1,2) k(1)] unfolding byte_slice_def by blast
  have "encode d (segment t k s @ eolize d x) = Some (sg @ xe)"
    using codec_append [OF enc starts_splits [OF starts_eolize [OF x, of d]], of "segment t k s"] sg(1) xe'
    by simp
  moreover have "starts_char (segment t k s @ eolize d x)"
    using starts_append starts_segment [of t k s] starts_eolize [OF x] l b(1) ll by simp
  ultimately have "encode d (acc @ segment t k s @ eolize d x) = Some (y @ sg @ xe)"
    using codec_append [OF enc starts_splits, of "segment t k s @ eolize d x" acc] y(1) by simp
  moreover have base: "(ob @ byte_slice (raw_bytes d) (previous_raw st) (raw_at d t s)) @ xe =
      take (raw_start d) (raw_bytes d) @ y @ sg @ xe"
    using slice_join [of "previous_raw st" "raw_at d t k" "raw_at d t s" "raw_bytes d"] y(4,5) sg(2,3)
    by (metis append.assoc le_add1)
  moreover have "byte_slice (raw_bytes d) (raw_at d t e) (raw_at d t e) = []" by (simp add: byte_slice_def)
  moreover have "observe_tail x (observe_tail (byte_slice (logical d) (previous_logical st) s)
      (result_ends_newline st)) = ends_newline (acc @ segment t k s @ eolize d x)"
    using inv observe_segment [of t k s acc] observe_eolize [of x "acc @ segment t k s" d] ll
    by (simp add: replace_inv_def)
  moreover have "out_bytes o2 = Some ((ob @ byte_slice (raw_bytes d) (previous_raw st) (raw_at d t s)) @ xe)"
    "out_len o2 = length ((ob @ byte_slice (raw_bytes d) (previous_raw st) (raw_at d t s)) @ xe)"
    using extend_output_Inr [OF o1 lim] extend_output_Inr [OF o2 lim] y(2,3) by simp_all
  then have "out_bytes o2 = Some (take (raw_start d) (raw_bytes d) @ y @ sg @ xe)"
    "out_len o2 = length (take (raw_start d) (raw_bytes d) @ y @ sg @ xe)"
    unfolding base by simp_all
  ultimately show ?thesis using st' c2(2) by (simp add: replace_inv_def)
qed

lemma replace_loop_inv:
  assumes ok: "document_ok d t" and l: "starts_char (logical d)" and lim: "mx * (1024 * 1024) < usize_max"
  shows "replace_inv d t st k acc \<Longrightarrow> matches_ok (logical d) k ms \<Longrightarrow>
    replace_loop d mx ms st = Inr st' \<Longrightarrow>
    \<exists>k' acc'. replace_inv d t st' k' acc' \<and> is_char_boundary (logical d) k' \<and>
      acc' @ segment t k' (length (logical d)) = acc @ edited_text d t k ms"
proof (induction ms arbitrary: st k acc)
  case (Cons m ms)
  obtain s e x where m: "m = (s, e, x)" by (cases m)
  from Cons.prems(3) obtain st1 where
    one: "replace_one d mx (s, e, x) st = Inr st1" and rest: "replace_loop d mx ms st1 = Inr st'"
    by (auto simp: m bind_simps)
  from Cons.prems(2) have ms: "is_char_boundary (logical d) k" "k \<le> s" "s \<le> e"
    "is_char_boundary (logical d) s" "starts_char x" "matches_ok (logical d) e ms" by (simp_all add: m)
  show ?case
  proof (cases "s = e \<and> x = []")
    case True
    with one have "st1 = st" by (simp add: replace_one_def)
    have "matches_ok (logical d) k ms"
      using ms True by (cases ms) (auto simp: m)
    from Cons.IH [OF Cons.prems(1) this] rest \<open>st1 = st\<close> True m show ?thesis by simp
  next
    case False
    from replace_one_inv [OF ok l lim Cons.prems(1) ms(2,3,1,4) matches_ok_boundary [OF ms(6)] ms(5) False one]
    have "replace_inv d t st1 e (acc @ segment t k s @ eolize d x)" .
    from Cons.IH [OF this ms(6) rest] False m show ?thesis by auto
  qed
qed auto

lemma remove_suffix_out:
  assumes "out_bytes out = Some b" and "out_len out = length b"
  shows "out_bytes (remove_suffix suf out) =
    Some (if has_suffix b suf then take (length b - length suf) b else b)"
  using assms by (auto simp: remove_suffix_def has_suffix_def Let_def)

lemma finish_replacement_inv:
  assumes ok: "document_ok d t" and l: "starts_char (logical d)" and lim: "mx * (1024 * 1024) < usize_max"
    and inv: "replace_inv d t st k acc" and b: "is_char_boundary (logical d) k"
    and fin: "finish_replacement d mx st = Inr (out, n)"
  shows "\<exists>x newline. encode d (acc @ segment t k (length (logical d))) = Some x \<and>
    encode d (eol_str (eol d)) = Some newline \<and> n = matches st \<and>
    out_bytes out = Some (settle_newline d (ends_newline (acc @ segment t k (length (logical d)))) newline
      (take (raw_start d) (raw_bytes d) @ x)) \<and>
    length (the (out_bytes out)) \<le> mx * (1024 * 1024)"
proof -
  let ?L = "length (logical d)" and ?bom = "take (raw_start d) (raw_bytes d)"
  have enc: "codec_splits (encode d)" and ll: "logical d = fst (strip_crlf t)"
    using ok by (simp_all add: document_ok_def)
  have bL: "is_char_boundary (logical d) ?L" "k \<le> ?L" using b by (auto simp: is_char_boundary_def)
  from fin obtain o1 newline where
    o1: "extend_output mx (drop (previous_raw st) (raw_bytes d)) (output_of st) = Inr o1"
    and nlb: "encode d (eol_str (eol d)) = Some newline"
    by (auto simp: finish_replacement_def encode_for_target_def Let_def bind_simps)
  obtain y ob where y: "encode d acc = Some y" "out_bytes (output_of st) = Some ob"
    "out_len (output_of st) = length ob" "previous_raw st \<le> raw_at d t k"
    "ob @ byte_slice (raw_bytes d) (previous_raw st) (raw_at d t k) = ?bom @ y"
    using inv by (auto simp: replace_inv_def)
  obtain sg where sg: "encode d (segment t k ?L) = Some sg"
    "raw_at d t ?L = raw_at d t k + length sg" "sg = byte_slice (raw_bytes d) (raw_at d t k) (raw_at d t ?L)"
    using segment_encodes [OF ok b bL(1,2)] unfolding byte_slice_def by blast
  have "prefix_text t ?L = t" using prefix_rest [of t ?L] by (simp add: ll)
  then have "raw_at d t ?L = length (raw_bytes d)" using ok by (simp add: raw_at_def document_ok_def)
  then have tail: "drop (previous_raw st) (raw_bytes d) = byte_slice (raw_bytes d) (previous_raw st) (raw_at d t ?L)"
    by (simp add: byte_slice_def)
  have x: "encode d (acc @ segment t k ?L) = Some (y @ sg)"
    using codec_append [OF enc starts_splits [OF starts_segment [of t k ?L]], of acc] l b ll y(1) sg(1) by simp
  let ?ends = "ends_newline (acc @ segment t k ?L)"
  have e: "observe_tail (drop (previous_logical st) (logical d)) (result_ends_newline st) = ?ends"
    using inv observe_segment [of t k ?L acc] ll by (simp add: replace_inv_def byte_slice_def)
  have base: "ob @ drop (previous_raw st) (raw_bytes d) = ?bom @ y @ sg"
    unfolding tail
    using slice_join [of "previous_raw st" "raw_at d t k" "raw_at d t ?L" "raw_bytes d"] y(4,5) sg(2,3)
    by (metis append.assoc le_add1)
  have "out_bytes o1 = Some (ob @ drop (previous_raw st) (raw_bytes d))"
    "out_len o1 = length (ob @ drop (previous_raw st) (raw_bytes d))"
    and lim1: "out_len o1 \<le> mx * (1024 * 1024)"
    using extend_output_Inr [OF o1 lim] y(2,3) by simp_all
  then have o1': "out_bytes o1 = Some (?bom @ y @ sg)" "out_len o1 = length (?bom @ y @ sg)"
    by (simp_all only: base)
  have res: "map_r (\<lambda>out. (out, matches st))
      (if trailing_newline d \<and> \<not> ?ends then extend_output mx newline o1
       else if \<not> trailing_newline d \<and> ?ends then Inr (remove_suffix newline o1)
       else Inr o1) = Inr (out, n)"
    using fin o1 nlb e
    by (simp add: finish_replacement_def encode_for_target_def Let_def bind_simps)
  obtain base where base': "base = ?bom @ y @ sg" by simp
  have o1b: "out_bytes o1 = Some base" "out_len o1 = length base" using o1' base' by simp_all
  have "n = matches st \<and> out_bytes out = Some (settle_newline d ?ends newline base) \<and>
      length (the (out_bytes out)) \<le> mx * (1024 * 1024)"
  proof (cases "trailing_newline d \<and> \<not> ?ends")
    case True
    with res have "extend_output mx newline o1 = Inr out" "n = matches st" by (auto simp: bind_simps)
    with extend_output_Inr [OF this(1) lim] o1b lim1 True show ?thesis by (auto simp: settle_newline_def)
  next
    case False
    show ?thesis
    proof (cases "\<not> trailing_newline d \<and> ?ends")
      case True
      with res False have "out = remove_suffix newline o1" "n = matches st" by (auto simp: bind_simps)
      with remove_suffix_out [OF o1b, of newline] o1b lim1 True show ?thesis
        by (simp add: settle_newline_def le_diff_conv trans_le_add1)
    next
      case neither: False
      with res False have "out = o1" "n = matches st" by (auto simp: bind_simps)
      moreover have "settle_newline d ?ends newline base = base"
        using False neither by (auto simp: settle_newline_def)
      ultimately show ?thesis using o1b lim1 by simp
    qed
  qed
  with x nlb show ?thesis unfolding base' by blast
qed

lemma process_replacement_spec:
  assumes ok: "document_ok d t" and l: "starts_char (logical d)" and lim: "mx * (1024 * 1024) < usize_max"
    and ms: "matches_ok (logical d) 0 spans" and built: "build_replacement d spans mx = Inr (bytes, n)"
  shows "\<exists>x newline. encode d (edited_text d t 0 spans) = Some x \<and>
    encode d (eol_str (eol d)) = Some newline \<and>
    bytes = settle_newline d (ends_newline (edited_text d t 0 spans)) newline
      (take (raw_start d) (raw_bytes d) @ x) \<and> length bytes \<le> mx * (1024 * 1024)"
proof -
  obtain c out st where c: "raw_offset_cursor d = Inr c"
    and loop: "replace_loop d mx spans
      \<lparr>output_of = new_output True, previous_raw = 0, previous_logical = 0, matches = 0,
        result_ends_newline = False, raw_cursor = c\<rparr> = Inr st"
    and fin: "finish_replacement d mx st = Inr (out, n)" and bytes: "bytes = the (out_bytes out)"
    using built by (auto simp: build_replacement_def process_replacement_def bind_simps)
  have r0: "raw_at d t 0 = raw_start d"
    using ok by (simp add: raw_at_def prefix_text_def document_ok_def codec_splits_def)
  have "replace_inv d t \<lparr>output_of = new_output True, previous_raw = 0, previous_logical = 0, matches = 0,
        result_ends_newline = False, raw_cursor = c\<rparr> 0 []"
    using ok cursor_start [OF ok c] r0
    by (simp add: replace_inv_def new_output_def ends_newline_def byte_slice_def document_ok_def codec_splits_def)
  from replace_loop_inv [OF ok l lim this ms loop] obtain k acc where
    inv: "replace_inv d t st k acc" "is_char_boundary (logical d) k"
      "acc @ segment t k (length (logical d)) = edited_text d t 0 spans" by auto
  from finish_replacement_inv [OF ok l lim inv(1,2) fin] bytes show ?thesis unfolding inv(3) by auto
qed

lemma validate_build:
  "validate_replacement d spans mx = map_r (\<lambda>_. ()) (build_replacement d spans mx)"
proof -
  have "same_path \<lparr>output_of = new_output False, previous_raw = 0, previous_logical = 0, matches = 0,
          result_ends_newline = False, raw_cursor = c\<rparr>
        \<lparr>output_of = new_output True, previous_raw = 0, previous_logical = 0, matches = 0,
          result_ends_newline = False, raw_cursor = c\<rparr>" for c
    by (simp add: same_path_def new_output_def)
  then have "lift_same (\<lambda>x y. snd x = snd y) (process_replacement d spans mx False)
      (process_replacement d spans mx True)"
    unfolding process_replacement_def
    by (auto intro!: lift_same_bind [OF lift_same_refl] lift_same_bind [OF replace_loop_same] finish_same)
  then show ?thesis
    by (cases "process_replacement d spans mx False"; cases "process_replacement d spans mx True")
      (auto simp: validate_replacement_def build_replacement_def lift_same_def bind_simps)
qed

definition effective :: "span \<Rightarrow> bool" where
  "effective m = (case m of (s, e, x) \<Rightarrow> \<not> (s = e \<and> x = []))"

lemma replace_one_matches:
  assumes "replace_one d mx m st = Inr st'" and "matches st \<le> usize_max"
  shows "matches st' = min usize_max (matches st + length (filter effective [m]))"
  using assms
  by (cases m) (auto simp: replace_one_def effective_def sat_add_def Let_def bind_simps split: if_splits)

lemma replace_loop_matches:
  "replace_loop d mx ms st = Inr st' \<Longrightarrow> matches st \<le> usize_max \<Longrightarrow>
     matches st' = min usize_max (matches st + length (filter effective ms))"
proof (induction ms arbitrary: st)
  case (Cons m ms)
  from Cons.prems(1) obtain st1 where
    one: "replace_one d mx m st = Inr st1" and rest: "replace_loop d mx ms st1 = Inr st'"
    by (auto simp: bind_simps)
  from replace_one_matches [OF one Cons.prems(2)] Cons.IH [OF rest] show ?case by auto
qed simp

lemma build_matches:
  assumes "build_replacement d spans mx = Inr (bytes, n)"
  shows "n = min usize_max (length (filter effective spans))"
proof -
  obtain c out st where loop: "replace_loop d mx spans
      \<lparr>output_of = new_output True, previous_raw = 0, previous_logical = 0, matches = 0,
        result_ends_newline = False, raw_cursor = c\<rparr> = Inr st"
    and fin: "finish_replacement d mx st = Inr (out, n)"
    using assms by (auto simp: build_replacement_def process_replacement_def bind_simps)
  from fin have "n = matches st" by (auto simp: finish_replacement_def Let_def bind_simps)
  with replace_loop_matches [OF loop] show ?thesis by simp
qed

lemma starts_strip: "starts_char t \<Longrightarrow> starts_char (fst (strip_crlf t))"
  by (cases t) (auto simp: starts_char_def case_prod_beta Let_def)

lemma edited_untouched:
  "list_all (\<lambda>m. \<not> effective m) ms \<Longrightarrow> edited_text d t k ms = segment t k (length (logical d))"
  by (induction ms) (auto simp: effective_def split: prod.splits)

lemma segment_whole: "length (fst (strip_crlf t)) \<le> n \<Longrightarrow> segment t 0 n = t"
  using restore_strip [of t] by (simp add: segment_def Let_def flags_def)

section \<open>Properties\<close>

text \<open>A file of five lines with mixed endings, opened, for the concrete runs below.\<close>

definition mixed_bytes :: "byte list" where
  "mixed_bytes = [120, 10, 121, 10, 122, 13, 10, 102, 111, 111]"

definition mixed_text :: utf8 where
  "mixed_text = [CHR ''x'', nl, CHR ''y'', nl, CHR ''z'', cr, nl] @ ''foo''"

definition mixed_document :: document where
  "mixed_document =
     \<lparr>raw_bytes = mixed_bytes, encode = encode_fragment Utf8, raw_start = 0,
      logical = [CHR ''x'', nl, CHR ''y'', nl, CHR ''z'', nl] @ ''foo'',
      endings = \<lparr>crlf_bits = [4], endings_len = 3\<rparr>, eol = Lf, trailing_newline = False\<rparr>"

lemma utf8_fragment: "encode_fragment Utf8 t = Some (map (\<lambda>c. of_nat (of_char c)) t)"
  by (simp add: encode_fragment_def)

lemmas open_eval =
  open_document_def decode_editable_snapshot_def check_snapshot.simps decode_boundary_def
  back_to_boundary.simps checked_add_def is_char_boundary_def is_continuation_def sat_add_def
  usize_max_def decode_chunk_bytes_def Let_def logical_view_def no_endings_def push_ending_def
  ends_newline_def utf8_fragment

lemmas cursor_eval =
  raw_offset_cursor_def advance_to_def advance_loop.simps next_char_boundary_def
  back_to_boundary.simps is_char_boundary_def is_continuation_def offset_chunk_bytes_def
  sat_add_def usize_max_def is_crlf_def utf8_fragment Let_def

lemmas build_eval =
  build_replacement_def process_replacement_def replace_one_def finish_replacement_def
  new_output_def sat_mul_def extend_output_def checked_result_size_def byte_slice_def
  encode_for_target_def eol_str_def observe_tail_def ends_newline_def remove_suffix_def
  has_suffix_def cursor_eval

lemma mixed_opens:
  "open_document (encode_fragment Utf8) (\<lambda>_. Some mixed_text) 0 mixed_bytes = Inr mixed_document"
  by (simp add: open_eval mixed_bytes_def mixed_text_def mixed_document_def)

lemma mixed_builds:
  "build_replacement mixed_document [(2, 3, ''w'')] 1 =
     Inr ([120, 10, 119, 10, 122, 13, 10, 102, 111, 111], 1)"
  by (simp add: build_eval mixed_bytes_def mixed_document_def)

text \<open>
  C20. The cursor is exact: in any opened file, advancing from the start to a character boundary \<open>k\<close>
  of the LF view and on to a boundary \<open>e\<close> never fails, and the raw bytes between the two offsets it
  returns are the encoding of exactly that part of the original text, line endings included.
\<close>

theorem raw_offset_exact:
  assumes enc: "codec_splits (encode_fragment kind)"
    and sizes: "length bytes \<le> usize_max" "bom \<le> length bytes"
    and t: "decode bytes = Some t" "length t \<le> usize_max"
    and opened: "open_document (encode_fragment kind) decode bom bytes = Inr d"
    and c: "raw_offset_cursor d = Inr c"
    and k: "is_char_boundary (logical d) k" "is_char_boundary (logical d) e" "k \<le> e"
  shows "\<exists>i j c1 c2. advance_to d k c = Inr (i, c1) \<and> advance_to d e c1 = Inr (j, c2) \<and>
    i \<le> j \<and> j \<le> length bytes \<and>
    encode_fragment kind (segment t k e) = Some (byte_slice bytes i j)"
proof -
  have "\<And>u. decode bytes = Some u \<Longrightarrow> length u \<le> usize_max" using t by simp
  from open_document_ok [OF enc sizes this opened] t(1)
  have ok: "document_ok d t" and d: "raw_bytes d = bytes" "encode d = encode_fragment kind" by auto
  obtain c1 where c1: "advance_to d k c = Inr (raw_at d t k, c1)" "cursor_at d t c1 k"
    using advance_to_exact [OF ok cursor_start [OF ok c] _ k(1)] by auto
  obtain c2 where c2: "advance_to d e c1 = Inr (raw_at d t e, c2)"
    using advance_to_exact [OF ok c1(2) k(3) k(2)] by auto
  have "encode d (segment t k e) = Some (byte_slice (raw_bytes d) (raw_at d t k) (raw_at d t e))"
    and "raw_at d t k \<le> raw_at d t e"
    using segment_encodes [OF ok k] unfolding byte_slice_def by (blast, metis le_add1)
  moreover have "raw_at d t e \<le> length (raw_bytes d)" using prefix_encodes [OF ok k(2)] by blast
  ultimately show ?thesis
    unfolding d using c1(1) c2 by (intro exI conjI)
qed

lemma mixed_cursor:
  "raw_offset_cursor mixed_document =
     Inr \<lparr>logical_offset = 0, raw_offset = 0, newline_index = 0, cr_bytes = 1\<rparr>"
  by (simp add: raw_offset_cursor_def mixed_document_def utf8_fragment)

lemma raw_offset_exact_witness:
  "\<exists>i j c1 c2. advance_to mixed_document 4
      \<lparr>logical_offset = 0, raw_offset = 0, newline_index = 0, cr_bytes = 1\<rparr> = Inr (i, c1) \<and>
    advance_to mixed_document 6 c1 = Inr (j, c2) \<and> i \<le> j \<and> j \<le> length mixed_bytes \<and>
    encode_fragment Utf8 (segment mixed_text 4 6) = Some (byte_slice mixed_bytes i j)"
proof (rule raw_offset_exact [OF unicode_splits(3) _ _ _ _ mixed_opens mixed_cursor])
  show "length mixed_bytes \<le> usize_max" "length mixed_text \<le> usize_max"
    by (simp_all add: mixed_bytes_def mixed_text_def usize_large)
  show "is_char_boundary (logical mixed_document) 4" "is_char_boundary (logical mixed_document) 6"
    by (simp_all add: mixed_document_def is_char_boundary_def is_continuation_def)
qed simp_all



text \<open>
  C19. Validation is exact: the pass that only tracks lengths fails precisely when materialising the
  replacement fails, with the same error, for every document, match list and limit.
\<close>

theorem validate_agrees_with_build:
  "validate_replacement d spans mx =
     (case build_replacement d spans mx of Inl e \<Rightarrow> Inl e | Inr _ \<Rightarrow> Inr ())"
  by (cases "build_replacement d spans mx") (simp_all add: validate_build)


lemma mixed_noop:
  "build_replacement mixed_document [(3, 3, [])] 1 = Inr (mixed_bytes, 0)"
  by (simp add: build_eval mixed_bytes_def mixed_document_def)


text \<open>
  Where the final-newline rule does not do what it means to. Deleting the last line of a file
  without a final newline leaves an unchanged newline at the end, which the rule then treats as its
  own: with the other line-ending style it is cut in half, and if a blank line was there the result
  still ends in a newline.
\<close>

lemma stray_carriage_return:
  "build_replacement mixed_document [(6, 9, [])] 1 = Inr ([120, 10, 121, 10, 122, 13], 1)"
  by (simp add: build_eval mixed_bytes_def mixed_document_def)

definition blank_document :: document where
  "blank_document =
     \<lparr>raw_bytes = [97, 10, 10, 102], encode = encode_fragment Utf8, raw_start = 0,
      logical = [CHR ''a'', nl, nl, CHR ''f''],
      endings = \<lparr>crlf_bits = [0], endings_len = 2\<rparr>, eol = Lf, trailing_newline = False\<rparr>"

lemma final_newline_appears:
  "build_replacement blank_document [(3, 4, [])] 1 = Inr ([97, 10], 1)"
  by (simp add: build_eval blank_document_def)

end
