(* ===== verification/Normalizer.thy ===== *)
theory Normalizer
  imports Characters
begin

text \<open>
  Streaming normalisation of terminal output (\<open>src/src/shell/normalize.rs\<close>): BOM detection, removal
  of ANSI CSI and OSC sequences, and splitting at CR, LF and CRLF, over byte chunks of any size.

  Operations that push into an output vector return the events they push. Chunk boundaries can fall
  inside a BOM, a code unit, an escape sequence or a CRLF pair; the theorem at the end says they
  never matter.
\<close>

section \<open>Encodings\<close>

datatype stream_encoding = Utf16Le | Utf16Be | Utf32Le | Utf32Be

definition max_line_prefix_bytes :: nat where
  "max_line_prefix_bytes = 64 * 1024"

definition unit_bytes :: "stream_encoding \<Rightarrow> nat" where
  "unit_bytes e =
     (case e of Utf16Le \<Rightarrow> 2 | Utf16Be \<Rightarrow> 2 | Utf32Le \<Rightarrow> 4 | Utf32Be \<Rightarrow> 4)"

definition ascii_unit :: "stream_encoding \<Rightarrow> byte list \<Rightarrow> byte option" where
  "ascii_unit e bs =
     (let v = (case e of Utf16Le \<Rightarrow> le_value bs | Utf32Le \<Rightarrow> le_value bs
                       | Utf16Be \<Rightarrow> le_value (rev bs) | Utf32Be \<Rightarrow> le_value (rev bs)) in
      if v < 128 then Some (of_nat v) else None)"

section \<open>Lines and events\<close>

record normalized_line =
  n_bytes :: "byte list"
  n_total :: nat
  n_terminated :: bool
  n_encoding :: "stream_encoding option"
  n_truncated :: bool

datatype escape_state = Text | Escape | Csi | Osc | OscEscape

datatype stream_mode = ByteMode | Wide stream_encoding

datatype normalized_event =
    Start "stream_encoding option"
  | Bytes "byte list"
  | LineEnd bool

record line_accumulator =
  acc_prefix :: "byte list"
  acc_total :: nat

definition empty_line :: line_accumulator where
  "empty_line = \<lparr>acc_prefix = [], acc_total = 0\<rparr>"

definition acc_push :: "byte list \<Rightarrow> line_accumulator \<Rightarrow> line_accumulator" where
  "acc_push bytes a =
     (let remaining = max_line_prefix_bytes - length (acc_prefix a) in
      \<lparr>acc_prefix = acc_prefix a @ take (min (length bytes) remaining) bytes,
       acc_total = sat_add (acc_total a) (length bytes)\<rparr>)"

definition acc_finish ::
    "bool \<Rightarrow> stream_encoding option \<Rightarrow> line_accumulator \<Rightarrow> normalized_line" where
  "acc_finish terminated enc a =
     \<lparr>n_bytes = acc_prefix a, n_total = acc_total a, n_terminated = terminated, n_encoding = enc,
      n_truncated = (length (acc_prefix a) < acc_total a)\<rparr>"

section \<open>The core\<close>

record normalizer_core =
  mode :: "stream_mode option"
  bom_probe :: "byte list"
  wide_pending :: "byte list"
  escape :: escape_state
  pending_cr :: bool
  emitted :: "byte list"
  line_has_content :: bool

definition new_core :: normalizer_core where
  "new_core =
     \<lparr>mode = None, bom_probe = [], wide_pending = [], escape = Text, pending_cr = False,
      emitted = [], line_has_content = False\<rparr>"

type_synonym core_step = "normalizer_core \<times> normalized_event list"

text \<open>Sequencing of operations: the events of the second follow those of the first.\<close>

definition seq :: "core_step \<Rightarrow> (normalizer_core \<Rightarrow> core_step) \<Rightarrow> core_step" where
  "seq r f = (case r of (c, es) \<Rightarrow> case f c of (c', es') \<Rightarrow> (c', es @ es'))"

definition flush_bytes :: "normalizer_core \<Rightarrow> core_step" where
  "flush_bytes c =
     (if emitted c \<noteq> [] then (c\<lparr>emitted := []\<rparr>, [Bytes (emitted c)]) else (c, []))"

definition emit_line :: "bool \<Rightarrow> normalizer_core \<Rightarrow> core_step" where
  "emit_line terminated c =
     seq (flush_bytes c) (\<lambda>c. (c\<lparr>line_has_content := False\<rparr>, [LineEnd terminated]))"

definition push_text_unit :: "byte list \<Rightarrow> byte option \<Rightarrow> normalizer_core \<Rightarrow> core_step" where
  "push_text_unit bs ascii c =
     seq (if pending_cr c
          then seq (emit_line True c) (\<lambda>c. (c\<lparr>pending_cr := False\<rparr>, []))
          else (c, []))
       (\<lambda>c'. if pending_cr c \<and> ascii = Some 10 then (c', [])
             else if ascii = Some 13 then (c'\<lparr>pending_cr := True\<rparr>, [])
             else if ascii = Some 10 then emit_line True c'
             else (c'\<lparr>emitted := emitted c' @ bs, line_has_content := True\<rparr>, []))"

definition process_unit :: "byte list \<Rightarrow> byte option \<Rightarrow> normalizer_core \<Rightarrow> core_step" where
  "process_unit bs ascii c =
     (case escape c of
        Text \<Rightarrow>
          if ascii = Some 0x1b then (c\<lparr>escape := Escape\<rparr>, []) else push_text_unit bs ascii c
      | Escape \<Rightarrow>
          (c\<lparr>escape := (if ascii = Some 0x5b then Csi else if ascii = Some 0x5d then Osc else Text)\<rparr>, [])
      | Csi \<Rightarrow>
          (if (case ascii of Some b \<Rightarrow> 0x40 \<le> b \<and> b \<le> 0x7e | None \<Rightarrow> False)
           then (c\<lparr>escape := Text\<rparr>, []) else (c, []))
      | Osc \<Rightarrow>
          (if ascii = Some 7 then (c\<lparr>escape := Text\<rparr>, [])
           else if ascii = Some 0x1b then (c\<lparr>escape := OscEscape\<rparr>, []) else (c, []))
      | OscEscape \<Rightarrow>
          (c\<lparr>escape := (if ascii = Some 0x5c then Text
                       else if ascii = Some 0x1b then OscEscape else Osc)\<rparr>, []))"

definition process_byte :: "stream_mode \<Rightarrow> byte \<Rightarrow> normalizer_core \<Rightarrow> core_step" where
  "process_byte m b c =
     (case m of
        ByteMode \<Rightarrow> process_unit [b] (Some b) c
      | Wide e \<Rightarrow>
          let c = c\<lparr>wide_pending := wide_pending c @ [b]\<rparr> in
          if length (wide_pending c) = unit_bytes e
          then process_unit (wide_pending c) (ascii_unit e (wide_pending c)) (c\<lparr>wide_pending := []\<rparr>)
          else (c, []))"

fun process_bytes :: "stream_mode \<Rightarrow> byte list \<Rightarrow> normalizer_core \<Rightarrow> core_step" where
  "process_bytes m [] c = (c, [])"
| "process_bytes m (b # bs) c = seq (process_byte m b c) (process_bytes m bs)"

definition process :: "byte list \<Rightarrow> normalizer_core \<Rightarrow> core_step" where
  "process bytes c =
     (case mode c of
        None \<Rightarrow> (c, [])
      | Some m \<Rightarrow> seq (process_bytes m bytes c) flush_bytes)"

section \<open>BOM detection\<close>

definition stream_bom :: "stream_encoding \<Rightarrow> byte list" where
  "stream_bom e =
     (case e of Utf16Le \<Rightarrow> [0xff, 0xfe] | Utf16Be \<Rightarrow> [0xfe, 0xff]
              | Utf32Le \<Rightarrow> [0xff, 0xfe, 0, 0] | Utf32Be \<Rightarrow> [0, 0, 0xfe, 0xff])"

definition utf8_bom :: "byte list" where
  "utf8_bom = [0xef, 0xbb, 0xbf]"

definition starts_with :: "'a list \<Rightarrow> 'a list \<Rightarrow> bool" where
  "starts_with xs p \<longleftrightarrow> take (length p) xs = p"

definition detect_stream_mode :: "byte list \<Rightarrow> bool \<Rightarrow> (stream_mode \<times> nat) option" where
  "detect_stream_mode bytes final =
     (if starts_with bytes (stream_bom Utf32Be) then Some (Wide Utf32Be, 4)
      else if starts_with bytes (stream_bom Utf32Le) then Some (Wide Utf32Le, 4)
      else if starts_with bytes utf8_bom then Some (ByteMode, 3)
      else if starts_with bytes (stream_bom Utf16Be) then Some (Wide Utf16Be, 2)
      else if starts_with bytes (stream_bom Utf16Le) then
        (if 3 \<le> length bytes \<and> bytes ! 2 \<noteq> 0 then Some (Wide Utf16Le, 2)
         else if 4 \<le> length bytes \<or> final then Some (Wide Utf16Le, 2) else None)
      else if (\<exists>bom \<in> set [stream_bom Utf32Be, stream_bom Utf32Le, utf8_bom, stream_bom Utf16Le,
                  stream_bom Utf16Be]. starts_with bom bytes) \<and> \<not> final
      then None else Some (ByteMode, 0))"

definition mode_encoding :: "stream_mode \<Rightarrow> stream_encoding option" where
  "mode_encoding m = (case m of ByteMode \<Rightarrow> None | Wide e \<Rightarrow> Some e)"

definition select_mode :: "bool \<Rightarrow> normalizer_core \<Rightarrow> core_step" where
  "select_mode final c =
     (case detect_stream_mode (bom_probe c) final of
        None \<Rightarrow> (c, [])
      | Some (m, bom_len) \<Rightarrow>
          seq (c\<lparr>mode := Some m, bom_probe := []\<rparr>, [Start (mode_encoding m)])
            (process (drop (min bom_len (length (bom_probe c))) (bom_probe c))))"

definition push :: "byte list \<Rightarrow> normalizer_core \<Rightarrow> core_step" where
  "push bytes c =
     (if mode c = None then select_mode False (c\<lparr>bom_probe := bom_probe c @ bytes\<rparr>)
      else process bytes c)"

definition finish_open :: "normalizer_core \<Rightarrow> core_step" where
  "finish_open c =
     seq (if wide_pending c \<noteq> []
          then push_text_unit (wide_pending c) None (c\<lparr>wide_pending := []\<rparr>) else (c, [])) (\<lambda>c.
     seq (if pending_cr c then seq (emit_line True c) (\<lambda>c. (c\<lparr>pending_cr := False\<rparr>, []))
          else if line_has_content c then emit_line False c else (c, []))
       flush_bytes)"

definition finish :: "normalizer_core \<Rightarrow> core_step" where
  "finish c = seq (if mode c = None then select_mode True c else (c, [])) finish_open"

section \<open>The two normalizers\<close>

record stream_normalizer =
  core :: normalizer_core
  line :: line_accumulator
  encoding :: "stream_encoding option"

definition new_normalizer :: stream_normalizer where
  "new_normalizer = \<lparr>core = new_core, line = empty_line, encoding = None\<rparr>"

fun consume ::
    "normalized_event list \<Rightarrow> stream_normalizer \<Rightarrow> stream_normalizer \<times> normalized_line list" where
  "consume [] s = (s, [])"
| "consume (Start e # es) s = consume es (s\<lparr>encoding := e\<rparr>)"
| "consume (Bytes b # es) s = consume es (s\<lparr>line := acc_push b (line s)\<rparr>)"
| "consume (LineEnd t # es) s =
     (let (s', ls) = consume es (s\<lparr>line := empty_line\<rparr>) in
      (s', acc_finish t (encoding s) (line s) # ls))"

definition normalizer_push ::
    "byte list \<Rightarrow> stream_normalizer \<Rightarrow> stream_normalizer \<times> normalized_line list" where
  "normalizer_push bytes s = (let (c, es) = push bytes (core s) in consume es (s\<lparr>core := c\<rparr>))"

definition normalizer_finish :: "stream_normalizer \<Rightarrow> normalized_line list" where
  "normalizer_finish s = (let (c, es) = finish (core s) in snd (consume es (s\<lparr>core := c\<rparr>)))"

text \<open>A whole stream: the chunks of the pipe and then its end.\<close>

fun normalize_from :: "byte list list \<Rightarrow> stream_normalizer \<Rightarrow> normalized_line list" where
  "normalize_from [] s = normalizer_finish s"
| "normalize_from (b # bs) s =
     (let (s', ls) = normalizer_push b s in ls @ normalize_from bs s')"

definition normalize :: "byte list list \<Rightarrow> normalized_line list" where
  "normalize chunks = normalize_from chunks new_normalizer"

text \<open>The log normalizer hands on the events of the same core.\<close>

fun log_from :: "byte list list \<Rightarrow> normalizer_core \<Rightarrow> normalized_event list" where
  "log_from [] c = snd (finish c)"
| "log_from (b # bs) c = (let (c', es) = push b c in es @ log_from bs c')"

definition log_events :: "byte list list \<Rightarrow> normalized_event list" where
  "log_events chunks = log_from chunks new_core"

section \<open>What the stream means\<close>

text \<open>
  The reference: cut the bytes after the BOM into code units, drop the escape sequences, and split
  the rest into lines. A line is its full content and whether a line ending closed it.
\<close>

type_synonym text_unit = "byte list \<times> byte option"

function wide_units :: "stream_encoding \<Rightarrow> byte list \<Rightarrow> text_unit list \<times> byte list" where
  "wide_units e bs =
     (if length bs < unit_bytes e then ([], bs)
      else let u = take (unit_bytes e) bs; (us, rest) = wide_units e (drop (unit_bytes e) bs) in
        ((u, ascii_unit e u) # us, rest))"
  by pat_completeness auto
termination
  by (relation "measure (\<lambda>(e, bs). length bs)") (auto simp: unit_bytes_def split: stream_encoding.splits)

declare wide_units.simps [simp del]

definition code_units :: "stream_mode \<Rightarrow> byte list \<Rightarrow> text_unit list \<times> byte list" where
  "code_units m bs =
     (case m of ByteMode \<Rightarrow> (map (\<lambda>b. ([b], Some b)) bs, []) | Wide e \<Rightarrow> wide_units e bs)"

definition next_escape :: "escape_state \<Rightarrow> byte option \<Rightarrow> escape_state" where
  "next_escape s a =
     (case s of
        Text \<Rightarrow> if a = Some 0x1b then Escape else Text
      | Escape \<Rightarrow> if a = Some 0x5b then Csi else if a = Some 0x5d then Osc else Text
      | Csi \<Rightarrow> (case a of Some b \<Rightarrow> if 0x40 \<le> b \<and> b \<le> 0x7e then Text else Csi | None \<Rightarrow> Csi)
      | Osc \<Rightarrow> if a = Some 7 then Text else if a = Some 0x1b then OscEscape else Osc
      | OscEscape \<Rightarrow> if a = Some 0x5c then Text else if a = Some 0x1b then OscEscape else Osc)"

fun visible :: "escape_state \<Rightarrow> text_unit list \<Rightarrow> text_unit list" where
  "visible s [] = []"
| "visible s ((bs, a) # us) =
     (if s = Text \<and> a \<noteq> Some 0x1b then [(bs, a)] else []) @ visible (next_escape s a) us"

definition skip_lf :: "text_unit list \<Rightarrow> text_unit list" where
  "skip_lf us = (case us of (bs, a) # rest \<Rightarrow> if a = Some 10 then rest else us | [] \<Rightarrow> [])"

lemma length_skip_lf: "length (skip_lf us) \<le> length us"
  by (auto simp: skip_lf_def split: list.split)

function split_lines :: "byte list \<Rightarrow> text_unit list \<Rightarrow> (byte list \<times> bool) list" where
  "split_lines acc [] = (if acc = [] then [] else [(acc, False)])"
| "split_lines acc ((bs, a) # us) =
     (if a = Some 13 then (acc, True) # split_lines [] (skip_lf us)
      else if a = Some 10 then (acc, True) # split_lines [] us
      else split_lines (acc @ bs) us)"
  by pat_completeness auto
termination
  by (relation "measure (\<lambda>(acc, us). length us)") (auto intro: le_imp_less_Suc length_skip_lf)

definition stream_lines :: "stream_mode \<Rightarrow> byte list \<Rightarrow> (byte list \<times> bool) list" where
  "stream_lines m bs =
     (case code_units m bs of (us, rest) \<Rightarrow>
        split_lines [] (visible Text us @ (if rest = [] then [] else [(rest, None)])))"

definition bounded_line :: "stream_encoding option \<Rightarrow> byte list \<times> bool \<Rightarrow> normalized_line" where
  "bounded_line enc l = (case l of (content, terminated) \<Rightarrow>
     \<lparr>n_bytes = take max_line_prefix_bytes content, n_total = min (length content) usize_max,
      n_terminated = terminated, n_encoding = enc,
      n_truncated = (length (take max_line_prefix_bytes content) < min (length content) usize_max)\<rparr>)"

definition reference_mode :: "byte list \<Rightarrow> stream_mode \<times> nat" where
  "reference_mode bs = the (detect_stream_mode bs True)"

definition reference_lines :: "byte list \<Rightarrow> (byte list \<times> bool) list" where
  "reference_lines bs = (case reference_mode bs of (m, k) \<Rightarrow> stream_lines m (drop k bs))"

section \<open>Events and content\<close>

fun event_lines :: "byte list \<Rightarrow> normalized_event list \<Rightarrow> byte list \<times> (byte list \<times> bool) list" where
  "event_lines acc [] = (acc, [])"
| "event_lines acc (Start e # es) = event_lines acc es"
| "event_lines acc (Bytes b # es) = event_lines (acc @ b) es"
| "event_lines acc (LineEnd t # es) =
     (let (acc', ls) = event_lines [] es in (acc', (acc, t) # ls))"

lemma event_lines_append:
  "event_lines acc (es @ fs) =
     (let (acc', ls) = event_lines acc es; (acc'', ms) = event_lines acc' fs in (acc'', ls @ ms))"
  by (induction acc es rule: event_lines.induct) (auto simp: Let_def split: prod.split)

definition acc_of :: "byte list \<Rightarrow> line_accumulator" where
  "acc_of content =
     \<lparr>acc_prefix = take max_line_prefix_bytes content, acc_total = min (length content) usize_max\<rparr>"

lemma acc_push_of: "acc_push b (acc_of content) = acc_of (content @ b)"
proof -
  let ?m = max_line_prefix_bytes
  have "take (min (length b) (?m - min (length content) ?m)) b = take (?m - length content) b"
    by (cases "length content \<le> ?m") (simp_all add: min_def)
  then show ?thesis by (auto simp: acc_push_def acc_of_def sat_add_def Let_def)
qed

lemma acc_of_Nil: "acc_of [] = empty_line"
  by (simp add: acc_of_def empty_line_def)

lemma acc_finish_of: "acc_finish t enc (acc_of content) = bounded_line enc (content, t)"
  by (simp add: acc_finish_def acc_of_def bounded_line_def)

definition no_start :: "normalized_event list \<Rightarrow> bool" where
  "no_start es \<longleftrightarrow> (\<forall>e. Start e \<notin> set es)"

lemma consume_lines:
  "no_start es \<Longrightarrow> line s = acc_of acc \<Longrightarrow> event_lines acc es = (acc', ls) \<Longrightarrow>
     consume es s = (s\<lparr>line := acc_of acc'\<rparr>, map (bounded_line (encoding s)) ls)"
proof (induction es s arbitrary: acc acc' ls rule: consume.induct)
  case (4 t es s)
  obtain acc1 ls1 where e: "event_lines [] es = (acc1, ls1)" by (cases "event_lines [] es")
  from 4(1) [of "[]", OF _ _ e] 4(2-4) e show ?case
    by (auto simp: no_start_def acc_of_Nil acc_finish_of)
qed (auto simp: no_start_def acc_push_of)

section \<open>One step\<close>

text \<open>The lines still to come, given the current content and the text units to come.\<close>

definition to_come :: "bool \<Rightarrow> byte list \<Rightarrow> text_unit list \<Rightarrow> (byte list \<times> bool) list" where
  "to_come cr_pending acc us =
     (if cr_pending then (acc, True) # split_lines [] (skip_lf us) else split_lines acc us)"

definition remaining ::
    "stream_mode \<Rightarrow> normalizer_core \<Rightarrow> byte list \<Rightarrow> byte list \<Rightarrow> (byte list \<times> bool) list" where
  "remaining m c acc bs =
     (case code_units m (wide_pending c @ bs) of (us, rest) \<Rightarrow>
        to_come (pending_cr c) acc (visible (escape c) us @ (if rest = [] then [] else [(rest, None)])))"

definition core_inv :: "stream_mode \<Rightarrow> normalizer_core \<Rightarrow> byte list \<Rightarrow> bool" where
  "core_inv m c acc \<longleftrightarrow>
     mode c = Some m \<and> (line_has_content c \<longleftrightarrow> acc @ emitted c \<noteq> []) \<and>
     (case m of ByteMode \<Rightarrow> wide_pending c = [] | Wide e \<Rightarrow> length (wide_pending c) < unit_bytes e)"

lemma core_seq:
  "seq r f = (c, es) \<longleftrightarrow>
     (\<exists>c1 es1 es2. r = (c1, es1) \<and> f c1 = (c, es2) \<and> es = es1 @ es2)"
  by (cases r) (auto simp: seq_def split: prod.splits)

lemma no_start_simps [simp]:
  "no_start []" "no_start (Bytes b # es) = no_start es" "no_start (LineEnd t # es) = no_start es"
  "\<not> no_start (Start e # es)" "no_start (es @ fs) \<longleftrightarrow> no_start es \<and> no_start fs"
  by (auto simp: no_start_def)

lemma push_text_unit_step:
  assumes c: "line_has_content c \<longleftrightarrow> acc @ emitted c \<noteq> []" and bs: "bs \<noteq> []"
  shows "\<exists>c' es acc' ls. push_text_unit bs a c = (c', es) \<and> event_lines acc es = (acc', ls) \<and>
    no_start es \<and> mode c' = mode c \<and> escape c' = escape c \<and> wide_pending c' = wide_pending c \<and>
    (line_has_content c' \<longleftrightarrow> acc' @ emitted c' \<noteq> []) \<and>
    (\<forall>us. to_come (pending_cr c) (acc @ emitted c) ((bs, a) # us) =
       ls @ to_come (pending_cr c') (acc' @ emitted c') us)"
  using assms
  by (cases "pending_cr c"; cases "emitted c = []"; cases "a = Some 13"; cases "a = Some 10")
    (auto simp: push_text_unit_def emit_line_def flush_bytes_def seq_def to_come_def skip_lf_def)

lemma process_unit_step:
  assumes c: "line_has_content c \<longleftrightarrow> acc @ emitted c \<noteq> []" and bs: "bs \<noteq> []"
  shows "\<exists>c' es acc' ls. process_unit bs a c = (c', es) \<and> event_lines acc es = (acc', ls) \<and>
    no_start es \<and> mode c' = mode c \<and> escape c' = next_escape (escape c) a \<and>
    wide_pending c' = wide_pending c \<and> (line_has_content c' \<longleftrightarrow> acc' @ emitted c' \<noteq> []) \<and>
    (\<forall>us rest. to_come (pending_cr c) (acc @ emitted c) (visible (escape c) ((bs, a) # us) @ rest) =
       ls @ to_come (pending_cr c') (acc' @ emitted c') (visible (escape c') us @ rest))"
proof (cases "escape c = Text \<and> a \<noteq> Some 0x1b")
  case True
  from push_text_unit_step [OF c bs, of a] obtain c' es acc' ls where
    s: "push_text_unit bs a c = (c', es)" "event_lines acc es = (acc', ls)" "no_start es"
      "mode c' = mode c" "escape c' = escape c" "wide_pending c' = wide_pending c"
      "line_has_content c' \<longleftrightarrow> acc' @ emitted c' \<noteq> []"
      "\<forall>us. to_come (pending_cr c) (acc @ emitted c) ((bs, a) # us) =
        ls @ to_come (pending_cr c') (acc' @ emitted c') us" by blast
  have "process_unit bs a c = (c', es)" using True s(1) by (simp add: process_unit_def)
  moreover have "next_escape (escape c) a = Text" using True by (simp add: next_escape_def)
  ultimately show ?thesis using s True by auto
next
  case False
  then have "process_unit bs a c = (c\<lparr>escape := next_escape (escape c) a\<rparr>, [])"
    by (cases "escape c"; cases a) (auto simp: process_unit_def next_escape_def)
  with c False show ?thesis by auto
qed

lemma wide_units_step:
  "length p = unit_bytes e \<Longrightarrow>
     wide_units e (p @ bs) = (case wide_units e bs of (us, rest) \<Rightarrow> ((p, ascii_unit e p) # us, rest))"
  by (subst wide_units.simps) (simp add: Let_def)

lemma process_byte_step:
  assumes inv: "core_inv m c acc"
  shows "\<exists>c' es acc' ls. process_byte m b c = (c', es) \<and> event_lines acc es = (acc', ls) \<and>
    no_start es \<and> core_inv m c' acc' \<and>
    (\<forall>bs. remaining m c (acc @ emitted c) (b # bs) = ls @ remaining m c' (acc' @ emitted c') bs)"
proof (cases m)
  case ByteMode
  have h: "line_has_content c \<longleftrightarrow> acc @ emitted c \<noteq> []" "[b] \<noteq> []"
    using inv by (simp_all add: core_inv_def)
  from process_unit_step [OF h, of "Some b"] obtain c' es acc' ls where
    s: "process_unit [b] (Some b) c = (c', es)" "event_lines acc es = (acc', ls)" "no_start es"
      "mode c' = mode c" "escape c' = next_escape (escape c) (Some b)"
      "wide_pending c' = wide_pending c" "line_has_content c' \<longleftrightarrow> acc' @ emitted c' \<noteq> []"
      "\<forall>us rest. to_come (pending_cr c) (acc @ emitted c) (visible (escape c) (([b], Some b) # us) @ rest) =
         ls @ to_come (pending_cr c') (acc' @ emitted c') (visible (escape c') us @ rest)"
    by blast
  with inv ByteMode show ?thesis
    by (auto simp: process_byte_def core_inv_def remaining_def code_units_def)
next
  case (Wide e)
  let ?p = "wide_pending c @ [b]"
  show ?thesis
  proof (cases "length ?p = unit_bytes e")
    case True
    have h: "line_has_content (c\<lparr>wide_pending := []\<rparr>) \<longleftrightarrow> acc @ emitted (c\<lparr>wide_pending := []\<rparr>) \<noteq> []"
      "?p \<noteq> []" using inv by (simp_all add: core_inv_def)
    have "mode (c\<lparr>wide_pending := []\<rparr>) = mode c" "escape (c\<lparr>wide_pending := []\<rparr>) = escape c"
      "pending_cr (c\<lparr>wide_pending := []\<rparr>) = pending_cr c" "emitted (c\<lparr>wide_pending := []\<rparr>) = emitted c"
      "wide_pending (c\<lparr>wide_pending := []\<rparr>) = []" by simp_all
    from process_unit_step [OF h, of "ascii_unit e ?p", unfolded this] obtain c' es acc' ls where
      s: "process_unit ?p (ascii_unit e ?p) (c\<lparr>wide_pending := []\<rparr>) = (c', es)"
        "event_lines acc es = (acc', ls)" "no_start es"
        "mode c' = mode c" "escape c' = next_escape (escape c) (ascii_unit e ?p)"
        "wide_pending c' = []" "line_has_content c' \<longleftrightarrow> acc' @ emitted c' \<noteq> []"
        "\<forall>us rest. to_come (pending_cr c) (acc @ emitted c)
            (visible (escape c) ((?p, ascii_unit e ?p) # us) @ rest) =
           ls @ to_come (pending_cr c') (acc' @ emitted c') (visible (escape c') us @ rest)"
      by blast
    have "process_byte m b c = (c', es)"
      using True s(1) Wide by (simp add: process_byte_def Let_def)
    moreover have "core_inv m c' acc'" using s inv Wide by (auto simp: core_inv_def unit_bytes_def split: stream_encoding.split)
    moreover have "remaining m c (acc @ emitted c) (b # bs) = ls @ remaining m c' (acc' @ emitted c') bs" for bs
    proof -
      obtain us rest where w: "wide_units e bs = (us, rest)" by (cases "wide_units e bs")
      with wide_units_step [OF True, of bs]
        s(8) [rule_format, of us "if rest = [] then [] else [(rest, None)]"] s(6) Wide
      show ?thesis by (simp add: remaining_def code_units_def)
    qed
    ultimately show ?thesis using s(2,3) by blast
  next
    case False
    then have "process_byte m b c = (c\<lparr>wide_pending := ?p\<rparr>, [])"
      using Wide by (simp add: process_byte_def Let_def)
    moreover have "core_inv m (c\<lparr>wide_pending := ?p\<rparr>) acc"
      using inv False Wide by (auto simp: core_inv_def)
    ultimately show ?thesis using Wide by (auto simp: remaining_def)
  qed
qed

lemma process_bytes_step:
  "core_inv m c acc \<Longrightarrow>
   \<exists>c' es acc' ls. process_bytes m bs c = (c', es) \<and> event_lines acc es = (acc', ls) \<and>
    no_start es \<and> core_inv m c' acc' \<and>
    (\<forall>cs. remaining m c (acc @ emitted c) (bs @ cs) = ls @ remaining m c' (acc' @ emitted c') cs)"
proof (induction bs arbitrary: c acc)
  case (Cons b bs)
  from process_byte_step [OF Cons.prems, of b] obtain c1 es1 acc1 ls1 where
    s1: "process_byte m b c = (c1, es1)" "event_lines acc es1 = (acc1, ls1)" "no_start es1"
      "core_inv m c1 acc1"
      "\<forall>bs. remaining m c (acc @ emitted c) (b # bs) = ls1 @ remaining m c1 (acc1 @ emitted c1) bs"
    by blast
  from Cons.IH [OF s1(4)] obtain c2 es2 acc2 ls2 where
    s2: "process_bytes m bs c1 = (c2, es2)" "event_lines acc1 es2 = (acc2, ls2)" "no_start es2"
      "core_inv m c2 acc2"
      "\<forall>cs. remaining m c1 (acc1 @ emitted c1) (bs @ cs) = ls2 @ remaining m c2 (acc2 @ emitted c2) cs"
    by blast
  show ?case
    using s1 s2 by (simp add: seq_def event_lines_append)
qed simp

lemma flush_step:
  "\<exists>es acc'. flush_bytes c = (c\<lparr>emitted := []\<rparr>, es) \<and> event_lines acc es = (acc', []) \<and>
     no_start es \<and> acc' = acc @ emitted c"
  by (auto simp: flush_bytes_def)

lemma process_step:
  assumes inv: "core_inv m c acc"
  shows "\<exists>c' es acc' ls. process bs c = (c', es) \<and> event_lines acc es = (acc', ls) \<and>
    no_start es \<and> core_inv m c' acc' \<and> emitted c' = [] \<and>
    (\<forall>cs. remaining m c (acc @ emitted c) (bs @ cs) = ls @ remaining m c' acc' cs)"
proof -
  from process_bytes_step [OF inv, of bs] obtain c1 es1 acc1 ls1 where
    s1: "process_bytes m bs c = (c1, es1)" "event_lines acc es1 = (acc1, ls1)" "no_start es1"
      "core_inv m c1 acc1"
      "\<forall>cs. remaining m c (acc @ emitted c) (bs @ cs) = ls1 @ remaining m c1 (acc1 @ emitted c1) cs"
    by blast
  obtain es2 where s2: "flush_bytes c1 = (c1\<lparr>emitted := []\<rparr>, es2)"
    "event_lines acc1 es2 = (acc1 @ emitted c1, [])" "no_start es2"
    using flush_step [of c1 acc1] by blast
  have "process bs c = (c1\<lparr>emitted := []\<rparr>, es1 @ es2)"
    using inv s1(1) s2(1) by (simp add: process_def core_inv_def seq_def)
  with s1 s2 show ?thesis
    by (cases m) (auto simp: event_lines_append core_inv_def remaining_def)
qed

lemma finish_lines_step:
  assumes "line_has_content c \<longleftrightarrow> acc @ emitted c \<noteq> []"
  shows "\<exists>c' es. seq (if pending_cr c then seq (emit_line True c) (\<lambda>c. (c\<lparr>pending_cr := False\<rparr>, []))
          else if line_has_content c then emit_line False c else (c, [])) flush_bytes = (c', es) \<and>
    no_start es \<and> event_lines acc es = ([], to_come (pending_cr c) (acc @ emitted c) [])"
  using assms
  by (cases "pending_cr c"; cases "emitted c = []"; cases "line_has_content c")
    (auto simp: emit_line_def flush_bytes_def seq_def to_come_def skip_lf_def)

lemma wide_units_short: "length bs < unit_bytes e \<Longrightarrow> wide_units e bs = ([], bs)"
  by (subst wide_units.simps) simp

lemma finish_open_step:
  assumes inv: "core_inv m c acc"
  shows "\<exists>c' es. finish_open c = (c', es) \<and> no_start es \<and>
    event_lines acc es = ([], remaining m c (acc @ emitted c) [])"
proof -
  have rem: "remaining m c (acc @ emitted c) [] = to_come (pending_cr c) (acc @ emitted c)
      (if wide_pending c = [] then [] else [(wide_pending c, None)])"
    using inv by (cases m) (auto simp: core_inv_def remaining_def code_units_def wide_units_short)
  show ?thesis
  proof (cases "wide_pending c = []")
    case True
    from finish_lines_step [of c acc] inv True rem show ?thesis
      by (auto simp: finish_open_def seq_def core_inv_def)
  next
    case False
    have "line_has_content (c\<lparr>wide_pending := []\<rparr>) \<longleftrightarrow> acc @ emitted (c\<lparr>wide_pending := []\<rparr>) \<noteq> []"
      using inv by (simp add: core_inv_def)
    from push_text_unit_step [OF this False, of None] obtain c1 es1 acc1 ls1 where
      s1: "push_text_unit (wide_pending c) None (c\<lparr>wide_pending := []\<rparr>) = (c1, es1)"
        "event_lines acc es1 = (acc1, ls1)" "no_start es1"
        "line_has_content c1 \<longleftrightarrow> acc1 @ emitted c1 \<noteq> []"
        "\<forall>us. to_come (pending_cr c) (acc @ emitted c) ((wide_pending c, None) # us) =
           ls1 @ to_come (pending_cr c1) (acc1 @ emitted c1) us" by auto
    from finish_lines_step [OF s1(4)] obtain c2 es2 where
      s2: "seq (if pending_cr c1 then seq (emit_line True c1) (\<lambda>c. (c\<lparr>pending_cr := False\<rparr>, []))
          else if line_has_content c1 then emit_line False c1 else (c1, [])) flush_bytes = (c2, es2)"
        "no_start es2" "event_lines acc1 es2 = ([], to_come (pending_cr c1) (acc1 @ emitted c1) [])"
      by blast
    have "finish_open c = (c2, es1 @ es2)"
      using False s1(1) s2(1) by (simp add: finish_open_def seq_def)
    with s1 s2 rem False show ?thesis by (simp add: event_lines_append)
  qed
qed

section \<open>Whole streams\<close>

lemma log_from_open:
  "core_inv m c acc \<Longrightarrow> emitted c = [] \<Longrightarrow>
     no_start (log_from chunks c) \<and>
     event_lines acc (log_from chunks c) = ([], remaining m c acc (concat chunks))"
proof (induction chunks arbitrary: c acc)
  case Nil
  from finish_open_step [OF Nil(1)] Nil show ?case
    by (auto simp: finish_def seq_def core_inv_def)
next
  case (Cons b bs)
  from process_step [OF Cons.prems(1), of b] obtain c1 es1 acc1 ls1 where
    s1: "process b c = (c1, es1)" "event_lines acc es1 = (acc1, ls1)" "no_start es1"
      "core_inv m c1 acc1" "emitted c1 = []"
      "\<forall>cs. remaining m c (acc @ emitted c) (b @ cs) = ls1 @ remaining m c1 acc1 cs" by blast
  have "push b c = (c1, es1)" using Cons.prems(1) s1(1) by (simp add: push_def core_inv_def)
  with Cons.IH [OF s1(4,5)] s1 Cons.prems(2) show ?case by (simp add: event_lines_append)
qed

lemma starts_with_append: "starts_with xs p \<Longrightarrow> starts_with (xs @ ys) p"
  by (auto simp: starts_with_def dest: arg_cong [of _ _ length])

lemma starts_with_either:
  assumes "starts_with (xs @ ys) p"
  shows "starts_with xs p \<or> starts_with p xs"
proof (cases "length p \<le> length xs")
  case False
  have "take (length xs) (take (length p) (xs @ ys)) = xs" using False by (simp add: min_def)
  with assms show ?thesis by (simp add: starts_with_def)
qed (use assms in \<open>simp add: starts_with_def\<close>)

lemma starts_with_nth: "starts_with xs p \<Longrightarrow> i < length p \<Longrightarrow> xs ! i = p ! i \<and> i < length xs"
  by (metis length_take min_less_iff_conj nth_take starts_with_def)

lemma starts_with_long: "length p \<le> length xs \<Longrightarrow> starts_with (xs @ ys) p = starts_with xs p"
  by (simp add: starts_with_def)

lemma detect_final: "\<exists>m k. detect_stream_mode bs True = Some (m, k)"
  by (simp add: detect_stream_mode_def)

lemma bom_clash:
  assumes "starts_with xs p" "hd p \<noteq> hd q" "p \<noteq> []" "q \<noteq> []"
  shows "\<not> starts_with (xs @ ys) q"
  using starts_with_nth [OF starts_with_append [OF assms(1)], of 0 ys]
    starts_with_nth [of "xs @ ys" q 0] assms(2-4)
  by (auto simp: hd_conv_nth)

lemmas bom_defs = stream_bom_def utf8_bom_def

lemma detect_stable:
  assumes "detect_stream_mode p False = Some r"
  shows "detect_stream_mode (p @ q) f = Some r"
proof -
  have no: "\<not> starts_with (p @ q) B" if "\<not> starts_with p B" "\<not> starts_with B p" for B
    using starts_with_either that by blast
  consider
      (be32) "starts_with p (stream_bom Utf32Be)" "r = (Wide Utf32Be, 4)"
    | (le32) "starts_with p (stream_bom Utf32Le)" "r = (Wide Utf32Le, 4)"
    | (u8) "starts_with p utf8_bom" "r = (ByteMode, 3)"
    | (be16) "starts_with p (stream_bom Utf16Be)" "r = (Wide Utf16Be, 2)"
    | (le16) "starts_with p (stream_bom Utf16Le)" "r = (Wide Utf16Le, 2)" "3 \<le> length p"
        "p ! 2 \<noteq> 0 \<or> 4 \<le> length p" "\<not> starts_with p (stream_bom Utf32Le)"
    | (plain) "\<forall>B \<in> set [stream_bom Utf32Be, stream_bom Utf32Le, utf8_bom, stream_bom Utf16Le,
          stream_bom Utf16Be]. \<not> starts_with p B \<and> \<not> starts_with B p" "r = (ByteMode, 0)"
    using assms by (auto simp: detect_stream_mode_def split: if_splits)
  then show ?thesis
  proof cases
    case be32
    with starts_with_append [OF be32(1), of q] show ?thesis by (simp add: detect_stream_mode_def)
  next
    case le32
    have "\<not> starts_with (p @ q) (stream_bom Utf32Be)"
      by (rule bom_clash [OF le32(1)]; simp add: bom_defs)+
    with starts_with_append [OF le32(1), of q] le32 show ?thesis by (simp add: detect_stream_mode_def)
  next
    case u8
    have "\<not> starts_with (p @ q) (stream_bom Utf32Be)" "\<not> starts_with (p @ q) (stream_bom Utf32Le)"
      by (rule bom_clash [OF u8(1)]; simp add: bom_defs)+
    with starts_with_append [OF u8(1), of q] u8 show ?thesis by (simp add: detect_stream_mode_def)
  next
    case be16
    have "\<not> starts_with (p @ q) (stream_bom Utf32Be)" "\<not> starts_with (p @ q) (stream_bom Utf32Le)"
      "\<not> starts_with (p @ q) utf8_bom"
      by (rule bom_clash [OF be16(1)]; simp add: bom_defs)+
    with starts_with_append [OF be16(1), of q] be16 show ?thesis by (simp add: detect_stream_mode_def)
  next
    case le16
    have "\<not> starts_with (p @ q) (stream_bom Utf32Be)" "\<not> starts_with (p @ q) utf8_bom"
      "\<not> starts_with (p @ q) (stream_bom Utf16Be)"
      by (rule bom_clash [OF le16(1)]; simp add: bom_defs)+
    moreover have "\<not> starts_with (p @ q) (stream_bom Utf32Le)"
    proof (cases "4 \<le> length p")
      case True
      with le16(5) show ?thesis by (simp add: starts_with_long bom_defs)
    next
      case False
      with le16(3,4) starts_with_nth [of "p @ q" "stream_bom Utf32Le" 2] show ?thesis
        by (auto simp: bom_defs nth_append)
    qed
    moreover have "3 \<le> length (p @ q) \<and> (p @ q) ! 2 \<noteq> 0 \<or> 4 \<le> length (p @ q)"
      using le16(3,4) by (auto simp: nth_append)
    ultimately show ?thesis
      using starts_with_append [OF le16(1), of q] le16(2) by (auto simp: detect_stream_mode_def)
  next
    case plain
    have "\<not> starts_with (p @ q) B \<and> \<not> starts_with B (p @ q)"
      if "B \<in> set [stream_bom Utf32Be, stream_bom Utf32Le, utf8_bom, stream_bom Utf16Le,
          stream_bom Utf16Be]" for B
    proof -
      have B: "\<not> starts_with p B" "\<not> starts_with B p" using plain(1) that by blast+
      moreover have "\<not> starts_with B (p @ q)"
      proof
        assume "starts_with B (p @ q)"
        then have "take (length p) (take (length (p @ q)) B) = take (length p) (p @ q)"
          by (simp only: starts_with_def)
        then have "take (length p) B = p" by (simp add: min_def)
        with B(2) show False by (simp add: starts_with_def)
      qed
      ultimately show ?thesis using no by blast
    qed
    with plain(2) show ?thesis by (simp add: detect_stream_mode_def)
  qed
qed

definition probing :: "byte list \<Rightarrow> normalizer_core" where
  "probing p = new_core\<lparr>bom_probe := p\<rparr>"

lemma select_step:
  assumes "detect_stream_mode p final = Some (m, k)"
  shows "\<exists>c' es acc' ls. select_mode final (probing p) = (c', Start (mode_encoding m) # es) \<and>
    event_lines [] es = (acc', ls) \<and> no_start es \<and> core_inv m c' acc' \<and> emitted c' = [] \<and>
    (\<forall>cs. stream_lines m (drop k p @ cs) = ls @ remaining m c' acc' cs)"
proof -
  let ?c = "(probing p)\<lparr>mode := Some m, bom_probe := []\<rparr>"
  have inv: "core_inv m ?c []"
    by (cases m) (auto simp: core_inv_def probing_def new_core_def unit_bytes_def split: stream_encoding.split)
  have k: "drop (min k (length p)) p = drop k p" by (simp add: min_def)
  have "stream_lines m bs = remaining m ?c ([] @ emitted ?c) bs" for bs
    by (simp add: stream_lines_def remaining_def to_come_def probing_def new_core_def)
  moreover obtain c' es acc' ls where s: "process (drop k p) ?c = (c', es)"
    "event_lines [] es = (acc', ls)" "no_start es" "core_inv m c' acc'" "emitted c' = []"
    "\<forall>cs. remaining m ?c ([] @ emitted ?c) (drop k p @ cs) = ls @ remaining m c' acc' cs"
    using process_step [OF inv, of "drop k p"] by blast
  moreover have "select_mode final (probing p) = (c', Start (mode_encoding m) # es)"
    using assms s(1) k by (simp add: select_mode_def seq_def probing_def)
  ultimately show ?thesis by auto
qed

lemma log_from_probing:
  "detect_stream_mode p False = None \<Longrightarrow>
   \<exists>m k es. detect_stream_mode (p @ concat chunks) True = Some (m, k) \<and>
     log_from chunks (probing p) = Start (mode_encoding m) # es \<and> no_start es \<and>
     event_lines [] es = ([], stream_lines m (drop k (p @ concat chunks)))"
proof (induction chunks arbitrary: p)
  case Nil
  obtain m k where d: "detect_stream_mode p True = Some (m, k)" using detect_final by blast
  from select_step [OF d] obtain c' es acc' ls where
    s: "select_mode True (probing p) = (c', Start (mode_encoding m) # es)"
      "event_lines [] es = (acc', ls)" "no_start es" "core_inv m c' acc'" "emitted c' = []"
      "\<forall>cs. stream_lines m (drop k p @ cs) = ls @ remaining m c' acc' cs" by blast
  from finish_open_step [OF s(4)] obtain c2 es2 where
    f: "finish_open c' = (c2, es2)" "no_start es2" "event_lines acc' es2 = ([], remaining m c' acc' [])"
    using s(5) by auto
  have "log_from [] (probing p) = Start (mode_encoding m) # es @ es2"
    using s(1) f(1) by (simp add: finish_def seq_def probing_def new_core_def)
  moreover have "event_lines [] (es @ es2) = ([], stream_lines m (drop k p))"
    using s(2) f(3) s(6) [rule_format, of "[]"] by (simp add: event_lines_append)
  ultimately show ?case using d s(3) f(2) by auto
next
  case (Cons b bs)
  have push: "push b (probing p) = select_mode False (probing (p @ b))"
    by (simp add: push_def probing_def new_core_def)
  show ?case
  proof (cases "detect_stream_mode (p @ b) False")
    case None
    then have "push b (probing p) = (probing (p @ b), [])"
      unfolding push by (simp add: select_mode_def probing_def)
    with Cons.IH [OF None] show ?thesis by simp
  next
    case (Some r)
    obtain m k where r: "r = (m, k)" by (cases r)
    from select_step [OF Some [unfolded r]] obtain c' es acc' ls where
      s: "select_mode False (probing (p @ b)) = (c', Start (mode_encoding m) # es)"
        "event_lines [] es = (acc', ls)" "no_start es" "core_inv m c' acc'" "emitted c' = []"
        "\<forall>cs. stream_lines m (drop k (p @ b) @ cs) = ls @ remaining m c' acc' cs" by blast
    have d: "detect_stream_mode (p @ concat (b # bs)) True = Some (m, k)"
      using detect_stable [OF Some, of "concat bs" True] r by simp
    have "k \<le> length (p @ b)"
      using Some r
      by (auto simp: detect_stream_mode_def starts_with_def stream_bom_def utf8_bom_def
          dest!: arg_cong [of _ _ length] split: if_splits)
    then have k: "drop k (p @ concat (b # bs)) = drop k (p @ b) @ concat bs" by simp
    show ?thesis
      using d s log_from_open [OF s(4,5), of bs] k push by (auto simp: event_lines_append)
  qed
qed

lemma log_events_shape:
  "\<exists>m k es. reference_mode (concat chunks) = (m, k) \<and>
     log_events chunks = Start (mode_encoding m) # es \<and> no_start es \<and>
     event_lines [] es = ([], reference_lines (concat chunks))"
proof -
  have "detect_stream_mode [] False = None"
    by (simp add: detect_stream_mode_def starts_with_def bom_defs) blast
  from log_from_probing [OF this, of chunks] show ?thesis
    by (auto simp: log_events_def probing_def new_core_def reference_lines_def reference_mode_def)
qed

lemma consume_core: "consume es (s\<lparr>core := c\<rparr>) = (let (s', ls) = consume es s in (s'\<lparr>core := c\<rparr>, ls))"
proof (induction es s rule: consume.induct)
  case (4 t es s)
  then show ?case by (cases s) (simp add: case_prod_beta Let_def)
next
  case (2 e es s)
  then show ?case by (cases s) (simp add: case_prod_beta Let_def)
next
  case (3 b es s)
  then show ?case by (cases s) (simp add: case_prod_beta Let_def)
qed simp

lemma consume_append:
  "consume (es @ fs) s =
     (let (s1, ls) = consume es s; (s2, ms) = consume fs s1 in (s2, ls @ ms))"
  by (induction es s rule: consume.induct) (auto simp: Let_def split: prod.split)

text \<open>The bounded lines are those of the log's events: both normalizers run the same core.\<close>

lemma normalize_from_log:
  "normalize_from chunks s = snd (consume (log_from chunks (core s)) s)"
proof (induction chunks arbitrary: s)
  case Nil
  show ?case
    by (simp add: normalizer_finish_def consume_core case_prod_beta Let_def)
next
  case (Cons b bs)
  obtain c es where p: "push b (core s) = (c, es)" by (cases "push b (core s)")
  obtain s1 ls where q: "consume es s = (s1, ls)" by (cases "consume es s")
  have n: "normalizer_push b s = (s1\<lparr>core := c\<rparr>, ls)"
    by (simp add: normalizer_push_def p consume_core q)
  show ?case
    by (simp add: n Cons.IH p consume_append q consume_core case_prod_beta Let_def)
qed

lemma normalize_spec:
  "normalize chunks =
     map (bounded_line (mode_encoding (fst (reference_mode (concat chunks)))))
       (reference_lines (concat chunks))"
proof -
  obtain m k es where e: "reference_mode (concat chunks) = (m, k)"
    "log_events chunks = Start (mode_encoding m) # es" "no_start es"
    "event_lines [] es = ([], reference_lines (concat chunks))"
    using log_events_shape by blast
  have "log_from chunks (core new_normalizer) = Start (mode_encoding m) # es"
    using e(2) by (simp add: log_events_def new_normalizer_def)
  moreover have "line (new_normalizer\<lparr>encoding := mode_encoding m\<rparr>) = acc_of []"
    by (simp add: new_normalizer_def acc_of_Nil)
  from consume_lines [OF e(3) this e(4)]
  have "snd (consume es (new_normalizer\<lparr>encoding := mode_encoding m\<rparr>)) =
      map (bounded_line (mode_encoding m)) (reference_lines (concat chunks))" by simp
  ultimately show ?thesis using e(1) by (simp add: normalize_def normalize_from_log)
qed

section \<open>Properties\<close>

text \<open>
  C21. The streaming normalizer refines the reference: for every way the pipe delivers the bytes, its
  lines are those of the whole stream with escape sequences removed and CR, LF and CRLF as line
  ends, each cut to 64 KiB with its true length (up to the counter's maximum) and a truncation
  mark, and all labelled with the encoding of the stream's BOM. In particular chunk boundaries
  inside a BOM, a code unit, an escape sequence or a CRLF pair make no difference.
\<close>

theorem normalize_reference:
  "normalize chunks =
     map (bounded_line (mode_encoding (fst (reference_mode (concat chunks)))))
       (reference_lines (concat chunks)) \<and>
   normalize chunks = normalize [concat chunks]"
  by (simp add: normalize_spec)

end
