(* ===== verification/Line_Ring.thy ===== *)
theory Line_Ring
  imports Normalizer
begin

text \<open>
  The bounded line buffer of a foreground command (\<open>src/src/shell/buffer.rs\<close>) and the loop that
  fills it from the command's pipe (\<open>capture_foreground\<close> of \<open>src/src/shell/output.rs\<close>).

  \<open>size_of::<BufferedLine>()\<close> is a constant the compiler chooses; it is the parameter \<open>hdr\<close>.
\<close>

section \<open>The ring\<close>

definition output_buffer_bytes :: nat where
  "output_buffer_bytes = 8 * 1024 * 1024"

record buffered_line =
  bl_seq :: nat
  bl_bytes :: "byte list"
  bl_total :: nat
  bl_encoding :: "stream_encoding option"
  bl_truncated :: bool

definition line_storage :: "nat \<Rightarrow> buffered_line \<Rightarrow> nat" where
  "line_storage hdr l = sat_add (sat_add hdr (length (bl_bytes l))) 1"

record line_ring =
  ring_lines :: "buffered_line list"
  ring_storage :: nat
  ring_limit :: nat
  ring_next_seq :: nat
  ring_had_truncation :: bool
  ring_had_drop :: bool

definition ring_with_limit :: "nat \<Rightarrow> line_ring" where
  "ring_with_limit limit =
     \<lparr>ring_lines = [], ring_storage = 0, ring_limit = limit, ring_next_seq = 1,
      ring_had_truncation = False, ring_had_drop = False\<rparr>"

definition buffer_line :: "nat \<Rightarrow> normalized_line \<Rightarrow> buffered_line" where
  "buffer_line s l =
     \<lparr>bl_seq = s, bl_bytes = n_bytes l, bl_total = n_total l, bl_encoding = n_encoding l,
      bl_truncated = n_truncated l\<rparr>"

text \<open>The eviction loop: pop whole lines from the front until the new line has room.\<close>

fun evict :: "nat \<Rightarrow> nat \<Rightarrow> nat \<Rightarrow> buffered_line list \<Rightarrow> nat \<Rightarrow> bool \<Rightarrow> buffered_line list \<times> nat \<times> bool" where
  "evict hdr required limit [] storage dropped = ([], storage, dropped)"
| "evict hdr required limit (l # ls) storage dropped =
     (if limit < sat_add storage required
      then evict hdr required limit ls (storage - line_storage hdr l) True
      else (l # ls, storage, dropped))"

definition ring_push :: "nat \<Rightarrow> normalized_line \<Rightarrow> line_ring \<Rightarrow> nat \<times> line_ring" where
  "ring_push hdr l r =
     (let s = ring_next_seq r;
          r = r\<lparr>ring_next_seq := sat_add s 1,
                ring_had_truncation := (ring_had_truncation r \<or> n_truncated l)\<rparr>;
          buffered = buffer_line s l;
          required = line_storage hdr buffered;
          (ls, storage, dropped) =
            evict hdr required (ring_limit r) (ring_lines r) (ring_storage r) (ring_had_drop r);
          r = r\<lparr>ring_lines := ls, ring_storage := storage, ring_had_drop := dropped\<rparr> in
      if ring_limit r < required then (s, r\<lparr>ring_had_drop := True\<rparr>)
      else (s, r\<lparr>ring_storage := sat_add storage required, ring_lines := ls @ [buffered]\<rparr>))"

definition ring_total_lines :: "line_ring \<Rightarrow> nat" where
  "ring_total_lines r = ring_next_seq r - 1"

definition ring_dropped_lines :: "line_ring \<Rightarrow> nat" where
  "ring_dropped_lines r = ring_total_lines r - length (ring_lines r)"

definition ring_push_all :: "nat \<Rightarrow> normalized_line list \<Rightarrow> line_ring \<Rightarrow> line_ring" where
  "ring_push_all hdr ls r = foldl (\<lambda>r l. snd (ring_push hdr l r)) r ls"

section \<open>Capture\<close>

text \<open>
  The pipe as the results of its reads: an error of the operating system or the bytes of one read;
  an empty read is the end of the stream, and a list that ends is a stream that ends there.
\<close>

fun capture_loop ::
    "nat \<Rightarrow> ('e + byte list) list \<Rightarrow> stream_normalizer \<Rightarrow> line_ring \<Rightarrow> 'e + line_ring" where
  "capture_loop hdr [] s r = Inr (ring_push_all hdr (normalizer_finish s) r)"
| "capture_loop hdr (Inl e # reads) s r = Inl e"
| "capture_loop hdr (Inr bytes # reads) s r =
     (if bytes = [] then Inr (ring_push_all hdr (normalizer_finish s) r)
      else let (s', ls) = normalizer_push bytes s in
        capture_loop hdr reads s' (ring_push_all hdr ls r))"

definition capture_foreground :: "nat \<Rightarrow> ('e + byte list) list \<Rightarrow> 'e + line_ring" where
  "capture_foreground hdr reads =
     capture_loop hdr reads new_normalizer (ring_with_limit output_buffer_bytes)"

section \<open>What the ring holds\<close>

definition sizes :: "nat \<Rightarrow> buffered_line list \<Rightarrow> nat" where
  "sizes hdr ls = sum_list (map (line_storage hdr) ls)"

definition numbered :: "normalized_line list \<Rightarrow> buffered_line list" where
  "numbered ls = map (\<lambda>(i, l). buffer_line (Suc i) l) (enumerate 0 ls)"

lemma numbered_snoc: "numbered (ls @ [l]) = numbered ls @ [buffer_line (Suc (length ls)) l]"
  by (simp add: numbered_def enumerate_append_eq)

lemma length_numbered [simp]: "length (numbered ls) = length ls"
  by (simp add: numbered_def)

lemma sizes_simps [simp]:
  "sizes hdr [] = 0" "sizes hdr (l # ls) = line_storage hdr l + sizes hdr ls"
  "sizes hdr (ls @ ms) = sizes hdr ls + sizes hdr ms"
  by (simp_all add: sizes_def)

text \<open>
  The invariant: the ring holds the longest suffix of everything pushed that fits its limit, or
  nothing when the last line alone does not fit.
\<close>

definition longest_suffix :: "nat \<Rightarrow> nat \<Rightarrow> buffered_line list \<Rightarrow> nat \<Rightarrow> bool" where
  "longest_suffix hdr limit ls k \<longleftrightarrow>
     k \<le> length ls \<and> sizes hdr (drop k ls) \<le> limit \<and> (\<forall>j < k. limit < sizes hdr (drop j ls))"

definition ring_holds :: "nat \<Rightarrow> line_ring \<Rightarrow> normalized_line list \<Rightarrow> bool" where
  "ring_holds hdr r ls \<longleftrightarrow>
     ring_next_seq r = Suc (length ls) \<and>
     ring_had_truncation r = list_ex n_truncated ls \<and>
     ring_storage r = sizes hdr (ring_lines r) \<and>
     (\<exists>k. longest_suffix hdr (ring_limit r) (numbered ls) k \<and>
        ring_lines r = drop k (numbered ls) \<and> ring_had_drop r = (0 < k))"

lemma evict_spec:
  assumes "limit < usize_max" and "required \<le> limit"
  shows "sizes hdr ls \<le> limit \<Longrightarrow>
    \<exists>k. evict hdr required limit ls (sizes hdr ls) d =
        (drop k ls, sizes hdr (drop k ls), d \<or> 0 < k) \<and>
      k \<le> length ls \<and> sizes hdr (drop k ls) + required \<le> limit \<and>
      (\<forall>j < k. limit < sizes hdr (drop j ls) + required)"
proof (induction ls arbitrary: d)
  case Nil
  then show ?case using assms by (auto intro: exI [of _ 0])
next
  case (Cons l ls)
  have sat: "limit < sat_add (sizes hdr (l # ls)) required \<longleftrightarrow> limit < sizes hdr (l # ls) + required"
    using assms by (auto simp: sat_add_def)
  show ?case
  proof (cases "limit < sizes hdr (l # ls) + required")
    case True
    have "sizes hdr ls \<le> limit" using Cons.prems by simp
    from Cons.IH [OF this, of True] obtain k where
      k: "evict hdr required limit ls (sizes hdr ls) True = (drop k ls, sizes hdr (drop k ls), True)"
        "k \<le> length ls" "sizes hdr (drop k ls) + required \<le> limit"
        "\<forall>j < k. limit < sizes hdr (drop j ls) + required" by auto
    have "\<forall>j < Suc k. limit < sizes hdr (drop j (l # ls)) + required"
      using k(4) True by (auto simp: less_Suc_eq_0_disj)
    then show ?thesis using k(1-3) True sat by (intro exI [of _ "Suc k"]) simp
  next
    case False
    with sat show ?thesis by (intro exI [of _ 0]) auto
  qed
qed

lemma evict_all:
  assumes "limit < usize_max" and "limit < required"
  shows "evict hdr required limit ls (sizes hdr ls) d = ([], 0, d \<or> ls \<noteq> [])"
proof (induction ls arbitrary: d)
  case (Cons l ls)
  have "limit < sat_add (sizes hdr (l # ls)) required" using assms by (auto simp: sat_add_def)
  with Cons show ?case by simp
qed simp

lemma ring_push_holds:
  assumes h: "ring_holds hdr r ls" and lim: "ring_limit r < usize_max" and len: "length ls + 1 < usize_max"
  shows "fst (ring_push hdr l r) = Suc (length ls) \<and>
    ring_limit (snd (ring_push hdr l r)) = ring_limit r \<and>
    ring_holds hdr (snd (ring_push hdr l r)) (ls @ [l])"
proof -
  obtain k where k: "longest_suffix hdr (ring_limit r) (numbered ls) k"
    "ring_lines r = drop k (numbered ls)" "ring_had_drop r = (0 < k)"
    using h by (auto simp: ring_holds_def)
  let ?L = "ring_limit r" and ?b = "buffer_line (Suc (length ls)) l" and ?N = "numbered ls"
  let ?q = "line_storage hdr ?b"
  have s: "ring_next_seq r = Suc (length ls)" "sat_add (Suc (length ls)) 1 = Suc (Suc (length ls))"
    using h len by (simp_all add: ring_holds_def sat_add_def)
  have st: "ring_storage r = sizes hdr (drop k ?N)" "sizes hdr (drop k ?N) \<le> ?L" "k \<le> length ?N"
    using h k by (simp_all add: ring_holds_def longest_suffix_def)
  have N: "numbered (ls @ [l]) = ?N @ [?b]" by (rule numbered_snoc)
  show ?thesis
  proof (cases "?L < ?q")
    case True
    have "snd (ring_push hdr l r) =
        r\<lparr>ring_next_seq := Suc (Suc (length ls)), ring_had_truncation := (ring_had_truncation r \<or> n_truncated l),
          ring_lines := [], ring_storage := 0, ring_had_drop := True\<rparr>"
      "fst (ring_push hdr l r) = Suc (length ls)"
      using True s evict_all [OF lim True] st(1) k(2) by (simp_all add: ring_push_def Let_def)
    moreover have "longest_suffix hdr ?L (numbered (ls @ [l])) (Suc (length ls))"
      using True by (auto simp: longest_suffix_def N)
    ultimately show ?thesis using h N
      by (auto simp: ring_holds_def intro!: exI [of _ "Suc (length ls)"])
  next
    case False
    then have q: "?q \<le> ?L" by simp
    obtain m where m: "evict hdr ?q ?L (drop k ?N) (sizes hdr (drop k ?N)) (0 < k) =
        (drop m (drop k ?N), sizes hdr (drop m (drop k ?N)), 0 < k \<or> 0 < m)"
      "m \<le> length (drop k ?N)" "sizes hdr (drop m (drop k ?N)) + ?q \<le> ?L"
      "\<forall>j < m. ?L < sizes hdr (drop j (drop k ?N)) + ?q"
      using evict_spec [OF lim q st(2), of "0 < k"] by blast
    have e: "drop m (drop k ?N) = drop (k + m) ?N" by (simp add: add.commute)
    have sat: "sat_add (sizes hdr (drop (k + m) ?N)) ?q = sizes hdr (drop (k + m) ?N) + ?q"
      using m(3) lim e by (simp add: sat_add_def)
    have push: "ring_push hdr l r = (Suc (length ls),
        r\<lparr>ring_next_seq := Suc (Suc (length ls)), ring_had_truncation := (ring_had_truncation r \<or> n_truncated l),
          ring_lines := drop (k + m) ?N @ [?b], ring_storage := sizes hdr (drop (k + m) ?N) + ?q,
          ring_had_drop := (0 < k \<or> 0 < m)\<rparr>)"
      using False s m(1) st(1) k(2,3) sat e by (simp add: ring_push_def Let_def)
    have km: "k + m \<le> length ls" using m(2) st(3) by simp
    have "?L < sizes hdr (drop j (?N @ [?b]))" if j: "j < k + m" for j
    proof (cases "j < k")
      case True
      then have "?L < sizes hdr (drop j ?N)" using k(1) by (simp add: longest_suffix_def)
      then show ?thesis using km j by simp
    next
      case False
      then have "?L < sizes hdr (drop (j - k) (drop k ?N)) + ?q"
        using m(4) [rule_format, of "j - k"] j by simp
      then show ?thesis using False km j by simp
    qed
    then have "longest_suffix hdr ?L (numbered (ls @ [l])) (k + m)"
      using m(3) km e by (simp add: longest_suffix_def N)
    then show ?thesis using h N km push
      by (auto simp: ring_holds_def intro!: exI [of _ "k + m"])
  qed
qed

lemma ring_start: "ring_holds hdr (ring_with_limit limit) []"
  by (simp add: ring_holds_def ring_with_limit_def longest_suffix_def numbered_def)

lemma ring_push_all_holds:
  "ring_holds hdr r ls \<Longrightarrow> ring_limit r < usize_max \<Longrightarrow> length (ls @ ms) < usize_max \<Longrightarrow>
     ring_holds hdr (ring_push_all hdr ms r) (ls @ ms) \<and>
     ring_limit (ring_push_all hdr ms r) = ring_limit r"
proof (induction ms arbitrary: r ls)
  case (Cons m ms)
  have p: "ring_limit (snd (ring_push hdr m r)) = ring_limit r"
    "ring_holds hdr (snd (ring_push hdr m r)) (ls @ [m])"
    using ring_push_holds [OF Cons.prems(1,2), of m] Cons.prems(3) by auto
  from Cons.IH [OF p(2)] p(1) Cons.prems show ?case by (simp add: ring_push_all_def)
qed (simp add: ring_push_all_def)

lemma ring_push_all_append:
  "ring_push_all hdr (ls @ ms) r = ring_push_all hdr ms (ring_push_all hdr ls r)"
  by (simp add: ring_push_all_def)

text \<open>The chunks a capture sees: the reads before the first empty one.\<close>

fun delivered :: "('e + byte list) list \<Rightarrow> byte list list" where
  "delivered [] = []"
| "delivered (Inl e # reads) = []"
| "delivered (Inr b # reads) = (if b = [] then [] else b # delivered reads)"

lemma capture_loop_spec:
  "capture_loop hdr reads s r = Inr r' \<Longrightarrow>
     r' = ring_push_all hdr (normalize_from (delivered reads) s) r"
  by (induction hdr reads s r rule: capture_loop.induct)
    (auto simp: Let_def ring_push_all_append split: prod.splits if_splits)

section \<open>Properties\<close>

text \<open>
  C22. What a foreground command keeps of its output: whatever the reads of the pipe were, the buffer
  ends up with the longest suffix of the normalised lines of the whole output that fits eight
  mebibytes, numbered from the start of the output. The reported numbers of lines and of dropped
  lines are exact, the drop flag is set exactly when a line was dropped, and the accounted memory
  is that of the kept lines.
\<close>

theorem capture_retains_longest_suffix:
  assumes captured: "capture_foreground hdr reads = Inr r"
    and lines: "ls = normalize (delivered reads)" and len: "length ls < usize_max"
  shows "\<exists>k. longest_suffix hdr output_buffer_bytes (numbered ls) k \<and>
    ring_lines r = drop k (numbered ls) \<and> ring_total_lines r = length ls \<and>
    ring_dropped_lines r = k \<and> ring_had_drop r = (0 < k) \<and>
    ring_storage r = sizes hdr (ring_lines r) \<and> ring_storage r \<le> output_buffer_bytes"
proof -
  have r: "r = ring_push_all hdr ls (ring_with_limit output_buffer_bytes)"
    using capture_loop_spec [of hdr reads new_normalizer] captured lines
    by (simp add: capture_foreground_def normalize_def)
  have limit: "ring_limit (ring_with_limit output_buffer_bytes) = output_buffer_bytes"
    by (simp add: ring_with_limit_def)
  have "output_buffer_bytes < usize_max" by (simp add: output_buffer_bytes_def usize_max_def)
  with ring_push_all_holds [OF ring_start, of output_buffer_bytes ls hdr] len r limit
  have h: "ring_holds hdr r ls" "ring_limit r = output_buffer_bytes" by simp_all
  obtain k where "longest_suffix hdr output_buffer_bytes (numbered ls) k"
    "ring_lines r = drop k (numbered ls)" "ring_had_drop r = (0 < k)"
    using h by (auto simp: ring_holds_def)
  moreover from this have "k \<le> length ls" by (simp add: longest_suffix_def)
  ultimately show ?thesis using h(1)
    by (auto simp: ring_holds_def ring_total_lines_def ring_dropped_lines_def longest_suffix_def
        intro!: exI [of _ k])
qed

text \<open>A pipe that delivers a line ending in two pieces.\<close>

definition two_reads :: "(utf8 + byte list) list" where
  "two_reads = [Inr [97, 13], Inr [10, 98], Inr []]"

lemma two_reads_lines:
  "normalize (delivered two_reads) =
     map (\<lambda>b. \<lparr>n_bytes = [b], n_total = 1, n_terminated = (b = 97), n_encoding = None, n_truncated = False\<rparr>)
       [97, 98]"
proof -
  have "normalize (delivered two_reads) =
      map (bounded_line (mode_encoding (fst (reference_mode [97, 13, 10, 98])))) (reference_lines [97, 13, 10, 98])"
    using normalize_spec [of "delivered two_reads"] by (simp add: two_reads_def)
  also have "reference_mode [97, 13, 10, 98] = (ByteMode, 0)"
    by (simp add: reference_mode_def detect_stream_mode_def starts_with_def bom_defs)
  then have "reference_lines [97, 13, 10, 98] = [([97], True), ([98], False)]"
    by (simp add: reference_lines_def stream_lines_def code_units_def next_escape_def skip_lf_def)
  finally show ?thesis
    using \<open>reference_mode [97, 13, 10, 98] = (ByteMode, 0)\<close>
    by (simp add: bounded_line_def mode_encoding_def max_line_prefix_bytes_def usize_max_def)
qed

lemma two_reads_captured: "\<exists>r. capture_foreground 48 two_reads = Inr r"
  by (simp add: capture_foreground_def two_reads_def case_prod_beta Let_def)

lemma capture_retains_longest_suffix_witness:
  "\<exists>r k. capture_foreground 48 two_reads = Inr r \<and> ring_total_lines r = 2 \<and>
     ring_dropped_lines r = k \<and> ring_storage r \<le> output_buffer_bytes"
proof -
  obtain r where r: "capture_foreground 48 two_reads = Inr r" using two_reads_captured by blast
  have "length (normalize (delivered two_reads)) < usize_max"
    by (simp add: two_reads_lines usize_max_def)
  from capture_retains_longest_suffix [OF r refl this] r show ?thesis
    by (auto simp: two_reads_lines)
qed

end
