(* ===== verification/Shell_Encoding.thy ===== *)
theory Shell_Encoding
  imports Normalizer
begin

text \<open>
  Delivery-time decoding of stored command output (\<open>src/src/shell/encoding.rs\<close>): which decoder a
  page uses, how a line is cut for presentation, and what is counted about losses.

  The WHATWG decoders and their labels are a third-party crate, and the automatic detection of
  \<open>decode_text\<close> rests on another one: they are the fields of the parameter \<open>codecs\<close>. A WHATWG
  decoder is its name and its total decoding, text with the offsets of replaced sequences.
\<close>

section \<open>Decoders\<close>

definition max_presented_line_chars :: nat where
  "max_presented_line_chars = 2000"

record whatwg =
  wl_name :: utf8
  wl_decode :: "byte list \<Rightarrow> utf8 \<times> nat list"

record codecs =
  utf8_codec :: whatwg
  utf16le_codec :: whatwg
  utf16be_codec :: whatwg
  for_label :: "utf8 \<Rightarrow> whatwg option"
  detect_source :: "byte list \<Rightarrow> utf8 option"

record encoded_line =
  el_bytes :: "byte list"
  el_total :: nat
  el_stream :: "stream_encoding option"
  el_legacy :: "utf8 option"
  el_truncated :: bool

record decoded_lines =
  dl_lines :: "utf8 list"
  dl_invalid :: nat
  dl_invalid_per_line :: "nat list"
  dl_truncated_per_line :: "bool list"
  dl_note :: "utf8 option"
  dl_had_truncation :: bool

datatype decode_kind = Whatwg whatwg | WideKind stream_encoding

record decode_plan =
  plan_kind :: decode_kind
  plan_requested :: bool

definition stream_label :: "stream_encoding \<Rightarrow> utf8" where
  "stream_label e =
     (case e of Utf16Le \<Rightarrow> ''UTF-16LE'' | Utf16Be \<Rightarrow> ''UTF-16BE'' | Utf32Le \<Rightarrow> ''UTF-32LE''
              | Utf32Be \<Rightarrow> ''UTF-32BE'')"

definition plan_label :: "decode_plan \<Rightarrow> utf8" where
  "plan_label p = (case plan_kind p of Whatwg w \<Rightarrow> wl_name w | WideKind e \<Rightarrow> stream_label e)"

definition plan_is_utf8 :: "codecs \<Rightarrow> decode_plan \<Rightarrow> bool" where
  "plan_is_utf8 cs p =
     (case plan_kind p of Whatwg w \<Rightarrow> wl_name w = wl_name (utf8_codec cs) | WideKind e \<Rightarrow> False)"

section \<open>Labels\<close>

definition ascii_whitespace :: "char \<Rightarrow> bool" where
  "ascii_whitespace c \<longleftrightarrow> (of_char c :: nat) \<in> {9, 10, 12, 13, 32}"

definition trim_ascii :: "utf8 \<Rightarrow> utf8" where
  "trim_ascii t = rev (dropWhile ascii_whitespace (rev (dropWhile ascii_whitespace t)))"

definition lower_char :: "char \<Rightarrow> char" where
  "lower_char c = (let v = of_char c :: nat in if 65 \<le> v \<and> v \<le> 90 then char_of (v + 32) else c)"

definition eq_ignore_ascii_case :: "utf8 \<Rightarrow> utf8 \<Rightarrow> bool" where
  "eq_ignore_ascii_case a b \<longleftrightarrow> map lower_char a = map lower_char b"

definition quote_char :: utf8 where
  "quote_char = [CHR 0x22]"

definition wide_label_error :: "utf8 \<Rightarrow> utf8" where
  "wide_label_error value =
     ''Encoding '' @ quote_char @ value @ quote_char @
     '' is not supported for command output. UTF-16/UTF-32 output is decoded automatically when the stream starts with a BOM; otherwise redirect the command to a file (command > file 2>&1) and read it with the inspect_local_file tool.''"

definition validate_output_encoding :: "codecs \<Rightarrow> utf8 \<Rightarrow> utf8 + whatwg" where
  "validate_output_encoding cs value =
     (let label = trim_ascii value in
      if eq_ignore_ascii_case label ''utf-32'' \<or> eq_ignore_ascii_case label ''utf-32le'' \<or>
         eq_ignore_ascii_case label ''utf-32be''
      then Inl (wide_label_error value)
      else case for_label cs label of
          None \<Rightarrow>
            Inl (''Invalid encoding value '' @ quote_char @ value @ quote_char @
              ''. Use a WHATWG encoding label such as '' @ quote_char @ ''gbk'' @ quote_char @ '', '' @
              quote_char @ ''shift_jis'' @ quote_char @ '', '' @ quote_char @ ''big5'' @ quote_char @
              '', '' @ quote_char @ ''euc-kr'' @ quote_char @ '', or '' @ quote_char @
              ''windows-1252'' @ quote_char @ ''.'')
        | Some w \<Rightarrow>
            if wl_name w = wl_name (utf16le_codec cs) \<or> wl_name w = wl_name (utf16be_codec cs)
            then Inl (wide_label_error value) else Inr w)"

section \<open>Plans\<close>

definition bom_plan :: "encoded_line list \<Rightarrow> decode_plan option" where
  "bom_plan ls =
     map_option (\<lambda>e. \<lparr>plan_kind = WideKind e, plan_requested = False\<rparr>)
       (map_option (\<lambda>l. the (el_stream l)) (find (\<lambda>l. el_stream l \<noteq> None) ls))"

fun evidence :: "nat \<Rightarrow> encoded_line list \<Rightarrow> byte list" where
  "evidence index [] = []"
| "evidence index (l # ls) =
     (if el_legacy l \<noteq> None then []
      else (if 0 < index then [10] else []) @ el_bytes l) @ evidence (Suc index) ls"

text \<open>\<open>None\<close> is the panic of the \<open>expect\<close>: a detected label the crate does not know.\<close>

definition automatic_run_plan :: "codecs \<Rightarrow> encoded_line list \<Rightarrow> decode_plan option" where
  "automatic_run_plan cs ls =
     (case bom_plan ls of
        Some p \<Rightarrow> Some p
      | None \<Rightarrow>
          (case detect_source cs (evidence 0 ls) of
             Some label \<Rightarrow>
               map_option (\<lambda>w. \<lparr>plan_kind = Whatwg w, plan_requested = False\<rparr>) (for_label cs label)
           | None \<Rightarrow> Some \<lparr>plan_kind = Whatwg (utf8_codec cs), plan_requested = False\<rparr>))"

section \<open>Bytes to text\<close>

definition replacement_character :: utf8 where
  "replacement_character = utf8_of 0xFFFD"

text \<open>The loop over \<open>chunks_exact(4)\<close> and its remainder.\<close>

function utf32_loop :: "bool \<Rightarrow> byte list \<Rightarrow> utf8 \<Rightarrow> nat list \<Rightarrow> utf8 \<times> nat list" where
  "utf32_loop little bs text invalid =
     (if length bs < 4 then
        (if bs = [] then (text, invalid)
         else (text @ replacement_character, invalid @ [length text]))
      else
        let v = le_value (if little then take 4 bs else rev (take 4 bs)) in
        if is_scalar v then utf32_loop little (drop 4 bs) (text @ utf8_of v) invalid
        else utf32_loop little (drop 4 bs) (text @ replacement_character) (invalid @ [length text]))"
  by pat_completeness auto
termination
  by (relation "measure (\<lambda>(little, bs, text, invalid). length bs)") auto

declare utf32_loop.simps [simp del]

definition decode_utf32 :: "byte list \<Rightarrow> bool \<Rightarrow> utf8 \<times> nat list" where
  "decode_utf32 bs little = utf32_loop little bs [] []"

definition decode_bytes :: "codecs \<Rightarrow> byte list \<Rightarrow> decode_kind \<Rightarrow> utf8 \<times> nat list" where
  "decode_bytes cs bs kind =
     (case kind of
        Whatwg w \<Rightarrow> wl_decode w bs
      | WideKind Utf16Le \<Rightarrow> wl_decode (utf16le_codec cs) bs
      | WideKind Utf16Be \<Rightarrow> wl_decode (utf16be_codec cs) bs
      | WideKind Utf32Le \<Rightarrow> decode_utf32 bs True
      | WideKind Utf32Be \<Rightarrow> decode_utf32 bs False)"

definition present_line :: "utf8 \<Rightarrow> nat \<Rightarrow> bool \<Rightarrow> utf8 \<times> nat \<times> bool" where
  "present_line text total_bytes known_truncated =
     (let cs = chars text;
          has_more = max_presented_line_chars < length cs;
          shown_end =
            (if has_more then length (concat (take max_presented_line_chars cs)) else length text);
          truncated = known_truncated \<or> has_more;
          shown = take shown_end text in
      (shown @ (if truncated
                then ''... [line truncated: '' @ show_nat total_bytes @ '' bytes total]'' else []),
       shown_end, truncated))"

definition add_decoded :: "utf8 \<Rightarrow> nat \<Rightarrow> bool \<Rightarrow> decoded_lines \<Rightarrow> decoded_lines" where
  "add_decoded text invalid truncated d =
     d\<lparr>dl_lines := dl_lines d @ [text], dl_invalid := sat_add (dl_invalid d) invalid,
       dl_invalid_per_line := dl_invalid_per_line d @ [invalid],
       dl_truncated_per_line := dl_truncated_per_line d @ [truncated],
       dl_had_truncation := (dl_had_truncation d \<or> truncated)\<rparr>"

definition decode_one :: "codecs \<Rightarrow> decode_plan \<Rightarrow> encoded_line \<Rightarrow> decoded_lines \<Rightarrow> decoded_lines" where
  "decode_one cs plan l d =
     (case el_legacy l of
        Some text \<Rightarrow> add_decoded text 0 (el_truncated l) d
      | None \<Rightarrow>
          (let (text, offsets) = decode_bytes cs (el_bytes l) (plan_kind plan);
               (shown, shown_end, truncated) = present_line text (el_total l) (el_truncated l) in
           add_decoded shown (length (filter (\<lambda>i. i < shown_end) offsets)) truncated d))"

definition transcoding_note :: "codecs \<Rightarrow> decode_plan \<Rightarrow> utf8 option" where
  "transcoding_note cs plan =
     (if plan_is_utf8 cs plan then None
      else if plan_requested plan
      then Some (''(Note: decoded from '' @ plan_label plan @ '' as requested; output is UTF-8.)'')
      else Some (''(Note: decoded from '' @ plan_label plan @ ''; output is UTF-8.)''))"

definition decode_lines :: "codecs \<Rightarrow> encoded_line list \<Rightarrow> decode_plan \<Rightarrow> decoded_lines" where
  "decode_lines cs ls plan =
     foldl (\<lambda>d l. decode_one cs plan l d)
       \<lparr>dl_lines = [], dl_invalid = 0, dl_invalid_per_line = [], dl_truncated_per_line = [],
        dl_note = transcoding_note cs plan, dl_had_truncation = False\<rparr> ls"

definition decode_run :: "codecs \<Rightarrow> encoded_line list \<Rightarrow> whatwg option \<Rightarrow> decoded_lines option" where
  "decode_run cs ls explicit =
     map_option (decode_lines cs ls)
       (case explicit of
          Some w \<Rightarrow> Some \<lparr>plan_kind = Whatwg w, plan_requested = True\<rparr>
        | None \<Rightarrow> automatic_run_plan cs ls)"

definition decode_job ::
    "codecs \<Rightarrow> encoded_line list \<Rightarrow> whatwg option \<Rightarrow> whatwg option \<Rightarrow> decoded_lines" where
  "decode_job cs ls call job =
     decode_lines cs ls
       (case (if call \<noteq> None then call else job) of
          Some w \<Rightarrow> \<lparr>plan_kind = Whatwg w, plan_requested = True\<rparr>
        | None \<Rightarrow>
            (case bom_plan ls of
               Some p \<Rightarrow> p
             | None \<Rightarrow> \<lparr>plan_kind = Whatwg (utf8_codec cs), plan_requested = False\<rparr>))"

section \<open>Loss notes\<close>

text \<open>The system's legacy code page is asked of the operating system.\<close>

definition sequence_noun :: "nat \<Rightarrow> utf8" where
  "sequence_noun n = (if n = 1 then ''sequence'' else ''sequences'')"

definition run_garble_note :: "utf8 option \<Rightarrow> nat \<Rightarrow> utf8 option" where
  "run_garble_note legacy invalid =
     (if invalid = 0 then None
      else Some (case legacy of
          Some label \<Rightarrow>
            ''(Note: '' @ show_nat invalid @ '' invalid byte '' @ sequence_noun invalid @
            '' shown as U+FFFD '' @ em_dash @ '' the command likely wrote '' @ label @
            '', this system's legacy code page. Re-run with encoding='' @ quote_char @ label @ quote_char @
            '', or redirect to a file and use the inspect_local_file tool.)''
        | None \<Rightarrow>
            ''(Note: '' @ show_nat invalid @ '' invalid byte '' @ sequence_noun invalid @
            '' shown as U+FFFD. If the text looks garbled, pass the source encoding via the encoding parameter.)''))"

definition job_garble_note :: "utf8 option \<Rightarrow> nat \<Rightarrow> nat \<Rightarrow> utf8 option" where
  "job_garble_note legacy invalid anchor =
     (if invalid = 0 then None
      else Some (case legacy of
          Some label \<Rightarrow>
            ''(Note: '' @ show_nat invalid @ '' invalid byte '' @ sequence_noun invalid @
            '' shown as U+FFFD '' @ em_dash @ '' the job likely wrote '' @ label @
            '', this system's legacy code page. Call job_output again with after_seq='' @
            show_nat anchor @ '' and encoding='' @ quote_char @ label @ quote_char @
            '' to re-read this page.)''
        | None \<Rightarrow>
            ''(Note: '' @ show_nat invalid @ '' invalid byte '' @ sequence_noun invalid @
            '' shown as U+FFFD. If the text looks garbled, call job_output again with after_seq='' @
            show_nat anchor @ '' and the source encoding via encoding.)''))"

section \<open>Lemmas\<close>

lemma concat_chars: "concat (chars t) = t"
  by (induction t rule: chars.induct) auto

text \<open>A line is presented as its first 2,000 characters.\<close>

lemma present_line_text:
  "fst (present_line text n known) =
     concat (take max_presented_line_chars (chars text)) @
     (if snd (snd (present_line text n known))
      then ''... [line truncated: '' @ show_nat n @ '' bytes total]'' else [])"
proof (cases "max_presented_line_chars < length (chars text)")
  case True
  have "take (length (concat (take max_presented_line_chars (chars text)))) text =
      concat (take max_presented_line_chars (chars text))"
    by (metis append_eq_conv_conj append_take_drop_id concat_append concat_chars)
  with True show ?thesis by (simp add: present_line_def Let_def)
next
  case False
  then show ?thesis by (simp add: present_line_def Let_def concat_chars)
qed

lemma utf32_chunks:
  "list_all is_scalar vs \<Longrightarrow>
     utf32_loop True (concat (map (le_bytes 4) vs)) acc invalid = (acc @ concat (map utf8_of vs), invalid) \<and>
     utf32_loop False (concat (map (be_bytes 4) vs)) acc invalid = (acc @ concat (map utf8_of vs), invalid)"
proof (induction vs arbitrary: acc)
  case (Cons v vs)
  have "v < 256 ^ 4" using Cons.prems by (simp add: is_scalar_def)
  then have v: "le_value (le_bytes 4 v) = v" by (rule le_value_bytes)
  have l: "length (be_bytes 4 v) = 4" by (simp add: be_bytes_def)
  have r: "rev (be_bytes 4 v) = le_bytes 4 v" by (simp add: be_bytes_def)
  from Cons v l r show ?case
    by (simp add: utf32_loop.simps [of True "le_bytes 4 v @ bs" for bs]
        utf32_loop.simps [of False "be_bytes 4 v @ bs" for bs] Let_def)
qed (simp add: utf32_loop.simps)

lemma decode_lines_shape:
  "\<exists>d. decode_lines cs ls plan = d \<and> length (dl_lines d) = length ls \<and>
     length (dl_invalid_per_line d) = length ls \<and> length (dl_truncated_per_line d) = length ls \<and>
     dl_invalid d = min (sum_list (dl_invalid_per_line d)) usize_max \<and>
     dl_had_truncation d = list_ex id (dl_truncated_per_line d)"
proof (induction ls rule: rev_induct)
  case (snoc l ls)
  then show ?case
    by (auto simp: decode_lines_def decode_one_def add_decoded_def sat_add_def case_prod_beta Let_def
        split: option.split)
qed (simp add: decode_lines_def)

lemma decode_run_length: "decode_run cs ls explicit = Some d \<Longrightarrow> length (dl_lines d) = length ls"
  using decode_lines_shape by (auto simp: decode_run_def)

end
