(* ===== verification/Shell_Output.thy ===== *)
theory Shell_Output
  imports Line_Ring Shell_Encoding Token_Budget
begin

text \<open>
  The response of a foreground command (\<open>src/src/shell/output.rs\<close>, with the hint of
  \<open>src/src/shell/apply_patch_hint.rs\<close>): all output when it fits, otherwise the largest head and
  tail window found by binary search, and the budget check made before the command runs.
\<close>

section \<open>The apply_patch hint\<close>

definition is_whitespace :: "utf8 \<Rightarrow> bool" where
  "is_whitespace c \<longleftrightarrow>
     (let v = scalar c in
      9 \<le> v \<and> v \<le> 13 \<or> v = 32 \<or> v = 0x85 \<or> v = 0xA0 \<or> v = 0x1680 \<or> 0x2000 \<le> v \<and> v \<le> 0x200A \<or>
      v \<in> {0x2028, 0x2029, 0x202F, 0x205F, 0x3000})"

definition leading_word :: "utf8 \<Rightarrow> utf8" where
  "leading_word segment =
     concat (takeWhile (\<lambda>c. \<not> (is_whitespace c \<or> c = ''<'' \<or> c = ''>''))
       (dropWhile is_whitespace (chars segment)))"

fun split_segments :: "utf8 \<Rightarrow> utf8 \<Rightarrow> utf8 list" where
  "split_segments acc [] = [acc]"
| "split_segments acc (c # cs) =
     (if c \<in> set '';&|({'' \<or> c = nl then acc # split_segments [] cs
      else split_segments (acc @ [c]) cs)"

definition channel_name :: utf8 where
  "channel_name = ''apply_patch''"

definition invokes_channel :: "utf8 \<Rightarrow> bool" where
  "invokes_channel command \<longleftrightarrow>
     contains command channel_name \<and>
     list_ex (\<lambda>segment. leading_word segment = channel_name) (split_segments [] command)"

definition misuse_text :: utf8 where
  "misuse_text =
     ''(Note: apply_patch is not a program and no shell can run it. Reach it through Codex itself '' @
     em_dash @ '' its own tool call, or Codex's built-in shell '' @ em_dash @
     '' not through this tool.)''"

definition misuse_note :: "utf8 \<Rightarrow> int \<Rightarrow> nat option \<Rightarrow> utf8 option" where
  "misuse_note command exit_code timeout_ms =
     (if timeout_ms = None \<and> exit_code \<noteq> 0 \<and> invokes_channel command then Some misuse_text else None)"

section \<open>Notes\<close>

definition plural :: "nat \<Rightarrow> utf8 \<Rightarrow> utf8 \<Rightarrow> utf8" where
  "plural n singular plural_form = (if n = 1 then singular else plural_form)"

definition join_notes :: "utf8 option \<Rightarrow> utf8 option \<Rightarrow> utf8 option" where
  "join_notes first second =
     (case (first, second) of
        (Some a, Some b) \<Rightarrow> Some (a @ [nl] @ b)
      | (Some a, None) \<Rightarrow> Some a
      | (None, Some b) \<Rightarrow> Some b
      | (None, None) \<Rightarrow> None)"

definition dropped_note :: "nat \<Rightarrow> utf8 option" where
  "dropped_note dropped =
     (if 0 < dropped
      then Some (''(Note: '' @ show_nat dropped @ '' earlier '' @ plural dropped ''line'' ''lines'' @ '' '' @
        (if dropped = 1 then ''was'' else ''were'') @
        '' dropped from the buffer and cannot be retrieved.)'')
      else None)"

definition compose_response_with_tail ::
    "utf8 option \<Rightarrow> utf8 list \<Rightarrow> utf8 option \<Rightarrow> utf8 \<Rightarrow> utf8" where
  "compose_response_with_tail leading ls trailing terminal =
     (let ns = (case trailing of None \<Rightarrow> [] | Some t \<Rightarrow> [t]) @ [terminal];
          body = (if ls = [] then join [nl] ns else join [nl] ls @ [nl, nl] @ join [nl] ns) in
      case leading of None \<Rightarrow> body | Some note \<Rightarrow> note @ [nl, nl] @ body)"

definition compose_response :: "utf8 option \<Rightarrow> utf8 list \<Rightarrow> utf8 \<Rightarrow> utf8" where
  "compose_response leading ls terminal = compose_response_with_tail leading ls None terminal"

definition full_terminal :: "int \<Rightarrow> nat option \<Rightarrow> nat \<Rightarrow> bool \<Rightarrow> utf8" where
  "full_terminal exit_code timeout_ms n had_truncation =
     (case timeout_ms of
        Some timeout \<Rightarrow>
          ''(Partial: timed out after '' @ show_nat timeout @
          '' ms and the process tree was killed; '' @
          (if n = 0 then ''no output captured''
           else show_nat n @ '' '' @ plural n ''line'' ''lines'' @ '' captured'') @
          ''. Increase timeout_ms or use run_background.)''
      | None \<Rightarrow>
          (if n = 0 then ''(Complete: exited '' @ show_int exit_code @ ''; no output.)''
           else if had_truncation
           then ''(Partial: exited '' @ show_int exit_code @ ''; '' @ show_nat n @ '' '' @
             plural n ''line'' ''lines'' @
             '' shown, but one or more long lines were truncated at 2000 chars.)''
           else ''(Complete: exited '' @ show_int exit_code @ ''; '' @ show_nat n @ '' '' @
             plural n ''line'' ''lines'' @ ''.)''))"

definition window_terminal :: "int \<Rightarrow> nat option \<Rightarrow> nat \<Rightarrow> nat \<Rightarrow> nat \<Rightarrow> utf8" where
  "window_terminal exit_code timeout_ms first tail n =
     (case timeout_ms of
        None \<Rightarrow>
          ''(Partial: showing the first '' @ show_nat first @ '' and last '' @ show_nat tail @ '' of '' @
          show_nat n @ '' lines; exited '' @ show_int exit_code @ ''.)''
      | Some timeout \<Rightarrow>
          ''(Partial: timed out after '' @ show_nat timeout @
          '' ms and the process tree was killed; showing the first '' @ show_nat first @ '' and last '' @
          show_nat tail @ '' of '' @ show_nat n @
          '' captured lines. Increase timeout_ms or use run_background.)'')"

definition omitted_line :: "nat \<Rightarrow> utf8" where
  "omitted_line n = ''... ['' @ show_nat n @ '' lines omitted] ...''"

section \<open>Budgets\<close>

definition run_variable :: utf8 where
  "run_variable = ''FASTCTX_RUN_TOKEN_BUDGET''"

definition budget_too_small_message :: "token_budget \<Rightarrow> utf8" where
  "budget_too_small_message b =
     tb_variable b @ ''='' @ show_nat (tb_value b) @
     '' is too small to return the required status note. Increase it and retry.''"

definition i32_min :: int where
  "i32_min = - 2147483648"

definition run_candidates :: "nat \<Rightarrow> utf8 list" where
  "run_candidates timeout_ms =
     (let maximum = usize_max in
      [''(Complete: exited '' @ show_int i32_min @ ''; no output.)'',
       ''(Complete: exited '' @ show_int i32_min @ ''; '' @ show_nat maximum @ '' lines.)'',
       ''(Partial: exited '' @ show_int i32_min @ ''; '' @ show_nat maximum @
         '' lines shown, but one or more long lines were truncated at 2000 chars.)'',
       ''(Partial: showing the first 0 and last 0 of '' @ show_nat maximum @ '' lines; exited '' @
         show_int i32_min @ ''.)'',
       ''(Partial: timed out after '' @ show_nat timeout_ms @
         '' ms and the process tree was killed; no output captured. Increase timeout_ms or use run_background.)'',
       ''(Partial: timed out after '' @ show_nat timeout_ms @
         '' ms and the process tree was killed; '' @ show_nat maximum @
         '' lines captured. Increase timeout_ms or use run_background.)'',
       ''(Partial: timed out after '' @ show_nat timeout_ms @
         '' ms and the process tree was killed; showing the first 0 and last 0 of '' @ show_nat maximum @
         '' captured lines. Increase timeout_ms or use run_background.)'',
       compose_response (dropped_note maximum) [omitted_line maximum]
         (window_terminal i32_min None 0 0 maximum)])"

definition required_run_tokens :: "tokenizer \<Rightarrow> nat \<Rightarrow> nat" where
  "required_run_tokens T timeout_ms =
     foldl max 0 (map (estimate_tokens T) (run_candidates timeout_ms))"

definition validate_run_budget ::
    "tokenizer \<Rightarrow> environment \<Rightarrow> nat \<Rightarrow> budget_slots \<Rightarrow> (utf8 + token_budget) \<times> budget_slots" where
  "validate_run_budget T env timeout_ms st =
     (let required = required_run_tokens T timeout_ms in
      case tool_token_budget_for_required env run_variable required st of
        (Inl e, st) \<Rightarrow> (Inl e, st)
      | (Inr b, st) \<Rightarrow>
          (if required \<le> tb_value b then Inr b else Inl (budget_too_small_message b), st))"

definition terminal_response ::
    "tokenizer \<Rightarrow> environment \<Rightarrow> utf8 \<Rightarrow> token_budget \<Rightarrow> budget_slots \<Rightarrow> tool_response \<times> budget_slots" where
  "terminal_response T env terminal b st =
     (let required = estimate_tokens T terminal in
      case tool_token_budget_for_required env (tb_variable b) required st of
        (r, st) \<Rightarrow>
          (let b = (case r of Inr b' \<Rightarrow> b' | Inl e \<Rightarrow> b) in
           (if required \<le> tb_value b then text_response terminal
            else error_response (budget_too_small_message b), st)))"

section \<open>Windows\<close>

record foreground_window =
  fw_lines :: "utf8 list"
  fw_invalid :: "nat list"
  fw_notes :: "utf8 option"
  fw_total :: nat
  fw_dropped :: nat
  fw_exit :: int
  fw_timeout :: "nat option"

definition window_candidate :: "utf8 option \<Rightarrow> foreground_window \<Rightarrow> nat \<Rightarrow> nat \<Rightarrow> utf8" where
  "window_candidate legacy w first tail =
     (let omitted = fw_total w - sat_add first tail;
          body = take first (fw_lines w) @ (if 0 < omitted then [omitted_line omitted] else []) @
            (if 0 < tail then drop (length (fw_lines w) - tail) (fw_lines w) else []);
          invalid = foldl sat_add 0 (take first (fw_invalid w) @ take tail (rev (fw_invalid w)));
          leading =
            (case (dropped_note (fw_dropped w), run_garble_note legacy invalid) of
               (Some d, Some g) \<Rightarrow> Some (d @ [nl, nl] @ g)
             | (Some d, None) \<Rightarrow> Some d
             | (None, Some g) \<Rightarrow> Some g
             | (None, None) \<Rightarrow> None);
          terminal = window_terminal (fw_exit w) (fw_timeout w) first tail (fw_total w) in
      compose_response_with_tail leading body (fw_notes w) terminal)"

text \<open>The binary search both loops use: the largest number found that fits, if any.\<close>

function search_fits :: "(nat \<Rightarrow> bool) \<Rightarrow> nat \<Rightarrow> nat \<Rightarrow> nat option \<Rightarrow> nat option" where
  "search_fits fits low high best =
     (if low \<le> high then
        let middle = low + (high - low) div 2 in
        if fits middle then search_fits fits (middle + 1) high (Some middle)
        else if middle = 0 then best
        else search_fits fits low (middle - 1) best
      else best)"
  by pat_completeness auto
termination
  by (relation "measure (\<lambda>(fits, low, high, best). Suc high - low)") auto

declare search_fits.simps [simp del]

definition largest_prefix_within :: "tokenizer \<Rightarrow> utf8 list \<Rightarrow> nat \<Rightarrow> nat" where
  "largest_prefix_within T ls target =
     (if target = 0 then 0
      else case search_fits (\<lambda>m. estimate_tokens T (join [nl] (take m ls)) \<le> target)
             0 (length ls) None of
          None \<Rightarrow> 0
        | Some m \<Rightarrow> m)"

definition largest_head_tail ::
    "tokenizer \<Rightarrow> utf8 option \<Rightarrow> foreground_window \<Rightarrow> nat \<Rightarrow> utf8 option" where
  "largest_head_tail T legacy w budget =
     (let base = window_candidate legacy w 0 0; base_tokens = estimate_tokens T base in
      if budget < base_tokens then None
      else
        let first = largest_prefix_within T (fw_lines w) ((budget - base_tokens) div 10);
            remaining = length (fw_lines w) - first in
        Some (case search_fits
                (\<lambda>tail. estimate_tokens T (window_candidate legacy w first tail) \<le> budget)
                0 remaining None of
            None \<Rightarrow> base
          | Some tail \<Rightarrow> window_candidate legacy w first tail))"

section \<open>The response\<close>

definition encode_lines :: "line_ring \<Rightarrow> encoded_line list" where
  "encode_lines r =
     map (\<lambda>l. \<lparr>el_bytes = bl_bytes l, el_total = bl_total l, el_stream = bl_encoding l,
               el_legacy = None, el_truncated = bl_truncated l\<rparr>) (ring_lines r)"

definition foreground_window ::
    "line_ring \<Rightarrow> utf8 \<Rightarrow> int \<Rightarrow> nat option \<Rightarrow> decoded_lines \<Rightarrow> foreground_window" where
  "foreground_window r command exit_code timeout_ms d =
     \<lparr>fw_lines = dl_lines d, fw_invalid = dl_invalid_per_line d,
      fw_notes = join_notes (dl_note d) (misuse_note command exit_code timeout_ms),
      fw_total = ring_total_lines r, fw_dropped = ring_dropped_lines r, fw_exit = exit_code,
      fw_timeout = timeout_ms\<rparr>"

definition full_text :: "utf8 option \<Rightarrow> foreground_window \<Rightarrow> decoded_lines \<Rightarrow> utf8" where
  "full_text legacy w d =
     compose_response_with_tail (run_garble_note legacy (dl_invalid d)) (fw_lines w) (fw_notes w)
       (full_terminal (fw_exit w) (fw_timeout w) (fw_total w) (dl_had_truncation d))"

definition format_foreground_with_budget ::
    "tokenizer \<Rightarrow> codecs \<Rightarrow> utf8 option \<Rightarrow> line_ring \<Rightarrow> utf8 \<Rightarrow> int \<Rightarrow> nat option \<Rightarrow> whatwg option \<Rightarrow>
     token_budget \<Rightarrow> tool_response option" where
  "format_foreground_with_budget T cs legacy r command exit_code timeout_ms explicit budget =
     map_option (\<lambda>d.
       let w = foreground_window r command exit_code timeout_ms d;
           response = full_text legacy w d in
       if fw_dropped w = 0 \<and> estimate_tokens T response \<le> tb_value budget
       then text_response response
       else case largest_head_tail T legacy w (tb_value budget) of
           Some t \<Rightarrow> text_response t
         | None \<Rightarrow> error_response (budget_too_small_message budget))
     (decode_run cs (encode_lines r) explicit)"

definition format_foreground ::
    "tokenizer \<Rightarrow> codecs \<Rightarrow> utf8 option \<Rightarrow> environment \<Rightarrow> budget_slots \<Rightarrow> line_ring \<Rightarrow> utf8 \<Rightarrow> int \<Rightarrow>
     nat option \<Rightarrow> whatwg option \<Rightarrow> tool_response option" where
  "format_foreground T cs legacy env st r command exit_code timeout_ms explicit =
     (case tool_token_budget env run_variable st of
        Inl e \<Rightarrow> Some (error_response e)
      | Inr b \<Rightarrow> format_foreground_with_budget T cs legacy r command exit_code timeout_ms explicit b)"

section \<open>The search\<close>

lemma search_fits_hit:
  assumes "low \<le> high" and "m = low + (high - low) div 2" and "fits m"
  shows "search_fits fits low high best = search_fits fits (m + 1) high (Some m)"
  using assms(1,3) unfolding assms(2) by (subst search_fits.simps) (simp add: Let_def)

lemma search_fits_miss:
  assumes "low \<le> high" and "m = low + (high - low) div 2" and "\<not> fits m"
  shows "search_fits fits low high best = (if m = 0 then best else search_fits fits low (m - 1) best)"
  using assms(1,3) unfolding assms(2) by (subst search_fits.simps) (simp add: Let_def cong: if_cong)

lemma search_fits_spec:
  "(best = None \<longrightarrow> low = 0) \<Longrightarrow> (\<forall>m. best = Some m \<longrightarrow> low = Suc m \<and> fits m) \<Longrightarrow>
   (high = upper \<or> \<not> fits (Suc high)) \<Longrightarrow> high \<le> upper \<Longrightarrow> low \<le> Suc high \<Longrightarrow>
     (case search_fits fits low high best of
        None \<Rightarrow> \<not> fits 0
      | Some m \<Rightarrow> m \<le> upper \<and> fits m \<and> (m = upper \<or> \<not> fits (Suc m)))"
proof (induction fits low high best rule: search_fits.induct)
  case (1 fits low high best)
  show ?case
  proof (cases "low \<le> high")
    case True
    obtain m where m: "m = low + (high - low) div 2" "low \<le> m" "m \<le> high"
      using True by (metis add.commute div_le_dividend le_add1 le_diff_conv2 ordered_cancel_comm_monoid_diff_class.add_diff_inverse add_le_mono1 le_add_diff_inverse nat_add_left_cancel_le)
    show ?thesis
    proof (cases "fits m")
      case hit: True
      have "search_fits fits low high best = search_fits fits (m + 1) high (Some m)"
        by (rule search_fits_hit [where fits = fits, OF True m(1) hit])
      with "1.IH"(1) [OF True m(1) hit] "1.prems"(3,4) m(3) hit show ?thesis by simp
    next
      case miss: False
      show ?thesis
      proof (cases "m = 0")
        case zero: True
        have "search_fits fits low high best = best"
          using search_fits_miss [where fits = fits, OF True m(1) miss, of best] zero by simp
        moreover have "best = None" using "1.prems"(2) m(2) zero by (cases best) auto
        ultimately show ?thesis using miss zero by simp
      next
        case False
        have "search_fits fits low high best = search_fits fits low (m - 1) best"
          using search_fits_miss [where fits = fits, OF True m(1) miss, of best] False by simp
        moreover have "low \<le> Suc (m - 1)" "m - 1 \<le> upper" "\<not> fits (Suc (m - 1))"
          using m "1.prems"(4) False miss by simp_all
        ultimately show ?thesis
          using "1.IH"(2) [OF True m(1) miss False] "1.prems"(1,2) by simp
      qed
    qed
  next
    case False
    then have "search_fits fits low high best = best" by (subst search_fits.simps) simp
    moreover have "low = Suc high" using False "1.prems"(5) by simp
    ultimately show ?thesis using "1.prems" by (cases best) auto
  qed
qed

lemma search_fits_start:
  "case search_fits fits 0 upper None of
     None \<Rightarrow> \<not> fits 0
   | Some m \<Rightarrow> m \<le> upper \<and> fits m \<and> (m = upper \<or> \<not> fits (Suc m))"
  by (rule search_fits_spec) auto

lemma largest_prefix_spec:
  "largest_prefix_within T ls target \<le> length ls \<and>
   (largest_prefix_within T ls target = 0 \<or>
    estimate_tokens T (join [nl] (take (largest_prefix_within T ls target) ls)) \<le> target)"
  using search_fits_start [of "\<lambda>m. estimate_tokens T (join [nl] (take m ls)) \<le> target" "length ls"]
  by (auto simp: largest_prefix_within_def split: option.splits)

text \<open>What the window search returns, with no assumption on the tokenizer.\<close>

lemma largest_head_tail_spec:
  "case largest_head_tail T legacy w budget of
     None \<Rightarrow> budget < estimate_tokens T (window_candidate legacy w 0 0)
   | Some t \<Rightarrow> estimate_tokens T t \<le> budget \<and>
       (\<exists>first tail. first + tail \<le> length (fw_lines w) \<and> t = window_candidate legacy w first tail \<and>
          (first + tail = length (fw_lines w) \<or>
           budget < estimate_tokens T (window_candidate legacy w first (Suc tail)) \<or>
           first = 0 \<and> tail = 0 \<and>
             (\<exists>head. 0 < head \<and> budget < estimate_tokens T (window_candidate legacy w head 0))))"
proof (cases "budget < estimate_tokens T (window_candidate legacy w 0 0)")
  case True
  then show ?thesis by (simp add: largest_head_tail_def Let_def)
next
  case False
  let ?base = "window_candidate legacy w 0 0"
  obtain first where f: "first = largest_prefix_within T (fw_lines w) ((budget - estimate_tokens T ?base) div 10)"
    by simp
  have fl: "first \<le> length (fw_lines w)" using largest_prefix_spec f by blast
  let ?fits = "\<lambda>tail. estimate_tokens T (window_candidate legacy w first tail) \<le> budget"
  let ?s = "search_fits ?fits 0 (length (fw_lines w) - first) None"
  note s = search_fits_start [of ?fits "length (fw_lines w) - first"]
  have r: "largest_head_tail T legacy w budget =
      Some (case ?s of None \<Rightarrow> ?base | Some tail \<Rightarrow> window_candidate legacy w first tail)"
    using False unfolding largest_head_tail_def Let_def f [symmetric] by simp
  show ?thesis
  proof (cases ?s)
    case None
    with s have "\<not> ?fits 0" by simp
    moreover from this False have "0 < first" by (cases first) auto
    ultimately have "\<exists>head. 0 < head \<and> budget < estimate_tokens T (window_candidate legacy w head 0)"
      by (auto simp: not_le)
    with r None False show ?thesis
      unfolding r None option.case by (intro conjI exI [of _ "0::nat"]) simp_all
  next
    case (Some tail)
    with s have "tail \<le> length (fw_lines w) - first" "?fits tail"
      "tail = length (fw_lines w) - first \<or> \<not> ?fits (Suc tail)" by simp_all
    with fl have "first + tail \<le> length (fw_lines w)"
      "first + tail = length (fw_lines w) \<or>
       budget < estimate_tokens T (window_candidate legacy w first (Suc tail))"
      by (auto simp: not_le)
    with \<open>?fits tail\<close> show ?thesis unfolding r Some option.case by blast
  qed
qed

lemma candidate_fits_required:
  "c \<in> set (run_candidates timeout_ms) \<Longrightarrow> estimate_tokens T c \<le> required_run_tokens T timeout_ms"
proof -
  have "x \<in> set xs \<Longrightarrow> x \<le> foldl max b xs" "b \<le> foldl max b xs" for x b :: nat and xs
    by (induction xs arbitrary: b) (auto intro: order_trans [OF max.cobounded1] order_trans [OF max.cobounded2])
  then show "c \<in> set (run_candidates timeout_ms) \<Longrightarrow>
      estimate_tokens T c \<le> required_run_tokens T timeout_ms"
    by (simp add: required_run_tokens_def)
qed

lemma required_is_candidate:
  "\<exists>c \<in> set (run_candidates timeout_ms). required_run_tokens T timeout_ms = estimate_tokens T c"
proof -
  have "xs \<noteq> [] \<Longrightarrow> foldl max 0 xs \<in> set xs" for xs :: "nat list"
  proof (induction xs rule: rev_induct)
    case (snoc x xs)
    then show ?case by (cases "xs = []") (auto simp: max_def)
  qed simp
  moreover have "map (estimate_tokens T) (run_candidates timeout_ms) \<noteq> []"
    by (simp add: run_candidates_def Let_def)
  ultimately have "required_run_tokens T timeout_ms \<in> set (map (estimate_tokens T) (run_candidates timeout_ms))"
    unfolding required_run_tokens_def by blast
  then show ?thesis unfolding set_map by blast
qed

section \<open>Properties\<close>


text \<open>A ring with one line, a command that fails, and no decoder to choose.\<close>

definition plain_codec :: whatwg where
  "plain_codec = \<lparr>wl_name = ''UTF-8'', wl_decode = (\<lambda>bs. (map (\<lambda>b. char_of (unat b)) bs, []))\<rparr>"

definition plain_codecs :: codecs where
  "plain_codecs =
     \<lparr>utf8_codec = plain_codec, utf16le_codec = plain_codec\<lparr>wl_name := ''UTF-16LE''\<rparr>,
      utf16be_codec = plain_codec\<lparr>wl_name := ''UTF-16BE''\<rparr>, for_label = (\<lambda>_. None),
      detect_source = (\<lambda>_. None)\<rparr>"

definition one_line_ring :: "nat \<Rightarrow> line_ring" where
  "one_line_ring n =
     \<lparr>ring_lines = [\<lparr>bl_seq = 1, bl_bytes = replicate n 97, bl_total = n, bl_encoding = None,
        bl_truncated = False\<rparr>],
      ring_storage = n + 49, ring_limit = output_buffer_bytes, ring_next_seq = 2,
      ring_had_truncation = False, ring_had_drop = False\<rparr>"

lemma chars_ascii: "chars (replicate n (CHR ''a'')) = replicate n ''a''"
  by (induction n) auto

lemma letter_a: "char_of (97 :: nat) = CHR ''a''"
  by (simp only: of_char_eq_iff [where 'a = nat, symmetric]) simp

lemma one_line_decodes:
  "n \<le> 2000 \<Longrightarrow> \<exists>d. decode_run plain_codecs (encode_lines (one_line_ring n)) None = Some d \<and>
     dl_lines d = [replicate n (CHR ''a'')] \<and> dl_note d = None \<and> dl_invalid d = 0"
  by (auto simp: decode_run_def automatic_run_plan_def bom_plan_def encode_lines_def one_line_ring_def
      plain_codecs_def plain_codec_def decode_lines_def decode_one_def add_decoded_def decode_bytes_def
      present_line_def letter_a chars_ascii max_presented_line_chars_def transcoding_note_def plan_is_utf8_def
      sat_add_def Let_def map_replicate)



text \<open>
  The list leaves notes out: the hint for a mistaken \<open>apply_patch\<close> (like the transcoding note) is part
  of every window but of no candidate. With one token for each byte, 240 tokens cover the whole
  list, and a failing command that prints one long line still gets an error instead of output.
\<close>

lemma length_show_nat: "n < 10 ^ k \<Longrightarrow> 0 < k \<Longrightarrow> length (show_nat n) \<le> k"
proof (induction n arbitrary: k rule: show_nat.induct)
  case (1 n)
  show ?case
  proof (cases "n < 10")
    case True
    with 1 show ?thesis by (simp add: show_nat.simps [of n])
  next
    case False
    then obtain j where j: "k = Suc j" "0 < j" using 1 by (cases k; cases "k - 1") auto
    with 1 False have "n div 10 < 10 ^ j" by (simp add: less_mult_imp_div_less)
    with 1 False j show ?thesis by (simp add: show_nat.simps [of n])
  qed
qed

lemma widths: "length (show_nat usize_max) \<le> 20" "length (show_int i32_min) \<le> 11"
  "length (show_nat 1000) \<le> 4"
proof -
  show "length (show_nat usize_max) \<le> 20"
    using length_show_nat [of usize_max 20] by (simp add: usize_max_def)
  show "length (show_int i32_min) \<le> 11"
    using length_show_nat [of 2147483648 10] by (simp add: show_int_def i32_min_def)
  show "length (show_nat 1000) \<le> 4" using length_show_nat [of 1000 4] by simp
qed

lemma candidate_lengths: "c \<in> set (run_candidates 1000) \<Longrightarrow> length c \<le> 240"
proof -
  have "usize_max \<noteq> 1" by (simp add: usize_max_def)
  moreover have "length (show_nat 0) \<le> 1" using length_show_nat [of 0 1] by simp
  ultimately show "c \<in> set (run_candidates 1000) \<Longrightarrow> length c \<le> 240"
    using widths
    by (auto simp: run_candidates_def Let_def compose_response_def compose_response_with_tail_def
        dropped_note_def omitted_line_def window_terminal_def plural_def)
qed

lemma misuse_run: "misuse_note ''apply_patch'' 127 None = Some misuse_text"
  by (simp add: misuse_note_def invokes_channel_def contains_def channel_name_def leading_word_def
      is_whitespace_def scalar_def lead_bits_def upt_rec)

lemma validated_run_refused:
  "(\<forall>c \<in> set (run_candidates 1000). estimate_tokens byte_tokenizer c \<le> 240) \<and>
   format_foreground_with_budget byte_tokenizer plain_codecs None (one_line_ring 300) ''apply_patch'' 127
     None None \<lparr>tb_value = 240, tb_variable = run_variable\<rparr> =
   Some (error_response (budget_too_small_message \<lparr>tb_value = 240, tb_variable = run_variable\<rparr>))"
proof -
  let ?r = "one_line_ring 300" and ?b = "\<lparr>tb_value = 240, tb_variable = run_variable\<rparr>"
  obtain d where d: "decode_run plain_codecs (encode_lines ?r) None = Some d"
    "dl_lines d = [replicate 300 (CHR ''a'')]" "dl_note d = None" "dl_invalid d = 0"
    using one_line_decodes [of 300] by auto
  let ?w = "foreground_window ?r ''apply_patch'' 127 None d"
  have w: "fw_notes ?w = Some misuse_text" "fw_dropped ?w = 0" "fw_total ?w = 1" "fw_exit ?w = 127"
    "fw_timeout ?w = None" "fw_lines ?w = [replicate 300 (CHR ''a'')]"
    using d by (simp_all add: foreground_window_def misuse_run join_notes_def ring_dropped_lines_def
        ring_total_lines_def one_line_ring_def)
  have "240 < length (full_text None ?w d)"
    by (simp add: full_text_def w compose_response_with_tail_def Let_def run_garble_note_def d)
  moreover have "240 < length (window_candidate None ?w 0 0)"
    by (simp add: window_candidate_def w compose_response_with_tail_def Let_def run_garble_note_def
        dropped_note_def omitted_line_def window_terminal_def misuse_text_def em_dash_def sat_add_def
        show_nat.simps show_int_def)
  ultimately have "largest_head_tail byte_tokenizer None ?w 240 = None"
    "\<not> estimate_tokens byte_tokenizer (full_text None ?w d) \<le> 240"
    by (simp_all add: largest_head_tail_def byte_tokens Let_def)
  with d(1) have "format_foreground_with_budget byte_tokenizer plain_codecs None ?r ''apply_patch'' 127
      None None ?b = Some (error_response (budget_too_small_message ?b))"
    by (simp add: format_foreground_with_budget_def Let_def)
  with candidate_lengths show ?thesis by (simp add: byte_tokens)
qed


end
