(* ===== verification/Output_Log.thy ===== *)
theory Output_Log
  imports Normalizer
begin

text \<open>
  The append-only log of a background job and its line index
  (\<open>src/src/shell/jobs/output_log.rs\<close>): the writer with its disk quota and flush order, and the
  reader that finds lines through the index.

  Files are byte lists. The log goes through a buffered writer of the standard library, so what is
  on disk and what is still buffered are two fields. Failing operating-system calls, which end an
  operation with their error, are not modelled; every other error is.
\<close>

section \<open>Constants\<close>

definition index_header :: "byte list" where
  "index_header = [70, 67, 84, 88, 73, 68, 88, 49]"

definition index_entry_bytes :: nat where
  "index_entry_bytes = 24"

definition flush_limit :: nat where
  "flush_limit = 64 * 1024"

definition max_stored_line_bytes :: nat where
  "max_stored_line_bytes = 64 * 1024"

definition max_recovery_scan_bytes :: nat where
  "max_recovery_scan_bytes = 256 * 1024"

definition line_ending :: "stream_encoding option \<Rightarrow> byte list" where
  "line_ending enc =
     (case enc of None \<Rightarrow> [10] | Some Utf16Le \<Rightarrow> [10, 0] | Some Utf16Be \<Rightarrow> [0, 10]
      | Some Utf32Le \<Rightarrow> [10, 0, 0, 0] | Some Utf32Be \<Rightarrow> [0, 0, 0, 10])"

definition stream_width :: "stream_encoding option \<Rightarrow> nat" where
  "stream_width enc = (case enc of None \<Rightarrow> 1 | Some e \<Rightarrow> unit_bytes e)"

section \<open>Index entries\<close>

record line_index_entry =
  ie_start :: nat
  ie_content_end :: nat
  ie_record_end :: nat

definition encode_entry :: "line_index_entry \<Rightarrow> byte list" where
  "encode_entry e = le_bytes 8 (ie_start e) @ le_bytes 8 (ie_content_end e) @ le_bytes 8 (ie_record_end e)"

definition decode_entry :: "byte list \<Rightarrow> line_index_entry option" where
  "decode_entry bs =
     (if length bs \<noteq> 24 then None
      else
        let start = le_value (take 8 bs); content_end = le_value (take 8 (drop 8 bs));
            record_end = le_value (drop 16 bs) in
        if start \<le> content_end \<and> content_end \<le> record_end
        then Some \<lparr>ie_start = start, ie_content_end = content_end, ie_record_end = record_end\<rparr>
        else None)"

section \<open>The writer\<close>

record log_writer =
  lw_disk :: "byte list"
  lw_buffer :: "byte list"
  lw_index :: "byte list"
  lw_pending :: "byte list"
  lw_position :: nat
  lw_current_start :: nat
  lw_has_content :: bool
  lw_total :: nat
  lw_durable :: nat
  lw_committed :: nat
  lw_indexed :: nat
  lw_encoding :: "stream_encoding option"
  lw_started :: bool
  lw_since_flush :: nat
  lw_limit :: nat
  lw_quota :: bool

datatype log_error = LimitTooSmall nat | Restarted | NotStarted | DamagedIndex | NoSuchLine nat nat
  | Underflow

definition writer_with_limit :: "nat \<Rightarrow> log_error + log_writer" where
  "writer_with_limit limit =
     (if limit < length index_header + index_entry_bytes then Inl (LimitTooSmall limit)
      else Inr \<lparr>lw_disk = [], lw_buffer = [], lw_index = index_header, lw_pending = [],
        lw_position = 0, lw_current_start = 0, lw_has_content = False, lw_total = 0, lw_durable = 0,
        lw_committed = 0, lw_indexed = 0, lw_encoding = None, lw_started = False,
        lw_since_flush = 0, lw_limit = limit, lw_quota = False\<rparr>)"

text \<open>\<open>BufWriter::write_all\<close> with the capacity the writer asks for.\<close>

definition buf_write :: "byte list \<Rightarrow> log_writer \<Rightarrow> log_writer" where
  "buf_write bs w =
     (let spare = flush_limit - length (lw_buffer w) in
      if length bs < spare then w\<lparr>lw_buffer := lw_buffer w @ bs\<rparr>
      else
        let w = (if spare < length bs
                 then w\<lparr>lw_disk := lw_disk w @ lw_buffer w, lw_buffer := []\<rparr> else w) in
        if flush_limit \<le> length bs
        then w\<lparr>lw_disk := lw_disk w @ lw_buffer w @ bs, lw_buffer := []\<rparr>
        else w\<lparr>lw_buffer := lw_buffer w @ bs\<rparr>)"

definition write_log_unchecked :: "byte list \<Rightarrow> log_writer \<Rightarrow> log_writer" where
  "write_log_unchecked bs w =
     (let w = buf_write bs w in
      w\<lparr>lw_position := sat_add (lw_position w) (length bs),
        lw_since_flush := sat_add (lw_since_flush w) (length bs)\<rparr>)"

definition combined_bytes :: "log_writer \<Rightarrow> nat" where
  "combined_bytes w =
     sat_add (sat_add (lw_position w) (length index_header)) (sat_mul (lw_total w) index_entry_bytes)"

definition write_fixed :: "byte list \<Rightarrow> log_writer \<Rightarrow> bool \<times> log_writer" where
  "write_fixed bs w =
     (if lw_limit w < sat_add (combined_bytes w) (length bs) then (False, w)
      else (True, write_log_unchecked bs w))"

definition write_content :: "byte list \<Rightarrow> log_writer \<Rightarrow> nat \<times> log_writer" where
  "write_content bs w =
     (let reserve = sat_add index_entry_bytes (length (line_ending (lw_encoding w)));
          available = lw_limit w - combined_bytes w - reserve;
          width = stream_width (lw_encoding w);
          accepted = min available (length bs);
          accepted = accepted - accepted mod width in
      (accepted, write_log_unchecked (take accepted bs) w))"

definition commit_line :: "bool \<Rightarrow> log_writer \<Rightarrow> nat \<times> log_writer" where
  "commit_line terminated w =
     (let content_end = lw_position w;
          w = (if terminated then snd (write_fixed (line_ending (lw_encoding w)) w) else w);
          entry = \<lparr>ie_start = lw_current_start w, ie_content_end = content_end,
                   ie_record_end = lw_position w\<rparr>;
          n = sat_add (lw_total w) 1 in
      (n, w\<lparr>lw_pending := lw_pending w @ encode_entry entry, lw_total := n,
            lw_committed := lw_position w, lw_current_start := lw_position w,
            lw_has_content := False\<rparr>))"

definition try_commit_line :: "bool \<Rightarrow> log_writer \<Rightarrow> nat option \<times> log_writer" where
  "try_commit_line terminated w =
     (let required = sat_add index_entry_bytes
            (if terminated then length (line_ending (lw_encoding w)) else 0) in
      if lw_limit w < sat_add (combined_bytes w) required then (None, w)
      else (case commit_line terminated w of (n, w) \<Rightarrow> (Some n, w)))"

definition log_flush :: "log_writer \<Rightarrow> log_writer" where
  "log_flush w =
     (let w = w\<lparr>lw_disk := lw_disk w @ lw_buffer w, lw_buffer := []\<rparr>;
          w = (if lw_pending w \<noteq> []
               then w\<lparr>lw_index := lw_index w @ lw_pending w, lw_pending := [],
                      lw_indexed := lw_committed w, lw_durable := lw_total w\<rparr> else w) in
      w\<lparr>lw_since_flush := 0\<rparr>)"

text \<open>The elapsed time since the last flush is the parameter \<open>idle\<close>.\<close>

definition flush_if_idle :: "bool \<Rightarrow> log_writer \<Rightarrow> log_writer" where
  "flush_if_idle idle w =
     (if (lw_buffer w \<noteq> [] \<or> lw_pending w \<noteq> []) \<and> idle then log_flush w else w)"

definition append_start ::
    "stream_encoding option \<Rightarrow> log_writer \<Rightarrow> log_error + nat option \<times> log_writer" where
  "append_start enc w =
     (if lw_started w then Inl Restarted
      else
        let w = w\<lparr>lw_started := True, lw_encoding := enc\<rparr>;
            w = (case enc of
                   None \<Rightarrow> w
                 | Some e \<Rightarrow>
                     (case write_fixed (stream_bom e) w of
                        (True, w) \<Rightarrow> w
                      | (False, w) \<Rightarrow> w\<lparr>lw_quota := True\<rparr>)) in
        Inr (None, w\<lparr>lw_current_start := lw_position w\<rparr>))"

definition append_bytes ::
    "byte list \<Rightarrow> log_writer \<Rightarrow> log_error + nat option \<times> log_writer" where
  "append_bytes bs w =
     (if \<not> lw_started w then Inl NotStarted
      else if bs \<noteq> [] \<and> \<not> lw_quota w then
        let (written, w) = write_content bs w;
            w = (if written < length bs then w\<lparr>lw_quota := True\<rparr> else w);
            w = (if 0 < written then w\<lparr>lw_has_content := True\<rparr> else w) in
        if lw_quota w \<and> lw_has_content w
        then (case commit_line False w of (n, w) \<Rightarrow> Inr (Some n, w))
        else Inr (None, w)
      else if bs \<noteq> [] then Inr (None, w\<lparr>lw_quota := True\<rparr>)
      else Inr (None, w))"

definition append_line_end :: "bool \<Rightarrow> log_writer \<Rightarrow> log_error + nat option \<times> log_writer" where
  "append_line_end terminated w =
     (if \<not> lw_started w then Inl NotStarted
      else if lw_quota w then
        (if lw_has_content w then (case commit_line False w of (n, w) \<Rightarrow> Inr (Some n, w))
         else Inr (None, w))
      else (case try_commit_line terminated w of
          (Some n, w) \<Rightarrow> Inr (Some n, w)
        | (None, w) \<Rightarrow>
            (let w = w\<lparr>lw_quota := True\<rparr> in
             if lw_has_content w then (case commit_line False w of (n, w) \<Rightarrow> Inr (Some n, w))
             else Inr (None, w))))"

definition append_event ::
    "normalized_event \<Rightarrow> log_writer \<Rightarrow> log_error + nat option \<times> log_writer" where
  "append_event e w =
     map_r (\<lambda>(committed, w').
         (committed,
          if (\<not> lw_quota w \<and> lw_quota w') \<or> flush_limit \<le> lw_since_flush w' \<or>
             max_recovery_scan_bytes \<le> lw_committed w' - lw_indexed w'
          then log_flush w' else w'))
       (case e of
          Start enc \<Rightarrow> append_start enc w
        | Bytes bs \<Rightarrow> append_bytes bs w
        | LineEnd terminated \<Rightarrow> append_line_end terminated w)"

definition log_finish :: "log_writer \<Rightarrow> log_writer" where
  "log_finish w = log_flush (if lw_has_content w then snd (commit_line False w) else w)"

fun append_all :: "normalized_event list \<Rightarrow> log_writer \<Rightarrow> log_error + log_writer" where
  "append_all [] w = Inr w"
| "append_all (e # es) w = bind_r (append_event e w) (\<lambda>(committed, w). append_all es w)"

definition persisted_index_bytes :: "log_writer \<Rightarrow> nat" where
  "persisted_index_bytes w = length index_header + sat_mul (lw_total w) index_entry_bytes"

text \<open>\<open>slice::chunks_exact\<close>.\<close>

fun chunks_exact :: "nat \<Rightarrow> 'a list \<Rightarrow> 'a list list" where
  "chunks_exact n xs =
     (if n = 0 \<or> length xs < n then [] else take n xs # chunks_exact n (drop n xs))"

declare chunks_exact.simps [simp del]

definition preserved_lines :: "log_writer \<Rightarrow> nat" where
  "preserved_lines w =
     sat_add (lw_durable w)
       (length (takeWhile (\<lambda>e. ie_record_end e \<le> length (lw_disk w))
          (List.map_filter decode_entry (chunks_exact index_entry_bytes (lw_pending w)))))"

section \<open>The reader\<close>

record stored_line =
  sl_seq :: nat
  sl_bytes :: "byte list"
  sl_total :: nat
  sl_encoding :: "stream_encoding option"
  sl_truncated :: bool

record log_reader =
  lr_log :: "byte list"
  lr_index :: "byte list"
  lr_bom_len :: nat
  lr_indexed :: nat
  lr_tail :: "line_index_entry list"
  lr_encoding :: "stream_encoding option"

definition detect_log_encoding :: "byte list \<Rightarrow> stream_encoding option \<times> nat" where
  "detect_log_encoding log =
     (let bs = take 4 log in
      if starts_with bs (stream_bom Utf32Be) then (Some Utf32Be, 4)
      else if starts_with bs (stream_bom Utf32Le) then (Some Utf32Le, 4)
      else if starts_with bs (stream_bom Utf16Be) then (Some Utf16Be, 2)
      else if starts_with bs (stream_bom Utf16Le) then (Some Utf16Le, 2)
      else (None, 0))"

definition read_index_entry :: "byte list \<Rightarrow> nat \<Rightarrow> log_error + line_index_entry" where
  "read_index_entry index s =
     (case checked_add (length index_header) (sat_mul (s - 1) index_entry_bytes) of
        None \<Rightarrow> Inl DamagedIndex
      | Some offset \<Rightarrow>
          if length index < offset + index_entry_bytes then Inl DamagedIndex
          else ok_or DamagedIndex (decode_entry (take index_entry_bytes (drop offset index))))"

definition read_validated_index_entry ::
    "byte list \<Rightarrow> nat \<Rightarrow> nat \<Rightarrow> nat \<Rightarrow> nat \<Rightarrow> log_error + line_index_entry" where
  "read_validated_index_entry index s indexed_lines bom_len log_len =
     bind_r (read_index_entry index s) (\<lambda>entry.
     bind_r (if s = 1 then Inr (ie_start entry = bom_len)
             else if s = 0 then Inl Underflow
             else map_r (\<lambda>p. ie_record_end p = ie_start entry) (read_index_entry index (s - 1))) (\<lambda>begins.
     bind_r (if s = indexed_lines then Inr (ie_record_end entry \<le> log_len)
             else map_r (\<lambda>n. ie_record_end entry = ie_start n) (read_index_entry index (s + 1))) (\<lambda>ends.
       if \<not> begins \<or> \<not> ends \<or> log_len < ie_record_end entry then Inl DamagedIndex else Inr entry)))"

definition file_ends_with :: "byte list \<Rightarrow> byte list \<Rightarrow> nat \<Rightarrow> bool" where
  "file_ends_with log suffix e =
     (length suffix \<le> e \<and> take (length suffix) (drop (e - length suffix) log) = suffix)"

text \<open>The scan over the unindexed bytes, in steps of one line ending's width.\<close>

function recover_scan ::
    "byte list \<Rightarrow> byte list \<Rightarrow> nat \<Rightarrow> nat \<Rightarrow> nat \<Rightarrow> line_index_entry list \<Rightarrow> nat \<times> line_index_entry list" where
  "recover_scan bs ending start line_start cursor entries =
     (if 0 < length ending \<and> cursor + length ending \<le> length bs then
        (if take (length ending) (drop cursor bs) = ending
         then recover_scan bs ending start (cursor + length ending) (cursor + length ending)
           (entries @ [\<lparr>ie_start = start + line_start, ie_content_end = start + cursor,
                        ie_record_end = start + cursor + length ending\<rparr>])
         else recover_scan bs ending start line_start (cursor + length ending) entries)
      else (line_start, entries))"
  by pat_completeness auto
termination
  by (relation "measure (\<lambda>(bs, ending, start, line_start, cursor, entries). length bs - cursor)")
    (simp_all add: diff_less_mono2 del: length_greater_0_conv)

declare recover_scan.simps [simp del]

definition recover_tail_entries ::
    "byte list \<Rightarrow> nat \<Rightarrow> nat \<Rightarrow> stream_encoding option \<Rightarrow> line_index_entry list" where
  "recover_tail_entries log start e enc =
     (let len = e - start; ending = line_ending enc in
      if max_recovery_scan_bytes < len
      then [\<lparr>ie_start = start,
             ie_content_end = e - (if file_ends_with log ending e then length ending else 0),
             ie_record_end = e\<rparr>]
      else
        let bs = take len (drop start log);
            (line_start, entries) = recover_scan bs ending start 0 0 [] in
        entries @
        (if line_start < length bs
         then [\<lparr>ie_start = start + line_start, ie_content_end = e, ie_record_end = e\<rparr>] else []))"

text \<open>
  \<open>open\<close> samples the index before the log; the two arguments are the bytes at those two moments.
\<close>

definition reader_open :: "byte list \<Rightarrow> byte list \<Rightarrow> bool \<Rightarrow> log_error + log_reader" where
  "reader_open index log include_unindexed_tail =
     (let (enc, bom_len) = detect_log_encoding log; log_len = length log in
      if length index < length index_header \<or> take (length index_header) index \<noteq> index_header
      then Inl DamagedIndex
      else
        let indexed_lines = (length index - length index_header) div index_entry_bytes in
        bind_r (if indexed_lines = 0 then Inr bom_len
                else map_r ie_record_end
                  (read_validated_index_entry index indexed_lines indexed_lines bom_len log_len))
          (\<lambda>indexed_end.
            if indexed_end < bom_len \<or> log_len < indexed_end then Inl DamagedIndex
            else Inr \<lparr>lr_log = log, lr_index = index, lr_bom_len = bom_len, lr_indexed = indexed_lines,
              lr_tail = (if include_unindexed_tail \<and> indexed_end < log_len
                         then recover_tail_entries log indexed_end log_len enc else []),
              lr_encoding = enc\<rparr>))"

definition reader_total_lines :: "log_reader \<Rightarrow> nat" where
  "reader_total_lines r = sat_add (lr_indexed r) (length (lr_tail r))"

definition reader_entry :: "log_reader \<Rightarrow> nat \<Rightarrow> log_error + line_index_entry" where
  "reader_entry r s =
     (if s \<le> lr_indexed r
      then read_validated_index_entry (lr_index r) s (lr_indexed r) (lr_bom_len r) (length (lr_log r))
      else let i = s - (lr_indexed r + 1) in
        if i < length (lr_tail r) then Inr (lr_tail r ! i)
        else Inl (NoSuchLine s (reader_total_lines r)))"

text \<open>Reading past the end of the file is an operating-system error, given as a damaged index.\<close>

definition read_stored_line :: "log_reader \<Rightarrow> nat \<Rightarrow> line_index_entry \<Rightarrow> log_error + stored_line" where
  "read_stored_line r s e =
     (let size = ie_content_end e - ie_start e; shown = min size max_stored_line_bytes in
      if length (lr_log r) < ie_start e + shown \<and> 0 < shown then Inl DamagedIndex
      else Inr \<lparr>sl_seq = s, sl_bytes = take shown (drop (ie_start e) (lr_log r)), sl_total = size,
                sl_encoding = lr_encoding r, sl_truncated = (shown < size)\<rparr>)"

definition read_one :: "log_reader \<Rightarrow> nat \<Rightarrow> log_error + stored_line" where
  "read_one r s = bind_r (reader_entry r s) (read_stored_line r s)"

fun read_seqs :: "log_reader \<Rightarrow> nat list \<Rightarrow> log_error + stored_line list" where
  "read_seqs r [] = Inr []"
| "read_seqs r (s # ss) = bind_r (read_one r s) (\<lambda>l. map_r ((#) l) (read_seqs r ss))"

definition read_range :: "log_reader \<Rightarrow> nat \<Rightarrow> nat \<Rightarrow> log_error + stored_line list" where
  "read_range r first final =
     (if first = 0 \<or> final < first then Inr []
      else read_seqs r [first..<Suc (min final (reader_total_lines r))])"

text \<open>The two bounded reads, forwards and backwards, with at least one line.\<close>

record bounded_lines =
  bd_lines :: "stored_line list"
  bd_complete :: bool

function prefix_loop ::
    "log_reader \<Rightarrow> nat \<Rightarrow> nat \<Rightarrow> nat \<Rightarrow> nat \<Rightarrow> stored_line list \<Rightarrow> nat \<Rightarrow> log_error + bounded_lines" where
  "prefix_loop r next final max_lines max_bytes ls stored =
     (if next \<le> final \<and> length ls < max_lines then
        bind_r (read_one r next) (\<lambda>l.
          if ls \<noteq> [] \<and> max_bytes < sat_add stored (length (sl_bytes l))
          then Inr \<lparr>bd_lines = ls, bd_complete = (final < next)\<rparr>
          else prefix_loop r (next + 1) final max_lines max_bytes (ls @ [l])
            (sat_add stored (length (sl_bytes l))))
      else Inr \<lparr>bd_lines = ls, bd_complete = (final < next)\<rparr>)"
  by pat_completeness auto
termination
  by (relation "measure (\<lambda>(r, next, final, max_lines, max_bytes, ls, stored). Suc final - next)") auto

declare prefix_loop.simps [simp del]

definition read_prefix_bounded ::
    "log_reader \<Rightarrow> nat \<Rightarrow> nat \<Rightarrow> nat \<Rightarrow> nat \<Rightarrow> log_error + bounded_lines" where
  "read_prefix_bounded r first final max_lines max_bytes =
     (if first = 0 \<or> final < first \<or> max_lines = 0
      then Inr \<lparr>bd_lines = [], bd_complete = (final < first)\<rparr>
      else prefix_loop r first (min final (reader_total_lines r)) max_lines max_bytes [] 0)"

fun suffix_loop ::
    "log_reader \<Rightarrow> nat \<Rightarrow> nat \<Rightarrow> nat \<Rightarrow> nat \<Rightarrow> stored_line list \<Rightarrow> nat \<Rightarrow> log_error + stored_line list" where
  "suffix_loop r first next max_lines max_bytes ls stored =
     (case read_one r next of
        Inl e \<Rightarrow> Inl e
      | Inr l \<Rightarrow>
          if ls \<noteq> [] \<and> max_bytes < sat_add stored (length (sl_bytes l)) then Inr ls
          else if next = first \<or> max_lines \<le> length (ls @ [l]) then Inr (ls @ [l])
          else if next = 0 then Inl Underflow
          else suffix_loop r first (next - 1) max_lines max_bytes (ls @ [l])
            (sat_add stored (length (sl_bytes l))))"

declare suffix_loop.simps [simp del]

definition read_suffix_bounded ::
    "log_reader \<Rightarrow> nat \<Rightarrow> nat \<Rightarrow> nat \<Rightarrow> nat \<Rightarrow> log_error + bounded_lines" where
  "read_suffix_bounded r first final max_lines max_bytes =
     (if first = 0 \<or> final < first \<or> max_lines = 0
      then Inr \<lparr>bd_lines = [], bd_complete = (final < first)\<rparr>
      else map_r (\<lambda>ls. \<lparr>bd_lines = rev ls,
               bd_complete = (ls \<noteq> [] \<and> sl_seq (last ls) = first)\<rparr>)
             (suffix_loop r first (min final (reader_total_lines r)) max_lines max_bytes [] 0))"

definition record_end :: "log_reader \<Rightarrow> nat \<Rightarrow> log_error + nat" where
  "record_end r s = (if s = 0 then Inr 0 else map_r ie_record_end (reader_entry r s))"

section \<open>What the files hold\<close>

text \<open>
  The ghost view of a log: its lines as content and terminator flag, and the content of the line
  that is still open.
\<close>

type_synonym log_lines = "(byte list \<times> bool) list"

definition line_record :: "stream_encoding option \<Rightarrow> byte list \<times> bool \<Rightarrow> byte list" where
  "line_record enc l = fst l @ (if snd l then line_ending enc else [])"

definition log_text :: "stream_encoding option \<Rightarrow> log_lines \<Rightarrow> byte list" where
  "log_text enc ls = concat (map (line_record enc) ls)"

definition entry_at :: "stream_encoding option \<Rightarrow> nat \<Rightarrow> byte list \<times> bool \<Rightarrow> line_index_entry" where
  "entry_at enc s l =
     \<lparr>ie_start = s, ie_content_end = s + length (fst l), ie_record_end = s + length (line_record enc l)\<rparr>"

fun entries_at :: "stream_encoding option \<Rightarrow> nat \<Rightarrow> log_lines \<Rightarrow> line_index_entry list" where
  "entries_at enc s [] = []"
| "entries_at enc s (l # ls) = entry_at enc s l # entries_at enc (s + length (line_record enc l)) ls"

definition index_text :: "line_index_entry list \<Rightarrow> byte list" where
  "index_text es = index_header @ concat (map encode_entry es)"

definition record_stop :: "stream_encoding option \<Rightarrow> byte list \<Rightarrow> log_lines \<Rightarrow> nat" where
  "record_stop enc bom ls = (if ls = [] then 0 else length bom + length (log_text enc ls))"

text \<open>The writer's state holds the lines \<open>ls\<close> and the open content \<open>cur\<close>.\<close>

definition files_inv :: "log_writer \<Rightarrow> byte list \<Rightarrow> log_lines \<Rightarrow> byte list \<Rightarrow> bool" where
  "files_inv w bom ls cur \<longleftrightarrow>
     lw_disk w @ lw_buffer w = bom @ log_text (lw_encoding w) ls @ cur \<and>
     lw_position w = length bom + length (log_text (lw_encoding w) ls) + length cur \<and>
     lw_current_start w = length bom + length (log_text (lw_encoding w) ls) \<and>
     lw_has_content w = (cur \<noteq> []) \<and>
     lw_total w = length ls \<and>
     lw_committed w = record_stop (lw_encoding w) bom ls"

text \<open>The first \<open>durable\<close> lines are indexed on disk, and their bytes are there too.\<close>

definition index_inv :: "log_writer \<Rightarrow> byte list \<Rightarrow> log_lines \<Rightarrow> bool" where
  "index_inv w bom ls \<longleftrightarrow>
     lw_durable w \<le> length ls \<and>
     lw_index w = index_text (entries_at (lw_encoding w) (length bom) (take (lw_durable w) ls)) \<and>
     lw_index w @ lw_pending w = index_text (entries_at (lw_encoding w) (length bom) ls) \<and>
     lw_indexed w = record_stop (lw_encoding w) bom (take (lw_durable w) ls) \<and>
     lw_indexed w \<le> length (lw_disk w)"

definition quota_inv :: "log_writer \<Rightarrow> byte list \<Rightarrow> bool" where
  "quota_inv w cur \<longleftrightarrow>
     lw_limit w < usize_max \<and>
     lw_position w + length index_header + lw_total w * index_entry_bytes \<le> lw_limit w \<and>
     (cur \<noteq> [] \<longrightarrow>
        lw_position w + length index_header + lw_total w * index_entry_bytes + index_entry_bytes +
          length (line_ending (lw_encoding w)) \<le> lw_limit w)"

definition log_inv :: "log_writer \<Rightarrow> byte list \<Rightarrow> log_lines \<Rightarrow> byte list \<Rightarrow> bool" where
  "log_inv w bom ls cur \<longleftrightarrow> files_inv w bom ls cur \<and> index_inv w bom ls \<and> quota_inv w cur"

lemma line_ending_nonempty [simp]: "line_ending enc \<noteq> []"
  by (auto simp: line_ending_def split: option.split stream_encoding.split)

lemma length_index_header [simp]: "length index_header = 8"
  by (simp add: index_header_def)

lemma length_encode_entry [simp]: "length (encode_entry e) = 24"
  by (simp add: encode_entry_def)

lemma encode_entry_nonempty [simp]: "encode_entry e \<noteq> []"
  using length_encode_entry [of e] by (metis list.size(3) zero_neq_numeral)

lemma length_concat_encode [simp]: "length (concat (map encode_entry es)) = 24 * length es"
  by (induction es) auto

lemma length_index_text [simp]: "length (index_text es) = 8 + 24 * length es"
  by (simp add: index_text_def)

lemma log_text_simps [simp]:
  "log_text enc [] = []"
  "log_text enc (l # ls) = line_record enc l @ log_text enc ls"
  "log_text enc (ls @ ms) = log_text enc ls @ log_text enc ms"
  by (simp_all add: log_text_def)

lemma length_entries_at [simp]: "length (entries_at enc s ls) = length ls"
  by (induction ls arbitrary: s) auto

lemma entries_at_append [simp]:
  "entries_at enc s (ls @ ms) = entries_at enc s ls @ entries_at enc (s + length (log_text enc ls)) ms"
  by (induction ls arbitrary: s) (auto simp: add.assoc)

lemma take_entries_at: "take n (entries_at enc s ls) = entries_at enc s (take n ls)"
  by (induction ls arbitrary: s n) (auto simp: take_Cons split: nat.split)

lemma index_text_append: "index_text (es @ fs) = index_text es @ concat (map encode_entry fs)"
  by (simp add: index_text_def)

section \<open>One operation of the writer\<close>

lemma buf_write_step:
  "\<exists>d b. buf_write bs w = w\<lparr>lw_disk := lw_disk w @ d, lw_buffer := b\<rparr> \<and>
     d @ b = lw_buffer w @ bs"
proof -
  have "buf_write bs w = w\<lparr>lw_disk := lw_disk w @ [], lw_buffer := lw_buffer w @ bs\<rparr> \<or>
      buf_write bs w = w\<lparr>lw_disk := lw_disk w @ lw_buffer w, lw_buffer := bs\<rparr> \<or>
      buf_write bs w = w\<lparr>lw_disk := lw_disk w @ (lw_buffer w @ bs), lw_buffer := []\<rparr>"
    by (cases w) (auto simp: buf_write_def Let_def)
  then show ?thesis by (elim disjE) (intro exI conjI, assumption, simp)+
qed

lemma write_log_step:
  assumes "lw_position w + length bs \<le> usize_max"
  shows "\<exists>d b f. write_log_unchecked bs w =
      w\<lparr>lw_disk := lw_disk w @ d, lw_buffer := b, lw_position := lw_position w + length bs,
        lw_since_flush := f\<rparr> \<and> d @ b = lw_buffer w @ bs"
proof -
  from buf_write_step [of bs w] obtain d b where
    d: "buf_write bs w = w\<lparr>lw_disk := lw_disk w @ d, lw_buffer := b\<rparr>" "d @ b = lw_buffer w @ bs" by blast
  from assms d(1) have "write_log_unchecked bs w =
      w\<lparr>lw_disk := lw_disk w @ d, lw_buffer := b, lw_position := lw_position w + length bs,
        lw_since_flush := sat_add (lw_since_flush w) (length bs)\<rparr>"
    by (simp add: write_log_unchecked_def sat_add_exact Let_def)
  with d(2) show ?thesis by blast
qed

lemma combined_exact:
  "quota_inv w cur \<Longrightarrow>
     combined_bytes w = lw_position w + length index_header + lw_total w * index_entry_bytes \<and>
     combined_bytes w \<le> lw_limit w \<and> lw_limit w < usize_max"
  by (auto simp: quota_inv_def combined_bytes_def sat_add_def sat_mul_def)

lemma sat_add_over: "m < usize_max \<Longrightarrow> (m < sat_add a b) = (m < a + b)"
  by (auto simp: sat_add_def)

text \<open>Content that fits with room for its line's end and index entry is appended to the open line.\<close>

lemma write_content_step:
  assumes inv: "log_inv w bom ls cur"
  shows "\<exists>n w'. write_content bs w = (n, w') \<and> n \<le> length bs \<and>
    log_inv (w'\<lparr>lw_has_content := (cur @ take n bs \<noteq> [])\<rparr>) bom ls (cur @ take n bs) \<and>
    lw_encoding w' = lw_encoding w \<and> lw_started w' = lw_started w \<and> lw_quota w' = lw_quota w \<and>
    lw_limit w' = lw_limit w \<and> lw_has_content w' = lw_has_content w"
proof -
  obtain n where n: "n = (let a = min (lw_limit w - combined_bytes w -
        sat_add index_entry_bytes (length (line_ending (lw_encoding w)))) (length bs)
      in a - a mod stream_width (lw_encoding w))" by blast
  have w: "write_content bs w = (n, write_log_unchecked (take n bs) w)"
    by (simp add: write_content_def n Let_def)
  have ending: "length (line_ending (lw_encoding w)) \<le> 4"
    by (auto simp: line_ending_def split: option.split stream_encoding.split)
  have res: "sat_add index_entry_bytes (length (line_ending (lw_encoding w))) =
      24 + length (line_ending (lw_encoding w))"
    using ending by (simp add: sat_add_exact index_entry_bytes_def usize_large)
  have q: "quota_inv w cur" using inv by (simp add: log_inv_def)
  have le: "n \<le> length bs" "n \<le> lw_limit w - combined_bytes w - (24 + length (line_ending (lw_encoding w)))"
    by (auto simp: n Let_def res)
  have room: "0 < n \<Longrightarrow> lw_position w + 8 + lw_total w * 24 + n + 24 +
      length (line_ending (lw_encoding w)) \<le> lw_limit w"
    using le(2) combined_exact [OF q] by (simp add: index_entry_bytes_def)
  have "lw_position w + length (take n bs) \<le> usize_max"
    using room combined_exact [OF q] le(1) by (cases "n = 0") auto
  from write_log_step [OF this] obtain d b f where
    s: "write_log_unchecked (take n bs) w =
        w\<lparr>lw_disk := lw_disk w @ d, lw_buffer := b, lw_position := lw_position w + length (take n bs),
          lw_since_flush := f\<rparr>" "d @ b = lw_buffer w @ take n bs" by blast
  have "log_inv (write_log_unchecked (take n bs) w\<lparr>lw_has_content := (cur @ take n bs \<noteq> [])\<rparr>) bom ls
      (cur @ take n bs)"
    using inv s le(1) room
    by (cases "n = 0")
      (auto simp: log_inv_def files_inv_def index_inv_def quota_inv_def index_entry_bytes_def)
  with w s le show ?thesis by auto
qed

text \<open>The fields an operation leaves alone.\<close>

definition same_stream :: "log_writer \<Rightarrow> log_writer \<Rightarrow> bool" where
  "same_stream w w' \<longleftrightarrow>
     lw_encoding w' = lw_encoding w \<and> lw_started w' = lw_started w \<and> lw_limit w' = lw_limit w"

lemma encode_pending:
  assumes "index_inv w bom ls" "e = entry_at (lw_encoding w) (length bom + length (log_text (lw_encoding w) ls)) l"
  shows "index_inv (w\<lparr>lw_pending := lw_pending w @ encode_entry e\<rparr>) bom (ls @ [l])"
proof -
  have "lw_index w @ lw_pending w = index_text (entries_at (lw_encoding w) (length bom) ls)"
    using assms(1) unfolding index_inv_def by blast
  then have "lw_index w @ lw_pending w @ encode_entry e =
      index_text (entries_at (lw_encoding w) (length bom) ls) @ encode_entry e"
    by (metis append_assoc)
  then have p: "lw_index w @ lw_pending w @ encode_entry e =
      index_text (entries_at (lw_encoding w) (length bom) (ls @ [l]))"
    by (simp only: entries_at_append entries_at.simps index_text_append list.map concat.simps
        append_Nil2 assms(2))
  show ?thesis
    using assms(1) p unfolding index_inv_def by simp
qed

lemma commit_line_step:
  assumes inv: "log_inv w bom ls cur"
    and room: "lw_position w + 8 + 24 * lw_total w + 24 +
      (if t then length (line_ending (lw_encoding w)) else 0) \<le> lw_limit w"
  shows "\<exists>w'. commit_line t w = (Suc (length ls), w') \<and> log_inv w' bom (ls @ [(cur, t)]) [] \<and>
    same_stream w w' \<and> lw_quota w' = lw_quota w"
proof -
  let ?e = "if t then line_ending (lw_encoding w) else []"
  have q: "quota_inv w cur" and total: "lw_total w = length ls" and fi: "files_inv w bom ls cur"
    and ii: "index_inv w bom ls"
    using inv by (simp_all add: log_inv_def files_inv_def)
  have fits: "lw_position w + length ?e \<le> usize_max" "lw_total w + 1 \<le> usize_max"
    using room combined_exact [OF q] by (auto split: if_splits)
  from write_log_step [OF fits(1)] obtain d b f where
    s: "write_log_unchecked ?e w = w\<lparr>lw_disk := lw_disk w @ d, lw_buffer := b,
        lw_position := lw_position w + length ?e, lw_since_flush := f\<rparr>" "d @ b = lw_buffer w @ ?e"
    by blast
  obtain w1 where w1: "(if t then snd (write_fixed (line_ending (lw_encoding w)) w) else w) = w1"
    by blast
  have "t \<Longrightarrow> w1 = write_log_unchecked ?e w"
    using room combined_exact [OF q] w1 by (auto simp: write_fixed_def sat_add_over index_entry_bytes_def)
  moreover have "\<not> t \<Longrightarrow> w1 = w\<lparr>lw_disk := lw_disk w @ [], lw_buffer := lw_buffer w,
        lw_position := lw_position w + length ?e, lw_since_flush := lw_since_flush w\<rparr>"
    using w1 by simp
  moreover have "\<not> t \<Longrightarrow> [] @ lw_buffer w = lw_buffer w @ ?e" by simp
  ultimately have "\<exists>d b f. w1 = w\<lparr>lw_disk := lw_disk w @ d, lw_buffer := b,
        lw_position := lw_position w + length ?e, lw_since_flush := f\<rparr> \<and> d @ b = lw_buffer w @ ?e"
    using s by (cases t) metis+
  then obtain d b f where
    s: "w1 = w\<lparr>lw_disk := lw_disk w @ d, lw_buffer := b,
        lw_position := lw_position w + length ?e, lw_since_flush := f\<rparr>" "d @ b = lw_buffer w @ ?e"
    by blast
  obtain e where e: "e = entry_at (lw_encoding w) (length bom + length (log_text (lw_encoding w) ls)) (cur, t)"
    by blast
  have c: "commit_line t w = (Suc (length ls), w1\<lparr>lw_pending := lw_pending w @ encode_entry e,
      lw_total := Suc (length ls), lw_committed := lw_position w + length ?e,
      lw_current_start := lw_position w + length ?e, lw_has_content := False\<rparr>)"
    using w1 s(1) fits(2) fi total
    by (simp add: commit_line_def Let_def sat_add_exact e entry_at_def files_inv_def line_record_def add.assoc)
  have "log_inv (snd (commit_line t w)) bom (ls @ [(cur, t)]) []"
    using fi q room s total encode_pending [OF ii e] unfolding c log_inv_def
    by (auto simp: files_inv_def quota_inv_def index_inv_def index_entry_bytes_def line_record_def
        record_stop_def)
  with c s(1) show ?thesis by (simp add: same_stream_def)
qed

lemma flush_writer_step:
  assumes inv: "log_inv w bom ls cur"
  shows "log_inv (log_flush w) bom ls cur \<and> same_stream w (log_flush w) \<and>
    lw_quota (log_flush w) = lw_quota w \<and>
    lw_disk (log_flush w) = bom @ log_text (lw_encoding w) ls @ cur \<and>
    lw_index (log_flush w) = index_text (entries_at (lw_encoding w) (length bom) ls)"
proof (cases "lw_pending w = []")
  case True
  have i: "lw_durable w \<le> length ls"
      "lw_index w = index_text (entries_at (lw_encoding w) (length bom) (take (lw_durable w) ls))"
      "lw_index w @ lw_pending w = index_text (entries_at (lw_encoding w) (length bom) ls)"
    using inv unfolding log_inv_def index_inv_def by blast+
  from arg_cong [OF i(2), of length] arg_cong [OF i(3), of length] True i(1)
  have "lw_durable w = length ls" by simp
  with True inv show ?thesis
    by (auto simp: log_flush_def log_inv_def files_inv_def index_inv_def quota_inv_def same_stream_def
        record_stop_def Let_def)
next
  case False
  with inv show ?thesis
    by (auto simp: log_flush_def log_inv_def files_inv_def index_inv_def quota_inv_def same_stream_def
        record_stop_def Let_def)
qed

section \<open>Events\<close>

text \<open>
  What is kept of a stream when the quota cuts it: the first \<open>n\<close> lines, or these and a prefix of the
  next line's content.
\<close>

definition stored_cut :: "log_lines \<Rightarrow> log_lines \<Rightarrow> byte list \<Rightarrow> bool" where
  "stored_cut kept ls cur \<longleftrightarrow>
     (\<exists>n \<le> length ls. kept = take n ls \<or>
        (\<exists>c rest. c @ rest = fst ((ls @ [(cur, False)]) ! n) \<and> kept = take n ls @ [(c, False)]))"

definition tracks :: "log_writer \<Rightarrow> byte list \<Rightarrow> log_lines \<Rightarrow> byte list \<Rightarrow> bool" where
  "tracks w bom ls cur \<longleftrightarrow>
     lw_started w \<and>
     (if lw_quota w then \<exists>kept. log_inv w bom kept [] \<and> stored_cut kept ls cur
      else log_inv w bom ls cur)"

lemma stored_cut_all: "stored_cut ls ls cur"
  unfolding stored_cut_def by (rule exI [of _ "length ls"]) simp

lemma stored_cut_last: "stored_cut (ls @ [(cur, False)]) ls (cur @ bs)"
  unfolding stored_cut_def by (rule exI [of _ "length ls"]) simp

lemma stored_cut_bytes: "stored_cut kept ls cur \<Longrightarrow> stored_cut kept ls (cur @ bs)"
  unfolding stored_cut_def
proof (elim exE conjE disjE, goal_cases)
  case (2 n c rest)
  then have "c @ rest @ (if n < length ls then [] else bs) = fst ((ls @ [(cur @ bs, False)]) ! n)"
    by (cases "n < length ls") (auto simp: nth_append)
  with 2 show ?case by blast
qed blast

lemma stored_cut_line: "stored_cut kept ls cur \<Longrightarrow> stored_cut kept (ls @ [(cur, t)]) []"
  unfolding stored_cut_def
proof (elim exE conjE disjE, goal_cases)
  case (1 n)
  then show ?case by (intro exI [of _ n]) simp
next
  case (2 n c rest)
  then have "c @ rest = fst (((ls @ [(cur, t)]) @ [([], False)]) ! n) \<and>
      n \<le> length (ls @ [(cur, t)]) \<and> kept = take n (ls @ [(cur, t)]) @ [(c, False)]"
    by (cases "n < length ls") (auto simp: nth_append)
  then show ?case by blast
qed

lemma log_inv_flags [simp]:
  "log_inv (w\<lparr>lw_quota := q\<rparr>) bom ls cur = log_inv w bom ls cur"
  "log_inv (w\<lparr>lw_started := s\<rparr>) bom ls cur = log_inv w bom ls cur"
  by (simp_all add: log_inv_def files_inv_def index_inv_def quota_inv_def)

lemma log_inv_content: "log_inv w bom ls cur \<Longrightarrow> lw_has_content w = (cur \<noteq> [])"
  by (simp add: log_inv_def files_inv_def)

lemma commit_open_line:
  assumes inv: "log_inv w bom ls cur" and ne: "cur \<noteq> []"
  shows "\<exists>w'. commit_line False w = (Suc (length ls), w') \<and> log_inv w' bom (ls @ [(cur, False)]) [] \<and>
    same_stream w w' \<and> lw_quota w' = lw_quota w"
proof (rule commit_line_step [OF inv])
  show "lw_position w + 8 + 24 * lw_total w + 24 +
      (if False then length (line_ending (lw_encoding w)) else 0) \<le> lw_limit w"
    using inv ne by (simp add: log_inv_def quota_inv_def index_entry_bytes_def)
qed

text \<open>Sealing the prefix when the quota is reached.\<close>

lemma seal_line:
  assumes inv: "log_inv w bom ls cur" and q: "lw_quota w" "lw_started w"
  shows "\<exists>c w'. (if lw_has_content w then (case commit_line False w of (n, w) \<Rightarrow> Inr (Some n, w))
      else Inr (None, w)) = (Inr (c, w') :: log_error + _) \<and>
    tracks w' bom ls (cur @ bs) \<and> same_stream w w'"
proof (cases "cur = []")
  case True
  with inv q show ?thesis
    by (auto simp: tracks_def log_inv_content same_stream_def intro!: exI [of _ ls] stored_cut_all)
next
  case False
  from commit_open_line [OF inv False] obtain w' where
    w: "commit_line False w = (Suc (length ls), w')" "log_inv w' bom (ls @ [(cur, False)]) []"
      "same_stream w w'" "lw_quota w' = lw_quota w" by blast
  have "tracks w' bom ls (cur @ bs)"
    using w q stored_cut_last by (auto simp: tracks_def same_stream_def)
  with w False log_inv_content [OF inv] show ?thesis by simp
qed

lemma append_bytes_step:
  assumes t: "tracks w bom ls cur"
  shows "\<exists>c w'. append_bytes bs w = Inr (c, w') \<and> tracks w' bom ls (cur @ bs) \<and> same_stream w w'"
proof -
  have started: "lw_started w" using t by (simp add: tracks_def)
  consider "bs = []" | "bs \<noteq> []" "lw_quota w" | "bs \<noteq> []" "\<not> lw_quota w" by blast
  then show ?thesis
  proof cases
    case 1
    with t started show ?thesis by (simp add: append_bytes_def same_stream_def)
  next
    case 2
    with t started have "append_bytes bs w = Inr (None, w)"
      by (cases w) (simp add: append_bytes_def)
    moreover have "tracks w bom ls (cur @ bs)"
      using t 2 stored_cut_bytes by (auto simp: tracks_def)
    ultimately show ?thesis by (simp add: same_stream_def)
  next
    case 3
    have inv: "log_inv w bom ls cur" using t 3 by (simp add: tracks_def)
    from write_content_step [OF inv, of bs] obtain n w1 where
      w: "write_content bs w = (n, w1)" "n \<le> length bs"
        "log_inv (w1\<lparr>lw_has_content := (cur @ take n bs \<noteq> [])\<rparr>) bom ls (cur @ take n bs)"
        "lw_encoding w1 = lw_encoding w" "lw_started w1 = lw_started w" "lw_quota w1 = lw_quota w"
        "lw_limit w1 = lw_limit w" "lw_has_content w1 = lw_has_content w" by blast
    obtain w2 where w2: "w2 = w1\<lparr>lw_has_content := (cur @ take n bs \<noteq> [])\<rparr>" by blast
    have content: "(if 0 < n then w1\<lparr>lw_has_content := True\<rparr> else w1) = w2"
      using w(2, 8) log_inv_content [OF inv] 3(1) w2 by (cases n) (auto intro: log_writer.equality)
    show ?thesis
    proof (cases "n = length bs")
      case True
      then have "append_bytes bs w = Inr (None, w2)"
        using 3 started w(1, 6) content [symmetric] by (simp add: append_bytes_def w2)
      with True w w2 started 3 show ?thesis by (simp add: tracks_def same_stream_def)
    next
      case False
      let ?w = "w2\<lparr>lw_quota := True\<rparr>"
      have "log_inv ?w bom ls (cur @ take n bs)" "lw_quota ?w" "lw_started ?w" using w w2 started by auto
      from seal_line [OF this, of "drop n bs"] obtain c w' where
        s: "(if lw_has_content ?w then (case commit_line False ?w of (n, w) \<Rightarrow> Inr (Some n, w))
          else Inr (None, ?w)) = (Inr (c, w') :: log_error + _)"
          "tracks w' bom ls ((cur @ take n bs) @ drop n bs)" "same_stream ?w w'" by blast
      have e: "0 < n \<Longrightarrow> w1\<lparr>lw_quota := True, lw_has_content := True\<rparr> = ?w" "n = 0 \<Longrightarrow> w1 = w2"
        "0 < n \<Longrightarrow> lw_has_content w2"
        unfolding content [symmetric] by simp_all
      from False 3 started w(1, 2) s(1) have "append_bytes bs w = Inr (c, w')"
        by (cases "n = 0"; cases "lw_has_content w2") (simp_all add: append_bytes_def Let_def e)
      with s w w2 show ?thesis by (simp add: same_stream_def)
    qed
  qed
qed

lemma tracks_sealed:
  "tracks w bom ls cur \<Longrightarrow> lw_quota w \<Longrightarrow> lw_has_content w = False"
  by (auto simp: tracks_def log_inv_content)

lemma append_line_end_step:
  assumes t: "tracks w bom ls cur"
  shows "\<exists>c w'. append_line_end u w = Inr (c, w') \<and> tracks w' bom (ls @ [(cur, u)]) [] \<and> same_stream w w'"
proof -
  have started: "lw_started w" using t by (simp add: tracks_def)
  show ?thesis
  proof (cases "lw_quota w")
    case True
    with t started tracks_sealed [OF t] have "append_line_end u w = Inr (None, w)"
      by (simp add: append_line_end_def)
    moreover have "tracks w bom (ls @ [(cur, u)]) []"
      using t True stored_cut_line by (auto simp: tracks_def)
    ultimately show ?thesis by (simp add: same_stream_def)
  next
    case False
    have inv: "log_inv w bom ls cur" using t False by (simp add: tracks_def)
    have q: "quota_inv w cur" using inv by (simp add: log_inv_def)
    let ?need = "24 + (if u then length (line_ending (lw_encoding w)) else 0)"
    have "length (line_ending (lw_encoding w)) \<le> 4"
      by (auto simp: line_ending_def split: option.split stream_encoding.split)
    then have need: "sat_add index_entry_bytes (if u then length (line_ending (lw_encoding w)) else 0) = ?need"
      by (simp add: sat_add_exact index_entry_bytes_def usize_large)
    have test: "(lw_limit w < sat_add (combined_bytes w) ?need) =
        (lw_limit w < lw_position w + 8 + 24 * lw_total w + ?need)"
      using combined_exact [OF q] by (simp add: sat_add_over index_entry_bytes_def mult.commute)
    show ?thesis
    proof (cases "lw_limit w < lw_position w + 8 + 24 * lw_total w + ?need")
      case True
      have "try_commit_line u w = (None, w)"
        using True test need by (simp add: try_commit_line_def)
      moreover have "log_inv (w\<lparr>lw_quota := True\<rparr>) bom ls cur" "lw_quota (w\<lparr>lw_quota := True\<rparr>)"
          "lw_started (w\<lparr>lw_quota := True\<rparr>)" using inv started by auto
      from seal_line [OF this, of "[]"] obtain c w' where
        s: "(if lw_has_content (w\<lparr>lw_quota := True\<rparr>)
            then (case commit_line False (w\<lparr>lw_quota := True\<rparr>) of (n, w) \<Rightarrow> Inr (Some n, w))
            else Inr (None, w\<lparr>lw_quota := True\<rparr>)) = (Inr (c, w') :: log_error + _)"
          "tracks w' bom ls cur" "same_stream (w\<lparr>lw_quota := True\<rparr>) w'" by auto
      ultimately have "append_line_end u w = Inr (c, w')"
        using False started by (cases "lw_has_content w") (simp_all add: append_line_end_def Let_def)
      moreover have "lw_quota w'"
        using s(1) by (auto simp: commit_line_def Let_def write_fixed_def split: if_splits)
      then have "tracks w' bom (ls @ [(cur, u)]) []"
        using s(2) stored_cut_line by (auto simp: tracks_def)
      ultimately show ?thesis using s(3) by (simp add: same_stream_def)
    next
      case room: False
      then have "lw_position w + 8 + 24 * lw_total w + 24 +
          (if u then length (line_ending (lw_encoding w)) else 0) \<le> lw_limit w" by (simp split: if_splits)
      from commit_line_step [OF inv this] obtain w' where
        c: "commit_line u w = (Suc (length ls), w')" "log_inv w' bom (ls @ [(cur, u)]) []"
          "same_stream w w'" "lw_quota w' = lw_quota w" by blast
      have "try_commit_line u w = (Some (Suc (length ls)), w')"
        using room test need c(1) by (simp add: try_commit_line_def)
      with c False started show ?thesis by (simp add: append_line_end_def tracks_def same_stream_def)
    qed
  qed
qed

lemma tracks_flush: "tracks w bom ls cur \<Longrightarrow> tracks (log_flush w) bom ls cur \<and> same_stream w (log_flush w)"
proof -
  have "lw_started (log_flush w) = lw_started w" "lw_quota (log_flush w) = lw_quota w"
    by (simp_all add: log_flush_def Let_def)
  then show "tracks w bom ls cur \<Longrightarrow> ?thesis"
    using flush_writer_step unfolding tracks_def same_stream_def by (metis (full_types))
qed

lemma append_event_step:
  assumes t: "tracks w bom ls cur" and e: "\<And>enc. e \<noteq> Start enc"
    and ev: "event_lines cur [e] = (cur', ms)"
  shows "\<exists>c w'. append_event e w = Inr (c, w') \<and> tracks w' bom (ls @ ms) cur' \<and> same_stream w w'"
proof -
  obtain c w1 where w1: "(case e of Start enc \<Rightarrow> append_start enc w | Bytes bs \<Rightarrow> append_bytes bs w
        | LineEnd u \<Rightarrow> append_line_end u w) = Inr (c, w1)"
      "tracks w1 bom (ls @ ms) cur'" "same_stream w w1"
    using append_bytes_step [OF t] append_line_end_step [OF t] e ev by (cases e) fastforce+
  have "same_stream w (log_flush w1)" using w1(3) tracks_flush [OF w1(2)] by (simp add: same_stream_def)
  with w1 tracks_flush [OF w1(2)] show ?thesis by (auto simp: append_event_def)
qed

lemma append_all_step:
  "tracks w bom ls cur \<Longrightarrow> no_start es \<Longrightarrow> event_lines cur es = (cur', ms) \<Longrightarrow>
     \<exists>w'. append_all es w = Inr w' \<and> tracks w' bom (ls @ ms) cur' \<and> same_stream w w'"
proof (induction es arbitrary: w ls cur ms cur')
  case Nil
  then show ?case by (simp add: same_stream_def)
next
  case (Cons e es)
  obtain cur1 ms1 where e1: "event_lines cur [e] = (cur1, ms1)" by (cases "event_lines cur [e]")
  obtain cur2 ms2 where e2: "event_lines cur1 es = (cur2, ms2)" by (cases "event_lines cur1 es")
  have m: "ms = ms1 @ ms2" "cur' = cur2"
    using Cons.prems(3) e1 e2 event_lines_append [of cur "[e]" es] by (auto simp: Let_def)
  have ns: "\<And>enc. e \<noteq> Start enc" "no_start es"
    using Cons.prems(2) by (auto simp: no_start_def)
  from append_event_step [OF Cons.prems(1) ns(1) e1] obtain c w1 where
    w1: "append_event e w = Inr (c, w1)" "tracks w1 bom (ls @ ms1) cur1" "same_stream w w1" by blast
  from Cons.IH [OF w1(2) ns(2) e2] obtain w' where
    "append_all es w1 = Inr w'" "tracks w' bom ((ls @ ms1) @ ms2) cur2" "same_stream w1 w'" by blast
  with w1 m show ?case by (simp add: same_stream_def)
qed

definition encoding_bom :: "stream_encoding option \<Rightarrow> byte list" where
  "encoding_bom enc = (case enc of None \<Rightarrow> [] | Some e \<Rightarrow> stream_bom e)"

lemma append_start_step:
  assumes w: "writer_with_limit limit = Inr w" and limit: "limit < usize_max"
  shows "\<exists>w'. append_event (Start enc) w = Inr (None, w') \<and> tracks w' (encoding_bom enc) [] [] \<and>
    lw_encoding w' = enc \<and> lw_limit w' = limit"
proof -
  have l: "32 \<le> limit" and i: "log_inv w [] [] []" and f: "\<not> lw_started w" "lw_encoding w = None"
      "lw_limit w = limit" "lw_position w = 0" "lw_total w = 0" "lw_quota w = False"
      "lw_buffer w = []" "lw_disk w = []"
    using w limit by (auto simp: writer_with_limit_def index_entry_bytes_def log_inv_def files_inv_def
        index_inv_def quota_inv_def index_text_def record_stop_def split: if_splits)
  let ?bom = "encoding_bom enc"
  let ?w = "w\<lparr>lw_started := True, lw_encoding := enc\<rparr>"
  have "length ?bom \<le> 4"
    by (auto simp: encoding_bom_def stream_bom_def split: option.split stream_encoding.split)
  then have fits: "lw_position ?w + length ?bom \<le> usize_max" "length ?bom + 8 \<le> limit"
    using l f(4) by (simp_all add: usize_large)
  from write_log_step [OF fits(1)] obtain d b n where
    s: "write_log_unchecked ?bom ?w = ?w\<lparr>lw_disk := lw_disk ?w @ d, lw_buffer := b,
        lw_position := lw_position ?w + length ?bom, lw_since_flush := n\<rparr>"
      "d @ b = lw_buffer ?w @ ?bom" by blast
  have fixed: "write_fixed ?bom ?w = (True, write_log_unchecked ?bom ?w)"
    using fits(2) f by (simp add: write_fixed_def combined_bytes_def sat_add_exact sat_mul_def usize_large sat_add_over [OF limit])
  obtain w1 where w1: "append_start enc w = Inr (None, w1)" "log_inv w1 ?bom [] []" "\<not> lw_quota w1"
      "lw_started w1" "lw_encoding w1 = enc" "lw_limit w1 = limit"
  proof (cases enc)
    case None
    show ?thesis
      by (rule that [of "?w\<lparr>lw_current_start := 0\<rparr>"])
        (use None i f in \<open>auto simp: append_start_def encoding_bom_def log_inv_def files_inv_def
          index_inv_def quota_inv_def record_stop_def\<close>)
  next
    case (Some e)
    let ?w1 = "write_log_unchecked ?bom ?w"
    have "append_start enc w = Inr (None, ?w1\<lparr>lw_current_start := lw_position ?w1\<rparr>)"
      using fixed Some f(1) by (simp add: append_start_def encoding_bom_def Let_def)
    moreover have "log_inv (?w1\<lparr>lw_current_start := lw_position ?w1\<rparr>) ?bom [] []"
      using s i f l limit fits(2) unfolding s(1)
      by (auto simp: log_inv_def files_inv_def index_inv_def quota_inv_def record_stop_def)
    ultimately show ?thesis
      by (rule that) (use s(1) f in auto)
  qed
  then have t: "tracks w1 ?bom [] []" by (simp add: tracks_def)
  with w1 tracks_flush [OF t] show ?thesis by (auto simp: append_event_def same_stream_def)
qed

text \<open>Closing the log.\<close>

lemma finish_step:
  assumes t: "tracks w bom ls []"
  shows "\<exists>kept. log_inv (log_finish w) bom kept [] \<and> same_stream w (log_finish w) \<and>
    stored_cut kept ls [] \<and> (\<not> lw_quota w \<longrightarrow> kept = ls) \<and>
    lw_disk (log_finish w) = bom @ log_text (lw_encoding w) kept \<and>
    lw_index (log_finish w) = index_text (entries_at (lw_encoding w) (length bom) kept)"
proof -
  from t obtain kept where k: "log_inv w bom kept []" "stored_cut kept ls []" "\<not> lw_quota w \<longrightarrow> kept = ls"
    by (auto simp: tracks_def stored_cut_all split: if_splits)
  then have "log_finish w = log_flush w" by (simp add: log_finish_def log_inv_content)
  with flush_writer_step [OF k(1)] k(2, 3) show ?thesis by auto
qed

lemma capture_step:
  assumes w: "writer_with_limit limit = Inr w" and limit: "limit < usize_max"
  shows "\<exists>w' kept. append_all (log_events chunks) w = Inr w' \<and>
    (let enc = mode_encoding (fst (reference_mode (concat chunks))); f = log_finish w' in
     log_inv f (encoding_bom enc) kept [] \<and> stored_cut kept (reference_lines (concat chunks)) [] \<and>
     (\<not> lw_quota w' \<longrightarrow> kept = reference_lines (concat chunks)) \<and>
     lw_disk f = encoding_bom enc @ log_text enc kept \<and>
     lw_index f = index_text (entries_at enc (length (encoding_bom enc)) kept) \<and>
     length (lw_disk f) + length (lw_index f) \<le> limit)"
proof -
  obtain m k es where e: "reference_mode (concat chunks) = (m, k)"
    "log_events chunks = Start (mode_encoding m) # es" "no_start es"
    "event_lines [] es = ([], reference_lines (concat chunks))"
    using log_events_shape by blast
  from append_start_step [OF w limit, of "mode_encoding m"] obtain w1 where
    w1: "append_event (Start (mode_encoding m)) w = Inr (None, w1)"
      "tracks w1 (encoding_bom (mode_encoding m)) [] []" "lw_encoding w1 = mode_encoding m"
      "lw_limit w1 = limit" by blast
  from append_all_step [OF w1(2) e(3, 4)] obtain w2 where
    w2: "append_all es w1 = Inr w2"
      "tracks w2 (encoding_bom (mode_encoding m)) (reference_lines (concat chunks)) []"
      "same_stream w1 w2" by auto
  from finish_step [OF w2(2)] obtain kept where
    k: "log_inv (log_finish w2) (encoding_bom (mode_encoding m)) kept []"
      "same_stream w2 (log_finish w2)" "stored_cut kept (reference_lines (concat chunks)) []"
      "\<not> lw_quota w2 \<longrightarrow> kept = reference_lines (concat chunks)"
      "lw_disk (log_finish w2) = encoding_bom (mode_encoding m) @ log_text (lw_encoding w2) kept"
      "lw_index (log_finish w2) =
        index_text (entries_at (lw_encoding w2) (length (encoding_bom (mode_encoding m))) kept)"
    by blast
  have enc: "lw_encoding w2 = mode_encoding m" "lw_limit (log_finish w2) = limit"
      "lw_encoding (log_finish w2) = mode_encoding m"
    using w1(3, 4) w2(3) k(2) by (simp_all add: same_stream_def)
  have "length (lw_disk (log_finish w2)) + length (lw_index (log_finish w2)) \<le> limit"
    using k(1) enc unfolding k(5, 6)
    by (simp add: log_inv_def files_inv_def quota_inv_def index_entry_bytes_def)
  with k enc e(1, 2) w1(1) w2(1) show ?thesis by (auto simp: Let_def)
qed

end
