(* ===== verification/Log_Reader.thy ===== *)
theory Log_Reader
  imports Output_Log
begin

text \<open>
  The reader of a background log against the lines the writer stored
  (\<open>src/src/shell/jobs/output_log.rs\<close>): index lookups, snapshots taken while the job still writes,
  and the recovery of bytes the index does not cover.
\<close>

section \<open>Index lookups\<close>

lemma take_drop_blocks:
  "(\<And>x. length (f x) = k) \<Longrightarrow> i < length xs \<Longrightarrow>
     take k (drop (k * i) (concat (map f xs))) = f (xs ! i)"
proof (induction xs arbitrary: i)
  case (Cons x xs)
  then show ?case by (cases i) simp_all
qed simp

definition entry_ok :: "line_index_entry \<Rightarrow> bool" where
  "entry_ok e \<longleftrightarrow> ie_start e \<le> ie_content_end e \<and> ie_content_end e \<le> ie_record_end e \<and>
     ie_record_end e \<le> usize_max"

lemma decode_encode: "entry_ok e \<Longrightarrow> decode_entry (encode_entry e) = Some e"
  by (simp add: decode_entry_def encode_entry_def entry_ok_def usize_max_def le_value_bytes Let_def)

lemma nth_entries_at:
  "i < length ls \<Longrightarrow> entries_at enc s ls ! i = entry_at enc (s + length (log_text enc (take i ls))) (ls ! i)"
proof (induction ls arbitrary: s i)
  case (Cons l ls)
  then show ?case by (cases i) (simp_all add: add.assoc)
qed simp

text \<open>A log that holds \<open>ls\<close> after its BOM, with an index of exactly these lines.\<close>

definition holds :: "stream_encoding option \<Rightarrow> byte list \<Rightarrow> log_lines \<Rightarrow> byte list \<Rightarrow> bool" where
  "holds enc bom ls log \<longleftrightarrow>
     (\<exists>rest. log = bom @ log_text enc ls @ rest) \<and> length log + 24 * length ls + 8 \<le> usize_max"

lemma log_text_split:
  "i < length ls \<Longrightarrow> log_text enc ls =
     log_text enc (take i ls) @ line_record enc (ls ! i) @ log_text enc (drop (Suc i) ls)"
  using id_take_nth_drop [of i ls] by (metis append_Cons append_Nil log_text_simps(2, 3))

abbreviation line_at :: "stream_encoding option \<Rightarrow> byte list \<Rightarrow> log_lines \<Rightarrow> nat \<Rightarrow> line_index_entry" where
  "line_at enc bom ls i \<equiv> entry_at enc (length bom + length (log_text enc (take i ls))) (ls ! i)"

lemma line_at_next:
  "Suc i < length ls \<Longrightarrow> ie_start (line_at enc bom ls (Suc i)) = ie_record_end (line_at enc bom ls i)"
  by (simp add: entry_at_def take_Suc_conv_app_nth)

lemma line_at_stop:
  "i < length ls \<Longrightarrow> ie_record_end (line_at enc bom ls i) \<le> length bom + length (log_text enc ls)"
  using log_text_split [of i ls enc] by (simp add: entry_at_def)

lemma holds_entry_ok:
  assumes h: "holds enc bom ls log" and i: "i < length ls"
  shows "entry_ok (line_at enc bom ls i)"
proof -
  have "ie_record_end (line_at enc bom ls i) \<le> usize_max"
    using h line_at_stop [OF i, of enc bom] by (auto simp: holds_def)
  then show ?thesis by (simp add: entry_ok_def entry_at_def line_record_def)
qed

lemma read_index_entry_exact:
  assumes h: "holds enc bom ls log" and i: "i < length ls"
  shows "read_index_entry (index_text (entries_at enc (length bom) ls)) (Suc i) = Inr (line_at enc bom ls i)"
proof -
  have room: "length log + 24 * length ls + 8 \<le> usize_max" using h by (simp add: holds_def)
  have m: "sat_mul i 24 = 24 * i" using room i by (simp add: sat_mul_def)
  have c: "checked_add 8 (24 * i) = Some (8 + 24 * i)" using room i by (simp add: checked_add_def)
  have "take 24 (drop (8 + 24 * i) (index_text (entries_at enc (length bom) ls))) =
      take 24 (drop (24 * i) (concat (map encode_entry (entries_at enc (length bom) ls))))"
    by (simp add: index_text_def)
  also have "\<dots> = encode_entry (entries_at enc (length bom) ls ! i)"
    by (rule take_drop_blocks) (simp_all add: i)
  finally have "take 24 (drop (8 + 24 * i) (index_text (entries_at enc (length bom) ls))) =
      encode_entry (line_at enc bom ls i)"
    by (simp add: nth_entries_at i)
  with m c i decode_encode [OF holds_entry_ok [OF h i]] show ?thesis
    by (simp add: read_index_entry_def index_entry_bytes_def)
qed

lemma read_validated_exact:
  assumes h: "holds enc bom ls log" and i: "i < length ls"
  shows "read_validated_index_entry (index_text (entries_at enc (length bom) ls)) (Suc i) (length ls)
      (length bom) (length log) = Inr (line_at enc bom ls i)"
proof -
  let ?index = "index_text (entries_at enc (length bom) ls)"
  have stop: "ie_record_end (line_at enc bom ls i) \<le> length log"
    using line_at_stop [OF i, of enc bom] h by (auto simp: holds_def)
  have begins: "(if Suc i = 1 then Inr (ie_start (line_at enc bom ls i) = length bom)
      else if Suc i = 0 then Inl Underflow
      else map_r (\<lambda>p. ie_record_end p = ie_start (line_at enc bom ls i)) (read_index_entry ?index (Suc i - 1))) =
      Inr True"
  proof (cases i)
    case 0
    then show ?thesis by (simp add: entry_at_def)
  next
    case (Suc j)
    with i read_index_entry_exact [OF h, of j] line_at_next [of j ls enc bom] show ?thesis by simp
  qed
  have ends: "(if Suc i = length ls then Inr (ie_record_end (line_at enc bom ls i) \<le> length log)
      else map_r (\<lambda>n. ie_record_end (line_at enc bom ls i) = ie_start n) (read_index_entry ?index (Suc i + 1))) =
      Inr True"
  proof (cases "Suc i = length ls")
    case True
    with stop show ?thesis by simp
  next
    case False
    with i have "Suc i < length ls" by simp
    with read_index_entry_exact [OF h this] line_at_next [OF this, of enc bom] False show ?thesis by simp
  qed
  show ?thesis
    unfolding read_validated_index_entry_def read_index_entry_exact [OF h i] bind_r.simps begins ends
    using stop by simp
qed

section \<open>Opening a snapshot\<close>

text \<open>How line \<open>i\<close> of the log is shown: at most 64 KiB, with its real length.\<close>

definition shown_line :: "stream_encoding option \<Rightarrow> log_lines \<Rightarrow> nat \<Rightarrow> stored_line" where
  "shown_line enc ls i =
     (let c = fst (ls ! i) in
      \<lparr>sl_seq = Suc i, sl_bytes = take max_stored_line_bytes c, sl_total = length c, sl_encoding = enc,
       sl_truncated = (max_stored_line_bytes < length c)\<rparr>)"

text \<open>A reader of \<open>ls\<close> with the first \<open>n\<close> lines found through the index and the others recovered.\<close>

definition snapshot ::
    "stream_encoding option \<Rightarrow> byte list \<Rightarrow> nat \<Rightarrow> log_lines \<Rightarrow> byte list \<Rightarrow> log_reader" where
  "snapshot enc bom n ls log =
     \<lparr>lr_log = log, lr_index = index_text (entries_at enc (length bom) (take n ls)), lr_bom_len = length bom,
      lr_indexed = min n (length ls), lr_tail = drop n (entries_at enc (length bom) ls), lr_encoding = enc\<rparr>"

lemma read_stored_line_exact:
  assumes log: "lr_log r = bom @ log_text enc ls @ rest" and i: "i < length ls" and enc: "lr_encoding r = enc"
  shows "read_stored_line r (Suc i) (line_at enc bom ls i) = Inr (shown_line enc ls i)"
proof -
  have "drop (length bom + length (log_text enc (take i ls))) (lr_log r) =
      line_record enc (ls ! i) @ log_text enc (drop (Suc i) ls) @ rest"
    unfolding log log_text_split [OF i] by simp
  moreover have "length bom + length (log_text enc (take i ls)) + length (fst (ls ! i)) \<le> length (lr_log r)"
    unfolding log log_text_split [OF i] by (simp add: line_record_def)
  ultimately show ?thesis
    using enc by (simp add: read_stored_line_def shown_line_def entry_at_def line_record_def Let_def
        min_def max_stored_line_bytes_def)
qed

lemma holds_take:
  assumes "holds enc bom ls log"
  shows "holds enc bom (take n ls) log"
proof -
  have "log_text enc ls = log_text enc (take n ls) @ log_text enc (drop n ls)"
    using log_text_simps(3) [of enc "take n ls" "drop n ls"] by simp
  with assms show ?thesis by (auto simp: holds_def)
qed

lemma read_one_exact:
  assumes h: "holds enc bom ls log" and i: "i < length ls"
  shows "read_one (snapshot enc bom n ls log) (Suc i) = Inr (shown_line enc ls i)"
proof -
  let ?r = "snapshot enc bom n ls log"
  have "reader_entry ?r (Suc i) = Inr (line_at enc bom ls i)"
  proof (cases "i < n")
    case True
    with i have "i < length (take n ls)" by simp
    from read_validated_exact [OF holds_take [OF h] this] True i show ?thesis
      by (simp add: reader_entry_def snapshot_def min.commute)
  next
    case False
    with i nth_entries_at [OF i, of enc "length bom"] show ?thesis
      by (simp add: reader_entry_def snapshot_def Let_def)
  qed
  moreover from h obtain rest where "lr_log ?r = bom @ log_text enc ls @ rest"
    by (auto simp: holds_def snapshot_def)
  from read_stored_line_exact [OF this i] have "read_stored_line ?r (Suc i) (line_at enc bom ls i) =
      Inr (shown_line enc ls i)" by (simp add: snapshot_def)
  ultimately show ?thesis by (simp add: read_one_def)
qed

lemma read_seqs_exact:
  "(\<And>s. s \<in> set ss \<Longrightarrow> read_one r s = Inr (f s)) \<Longrightarrow> read_seqs r ss = Inr (map f ss)"
  by (induction ss) auto

lemma snapshot_total: "holds enc bom ls log \<Longrightarrow> reader_total_lines (snapshot enc bom n ls log) = length ls"
  by (auto simp: reader_total_lines_def snapshot_def sat_add_def holds_def)

lemma read_range_exact:
  assumes h: "holds enc bom ls log" and first: "0 < first" "first \<le> final"
  shows "read_range (snapshot enc bom n ls log) first final =
    Inr (map (shown_line enc ls) [first - 1..<min final (length ls)])"
proof -
  let ?r = "snapshot enc bom n ls log"
  have "read_seqs ?r [first..<Suc (min final (length ls))] =
      Inr (map (\<lambda>s. shown_line enc ls (s - 1)) [first..<Suc (min final (length ls))])"
  proof (rule read_seqs_exact)
    fix s
    assume "s \<in> set [first..<Suc (min final (length ls))]"
    then have "s = Suc (s - 1)" "s - 1 < length ls" using first by auto
    then show "read_one ?r s = Inr (shown_line enc ls (s - 1))" using read_one_exact [OF h, of "s - 1"] by simp
  qed
  also have "map (\<lambda>s. shown_line enc ls (s - 1)) [first..<Suc (min final (length ls))] =
      map (shown_line enc ls) [first - 1..<min final (length ls)]"
  proof -
    have "[first..<Suc (min final (length ls))] = map Suc [first - 1..<min final (length ls)]"
      using first(1) by (simp add: map_Suc_upt)
    then show ?thesis by (simp add: comp_def)
  qed
  finally show ?thesis using first by (simp add: read_range_def snapshot_total [OF h])
qed

section \<open>Recovery of unindexed bytes\<close>

text \<open>No aligned unit of the content is a line ending.\<close>

definition plain :: "stream_encoding option \<Rightarrow> byte list \<Rightarrow> bool" where
  "plain enc c \<longleftrightarrow> (let w = length (line_ending enc) in
     \<forall>i. w * i + w \<le> length c \<longrightarrow> take w (drop (w * i) c) \<noteq> line_ending enc)"

definition whole_units :: "stream_encoding option \<Rightarrow> byte list \<Rightarrow> bool" where
  "whole_units enc c \<longleftrightarrow> length (line_ending enc) dvd length c"

lemma plain_drop:
  assumes "plain enc c" "length (line_ending enc) \<le> length c"
  shows "plain enc (drop (length (line_ending enc)) c)" "take (length (line_ending enc)) c \<noteq> line_ending enc"
proof -
  let ?w = "length (line_ending enc)"
  have all: "\<forall>i. ?w * i + ?w \<le> length c \<longrightarrow> take ?w (drop (?w * i) c) \<noteq> line_ending enc"
    using assms(1) by (simp add: plain_def Let_def)
  have "take ?w (drop (?w * Suc i) c) \<noteq> line_ending enc" if "?w * i + ?w \<le> length c - ?w" for i
  proof -
    have "?w * Suc i + ?w \<le> length c" using that assms(2) by simp
    with all show ?thesis by blast
  qed
  then show "plain enc (drop ?w c)" by (simp add: plain_def Let_def add.commute)
  show "take ?w c \<noteq> line_ending enc" using assms by (auto simp: plain_def Let_def dest: spec [of _ 0])
qed

lemma scan_content:
  "plain enc c \<Longrightarrow> whole_units enc c \<Longrightarrow>
     recover_scan (a @ c @ b) (line_ending enc) start s (length a) es =
     recover_scan (a @ c @ b) (line_ending enc) start s (length a + length c) es"
proof (induction "length c" arbitrary: a c rule: less_induct)
  case less
  let ?w = "length (line_ending enc)"
  show ?case
  proof (cases "c = []")
    case False
    have le: "?w \<le> length c" using less.prems(2) False by (simp add: whole_units_def dvd_imp_le)
    have ne: "take ?w c \<noteq> line_ending enc" using plain_drop(2) [OF less.prems(1) le] .
    have e: "(a @ take ?w c) @ drop ?w c @ b = a @ c @ b" by (metis append.assoc append_take_drop_id)
    have "recover_scan (a @ c @ b) (line_ending enc) start s (length a) es =
        recover_scan (a @ c @ b) (line_ending enc) start s (length a + ?w) es"
      using le ne by (subst recover_scan.simps) simp
    also have "\<dots> = recover_scan ((a @ take ?w c) @ drop ?w c @ b) (line_ending enc) start s
        (length (a @ take ?w c)) es"
      unfolding e using le by simp
    also have "\<dots> = recover_scan ((a @ take ?w c) @ drop ?w c @ b) (line_ending enc) start s
        (length (a @ take ?w c) + length (drop ?w c)) es"
    proof (rule less.hyps)
      show "length (drop ?w c) < length c" using le False by (simp add: diff_less)
      show "plain enc (drop ?w c)" using plain_drop(1) [OF less.prems(1) le] .
      show "whole_units enc (drop ?w c)" using less.prems(2) le by (simp add: whole_units_def)
    qed
    also have "\<dots> = recover_scan (a @ c @ b) (line_ending enc) start s (length a + length c) es"
      unfolding e using le by simp
    finally show ?thesis .
  qed simp
qed

lemma scan_open:
  assumes "plain enc cur"
  shows "recover_scan (a @ cur) (line_ending enc) start s (length a) es = (s, es)"
  using assms
proof (induction "length cur" arbitrary: a cur rule: less_induct)
  case less
  let ?w = "length (line_ending enc)"
  show ?case
  proof (cases "?w \<le> length cur")
    case True
    have "recover_scan (a @ cur) (line_ending enc) start s (length a) es =
        recover_scan (a @ cur) (line_ending enc) start s (length a + ?w) es"
      using True plain_drop(2) [OF less.prems True] by (subst recover_scan.simps) simp
    also have "\<dots> = recover_scan ((a @ take ?w cur) @ drop ?w cur) (line_ending enc) start s
        (length (a @ take ?w cur)) es"
      using True by simp
    also have "\<dots> = (s, es)"
    proof (rule less.hyps)
      show "length (drop ?w cur) < length cur" using True by (cases cur) (simp_all add: diff_less)
      show "plain enc (drop ?w cur)" using plain_drop(1) [OF less.prems True] .
    qed
    finally show ?thesis .
  next
    case False
    then show ?thesis by (subst recover_scan.simps) simp
  qed
qed

text \<open>A scan that starts at a line's first byte finds all the terminated lines after it.\<close>

lemma scan_lines:
  assumes "\<And>l. l \<in> set ls \<Longrightarrow> snd l \<and> plain enc (fst l) \<and> whole_units enc (fst l)"
    and "plain enc cur"
  shows "recover_scan (a @ log_text enc ls @ cur) (line_ending enc) start (length a) (length a) es =
    (length a + length (log_text enc ls), es @ entries_at enc (start + length a) ls)"
  using assms(1)
proof (induction ls arbitrary: a es)
  case Nil
  then show ?case using scan_open [OF assms(2)] by simp
next
  case (Cons l ls)
  obtain c where l: "l = (c, True)" "plain enc c" "whole_units enc c"
    using Cons.prems [of l] by (cases l) auto
  let ?e = "line_ending enc" and ?rest = "log_text enc ls @ cur"
  let ?a = "a @ line_record enc l"
  have bytes: "a @ log_text enc (l # ls) @ cur = a @ c @ ?e @ ?rest" "?a @ ?rest = a @ c @ ?e @ ?rest"
    by (simp_all add: l line_record_def)
  have "recover_scan (a @ c @ ?e @ ?rest) ?e start (length a) (length a) es =
      recover_scan (a @ c @ ?e @ ?rest) ?e start (length a) (length a + length c) es"
    using scan_content [OF l(2, 3)] .
  also have "\<dots> = recover_scan (a @ c @ ?e @ ?rest) ?e start (length ?a) (length ?a)
      (es @ [entry_at enc (start + length a) l])"
    by (subst recover_scan.simps) (simp add: l line_record_def entry_at_def add.assoc)
  also have "\<dots> = (length ?a + length (log_text enc ls),
      (es @ [entry_at enc (start + length a) l]) @ entries_at enc (start + length ?a) ls)"
    unfolding bytes(2) [symmetric] using Cons.IH [of ?a] Cons.prems by simp
  finally show ?case unfolding bytes(1) by (simp add: l add.assoc)
qed

text \<open>The open line, when it has content.\<close>

definition open_line :: "byte list \<Rightarrow> log_lines" where
  "open_line cur = (if cur = [] then [] else [(cur, False)])"

lemma recover_tail_exact:
  assumes ls: "\<And>l. l \<in> set ls \<Longrightarrow> snd l \<and> plain enc (fst l) \<and> whole_units enc (fst l)"
    and cur: "plain enc cur" and log: "log = pre @ log_text enc ls @ cur"
    and small: "length (log_text enc ls) + length cur \<le> max_recovery_scan_bytes"
  shows "recover_tail_entries log (length pre) (length log) enc =
    entries_at enc (length pre) (ls @ open_line cur)"
proof -
  have "recover_scan (log_text enc ls @ cur) (line_ending enc) (length pre) 0 0 [] =
      (length (log_text enc ls), entries_at enc (length pre) ls)"
    using scan_lines [OF ls cur, where a = "[]" and start = "length pre" and es = "[]"] by simp
  with small show ?thesis
    by (simp add: recover_tail_entries_def log Let_def open_line_def entry_at_def line_record_def)
qed

text \<open>
  A snapshot opens when the index is read before the log: the log then holds every indexed line. With
  no indexed line the log may not even hold its BOM yet.
\<close>

lemma reader_open_indexed:
  assumes h: "holds enc bom ls log" and detect: "detect_log_encoding log = (enc, length bom)"
  shows "reader_open (index_text (entries_at enc (length bom) ls)) log tail =
    Inr \<lparr>lr_log = log, lr_index = index_text (entries_at enc (length bom) ls), lr_bom_len = length bom,
      lr_indexed = length ls,
      lr_tail = (if tail \<and> length bom + length (log_text enc ls) < length log
        then recover_tail_entries log (length bom + length (log_text enc ls)) (length log) enc else []),
      lr_encoding = enc\<rparr>"
proof -
  let ?index = "index_text (entries_at enc (length bom) ls)"
  let ?stop = "length bom + length (log_text enc ls)"
  have hd: "take 8 ?index = index_header" by (simp add: index_text_def)
  have stop: "?stop \<le> length log" using h by (auto simp: holds_def)
  have "(if length ls = 0 then Inr (length bom)
      else map_r ie_record_end (read_validated_index_entry ?index (length ls) (length ls) (length bom)
        (length log))) = (Inr ?stop :: log_error + nat)"
  proof (cases "ls = []")
    case False
    then obtain i where i: "length ls = Suc i" "i < length ls" by (cases ls) auto
    then have "ls = take i ls @ [ls ! i]" using id_take_nth_drop [of i ls] by simp
    then have "log_text enc ls = log_text enc (take i ls) @ line_record enc (ls ! i)"
      using log_text_split [OF i(2), of enc] i(1) by simp
    with read_validated_exact [OF h i(2)] i False show ?thesis by (simp add: entry_at_def)
  qed simp
  with hd stop show ?thesis
    by (simp add: reader_open_def detect index_entry_bytes_def Let_def)
qed

lemma reader_open_exact:
  assumes h: "holds enc bom ls log" and detect: "detect_log_encoding log = (enc, length bom)"
  shows "reader_open (index_text (entries_at enc (length bom) ls)) log False =
    Inr (snapshot enc bom (length ls) ls log)"
  using reader_open_indexed [OF h detect, of False] by (simp add: snapshot_def)

lemma reader_open_empty:
  "\<exists>r. reader_open (index_text []) log False = Inr r \<and> reader_total_lines r = 0"
proof -
  obtain enc n where d: "detect_log_encoding log = (enc, n)" by (cases "detect_log_encoding log")
  then have "n \<le> length log"
    by (auto simp: detect_log_encoding_def starts_with_def bom_defs Let_def split: if_splits
        dest: arg_cong [of _ _ length])
  with d show ?thesis
    by (simp add: reader_open_def index_text_def index_header_def index_entry_bytes_def
        reader_total_lines_def sat_add_def)
qed

lemma reader_recovers:
  assumes h: "holds enc bom (ls @ open_line cur) log" and log: "log = bom @ log_text enc ls @ cur"
    and detect: "detect_log_encoding log = (enc, length bom)"
    and ls: "\<And>l. l \<in> set (drop n ls) \<Longrightarrow> snd l \<and> plain enc (fst l) \<and> whole_units enc (fst l)"
    and cur: "plain enc cur" and n: "n \<le> length ls"
    and small: "length (log_text enc (drop n ls)) + length cur \<le> max_recovery_scan_bytes"
  shows "reader_open (index_text (entries_at enc (length bom) (take n ls))) log True =
    Inr (snapshot enc bom n (ls @ open_line cur) log)"
proof -
  have "holds enc bom (take n ls) log" using holds_take [OF h, of n] n by simp
  note o = reader_open_indexed [OF this detect, of True]
  obtain p where p: "p = length bom + length (log_text enc (take n ls))" by blast
  note o = o [folded p]
  have split: "log_text enc ls = log_text enc (take n ls) @ log_text enc (drop n ls)"
    using log_text_simps(3) [of enc "take n ls" "drop n ls"] by simp
  have "log = (bom @ log_text enc (take n ls)) @ log_text enc (drop n ls) @ cur" using log split by simp
  note tail = recover_tail_exact [OF ls cur this small, unfolded length_append, folded p]
  have rest: "drop n (entries_at enc (length bom) (ls @ open_line cur)) =
      entries_at enc p (drop n ls @ open_line cur)"
  proof -
    have "ls @ open_line cur = take n ls @ drop n ls @ open_line cur"
      by (simp only: append_assoc [symmetric] append_take_drop_id)
    then have "entries_at enc (length bom) (ls @ open_line cur) =
        entries_at enc (length bom) (take n ls) @ entries_at enc p (drop n ls @ open_line cur)"
      by (simp only: entries_at_append p)
    with n show ?thesis by (simp del: entries_at_append)
  qed
  have none: "drop n ls @ open_line cur = []" if "\<not> p < length log"
  proof -
    have z: "log_text enc (drop n ls) = []" "cur = []" using that log split p by auto
    have "drop n ls = []"
    proof (rule ccontr)
      assume "drop n ls \<noteq> []"
      then obtain l ms where d: "drop n ls = l # ms" by (cases "drop n ls") auto
      with ls [of l] have "snd l" by simp
      with z(1) d show False by (simp add: line_record_def)
    qed
    with z show ?thesis by (simp add: open_line_def)
  qed
  have "(if True \<and> p < length log then recover_tail_entries log p (length log) enc else []) =
      drop n (entries_at enc (length bom) (ls @ open_line cur))"
  proof (cases "p < length log")
    case True
    then show ?thesis by (simp only: simp_thms if_True rest tail)
  next
    case False
    show ?thesis by (simp only: False simp_thms if_False rest none [OF False] entries_at.simps)
  qed
  note o = o [unfolded this]
  show ?thesis unfolding o using n by (simp add: snapshot_def)
qed

section \<open>Snapshots of a running job\<close>

definition grows :: "log_writer \<Rightarrow> log_writer \<Rightarrow> bool" where
  "grows w w' \<longleftrightarrow> (\<exists>d. lw_disk w' = lw_disk w @ d)"

lemma grows_refl [simp]: "grows w w"
  by (simp add: grows_def)

lemma grows_trans: "grows w w' \<Longrightarrow> grows w' w'' \<Longrightarrow> grows w w''"
  by (auto simp: grows_def)

lemma grows_write: "grows w (write_log_unchecked bs w)"
  using buf_write_step [of bs w] by (auto simp: write_log_unchecked_def grows_def Let_def)

lemma grows_fixed: "grows w (snd (write_fixed bs w))"
  by (simp add: write_fixed_def grows_write)

lemma grows_content: "grows w (snd (write_content bs w))"
  by (simp add: write_content_def grows_write Let_def)

lemma grows_commit: "grows w (snd (commit_line t w))"
  using grows_fixed [of w "line_ending (lw_encoding w)"] by (auto simp: commit_line_def Let_def grows_def)

lemma grows_flush: "grows w (log_flush w)"
  by (simp add: log_flush_def grows_def Let_def)

lemma grows_start: "append_start enc w = Inr (c, w') \<Longrightarrow> grows w w'"
  using grows_fixed [of "w\<lparr>lw_started := True, lw_encoding := enc\<rparr>" "stream_bom (the enc)"]
  by (cases enc)
    (auto simp: append_start_def grows_def Let_def split: if_splits prod.splits bool.splits)

lemma grows_sealed:
  "(if lw_has_content v then (case commit_line False v of (n, w) \<Rightarrow> Inr (Some n, w)) else Inr (None, v)) =
     (Inr (c, w') :: log_error + _) \<Longrightarrow> grows v w'"
  using grows_commit [of v False] by (auto split: if_splits prod.splits)

lemma grows_bytes: "append_bytes bs w = Inr (c, w') \<Longrightarrow> grows w w'"
proof -
  assume a: "append_bytes bs w = Inr (c, w')"
  obtain n w2 where w2: "write_content bs w = (n, w2)" by (cases "write_content bs w")
  have g: "grows w w2" using grows_content [of w bs] w2 by simp
  let ?v = "if n < length bs then w2\<lparr>lw_quota := True\<rparr> else w2"
  let ?u = "if 0 < n then ?v\<lparr>lw_has_content := True\<rparr> else ?v"
  have gu: "grows w ?u" using g by (simp add: grows_def)
  consider "lw_disk w' = lw_disk w" | "grows ?u w'"
    using a grows_sealed [of ?u c w'] unfolding append_bytes_def w2 Let_def prod.case
    by (simp only: split: if_splits) auto
  then show ?thesis
    by cases (use gu grows_trans in \<open>auto simp: grows_def\<close>)
qed

lemma grows_line_end: "append_line_end u w = Inr (c, w') \<Longrightarrow> grows w w'"
  using grows_commit [of w u] grows_sealed [of w c w'] grows_sealed [of "w\<lparr>lw_quota := True\<rparr>" c w']
  by (auto simp: append_line_end_def try_commit_line_def grows_def Let_def
      split: if_splits prod.splits option.splits)

lemma grows_event: "append_event e w = Inr (c, w') \<Longrightarrow> grows w w'"
proof -
  assume a: "append_event e w = Inr (c, w')"
  then obtain c1 w1 where w1: "(case e of Start enc \<Rightarrow> append_start enc w | Bytes bs \<Rightarrow> append_bytes bs w
        | LineEnd u \<Rightarrow> append_line_end u w) = Inr (c1, w1)" "w' = w1 \<or> w' = log_flush w1"
    by (auto simp: append_event_def bind_simps split: if_splits)
  have "grows w w1"
    using w1(1) by (cases e) (auto intro: grows_start grows_bytes grows_line_end)
  with w1(2) grows_flush grows_trans show ?thesis by blast
qed

lemma grows_all: "append_all es w = Inr w' \<Longrightarrow> grows w w'"
  by (induction es arbitrary: w) (auto simp: bind_simps dest: grows_event intro: grows_trans)

lemma kept_of_tracks:
  "tracks w bom ls cur \<Longrightarrow>
     \<exists>kept open. log_inv w bom kept open \<and> stored_cut kept ls cur \<and> (\<not> lw_quota w \<longrightarrow> kept = ls)"
  by (auto simp: tracks_def stored_cut_all split: if_splits)

lemma live_step:
  assumes inv: "log_inv w bom kept open" and g: "grows w w'"
    and size: "length (lw_disk w') + 24 * length kept + 8 \<le> usize_max"
    and detect: "0 < lw_durable w \<Longrightarrow> detect_log_encoding (lw_disk w') = (lw_encoding w, length bom)"
  shows "\<exists>r. reader_open (lw_index w) (lw_disk w') False = Inr r \<and> reader_total_lines r = lw_durable w \<and>
    read_range r 1 (lw_durable w) = Inr (map (shown_line (lw_encoding w) kept) [0..<lw_durable w])"
proof (cases "lw_durable w = 0")
  case True
  with inv have "lw_index w = index_text []" by (simp add: log_inv_def index_inv_def)
  with reader_open_empty [of "lw_disk w'"] True show ?thesis by (auto simp: read_range_def)
next
  case False
  let ?enc = "lw_encoding w" and ?n = "lw_durable w"
  let ?ls = "take ?n kept"
  have n: "?n \<le> length kept" and index: "lw_index w = index_text (entries_at ?enc (length bom) ?ls)"
    and covered: "length bom + length (log_text ?enc ?ls) \<le> length (lw_disk w)"
    using inv False by (auto simp: log_inv_def index_inv_def record_stop_def split: if_splits)
  have held: "lw_disk w @ lw_buffer w = bom @ log_text ?enc kept @ open"
    using inv by (simp add: log_inv_def files_inv_def)
  have "log_text ?enc kept = log_text ?enc ?ls @ log_text ?enc (drop ?n kept)"
    using log_text_simps(3) [of ?enc "take ?n kept" "drop ?n kept"] by simp
  with held have t: "lw_disk w @ lw_buffer w = (bom @ log_text ?enc ?ls) @ log_text ?enc (drop ?n kept) @ open"
    by simp
  have "lw_disk w = (bom @ log_text ?enc ?ls) @ drop (length (bom @ log_text ?enc ?ls)) (lw_disk w)"
    using arg_cong [OF t, of "take (length (bom @ log_text ?enc ?ls))"] covered
    by (metis append_take_drop_id append_eq_conv_conj length_append take_append diff_is_0_eq take_0 append_Nil2)
  with g obtain rest where "lw_disk w' = bom @ log_text ?enc ?ls @ rest"
    unfolding grows_def by (metis append.assoc)
  then have h: "holds ?enc bom ?ls (lw_disk w')" using size n by (auto simp: holds_def)
  have len: "length ?ls = ?n" using n by simp
  have d: "detect_log_encoding (lw_disk w') = (?enc, length bom)" using detect False by simp
  have "map (shown_line ?enc ?ls) [0..<?n] = map (shown_line ?enc kept) [0..<?n]"
    by (rule map_cong) (simp_all add: shown_line_def)
  with reader_open_exact [OF h d] read_range_exact [OF h, of 1 ?n "length ?ls"] snapshot_total [OF h]
    False len index
  show ?thesis by simp
qed

lemma live_spec:
  assumes w: "writer_with_limit limit = Inr w" and limit: "limit < usize_max"
    and es: "append_all (Start enc # es) w = Inr w1" "no_start es"
    and fs: "append_all fs w1 = Inr w2" "no_start fs"
    and size: "length (lw_disk w2) + 24 * length (snd (event_lines [] es)) + 32 \<le> usize_max"
    and detect: "0 < lw_durable w1 \<Longrightarrow>
      detect_log_encoding (lw_disk w2) = (enc, length (encoding_bom enc))"
  shows "\<exists>r kept. reader_open (lw_index w1) (lw_disk w2) False = Inr r \<and>
    reader_total_lines r = lw_durable w1 \<and>
    read_range r 1 (lw_durable w1) = Inr (map (shown_line enc kept) [0..<lw_durable w1]) \<and>
    stored_cut kept (snd (event_lines [] es)) (fst (event_lines [] es)) \<and>
    (\<not> lw_quota w1 \<longrightarrow> kept = snd (event_lines [] es))"
proof -
  from append_start_step [OF w limit, of enc] obtain w0 where
    w0: "append_event (Start enc) w = Inr (None, w0)" "tracks w0 (encoding_bom enc) [] []"
      "lw_encoding w0 = enc" by blast
  obtain cur ls where ev: "event_lines [] es = (cur, ls)" by (cases "event_lines [] es")
  from append_all_step [OF w0(2) es(2) ev] es(1) w0(1) have
    t: "tracks w1 (encoding_bom enc) ls cur" "same_stream w0 w1" by auto
  from kept_of_tracks [OF t(1)] obtain kept rest where
    k: "log_inv w1 (encoding_bom enc) kept rest" "stored_cut kept ls cur" "\<not> lw_quota w1 \<longrightarrow> kept = ls"
    by blast
  have enc: "lw_encoding w1 = enc" using t(2) w0(3) by (simp add: same_stream_def)
  have "length kept \<le> Suc (length ls)" using k(2) by (auto simp: stored_cut_def)
  then have "length (lw_disk w2) + 24 * length kept + 8 \<le> usize_max" using size ev by simp
  from live_step [OF k(1) grows_all [OF fs(1)] this] detect enc k(2, 3) ev show ?thesis by auto
qed

lemma capture_read:
  assumes w: "writer_with_limit limit = Inr w" and limit: "limit < usize_max"
  shows "\<exists>w' kept. append_all (log_events chunks) w = Inr w' \<and>
    (let enc = mode_encoding (fst (reference_mode (concat chunks))); f = log_finish w' in
     length (lw_disk f) + length (lw_index f) \<le> limit \<and>
     stored_cut kept (reference_lines (concat chunks)) [] \<and>
     (\<not> lw_quota w' \<longrightarrow> kept = reference_lines (concat chunks)) \<and>
     (detect_log_encoding (lw_disk f) = (enc, length (encoding_bom enc)) \<longrightarrow>
       (\<exists>r. reader_open (lw_index f) (lw_disk f) True = Inr r \<and> reader_total_lines r = length kept \<and>
          read_range r 1 (length kept) = Inr (map (shown_line enc kept) [0..<length kept]))))"
proof -
  let ?enc = "mode_encoding (fst (reference_mode (concat chunks)))"
  let ?bom = "encoding_bom ?enc"
  from capture_step [OF w limit, of chunks] obtain w' kept where
    c: "append_all (log_events chunks) w = Inr w'" "stored_cut kept (reference_lines (concat chunks)) []"
      "\<not> lw_quota w' \<longrightarrow> kept = reference_lines (concat chunks)"
      "lw_disk (log_finish w') = ?bom @ log_text ?enc kept"
      "lw_index (log_finish w') = index_text (entries_at ?enc (length ?bom) kept)"
      "length (lw_disk (log_finish w')) + length (lw_index (log_finish w')) \<le> limit"
    unfolding Let_def by blast
  have h: "holds ?enc ?bom kept (lw_disk (log_finish w'))"
    using c(4, 5, 6) limit by (simp add: holds_def)
  have "\<exists>r. reader_open (lw_index (log_finish w')) (lw_disk (log_finish w')) True = Inr r \<and>
      reader_total_lines r = length kept \<and>
      read_range r 1 (length kept) = Inr (map (shown_line ?enc kept) [0..<length kept])"
    if d: "detect_log_encoding (lw_disk (log_finish w')) = (?enc, length ?bom)"
  proof -
    have o: "reader_open (lw_index (log_finish w')) (lw_disk (log_finish w')) True =
        Inr (snapshot ?enc ?bom (length kept) kept (lw_disk (log_finish w')))"
      using reader_open_indexed [OF h d, of True] unfolding c(5) by (simp add: snapshot_def c(4))
    have "kept = [] \<Longrightarrow> read_range r 1 (length kept) = Inr []" for r by (simp add: read_range_def)
    with o read_range_exact [OF h, of 1 "length kept" "length kept"] snapshot_total [OF h]
    show ?thesis by (cases kept) auto
  qed
  with c show ?thesis unfolding Let_def by blast
qed

text \<open>
  The reader takes the encoding from the log's first bytes, the writer from the normalizer. A byte
  stream whose first visible bytes are FF FE but which did not start with them (an escape sequence or
  a UTF-8 BOM came first) is logged without an encoding and then read as UTF-16: its healthy index is
  reported as damaged.
\<close>

lemma mistaken_encoding:
  "log_events [[0x1b, 0x37, 0xff, 0xfe, 10]] = [Start None, Bytes [0xff, 0xfe], LineEnd True] \<and>
   reader_open (index_text (entries_at None 0 [([0xff, 0xfe], True)]))
     (log_text None [([0xff, 0xfe], True)]) True = Inl DamagedIndex"
proof
  show "log_events [[0x1b, 0x37, 0xff, 0xfe, 10]] = [Start None, Bytes [0xff, 0xfe], LineEnd True]"
    by (simp add: log_events_def new_core_def push_def select_mode_def detect_stream_mode_def
        starts_with_def bom_defs seq_def process_def process_byte_def process_unit_def
        push_text_unit_def emit_line_def flush_bytes_def finish_def finish_open_def mode_encoding_def Let_def)
  have h: "holds None [] [([0xff, 0xfe], True)] (log_text None [([0xff, 0xfe], True)])"
    by (simp add: holds_def line_record_def line_ending_def usize_max_def)
  note r = read_index_entry_exact [OF h, of 0]
  show "reader_open (index_text (entries_at None 0 [([0xff, 0xfe], True)]))
      (log_text None [([0xff, 0xfe], True)]) True = Inl DamagedIndex"
    using r
    by (simp add: reader_open_def detect_log_encoding_def starts_with_def bom_defs line_record_def
        line_ending_def index_text_def index_entry_bytes_def read_validated_index_entry_def Let_def)
      (simp add: entry_at_def)
qed

section \<open>Properties\<close>





text \<open>
  C27. Recovery after a crash. When a job stopped with lines that are in the log but not in the index,
  or with a line that was never finished, a reader that includes the unindexed tail returns every
  line: those of the index, the terminated ones found by the scan, and the open line's content. The
  content of the unindexed lines holds no line ending at a unit boundary, as the normalizer
  guarantees, and the unindexed bytes are at most the scan's 256 KiB.
\<close>

theorem crash_recovery:
  assumes "log = bom @ log_text enc ls @ cur"
    and "detect_log_encoding log = (enc, length bom)" and "n \<le> length ls"
    and "\<And>l. l \<in> set (drop n ls) \<Longrightarrow> snd l \<and> plain enc (fst l) \<and> whole_units enc (fst l)"
    and "plain enc cur"
    and "length (log_text enc (drop n ls)) + length cur \<le> max_recovery_scan_bytes"
    and "length log + 24 * length ls + 32 \<le> usize_max"
  shows "\<exists>r. reader_open (index_text (entries_at enc (length bom) (take n ls))) log True = Inr r \<and>
    reader_total_lines r = length (ls @ open_line cur) \<and>
    (\<forall>i < length (ls @ open_line cur). read_one r (Suc i) = Inr (shown_line enc (ls @ open_line cur) i))"
proof -
  have h: "holds enc bom (ls @ open_line cur) log"
    using assms(1, 7) by (auto simp: holds_def open_line_def line_record_def)
  from reader_recovers [OF h assms(1, 2, 4, 5, 3, 6)] snapshot_total [OF h] read_one_exact [OF h]
  show ?thesis by blast
qed

lemma crash_recovery_witness:
  "\<exists>r. reader_open index_header [65, 10, 66] True = Inr r \<and> reader_total_lines r = 2 \<and>
     read_one r 2 = Inr \<lparr>sl_seq = 2, sl_bytes = [66], sl_total = 1, sl_encoding = None, sl_truncated = False\<rparr>"
proof -
  have plain: "plain None [65]" "plain None [66]"
    by (auto simp: plain_def line_ending_def Let_def)
  have d: "detect_log_encoding [65, 10, 66] = (None, length ([] :: byte list))"
    by (simp add: detect_log_encoding_def starts_with_def bom_defs)
  have log: "[65, 10, 66] = [] @ log_text None [([65], True)] @ [66]"
    by (simp add: line_record_def line_ending_def)
  have size: "length [65 :: byte, 10, 66] + 24 * length [([65 :: byte], True)] + 32 \<le> usize_max"
    by (simp add: usize_max_def)
  have small: "length (log_text None (drop 0 [([65], True)])) + length [66 :: byte] \<le> max_recovery_scan_bytes"
    by (simp add: line_record_def line_ending_def max_recovery_scan_bytes_def)
  have ls: "snd l \<and> plain None (fst l) \<and> whole_units None (fst l)" if "l \<in> set (drop 0 [([65], True)])" for l
    using that plain by (simp add: whole_units_def line_ending_def)
  from crash_recovery [OF log d _ ls plain(2) small size] show ?thesis
    by (auto simp: index_text_def open_line_def shown_line_def max_stored_line_bytes_def numeral_2_eq_2
        less_Suc_eq all_conj_distrib imp_conjL)
qed

end
