(* ===== verification/Utf8_Validation.thy ===== *)
theory Utf8_Validation
  imports Characters
begin

text \<open>
  UTF-8 validation of raw bytes: the standard library's \<open>str::from_utf8\<close>, and the two incremental
  validators built beside it, the evidence automaton of a segment
  (\<open>Utf8Evidence\<close> of \<open>src/src/encoding/snapshot_pipeline.rs\<close>) and the strong-prefix conflict
  scanner (\<open>Utf8PrefixScanner\<close> of \<open>src/src/encoding.rs\<close>).
\<close>

section \<open>The standard library's validator\<close>

definition utf8_text :: "byte list \<Rightarrow> utf8" where
  "utf8_text bs = map (\<lambda>b. char_of (unat b)) bs"

text \<open>
  The ranges of the bytes that must follow a lead byte. The second byte is restricted where a full
  range would allow an overlong form, a surrogate or a value above U+10FFFF.
\<close>

definition cont :: "nat \<times> nat" where
  "cont = (0x80, 0xBF)"

definition follow :: "byte \<Rightarrow> (nat \<times> nat) list option" where
  "follow b =
     (let v = unat b in
      if v < 0x80 then Some []
      else if 0xC2 \<le> v \<and> v \<le> 0xDF then Some [cont]
      else if v = 0xE0 then Some [(0xA0, 0xBF), cont]
      else if v = 0xED then Some [(0x80, 0x9F), cont]
      else if 0xE1 \<le> v \<and> v \<le> 0xEF then Some [cont, cont]
      else if v = 0xF0 then Some [(0x90, 0xBF), cont, cont]
      else if 0xF1 \<le> v \<and> v \<le> 0xF3 then Some [cont, cont, cont]
      else if v = 0xF4 then Some [(0x80, 0x8F), cont, cont]
      else None)"

definition in_range :: "byte \<Rightarrow> nat \<times> nat \<Rightarrow> bool" where
  "in_range b r \<longleftrightarrow> fst r \<le> unat b \<and> unat b \<le> snd r"

text \<open>One sequence: complete after \<open>n\<close> bytes, cut short by the end of the input, or broken after \<open>n\<close> bytes.\<close>

datatype sequence_scan = Whole nat | Cut | Broken nat

fun scan_ranges :: "(nat \<times> nat) list \<Rightarrow> byte list \<Rightarrow> nat \<Rightarrow> sequence_scan" where
  "scan_ranges [] bs k = Whole k"
| "scan_ranges (r # rs) [] k = Cut"
| "scan_ranges (r # rs) (b # bs) k = (if in_range b r then scan_ranges rs bs (Suc k) else Broken k)"

text \<open>\<open>Utf8Error\<close>: the length of the valid prefix and, unless the input merely ends early, of the invalid sequence.\<close>

datatype utf8_result = Valid | Invalid nat "nat option"

lemma scan_ranges_ge: "scan_ranges rs bs k = Whole n \<Longrightarrow> k \<le> n"
  by (induction rs bs k rule: scan_ranges.induct) (auto split: if_splits)

function from_utf8_at :: "nat \<Rightarrow> byte list \<Rightarrow> utf8_result" where
  "from_utf8_at n [] = Valid"
| "from_utf8_at n (b # bs) =
     (case follow b of
        None \<Rightarrow> Invalid n (Some 1)
      | Some rs \<Rightarrow>
          (case scan_ranges rs bs 1 of
             Whole k \<Rightarrow> from_utf8_at (n + k) (drop k (b # bs))
           | Cut \<Rightarrow> Invalid n None
           | Broken k \<Rightarrow> Invalid n (Some k)))"
  by pat_completeness auto
termination
  by (relation "measure (\<lambda>(n, bs). length bs)") (auto dest: scan_ranges_ge)

definition from_utf8 :: "byte list \<Rightarrow> utf8_result" where
  "from_utf8 bs = from_utf8_at 0 bs"

definition is_utf8 :: "byte list \<Rightarrow> bool" where
  "is_utf8 bs \<longleftrightarrow> from_utf8 bs = Valid"

section \<open>The evidence automaton\<close>

record utf8_evidence =
  ev_valid :: bool
  ev_initialized :: bool
  ev_remaining :: nat
  ev_next_min :: nat
  ev_next_max :: nat

definition new_evidence :: utf8_evidence where
  "new_evidence = \<lparr>ev_valid = False, ev_initialized = False, ev_remaining = 0, ev_next_min = 0, ev_next_max = 0\<rparr>"

definition evidence_begin :: "nat \<Rightarrow> nat \<Rightarrow> nat \<Rightarrow> utf8_evidence \<Rightarrow> utf8_evidence" where
  "evidence_begin remaining next_min next_max e =
     e\<lparr>ev_remaining := remaining, ev_next_min := next_min, ev_next_max := next_max\<rparr>"

definition evidence_push :: "byte \<Rightarrow> utf8_evidence \<Rightarrow> utf8_evidence" where
  "evidence_push b e =
     (let e = (if ev_initialized e then e else e\<lparr>ev_initialized := True, ev_valid := True\<rparr>);
          v = unat b in
      if \<not> ev_valid e then e
      else if 0 < ev_remaining e then
        (if \<not> (ev_next_min e \<le> v \<and> v \<le> ev_next_max e) then e\<lparr>ev_valid := False\<rparr>
         else e\<lparr>ev_remaining := ev_remaining e - 1, ev_next_min := 0x80, ev_next_max := 0xBF\<rparr>)
      else if v \<le> 0x7F then e
      else if 0xC2 \<le> v \<and> v \<le> 0xDF then evidence_begin 1 0x80 0xBF e
      else if v = 0xE0 then evidence_begin 2 0xA0 0xBF e
      else if (0xE1 \<le> v \<and> v \<le> 0xEC) \<or> (0xEE \<le> v \<and> v \<le> 0xEF) then evidence_begin 2 0x80 0xBF e
      else if v = 0xED then evidence_begin 2 0x80 0x9F e
      else if v = 0xF0 then evidence_begin 3 0x90 0xBF e
      else if 0xF1 \<le> v \<and> v \<le> 0xF3 then evidence_begin 3 0x80 0xBF e
      else if v = 0xF4 then evidence_begin 3 0x80 0x8F e
      else e\<lparr>ev_valid := False\<rparr>)"

definition evidence_complete :: "utf8_evidence \<Rightarrow> bool" where
  "evidence_complete e \<longleftrightarrow> (\<not> ev_initialized e \<or> ev_valid e) \<and> ev_remaining e = 0"

section \<open>The conflict scanner\<close>

definition utf8_segment_min_bytes :: nat where
  "utf8_segment_min_bytes = 32"

definition utf8_segment_min_non_ascii :: nat where
  "utf8_segment_min_non_ascii = 8"

definition is_ascii :: "byte \<Rightarrow> bool" where
  "is_ascii b \<longleftrightarrow> unat b < 128"

definition non_ascii_count :: "byte list \<Rightarrow> nat" where
  "non_ascii_count bs = length (filter (\<lambda>b. \<not> is_ascii b) bs)"

record prefix_scanner =
  ps_base :: nat
  ps_valid :: nat
  ps_non_ascii :: nat
  ps_carry :: "byte list"
  ps_abandoned :: bool

definition new_scanner :: prefix_scanner where
  "new_scanner = \<lparr>ps_base = 0, ps_valid = 0, ps_non_ascii = 0, ps_carry = [], ps_abandoned = False\<rparr>"

definition observe_valid :: "byte list \<Rightarrow> prefix_scanner \<Rightarrow> prefix_scanner" where
  "observe_valid bs s =
     s\<lparr>ps_valid := sat_add (ps_valid s) (length bs),
       ps_non_ascii := sat_add (ps_non_ascii s) (non_ascii_count bs)\<rparr>"

definition clear_prefix :: "prefix_scanner \<Rightarrow> bool" where
  "clear_prefix s \<longleftrightarrow>
     utf8_segment_min_bytes \<le> ps_valid s \<and> utf8_segment_min_non_ascii \<le> ps_non_ascii s"

definition scanner_push :: "byte list \<Rightarrow> prefix_scanner \<Rightarrow> nat option \<times> prefix_scanner" where
  "scanner_push input s =
     (if ps_abandoned s then (None, s)
      else
        let combined = ps_carry s @ input; s = s\<lparr>ps_carry := []\<rparr> in
        case from_utf8 combined of
          Valid \<Rightarrow>
            (None, (observe_valid combined s)\<lparr>ps_base := sat_add (ps_base s) (length combined)\<rparr>)
        | Invalid valid_up_to error_len \<Rightarrow>
            let s = observe_valid (take valid_up_to combined) s in
            if error_len \<noteq> None then
              let conflict = sat_add (ps_base s) valid_up_to in
              if clear_prefix s then (Some (conflict div 16 + 1), s)
              else (None, s\<lparr>ps_abandoned := True\<rparr>)
            else
              (None, s\<lparr>ps_base := sat_add (ps_base s) valid_up_to,
                       ps_carry := drop valid_up_to combined\<rparr>))"

definition scanner_finish :: "prefix_scanner \<Rightarrow> nat option" where
  "scanner_finish s =
     (if ps_abandoned s \<or> ps_carry s = [] then None
      else case from_utf8 (ps_carry s) of
          Valid \<Rightarrow> None
        | Invalid valid_up_to _ \<Rightarrow>
            let s' = observe_valid (take valid_up_to (ps_carry s)) s in
            if clear_prefix s' then Some ((ps_base s + valid_up_to) div 16 + 1) else None)"

section \<open>Validation of joined inputs\<close>

lemma scan_ranges_append:
  "scan_ranges rs as k \<noteq> Cut \<Longrightarrow> scan_ranges rs (as @ bs) k = scan_ranges rs as k"
  by (induction rs as k rule: scan_ranges.induct) (auto split: if_splits)

lemma scan_ranges_le: "scan_ranges rs bs k = Whole n \<Longrightarrow> n \<le> k + length bs"
  by (induction rs bs k rule: scan_ranges.induct) (auto split: if_splits)

lemma scan_ranges_take: "scan_ranges rs bs k = Whole n \<Longrightarrow> scan_ranges rs (take (n - k) bs) k = Whole n"
proof (induction rs bs k rule: scan_ranges.induct)
  case (3 r rs b bs k)
  then have s: "in_range b r" "scan_ranges rs bs (Suc k) = Whole n" by (auto split: if_splits)
  have "take (n - k) (b # bs) = b # take (n - Suc k) bs"
    using scan_ranges_ge [OF s(2)] by (simp add: take_Cons' Suc_diff_le)
  with 3 s show ?case by simp
qed auto

text \<open>
  A valid prefix is skipped, an incomplete one leaves its tail to be read with what follows, and an
  invalid sequence is final.
\<close>

lemma from_utf8_at_append:
  "from_utf8_at n (as @ bs) =
     (case from_utf8_at n as of
        Valid \<Rightarrow> from_utf8_at (n + length as) bs
      | Invalid v None \<Rightarrow> from_utf8_at v (drop (v - n) as @ bs)
      | Invalid v (Some k) \<Rightarrow> Invalid v (Some k)) \<and>
   (\<forall>v e. from_utf8_at n as = Invalid v e \<longrightarrow> n \<le> v \<and> v \<le> n + length as)"
proof (induction n as rule: from_utf8_at.induct)
  case (2 n b as)
  show ?case
  proof (cases "follow b")
    case None
    then show ?thesis by simp
  next
    case (Some rs)
    show ?thesis
    proof (cases "scan_ranges rs as 1")
      case (Whole k)
      have k: "1 \<le> k" "k \<le> Suc (length as)"
        using scan_ranges_ge [OF Whole] scan_ranges_le [OF Whole] by auto
      have w: "scan_ranges rs (as @ bs) 1 = Whole k" using scan_ranges_append [of rs as 1 bs] Whole by simp
      have dr: "drop k (b # as @ bs) = drop k (b # as) @ bs" using k by (cases k) simp_all
      have l: "from_utf8_at n ((b # as) @ bs) = from_utf8_at (n + k) (drop k (b # as) @ bs)"
        by (simp only: append_Cons from_utf8_at.simps Some w option.case sequence_scan.case dr)
      have r: "from_utf8_at n (b # as) = from_utf8_at (n + k) (drop k (b # as))"
        by (simp only: from_utf8_at.simps Some Whole option.case sequence_scan.case)
      obtain ys where ys: "ys = drop k (b # as)" by blast
      have len: "length ys = Suc (length as) - k" by (simp add: ys)
      note IH = "2.IH" [OF Some Whole, folded ys]
      show ?thesis
      proof (cases "from_utf8_at (n + k) ys")
        case Valid
        with IH have "from_utf8_at (n + k) (ys @ bs) = from_utf8_at (n + k + length ys) bs" by simp
        with Valid len k show ?thesis unfolding l r ys [symmetric] by simp
      next
        case (Invalid v e)
        with IH have v: "n + k \<le> v" "v \<le> n + k + length ys" by auto
        have "v - (n + k) + k = v - n" using v(1) by simp
        then have d: "drop (v - (n + k)) ys = drop (v - n) (b # as)" by (simp only: ys drop_drop)
        show ?thesis
        proof (cases e)
          case None
          with Invalid IH d have "from_utf8_at (n + k) (ys @ bs) = from_utf8_at v (drop (v - n) (b # as) @ bs)"
            by simp
          with Invalid None v len k show ?thesis unfolding l r ys [symmetric] by simp
        next
          case (Some i)
          with Invalid IH have "from_utf8_at (n + k) (ys @ bs) = Invalid v (Some i)" by simp
          with Invalid Some v len k show ?thesis unfolding l r ys [symmetric] by simp
        qed
      qed
    next
      case Cut
      then show ?thesis using Some by simp
    next
      case (Broken k)
      then have "scan_ranges rs (as @ bs) 1 = Broken k" using scan_ranges_append [of rs as 1 bs] by simp
      with Broken Some show ?thesis by simp
    qed
  qed
qed simp

lemma from_utf8_shift:
  "from_utf8_at (m + n) bs =
     (case from_utf8_at n bs of Valid \<Rightarrow> Valid | Invalid v e \<Rightarrow> Invalid (m + v) e)"
proof (induction n bs rule: from_utf8_at.induct)
  case (2 n b bs)
  then show ?case
    by (auto simp: add.assoc split: option.split sequence_scan.split)
qed simp

lemma from_utf8_prefix:
  "from_utf8_at n bs = Invalid v e \<Longrightarrow> from_utf8_at n (take (v - n) bs) = Valid"
proof (induction n bs rule: from_utf8_at.induct)
  case (2 n b bs)
  show ?case
  proof (cases "follow b")
    case (Some rs)
    show ?thesis
    proof (cases "scan_ranges rs bs 1")
      case (Whole k)
      have r: "from_utf8_at (n + k) (drop k (b # bs)) = Invalid v e"
        using "2.prems" by (simp only: from_utf8_at.simps Some Whole option.case sequence_scan.case)
      from "2.IH" [OF Some Whole r] have
        IH: "from_utf8_at (n + k) (take (v - (n + k)) (drop k (b # bs))) = Valid" .
      have v: "n + k \<le> v" using r from_utf8_at_append [of "n + k" "drop k (b # bs)" "[]"] by blast
      have k: "1 \<le> k" "k \<le> Suc (length bs)"
        using scan_ranges_ge [OF Whole] scan_ranges_le [OF Whole] by auto
      have split: "take (v - n) (b # bs) = take k (b # bs) @ take (v - (n + k)) (drop k (b # bs))"
        using v take_add [of k "v - (n + k)" "b # bs"] by (simp add: add.commute)
      have "from_utf8_at n (take k (b # bs)) = Valid \<and> length (take k (b # bs)) = k"
      proof -
        have "scan_ranges rs (take (k - 1) bs) 1 = Whole k" using scan_ranges_take [OF Whole] .
        then show ?thesis using k Some by (cases k) auto
      qed
      then show ?thesis unfolding split using from_utf8_at_append IH by simp
    qed (use "2.prems" Some in auto)
  qed (use 2 in auto)
qed simp

lemma is_utf8_at: "(from_utf8_at n bs = Valid) = is_utf8 bs"
  using from_utf8_shift [of n 0 bs] by (simp add: is_utf8_def from_utf8_def split: utf8_result.split)

lemma is_utf8_append: "is_utf8 as \<Longrightarrow> is_utf8 (as @ bs) = is_utf8 bs"
  using from_utf8_at_append [of 0 as bs] is_utf8_at [of "length as" bs]
  unfolding is_utf8_def from_utf8_def by simp

section \<open>The automaton accepts the validator's language\<close>

definition scan_shift :: "nat \<Rightarrow> sequence_scan \<Rightarrow> sequence_scan" where
  "scan_shift n r = (case r of Whole k \<Rightarrow> Whole (n + k) | Cut \<Rightarrow> Cut | Broken k \<Rightarrow> Broken (n + k))"

lemma scan_ranges_shift: "scan_ranges rs bs (n + k) = scan_shift n (scan_ranges rs bs k)"
  by (induction rs bs k rule: scan_ranges.induct) (auto simp: scan_shift_def)

text \<open>Valid when the ranges \<open>rs\<close> are still owed.\<close>

definition owed :: "(nat \<times> nat) list \<Rightarrow> byte list \<Rightarrow> bool" where
  "owed rs bs \<longleftrightarrow> (case scan_ranges rs bs 0 of Whole k \<Rightarrow> is_utf8 (drop k bs) | _ \<Rightarrow> False)"

lemma owed_simps [simp]:
  "owed [] bs = is_utf8 bs"
  "owed (r # rs) [] = False"
  "owed (r # rs) (b # bs) = (in_range b r \<and> owed rs bs)"
  using scan_ranges_shift [of rs bs 1 0]
  by (auto simp: owed_def scan_shift_def split: sequence_scan.split)

lemma is_utf8_simps [simp]:
  "is_utf8 []"
  "is_utf8 (b # bs) = (case follow b of None \<Rightarrow> False | Some rs \<Rightarrow> owed rs bs)"
proof -
  show "is_utf8 []" by (simp add: is_utf8_def from_utf8_def)
  show "is_utf8 (b # bs) = (case follow b of None \<Rightarrow> False | Some rs \<Rightarrow> owed rs bs)"
  proof (cases "follow b")
    case (Some rs)
    have "scan_ranges rs bs 1 = scan_shift 1 (scan_ranges rs bs 0)"
      using scan_ranges_shift [of rs bs 1 0] by simp
    with Some show ?thesis
      by (cases "scan_ranges rs bs 0")
        (simp_all add: is_utf8_def [of "b # bs"] from_utf8_def scan_shift_def owed_def is_utf8_at)
  qed (simp add: is_utf8_def from_utf8_def)
qed

definition ranges_left :: "utf8_evidence \<Rightarrow> (nat \<times> nat) list" where
  "ranges_left e =
     (if ev_remaining e = 0 then []
      else (ev_next_min e, ev_next_max e) # replicate (ev_remaining e - 1) cont)"

lemma evidence_stays_invalid:
  "ev_initialized e \<Longrightarrow> \<not> ev_valid e \<Longrightarrow> \<not> evidence_complete (fold evidence_push bs e)"
  by (induction bs arbitrary: e) (auto simp: evidence_complete_def evidence_push_def Let_def)

lemma evidence_step:
  assumes "ev_initialized e" "ev_valid e"
  shows "case (case ranges_left e of [] \<Rightarrow> follow b | r # rs \<Rightarrow> if in_range b r then Some rs else None) of
    None \<Rightarrow> ev_initialized (evidence_push b e) \<and> \<not> ev_valid (evidence_push b e)
  | Some rs \<Rightarrow> ev_initialized (evidence_push b e) \<and> ev_valid (evidence_push b e) \<and>
      ranges_left (evidence_push b e) = rs"
proof (cases "ev_remaining e = 0")
  case True
  show ?thesis
    using assms True
    by (auto simp: ranges_left_def follow_def evidence_push_def evidence_begin_def cont_def
        numeral_2_eq_2 numeral_3_eq_3 Let_def)
next
  case False
  then obtain k where "ev_remaining e = Suc k" by (cases "ev_remaining e") auto
  with assms show ?thesis
    by (cases k) (auto simp: ranges_left_def evidence_push_def in_range_def cont_def Let_def)
qed

lemma evidence_accepts:
  "ev_initialized e \<Longrightarrow> ev_valid e \<Longrightarrow>
     evidence_complete (fold evidence_push bs e) = owed (ranges_left e) bs"
proof (induction bs arbitrary: e)
  case Nil
  then show ?case by (simp add: evidence_complete_def ranges_left_def)
next
  case (Cons b bs)
  let ?next = "case ranges_left e of [] \<Rightarrow> follow b | r # rs \<Rightarrow> if in_range b r then Some rs else None"
  have o: "owed (ranges_left e) (b # bs) = (case ?next of None \<Rightarrow> False | Some rs \<Rightarrow> owed rs bs)"
    by (cases "ranges_left e") auto
  from evidence_step [OF Cons.prems, of b] show ?case
    unfolding o
    by (cases ?next) (auto simp: evidence_stays_invalid Cons.IH)
qed

lemma evidence_exact: "evidence_complete (fold evidence_push bs new_evidence) = is_utf8 bs"
proof (cases bs)
  case Nil
  then show ?thesis by (simp add: evidence_complete_def new_evidence_def)
next
  case (Cons b cs)
  let ?e = "new_evidence\<lparr>ev_initialized := True, ev_valid := True\<rparr>"
  have "evidence_push b new_evidence = evidence_push b ?e"
    by (simp add: evidence_push_def new_evidence_def Let_def)
  with Cons evidence_accepts [of ?e bs] show ?thesis by (simp add: ranges_left_def new_evidence_def)
qed

section \<open>The validator accepts exactly the encodings of Unicode scalar values\<close>

definition utf8_bytes :: "utf8 \<Rightarrow> byte list" where
  "utf8_bytes t = map (\<lambda>c. of_nat (of_char c)) t"

lemma utf8_bytes_text [simp]: "utf8_bytes (utf8_text bs) = bs"
proof -
  have "unat b < 256" for b :: byte using unsigned_less [of b] by simp
  then show ?thesis by (simp add: utf8_bytes_def utf8_text_def comp_def)
qed

lemma utf8_text_bytes [simp]: "utf8_text (utf8_bytes t) = t"
proof -
  have "(of_char c :: nat) < 256" for c by (simp add: nat_of_char_less_256)
  then have "char_of (unat (of_nat (of_char c) :: byte)) = c" for c
    by (simp add: unat_of_nat)
  then show ?thesis by (simp add: utf8_bytes_def utf8_text_def comp_def)
qed

lemma unat_small: "x < 256 \<Longrightarrow> unat (of_nat x :: byte) = x"
  by (simp add: unat_of_nat)

lemma utf8_bytes_simps [simp]:
  "utf8_bytes [] = []" "utf8_bytes (a @ b) = utf8_bytes a @ utf8_bytes b"
  by (simp_all add: utf8_bytes_def)

lemma utf8_of_valid:
  assumes "is_scalar v"
  shows "is_utf8 (utf8_bytes (utf8_of v) @ rest) = is_utf8 rest"
proof -
  have d: "v div 4096 = v div 64 div 64" "v div 262144 = v div 64 div 64 div 64"
    by (simp_all add: div_mult2_eq [symmetric])
  obtain q a where a: "v = 64 * q + a" "a < 64" using radix64 by blast
  obtain r b where b: "q = 64 * r + b" "b < 64" using radix64 by blast
  obtain u c where c: "r = 64 * u + c" "c < 64" using radix64 by blast
  have "v div 64 = q" "v mod 64 = a" using a by simp_all
  moreover have "q div 64 = r" "q mod 64 = b" using b by simp_all
  moreover have "r div 64 = u" "r mod 64 = c" using c by simp_all
  ultimately have parts: "v div 64 = q" "v mod 64 = a" "q div 64 = r" "q mod 64 = b" "r div 64 = u" "r mod 64 = c"
    by blast+
  have lim: "v < 0x110000" "\<not> (0xD800 \<le> v \<and> v < 0xE000)" using assms by (auto simp: is_scalar_def)
  consider "v < 0x80" | "0x80 \<le> v" "v < 0x800" | "0x800 \<le> v" "v < 0x10000" | "0x10000 \<le> v" by linarith
  then show ?thesis
  proof cases
    case 1
    then show ?thesis by (simp add: utf8_of_def utf8_bytes_def follow_def unat_small)
  next
    case 2
    then have "2 \<le> q" "q < 32" using a by auto
    with 2 a show ?thesis
      by (simp add: utf8_of_def utf8_bytes_def follow_def unat_small parts in_range_def cont_def Let_def
          del: of_nat_add)
  next
    case 3
    have r: "r < 16" "r = 0 \<longrightarrow> 32 \<le> b" "r = 13 \<longrightarrow> b < 32" using 3 lim a b by auto
    with 3 a(2) b(2) show ?thesis
      by (auto simp: utf8_of_def utf8_bytes_def follow_def unat_small parts d in_range_def cont_def Let_def
          simp del: of_nat_add)
  next
    case 4
    have u: "u \<le> 4" "u = 0 \<longrightarrow> 16 \<le> c" "u = 4 \<longrightarrow> c < 16" using 4 lim a b c by auto
    with 4 a(2) b(2) c(2) show ?thesis
      by (auto simp: utf8_of_def utf8_bytes_def follow_def unat_small parts d in_range_def cont_def Let_def
          simp del: of_nat_add)
  qed
qed

lemma valid_utf8_encodes: "list_all is_scalar vs \<Longrightarrow> is_utf8 (utf8_bytes (concat (map utf8_of vs)))"
proof (induction vs)
  case (Cons v vs)
  then show ?case using utf8_of_valid [of v "utf8_bytes (concat (map utf8_of vs))"] by simp
qed simp

text \<open>Reading one valid sequence: the scalar and the rest.\<close>

lemma in_cont: "in_range b cont \<Longrightarrow> \<exists>x < 64. unat b = 0x80 + x"
  by (rule exI [of _ "unat b - 0x80"]) (auto simp: in_range_def cont_def)

lemma utf8_text_simps [simp]:
  "utf8_text [] = []" "utf8_text (b # bs) = char_of (unat b) # utf8_text bs"
  "utf8_text (as @ bs) = utf8_text as @ utf8_text bs"
  by (simp_all add: utf8_text_def)

lemma radix_parts: "(b::nat) < 64 \<Longrightarrow> (64 * q + b) div 64 = q \<and> (64 * q + b) mod 64 = b"
  by simp

lemma owed_Cons: "owed (r # rs) bs \<Longrightarrow> \<exists>b cs. bs = b # cs \<and> in_range b r \<and> owed rs cs"
  by (cases bs) auto

lemma sub_range: "in_range b (lo, hi) \<Longrightarrow> 0x80 \<le> lo \<Longrightarrow> hi \<le> 0xBF \<Longrightarrow> in_range b cont"
  by (auto simp: in_range_def cont_def)

lemma valid_sequence:
  assumes "is_utf8 (b # bs)"
  shows "\<exists>v cs. is_scalar v \<and> utf8_text (b # bs) = utf8_of v @ utf8_text cs \<and> is_utf8 cs \<and>
    length cs \<le> length bs"
proof -
  obtain rs where rs: "follow b = Some rs" "owed rs bs" using assms by (auto split: option.splits)
  have bound: "unat b < 256" using unsigned_less [of b] by simp
  consider "unat b < 0x80" "rs = []" | "0xC2 \<le> unat b" "unat b \<le> 0xDF" "rs = [cont]"
    | r where "0xE0 \<le> unat b" "unat b \<le> 0xEF" "rs = [r, cont]" "0x80 \<le> fst r" "snd r \<le> 0xBF"
        "unat b = 0xE0 \<longrightarrow> 0xA0 \<le> fst r" "unat b = 0xED \<longrightarrow> snd r \<le> 0x9F"
    | r where "0xF0 \<le> unat b" "unat b \<le> 0xF4" "rs = [r, cont, cont]" "0x80 \<le> fst r" "snd r \<le> 0xBF"
        "unat b = 0xF0 \<longrightarrow> 0x90 \<le> fst r" "unat b = 0xF4 \<longrightarrow> snd r \<le> 0x8F"
    using rs(1) by (auto simp: follow_def cont_def Let_def split: if_splits)
  then show ?thesis
  proof cases
    case 1
    with rs show ?thesis
      by (intro exI [of _ "unat b"] exI [of _ bs]) (auto simp: is_scalar_def utf8_of_def)
  next
    case 2
    from rs(2) 2 obtain c cs where c: "bs = c # cs" "in_range c cont" "is_utf8 cs"
      by (auto dest: owed_Cons)
    from in_cont [OF c(2)] obtain x where x: "x < 64" "unat c = 0x80 + x" by blast
    have "0xC0 \<le> unat b" using 2(1) by simp
    then obtain y where y: "unat b = 0xC0 + y" by (metis le_Suc_ex)
    let ?v = "64 * y + x"
    have "2 \<le> y" "y < 32" using y 2 by auto
    then have "is_scalar ?v" "utf8_of ?v = [char_of (unat b), char_of (unat c)]"
      using x y by (auto simp: is_scalar_def utf8_of_def)
    with c show ?thesis by (intro exI [of _ ?v] exI [of _ cs]) simp
  next
    case (3 r)
    from rs(2) 3 obtain c d cs where c: "bs = c # d # cs" "in_range c r" "in_range d cont" "is_utf8 cs"
      by (auto dest!: owed_Cons)
    have "in_range c cont" using c(2) 3 sub_range [of c "fst r" "snd r"] by simp
    from in_cont [OF this] obtain x where x: "x < 64" "unat c = 0x80 + x" by blast
    from in_cont [OF c(3)] obtain z where z: "z < 64" "unat d = 0x80 + z" by blast
    obtain y where y: "unat b = 0xE0 + y" using 3(1) by (metis le_Suc_ex)
    let ?v = "4096 * y + 64 * x + z"
    have lim: "y < 16" "y = 0 \<longrightarrow> 32 \<le> x" "y = 13 \<longrightarrow> x < 32"
      using y x 3 c(2) by (auto simp: in_range_def)
    have parts: "?v div 4096 = y" "?v div 64 mod 64 = x" "?v mod 64 = z"
    proof -
      have "?v div 64 = 64 * y + x" "?v mod 64 = z"
        using radix_parts [OF z(1), of "64 * y + x"] by simp_all
      moreover have "?v div 4096 = ?v div 64 div 64" by (simp add: div_mult2_eq [symmetric])
      ultimately show "?v div 4096 = y" "?v div 64 mod 64 = x" "?v mod 64 = z" using x(1) by simp_all
    qed
    have "0x800 \<le> ?v" "?v < 0x10000" using lim x(1) z(1) by auto
    moreover have "\<not> (0xD800 \<le> ?v \<and> ?v < 0xE000)"
    proof -
      consider "y \<le> 12" | "y = 13" | "14 \<le> y" by linarith
      then show ?thesis by cases (use lim x(1) z(1) in auto)
    qed
    ultimately have "is_scalar ?v" "utf8_of ?v = [char_of (unat b), char_of (unat c), char_of (unat d)]"
      using parts x y z by (auto simp: is_scalar_def utf8_of_def)
    with c show ?thesis by (intro exI [of _ ?v] exI [of _ cs]) simp
  next
    case (4 r)
    from rs(2) 4 obtain c d e cs where
      c: "bs = c # d # e # cs" "in_range c r" "in_range d cont" "in_range e cont" "is_utf8 cs"
      by (auto dest!: owed_Cons)
    have "in_range c cont" using c(2) 4 sub_range [of c "fst r" "snd r"] by simp
    from in_cont [OF this] obtain x where x: "x < 64" "unat c = 0x80 + x" by blast
    from in_cont [OF c(3)] obtain z where z: "z < 64" "unat d = 0x80 + z" by blast
    from in_cont [OF c(4)] obtain w where w: "w < 64" "unat e = 0x80 + w" by blast
    obtain y where y: "unat b = 0xF0 + y" using 4(1) by (metis le_Suc_ex)
    let ?v = "262144 * y + 4096 * x + 64 * z + w"
    have lim: "y \<le> 4" "y = 0 \<longrightarrow> 16 \<le> x" "y = 4 \<longrightarrow> x < 16"
      using y x 4 c(2) by (auto simp: in_range_def)
    have parts: "?v div 262144 = y" "?v div 4096 mod 64 = x" "?v div 64 mod 64 = z" "?v mod 64 = w"
    proof -
      have "?v div 64 = 64 * (64 * y + x) + z" "?v mod 64 = w"
        using radix_parts [OF w(1), of "64 * (64 * y + x) + z"] by simp_all
      moreover have "(64 * (64 * y + x) + z) div 64 = 64 * y + x" "(64 * (64 * y + x) + z) mod 64 = z"
        using radix_parts [OF z(1), of "64 * y + x"] by simp_all
      moreover have "?v div 4096 = ?v div 64 div 64" "?v div 262144 = ?v div 64 div 64 div 64"
        by (simp_all add: div_mult2_eq [symmetric])
      ultimately show "?v div 262144 = y" "?v div 4096 mod 64 = x" "?v div 64 mod 64 = z" "?v mod 64 = w"
        using x(1) by simp_all
    qed
    have "0x10000 \<le> ?v" "?v < 0x110000" using lim x(1) z(1) w(1) by auto
    then have "is_scalar ?v" "utf8_of ?v = [char_of (unat b), char_of (unat c), char_of (unat d), char_of (unat e)]"
      using parts x y z w by (auto simp: is_scalar_def utf8_of_def)
    with c show ?thesis by (intro exI [of _ ?v] exI [of _ cs]) simp
  qed
qed

lemma is_utf8_scalars: "is_utf8 bs \<longleftrightarrow> (\<exists>vs. list_all is_scalar vs \<and> utf8_text bs = concat (map utf8_of vs))"
proof
  show "is_utf8 bs \<Longrightarrow> \<exists>vs. list_all is_scalar vs \<and> utf8_text bs = concat (map utf8_of vs)"
  proof (induction "length bs" arbitrary: bs rule: less_induct)
    case less
    show ?case
    proof (cases bs)
      case Nil
      then show ?thesis by (intro exI [of _ "[]"]) simp
    next
      case (Cons b cs)
      with valid_sequence less.prems obtain v ds where
        v: "is_scalar v" "utf8_text bs = utf8_of v @ utf8_text ds" "is_utf8 ds" "length ds \<le> length cs"
        by blast
      with less.hyps [of ds] Cons obtain vs where
        "list_all is_scalar vs" "utf8_text ds = concat (map utf8_of vs)" by auto
      with v show ?thesis by (intro exI [of _ "v # vs"]) simp
    qed
  qed
  assume "\<exists>vs. list_all is_scalar vs \<and> utf8_text bs = concat (map utf8_of vs)"
  then show "is_utf8 bs" using valid_utf8_encodes by (metis utf8_bytes_text)
qed

lemma well_formed_start:
  assumes "is_utf8 (utf8_bytes t)"
  shows "t = [] \<or> \<not> is_continuation (hd t)"
proof -
  from assms obtain vs where vs: "list_all is_scalar vs" "t = concat (map utf8_of vs)"
    by (auto simp: is_utf8_scalars)
  then show ?thesis by (cases vs) (auto dest: utf8_of_start)
qed

lemma well_formed_splits: "is_utf8 (utf8_bytes u) \<Longrightarrow> splits_at t u"
  using well_formed_start [of u] by (auto simp: splits_at_def)

section \<open>The conflict scanner reads the stream as one text\<close>

text \<open>What the scanner reports of a whole stream, wherever the chunks end.\<close>

definition conflict_reference :: "byte list \<Rightarrow> nat option" where
  "conflict_reference bs =
     (case from_utf8 bs of
        Valid \<Rightarrow> None
      | Invalid v _ \<Rightarrow>
          if utf8_segment_min_bytes \<le> v \<and> utf8_segment_min_non_ascii \<le> non_ascii_count (take v bs)
          then Some (v div 16 + 1) else None)"

lemma from_utf8_after:
  "is_utf8 q \<Longrightarrow> from_utf8 (q @ y) =
     (case from_utf8 y of Valid \<Rightarrow> Valid | Invalid v e \<Rightarrow> Invalid (length q + v) e)"
  using from_utf8_at_append [of 0 q y] from_utf8_shift [of "length q" 0 y]
  by (simp add: is_utf8_def from_utf8_def)

lemma from_utf8_parts:
  assumes "from_utf8 bs = Invalid v e"
  shows "v \<le> length bs" "is_utf8 (take v bs)"
    "from_utf8 (drop v bs) = Invalid 0 e"
proof -
  show le: "v \<le> length bs" using assms from_utf8_at_append [of 0 bs "[]"] by (simp add: from_utf8_def)
  show v: "is_utf8 (take v bs)"
    using from_utf8_prefix [of 0 bs v e] assms by (simp add: from_utf8_def is_utf8_def)
  from from_utf8_after [OF v, of "drop v bs"] assms le show "from_utf8 (drop v bs) = Invalid 0 e"
    by (simp split: utf8_result.splits)
qed

lemma non_ascii_simps [simp]:
  "non_ascii_count [] = 0" "non_ascii_count (a @ b) = non_ascii_count a + non_ascii_count b"
  by (simp_all add: non_ascii_count_def)

lemma non_ascii_le: "non_ascii_count bs \<le> length bs"
  by (simp add: non_ascii_count_def)

definition scanner_inv :: "prefix_scanner \<Rightarrow> byte list \<Rightarrow> bool" where
  "scanner_inv s p \<longleftrightarrow>
     (if ps_abandoned s
      then (\<exists>v k. from_utf8 p = Invalid v (Some k)) \<and> conflict_reference p = None
      else \<exists>q. p = q @ ps_carry s \<and> is_utf8 q \<and> ps_base s = length q \<and> ps_valid s = length q \<and>
        ps_non_ascii s = non_ascii_count q \<and>
        (ps_carry s = [] \<or> from_utf8 (ps_carry s) = Invalid 0 None))"

lemma conflict_final:
  assumes "from_utf8 p = Invalid v (Some k)"
  shows "from_utf8 (p @ x) = Invalid v (Some k) \<and> conflict_reference (p @ x) = conflict_reference p"
proof -
  have f: "from_utf8 (p @ x) = Invalid v (Some k)"
    using from_utf8_at_append [of 0 p x] assms by (simp add: from_utf8_def)
  moreover have "take v (p @ x) = take v p" using from_utf8_parts(1) [OF assms] by simp
  ultimately show ?thesis using assms by (simp add: conflict_reference_def del: take_append)
qed

lemma scanner_new: "scanner_inv new_scanner []"
  by (simp add: scanner_inv_def new_scanner_def non_ascii_count_def)

lemma scanner_push_step:
  assumes inv: "scanner_inv s p" and size: "length (p @ x) \<le> usize_max"
  shows "case scanner_push x s of
    (Some c, s') \<Rightarrow> (\<forall>y. conflict_reference ((p @ x) @ y) = Some c)
  | (None, s') \<Rightarrow> scanner_inv s' (p @ x)"
proof (cases "ps_abandoned s")
  case True
  with inv conflict_final [of p _ _ x] show ?thesis
    by (auto simp: scanner_push_def scanner_inv_def)
next
  case False
  with inv obtain q where q: "p = q @ ps_carry s" "is_utf8 q" "ps_base s = length q" "ps_valid s = length q"
      "ps_non_ascii s = non_ascii_count q"
    by (auto simp: scanner_inv_def)
  obtain c where c: "ps_carry s @ x = c" by blast
  have whole: "p @ x = q @ c" by (simp add: q(1) c)
  have len: "length q + length c \<le> usize_max" using size by (simp add: q(1) c [symmetric])
  show ?thesis
  proof (cases "from_utf8 c")
    case Valid
    then have "is_utf8 (q @ c)" using is_utf8_append [OF q(2)] by (simp add: is_utf8_def)
    with Valid False q len non_ascii_le [of "q @ c"] show ?thesis
      unfolding scanner_push_def whole c
      by (simp add: scanner_inv_def observe_valid_def sat_add_exact Let_def)
  next
    case (Invalid v e)
    note parts = from_utf8_parts [OF Invalid]
    have f: "from_utf8 (q @ c) = Invalid (length q + v) e" using from_utf8_after [OF q(2), of c] Invalid by simp
    have t: "take (length q + v) (q @ c) = q @ take v c" by simp
    have small: "length q + v \<le> usize_max" "length q + length (take v c) \<le> usize_max"
      "non_ascii_count q + non_ascii_count (take v c) \<le> usize_max"
      using len parts(1) non_ascii_le [of q] non_ascii_le [of "take v c"] by auto
    have ref: "conflict_reference (q @ c) =
        (if utf8_segment_min_bytes \<le> length q + v \<and>
            utf8_segment_min_non_ascii \<le> non_ascii_count q + non_ascii_count (take v c)
         then Some ((length q + v) div 16 + 1) else None)"
      using f by (simp add: conflict_reference_def)
    show ?thesis
    proof (cases e)
      case None
      have "is_utf8 (q @ take v c)" using is_utf8_append [OF q(2)] parts(2) by simp
      moreover have "p @ x = (q @ take v c) @ drop v c" by (simp add: whole)
      ultimately show ?thesis
        using Invalid None False q small parts(1, 3)
        by (auto simp: scanner_push_def scanner_inv_def observe_valid_def sat_add_exact c Let_def
            intro!: exI [of _ "q @ take v c"])
    next
      case (Some k)
      note final = conflict_final [OF f [unfolded Some]]
      show ?thesis
        using Invalid Some False q small parts(1) ref final f
        unfolding whole
        by (auto simp: scanner_push_def scanner_inv_def observe_valid_def clear_prefix_def sat_add_exact c Let_def)
    qed
  qed
qed

lemma scanner_finish_step:
  assumes inv: "scanner_inv s p" and size: "length p \<le> usize_max"
  shows "scanner_finish s = conflict_reference p"
proof (cases "ps_abandoned s")
  case True
  with inv show ?thesis by (simp add: scanner_finish_def scanner_inv_def)
next
  case False
  with inv obtain q where q: "p = q @ ps_carry s" "is_utf8 q" "ps_base s = length q" "ps_valid s = length q"
      "ps_non_ascii s = non_ascii_count q" "ps_carry s = [] \<or> from_utf8 (ps_carry s) = Invalid 0 None"
    by (auto simp: scanner_inv_def)
  show ?thesis
  proof (cases "ps_carry s = []")
    case True
    with q have "from_utf8 p = Valid" by (simp add: is_utf8_def)
    with True show ?thesis by (simp add: scanner_finish_def conflict_reference_def)
  next
    case nonempty: False
    with q have "from_utf8 p = Invalid (length q) None" using from_utf8_after [OF q(2), of "ps_carry s"] by simp
    with nonempty False q size non_ascii_le [of q] show ?thesis
      by (simp add: scanner_finish_def conflict_reference_def observe_valid_def clear_prefix_def
          sat_add_exact Let_def)
  qed
qed

end
