(* ===== verification/Legacy_Segments.thy ===== *)
theory Legacy_Segments
  imports Utf8_Validation
begin

text \<open>
  The segment scan of legacy-encoded files (\<open>src/src/encoding/snapshot_pipeline.rs\<close>): evidence,
  hard validation, the bounded cache of verdicts, and the scanner that looks for lines whose bytes
  contradict the encoding of the whole file.

  The encoding tables and the detector are third-party crates (encoding_rs, chardetng). They are
  the parameter \<open>encoding_crates\<close>: an encoding is its canonical name, a streaming decoder or encoder
  is a function of what it was fed before, and the detector guesses from all the bytes it was fed.
\<close>

section \<open>The encoding crates\<close>

type_synonym charset = utf8

record encoding_crates =
  for_label :: "utf8 \<Rightarrow> charset option"
  is_single_byte :: "charset \<Rightarrow> bool"
  decode_push :: "charset \<Rightarrow> byte list \<Rightarrow> byte list \<Rightarrow> bool \<Rightarrow> utf8 option"
  encode_push :: "charset \<Rightarrow> utf8 \<Rightarrow> utf8 \<Rightarrow> bool \<Rightarrow> byte list option"
  guess_encoding :: "byte list \<Rightarrow> charset"

text \<open>
  What the code relies on: no input gives no output before the end, streaming in pieces is the same
  as streaming at once (for the encoder at character boundaries), and decoders produce well-formed
  UTF-8.
\<close>

definition then_also :: "'a list option \<Rightarrow> 'a list option \<Rightarrow> 'a list option" where
  "then_also a b = (case (a, b) of (Some x, Some y) \<Rightarrow> Some (x @ y) | _ \<Rightarrow> None)"

definition crates_ok :: "encoding_crates \<Rightarrow> bool" where
  "crates_ok D \<longleftrightarrow>
     (\<forall>c p. decode_push D c p [] False = Some []) \<and> (\<forall>c p. encode_push D c p [] False = Some []) \<and>
     (\<forall>c p x y l. decode_push D c p (x @ y) l =
        then_also (decode_push D c p x False) (decode_push D c (p @ x) y l)) \<and>
     (\<forall>c p x l t. decode_push D c p x l = Some t \<longrightarrow> is_utf8 (utf8_bytes t)) \<and>
     (\<forall>c p t u l. splits_at t u \<longrightarrow> encode_push D c p (t @ u) l =
        then_also (encode_push D c p t False) (encode_push D c (p @ t) u l))"

section \<open>Evidence\<close>

definition legacy_evidence_bytes :: nat where
  "legacy_evidence_bytes = 32"

definition legacy_segment_max_bytes :: nat where
  "legacy_segment_max_bytes = 4 * 1024"

definition segment_cache_capacity :: nat where
  "segment_cache_capacity = 256"

record segment_evidence =
  se_len :: nat
  se_non_ascii :: nat
  se_utf8 :: utf8_evidence

definition new_segment_evidence :: segment_evidence where
  "new_segment_evidence = \<lparr>se_len = 0, se_non_ascii = 0, se_utf8 = new_evidence\<rparr>"

definition segment_evidence_push :: "byte \<Rightarrow> segment_evidence \<Rightarrow> segment_evidence" where
  "segment_evidence_push b e =
     \<lparr>se_len = sat_add (se_len e) 1,
      se_non_ascii = sat_add (se_non_ascii e) (if is_ascii b then 0 else 1),
      se_utf8 = evidence_push b (se_utf8 e)\<rparr>"

definition evidence_of :: "byte list \<Rightarrow> segment_evidence" where
  "evidence_of bs = fold segment_evidence_push bs new_segment_evidence"

definition is_strong_utf8 :: "segment_evidence \<Rightarrow> bool" where
  "is_strong_utf8 e \<longleftrightarrow>
     utf8_segment_min_bytes \<le> se_len e \<and> utf8_segment_min_non_ascii \<le> se_non_ascii e \<and>
     evidence_complete (se_utf8 e)"

definition has_evidence :: "segment_evidence \<Rightarrow> bool" where
  "has_evidence e \<longleftrightarrow> legacy_evidence_bytes \<le> se_non_ascii e \<or> is_strong_utf8 e"

section \<open>Hard validation\<close>

definition is_disallowed_legacy_character :: "utf8 \<Rightarrow> bool" where
  "is_disallowed_legacy_character c \<longleftrightarrow>
     (let v = scalar c in
      (v \<le> 0x1F \<and> v \<notin> {9, 10, 13}) \<or> (0x80 \<le> v \<and> v \<le> 0x9F) \<or> (0xFDD0 \<le> v \<and> v \<le> 0xFDEF) \<or>
      v mod 0x10000 = 0xFFFE \<or> v mod 0x10000 = 0xFFFF)"

definition has_disallowed :: "utf8 \<Rightarrow> bool" where
  "has_disallowed t \<longleftrightarrow> list_ex is_disallowed_legacy_character (chars t)"

definition hard_validate :: "encoding_crates \<Rightarrow> charset \<Rightarrow> byte list \<Rightarrow> bool" where
  "hard_validate D c bs =
     (case decode_push D c [] bs True of
        None \<Rightarrow> False
      | Some decoded \<Rightarrow> \<not> has_disallowed decoded \<and> encode_push D c [] decoded True = Some bs)"

section \<open>The cache\<close>

type_synonym segment_key = "64 word \<times> 64 word \<times> nat"

definition segment_key :: "byte list \<Rightarrow> segment_key" where
  "segment_key bs =
     (let (high, low) =
        fold (\<lambda>b (high, low).
            let high = (high XOR ucast b) * 0x00000100000001B3;
                low = low XOR (ucast b + word_rotl 17 high) in
            (high, word_rotl 13 low * 0xC2B2AE3D27D4EB4F))
          bs (0xCBF29CE484222325, 0x9E3779B97F4A7C15)
      in (high, low, length bs))"

record cache_entry =
  ce_key :: segment_key
  ce_bytes :: "byte list"
  ce_guess :: "charset option"
  ce_validations :: "(charset \<times> bool) list"

type_synonym segment_cache = "cache_entry list"

definition entry_matches :: "byte list \<Rightarrow> cache_entry \<Rightarrow> bool" where
  "entry_matches bs e \<longleftrightarrow> ce_key e = segment_key bs \<and> ce_bytes e = bs"

fun remove_first :: "('a \<Rightarrow> bool) \<Rightarrow> 'a list \<Rightarrow> ('a \<times> 'a list) option" where
  "remove_first P [] = None"
| "remove_first P (x # xs) =
     (if P x then Some (x, xs) else map_option (\<lambda>(y, ys). (y, x # ys)) (remove_first P xs))"

definition take_entry :: "byte list \<Rightarrow> segment_cache \<Rightarrow> cache_entry \<times> segment_cache" where
  "take_entry bs cache =
     (case remove_first (entry_matches bs) cache of
        Some (e, rest) \<Rightarrow> (e, rest)
      | None \<Rightarrow> (\<lparr>ce_key = segment_key bs, ce_bytes = bs, ce_guess = None, ce_validations = []\<rparr>, cache))"

definition restore_entry :: "cache_entry \<Rightarrow> segment_cache \<Rightarrow> segment_cache" where
  "restore_entry e cache =
     (let cache = cache @ [e] in if segment_cache_capacity < length cache then tl cache else cache)"

definition entry_validate ::
    "encoding_crates \<Rightarrow> charset \<Rightarrow> byte list \<Rightarrow> cache_entry \<Rightarrow> bool \<times> cache_entry" where
  "entry_validate D c bs e =
     (case find (\<lambda>(stored, _). stored = c) (ce_validations e) of
        Some (_, r) \<Rightarrow> (r, e)
      | None \<Rightarrow>
          let r = hard_validate D c bs in (r, e\<lparr>ce_validations := ce_validations e @ [(c, r)]\<rparr>))"

definition cache_hard_validate ::
    "encoding_crates \<Rightarrow> charset \<Rightarrow> byte list \<Rightarrow> segment_cache \<Rightarrow> bool \<times> segment_cache" where
  "cache_hard_validate D c bs cache =
     (let (e, cache) = take_entry bs cache; (r, e) = entry_validate D c bs e in
      (r, restore_entry e cache))"

definition cache_disagrees ::
    "encoding_crates \<Rightarrow> charset \<Rightarrow> byte list \<Rightarrow> bool \<Rightarrow> segment_cache \<Rightarrow> bool \<times> segment_cache" where
  "cache_disagrees D whole bs strong cache =
     (if strong then (True, cache)
      else
        let (e, cache) = take_entry bs cache;
            (candidate, e) = (case ce_guess e of
                Some g \<Rightarrow> (g, e)
              | None \<Rightarrow> let g = guess_encoding D bs in (g, e\<lparr>ce_guess := Some g\<rparr>));
            (r, e) = (if candidate = whole \<or> is_single_byte D candidate then (False, e)
                      else entry_validate D candidate bs e) in
        (r, restore_entry e cache))"

section \<open>The scanner\<close>

text \<open>
  The scanner asks a judge for verdicts. The program's judge has the cache as its state; the
  reference judge computes each verdict afresh.
\<close>

record 'c judge =
  j_validate :: "charset \<Rightarrow> byte list \<Rightarrow> 'c \<Rightarrow> bool \<times> 'c"
  j_disagrees :: "charset \<Rightarrow> byte list \<Rightarrow> bool \<Rightarrow> 'c \<Rightarrow> bool \<times> 'c"

definition cached_judge :: "encoding_crates \<Rightarrow> segment_cache judge" where
  "cached_judge D = \<lparr>j_validate = cache_hard_validate D, j_disagrees = cache_disagrees D\<rparr>"

definition disagrees :: "encoding_crates \<Rightarrow> charset \<Rightarrow> byte list \<Rightarrow> bool \<Rightarrow> bool" where
  "disagrees D whole bs strong \<longleftrightarrow>
     strong \<or>
     (let g = guess_encoding D bs in g \<noteq> whole \<and> \<not> is_single_byte D g \<and> hard_validate D g bs)"

definition plain_judge :: "encoding_crates \<Rightarrow> unit judge" where
  "plain_judge D =
     \<lparr>j_validate = (\<lambda>c bs u. (hard_validate D c bs, u)),
      j_disagrees = (\<lambda>whole bs strong u. (disagrees D whole bs strong, u))\<rparr>"

datatype segment_scan = Continue | Inconsistent | CandidateInvalid

record 'c segment_scanner =
  sc_whole :: charset
  sc_pending :: "byte list"
  sc_evidence :: segment_evidence
  sc_cache :: 'c

definition new_segment_scanner :: "'c \<Rightarrow> charset \<Rightarrow> 'c segment_scanner" where
  "new_segment_scanner cache whole =
     \<lparr>sc_whole = whole, sc_pending = [], sc_evidence = new_segment_evidence, sc_cache = cache\<rparr>"

definition inspect_pending :: "'c judge \<Rightarrow> 'c segment_scanner \<Rightarrow> segment_scan \<times> 'c segment_scanner" where
  "inspect_pending j s =
     (if \<not> has_evidence (sc_evidence s) then (Continue, s)
      else
        let (ok, cache) = j_validate j (sc_whole s) (sc_pending s) (sc_cache s);
            s = s\<lparr>sc_cache := cache\<rparr> in
        if \<not> ok then (CandidateInvalid, s)
        else
          let (bad, cache) =
                j_disagrees j (sc_whole s) (sc_pending s) (is_strong_utf8 (sc_evidence s)) (sc_cache s);
              s = s\<lparr>sc_cache := cache\<rparr> in
          (if bad then Inconsistent else Continue, s))"

fun aligned_prefix ::
    "'c judge \<Rightarrow> charset \<Rightarrow> byte list \<Rightarrow> nat list \<Rightarrow> 'c \<Rightarrow> nat option \<times> 'c" where
  "aligned_prefix j whole pending [] cache = (None, cache)"
| "aligned_prefix j whole pending (trim # trims) cache =
     (if length pending < trim then aligned_prefix j whole pending trims cache
      else
        let e = length pending - trim; (ok, cache) = j_validate j whole (take e pending) cache in
        if ok then (Some e, cache) else aligned_prefix j whole pending trims cache)"

declare aligned_prefix.simps [simp del]

definition scan_byte ::
    "'c judge \<Rightarrow> byte \<Rightarrow> 'c segment_scanner \<Rightarrow> segment_scan \<times> 'c segment_scanner" where
  "scan_byte j b s =
     (let s = s\<lparr>sc_pending := sc_pending s @ [b], sc_evidence := segment_evidence_push b (sc_evidence s)\<rparr> in
      if b = 10 \<and> has_evidence (sc_evidence s) then
        (case inspect_pending j s of
           (Continue, s) \<Rightarrow> (Continue, s\<lparr>sc_pending := [], sc_evidence := new_segment_evidence\<rparr>)
         | (r, s) \<Rightarrow> (r, s))
      else if legacy_segment_max_bytes \<le> length (sc_pending s) then
        (case aligned_prefix j (sc_whole s) (sc_pending s) [0, 1, 2, 3, 4] (sc_cache s) of
           (None, cache) \<Rightarrow> (CandidateInvalid, s\<lparr>sc_cache := cache\<rparr>)
         | (Some e, cache) \<Rightarrow>
             let segment = take e (sc_pending s);
                 (bad, cache) =
                   j_disagrees j (sc_whole s) segment (is_strong_utf8 (evidence_of segment)) cache;
                 s = s\<lparr>sc_cache := cache\<rparr> in
             if bad then (Inconsistent, s)
             else (Continue, s\<lparr>sc_pending := drop e (sc_pending s),
                    sc_evidence := evidence_of (drop e (sc_pending s))\<rparr>))
      else (Continue, s))"

fun scan_segments ::
    "'c judge \<Rightarrow> byte list \<Rightarrow> 'c segment_scanner \<Rightarrow> segment_scan \<times> 'c segment_scanner" where
  "scan_segments j [] s = (Continue, s)"
| "scan_segments j (b # bs) s =
     (case scan_byte j b s of (Continue, s) \<Rightarrow> scan_segments j bs s | (r, s) \<Rightarrow> (r, s))"

definition finish_segments :: "'c judge \<Rightarrow> 'c segment_scanner \<Rightarrow> segment_scan" where
  "finish_segments j s = fst (inspect_pending j s)"

section \<open>The cache changes no verdict\<close>

text \<open>The contract of a judge: whatever its state, the verdicts are those of the definitions.\<close>

locale faithful_judge =
  fixes D :: encoding_crates and j :: "'c judge" and ok :: "'c \<Rightarrow> bool"
  assumes validates: "ok k \<Longrightarrow> fst (j_validate j c bs k) = hard_validate D c bs \<and> ok (snd (j_validate j c bs k))"
    and disagreement: "ok k \<Longrightarrow>
      fst (j_disagrees j c bs strong k) = disagrees D c bs strong \<and> ok (snd (j_disagrees j c bs strong k))"
begin

definition same_scanner :: "'c segment_scanner \<Rightarrow> unit segment_scanner \<Rightarrow> bool" where
  "same_scanner s t \<longleftrightarrow> sc_whole s = sc_whole t \<and> sc_pending s = sc_pending t \<and>
     sc_evidence s = sc_evidence t \<and> ok (sc_cache s)"

lemma inspect_same:
  assumes "same_scanner s t"
  shows "fst (inspect_pending j s) = fst (inspect_pending (plain_judge D) t) \<and>
    same_scanner (snd (inspect_pending j s)) (snd (inspect_pending (plain_judge D) t))"
  using assms validates [of "sc_cache s" "sc_whole s" "sc_pending s"]
    disagreement [of "snd (j_validate j (sc_whole s) (sc_pending s) (sc_cache s))" "sc_whole s" "sc_pending s"
      "is_strong_utf8 (sc_evidence s)"]
  by (auto simp: inspect_pending_def same_scanner_def plain_judge_def case_prod_beta Let_def)

lemma aligned_same:
  "ok k \<Longrightarrow> fst (aligned_prefix j c bs trims k) = fst (aligned_prefix (plain_judge D) c bs trims ()) \<and>
     ok (snd (aligned_prefix j c bs trims k))"
proof (induction trims arbitrary: k)
  case (Cons trim trims)
  with validates [of k c "take (length bs - trim) bs"] show ?case
    by (auto simp: plain_judge_def case_prod_beta aligned_prefix.simps Let_def)
qed (simp add: aligned_prefix.simps)

lemma scan_byte_same:
  assumes "same_scanner s t"
  shows "fst (scan_byte j b s) = fst (scan_byte (plain_judge D) b t) \<and>
    same_scanner (snd (scan_byte j b s)) (snd (scan_byte (plain_judge D) b t))"
proof -
  let ?s = "s\<lparr>sc_pending := sc_pending s @ [b], sc_evidence := segment_evidence_push b (sc_evidence s)\<rparr>"
  let ?t = "t\<lparr>sc_pending := sc_pending t @ [b], sc_evidence := segment_evidence_push b (sc_evidence t)\<rparr>"
  have st: "same_scanner ?s ?t" using assms by (simp add: same_scanner_def)
  obtain r s' where i: "inspect_pending j ?s = (r, s')" by (cases "inspect_pending j ?s")
  obtain r' t' where i': "inspect_pending (plain_judge D) ?t = (r', t')" by (cases "inspect_pending (plain_judge D) ?t")
  have same: "r = r'" "same_scanner s' t'" using inspect_same [OF st] i i' by auto
  obtain e k where a: "aligned_prefix j (sc_whole ?s) (sc_pending ?s) [0, 1, 2, 3, 4] (sc_cache ?s) = (e, k)"
    by (cases "aligned_prefix j (sc_whole ?s) (sc_pending ?s) [0, 1, 2, 3, 4] (sc_cache ?s)")
  obtain e' u where a': "aligned_prefix (plain_judge D) (sc_whole ?t) (sc_pending ?t) [0, 1, 2, 3, 4] (sc_cache ?t) = (e', u)"
    by (cases "aligned_prefix (plain_judge D) (sc_whole ?t) (sc_pending ?t) [0, 1, 2, 3, 4] (sc_cache ?t)")
  have al: "e = e'" "ok k"
    using aligned_same [of "sc_cache ?s" "sc_whole ?s" "sc_pending ?s" "[0, 1, 2, 3, 4]"] a a' st
    by (auto simp: same_scanner_def)
  have eq: "sc_whole s = sc_whole t" "sc_pending s = sc_pending t" "sc_evidence s = sc_evidence t"
    using assms by (simp_all add: same_scanner_def)
  consider "b = 10 \<and> has_evidence (sc_evidence ?s)"
    | "\<not> (b = 10 \<and> has_evidence (sc_evidence ?s))" "legacy_segment_max_bytes \<le> length (sc_pending ?s)"
    | "\<not> (b = 10 \<and> has_evidence (sc_evidence ?s))" "\<not> legacy_segment_max_bytes \<le> length (sc_pending ?s)"
    by blast
  then show ?thesis
  proof cases
    case 1
    then have t: "b = 10 \<and> has_evidence (sc_evidence ?t)" using eq by auto
    from i i' same show ?thesis
      unfolding scan_byte_def Let_def if_P [OF 1] if_P [OF t]
      by (cases r') (simp_all add: same_scanner_def)
  next
    case 2
    have t: "\<not> (b = 10 \<and> has_evidence (sc_evidence ?t))" "legacy_segment_max_bytes \<le> length (sc_pending ?t)"
      using 2 eq by simp_all
    show ?thesis
    proof (cases e)
      case None
      with a a' al st show ?thesis
        unfolding scan_byte_def Let_def if_not_P [OF 2(1)] if_not_P [OF t(1)] if_P [OF 2(2)] if_P [OF t(2)]
        by (simp add: same_scanner_def)
    next
      case (Some n)
      with a a' al eq disagreement [OF al(2), of "sc_whole t" "take n (sc_pending t @ [b])"
          "is_strong_utf8 (evidence_of (take n (sc_pending t @ [b])))"]
      show ?thesis
        unfolding scan_byte_def Let_def if_not_P [OF 2(1)] if_not_P [OF t(1)] if_P [OF 2(2)] if_P [OF t(2)]
        by (auto simp: same_scanner_def plain_judge_def case_prod_beta)
    qed
  next
    case 3
    have t: "\<not> (b = 10 \<and> has_evidence (sc_evidence ?t))" "\<not> legacy_segment_max_bytes \<le> length (sc_pending ?t)"
      using 3 eq by simp_all
    from st show ?thesis
      unfolding scan_byte_def Let_def if_not_P [OF 3(1)] if_not_P [OF t(1)] if_not_P [OF 3(2)] if_not_P [OF t(2)]
      by (simp add: same_scanner_def)
  qed
qed

lemma scan_segments_same:
  "same_scanner s t \<Longrightarrow>
     fst (scan_segments j bs s) = fst (scan_segments (plain_judge D) bs t) \<and>
     same_scanner (snd (scan_segments j bs s)) (snd (scan_segments (plain_judge D) bs t))"
proof (induction bs arbitrary: s t)
  case (Cons b bs)
  from scan_byte_same [OF Cons.prems, of b] Cons.IH show ?case
    by (cases "scan_byte j b s"; cases "scan_byte (plain_judge D) b t"; cases "fst (scan_byte (plain_judge D) b t)")
      auto
qed simp

end

definition cache_ok :: "encoding_crates \<Rightarrow> segment_cache \<Rightarrow> bool" where
  "cache_ok D cache \<longleftrightarrow>
     (\<forall>e \<in> set cache. (\<forall>(c, r) \<in> set (ce_validations e). r = hard_validate D c (ce_bytes e)) \<and>
        (\<forall>g. ce_guess e = Some g \<longrightarrow> g = guess_encoding D (ce_bytes e)))"

lemma remove_first_Some:
  "remove_first P xs = Some (x, ys) \<Longrightarrow> P x \<and> set xs = insert x (set ys)"
  by (induction xs arbitrary: ys) (auto split: if_splits)

lemma take_entry_ok:
  assumes "cache_ok D cache" "take_entry bs cache = (e, rest)"
  shows "cache_ok D [e] \<and> ce_bytes e = bs \<and> cache_ok D rest"
proof (cases "remove_first (entry_matches bs) cache")
  case None
  with assms show ?thesis by (auto simp: take_entry_def cache_ok_def)
next
  case (Some p)
  obtain e' rest' where p: "p = (e', rest')" by (cases p)
  from remove_first_Some [OF Some [unfolded p]] have "entry_matches bs e'" "set cache = insert e' (set rest')" by auto
  with assms Some p show ?thesis by (auto simp: take_entry_def cache_ok_def entry_matches_def)
qed

lemma restore_entry_ok: "cache_ok D cache \<Longrightarrow> cache_ok D [e] \<Longrightarrow> cache_ok D (restore_entry e cache)"
  by (cases cache) (auto simp: restore_entry_def cache_ok_def Let_def)

lemma entry_validate_ok:
  assumes "cache_ok D [e]" "ce_bytes e = bs" "entry_validate D c bs e = (r, e')"
  shows "r = hard_validate D c bs \<and> cache_ok D [e']"
proof (cases "find (\<lambda>(stored, _). stored = c) (ce_validations e)")
  case None
  with assms show ?thesis by (auto simp: entry_validate_def cache_ok_def Let_def)
next
  case (Some p)
  then have "p \<in> set (ce_validations e)" "fst p = c" by (auto simp: find_Some_iff intro: nth_mem)
  with assms Some show ?thesis by (cases p) (auto simp: entry_validate_def cache_ok_def)
qed

lemma cache_validates:
  assumes "cache_ok D cache"
  shows "fst (cache_hard_validate D c bs cache) = hard_validate D c bs \<and>
    cache_ok D (snd (cache_hard_validate D c bs cache))"
proof -
  obtain e rest where t: "take_entry bs cache = (e, rest)" by (cases "take_entry bs cache")
  obtain r e' where v: "entry_validate D c bs e = (r, e')" by (cases "entry_validate D c bs e")
  from take_entry_ok [OF assms t] entry_validate_ok [OF _ _ v] restore_entry_ok t v
  show ?thesis by (auto simp: cache_hard_validate_def)
qed

lemma cache_disagreement:
  assumes "cache_ok D cache"
  shows "fst (cache_disagrees D c bs strong cache) = disagrees D c bs strong \<and>
    cache_ok D (snd (cache_disagrees D c bs strong cache))"
proof (cases strong)
  case True
  with assms show ?thesis by (simp add: cache_disagrees_def disagrees_def)
next
  case False
  obtain e rest where t: "take_entry bs cache = (e, rest)" by (cases "take_entry bs cache")
  note te = take_entry_ok [OF assms t]
  let ?g = "guess_encoding D bs"
  obtain e1 where e1: "(case ce_guess e of Some g \<Rightarrow> (g, e)
        | None \<Rightarrow> let g = guess_encoding D bs in (g, e\<lparr>ce_guess := Some g\<rparr>)) = (?g, e1)"
      "cache_ok D [e1]" "ce_bytes e1 = bs"
    using te by (cases "ce_guess e") (auto simp: cache_ok_def Let_def)
  obtain r e2 where v: "entry_validate D ?g bs e1 = (r, e2)" by (cases "entry_validate D ?g bs e1")
  from entry_validate_ok [OF e1(2, 3) v] have "r = hard_validate D ?g bs" "cache_ok D [e2]" by auto
  then show ?thesis
    using False te e1 v t restore_entry_ok [of D rest e1] restore_entry_ok [of D rest e2]
    unfolding cache_disagrees_def disagrees_def Let_def [of "take_entry bs cache"] t prod.case if_not_P [OF False]
    by (simp add: Let_def [of "(_, _)"])
qed

interpretation cached: faithful_judge D "cached_judge D" "cache_ok D" for D
  by unfold_locales (simp_all add: cached_judge_def cache_validates cache_disagreement)

text \<open>The scan with the cache and the scan without it reach the same verdict.\<close>

lemma cache_transparent:
  "fst (scan_segments (cached_judge D) bs (new_segment_scanner [] whole)) =
     fst (scan_segments (plain_judge D) bs (new_segment_scanner () whole))"
  "finish_segments (cached_judge D) (snd (scan_segments (cached_judge D) bs (new_segment_scanner [] whole))) =
     finish_segments (plain_judge D) (snd (scan_segments (plain_judge D) bs (new_segment_scanner () whole)))"
proof -
  have "cached.same_scanner D (new_segment_scanner [] whole) (new_segment_scanner () whole)"
    by (simp add: cached.same_scanner_def new_segment_scanner_def cache_ok_def)
  note s = cached.scan_segments_same [OF this, of bs]
  then show "fst (scan_segments (cached_judge D) bs (new_segment_scanner [] whole)) =
     fst (scan_segments (plain_judge D) bs (new_segment_scanner () whole))" by blast
  from s cached.inspect_same show
    "finish_segments (cached_judge D) (snd (scan_segments (cached_judge D) bs (new_segment_scanner [] whole))) =
     finish_segments (plain_judge D) (snd (scan_segments (plain_judge D) bs (new_segment_scanner () whole)))"
    unfolding finish_segments_def by blast
qed

lemma scan_segments_append:
  "scan_segments j (as @ bs) s =
     (case scan_segments j as s of (Continue, s) \<Rightarrow> scan_segments j bs s | (r, s) \<Rightarrow> (r, s))"
  by (induction as arbitrary: s) (auto split: segment_scan.split prod.split)

end
