(* ===== verification/Encoding_Detection.thy ===== *)
theory Encoding_Detection
  imports Legacy_Segments
begin

text \<open>
  Encoding detection (\<open>src/src/encoding.rs\<close>, \<open>src/src/encoding/snapshot_pipeline.rs\<close>,
  \<open>src/src/binary.rs\<close>): the strict streaming decoders, one validation pass over a file, and the
  trust hierarchy that decides between text, binary and a reasoned rejection.

  A pass reads the file in chunks; the list of chunks is an argument. Callers without a work
  checkpoint are modelled, so the cancellation polls between chunks are left out, as are failing
  reads.
\<close>

section \<open>Encodings\<close>

datatype source_kind = EncodingRs charset | Utf32Le | Utf32Be

datatype encoding_origin = Explicit utf8 | Bom utf8 | Automatic

record detected_encoding =
  de_kind :: source_kind
  de_bom_len :: nat
  de_source :: "utf8 option"
  de_origin :: encoding_origin

definition utf_8 :: charset where "utf_8 = ''UTF-8''"
definition utf_16le :: charset where "utf_16le = ''UTF-16LE''"
definition utf_16be :: charset where "utf_16be = ''UTF-16BE''"

definition fixed_legacy_encodings :: "(utf8 \<times> charset) list" where
  "fixed_legacy_encodings =
     [(''windows-1252'', ''windows-1252''), (''gbk'', ''GBK''), (''shift_jis'', ''Shift_JIS''),
      (''big5'', ''Big5''), (''euc-kr'', ''EUC-KR'')]"

definition binary_probe_bytes :: nat where
  "binary_probe_bytes = 8 * 1024"

definition begins :: "byte list \<Rightarrow> byte list \<Rightarrow> bool" where
  "begins bs p \<longleftrightarrow> take (length p) bs = p"

definition bom_detected_encoding :: "byte list \<Rightarrow> detected_encoding option" where
  "bom_detected_encoding bs =
     (let found = (\<lambda>kind n source name.
            Some \<lparr>de_kind = kind, de_bom_len = n, de_source = source, de_origin = Bom name\<rparr>) in
      if begins bs [0x00, 0x00, 0xFE, 0xFF] then found Utf32Be 4 (Some ''UTF-32BE'') ''UTF-32BE''
      else if begins bs [0xFF, 0xFE, 0x00, 0x00] then found Utf32Le 4 (Some ''UTF-32LE'') ''UTF-32LE''
      else if begins bs [0xEF, 0xBB, 0xBF] then found (EncodingRs utf_8) 3 None ''UTF-8''
      else if begins bs [0xFF, 0xFE] then found (EncodingRs utf_16le) 2 (Some ''UTF-16LE'') ''UTF-16LE''
      else if begins bs [0xFE, 0xFF] then found (EncodingRs utf_16be) 2 (Some ''UTF-16BE'') ''UTF-16BE''
      else None)"

definition matching_bom_len :: "source_kind \<Rightarrow> byte list \<Rightarrow> nat" where
  "matching_bom_len kind bs =
     (if kind = Utf32Le \<and> begins bs [0xFF, 0xFE, 0x00, 0x00] then 4
      else if kind = Utf32Be \<and> begins bs [0x00, 0x00, 0xFE, 0xFF] then 4
      else if kind = EncodingRs utf_8 \<and> begins bs [0xEF, 0xBB, 0xBF] then 3
      else if kind = EncodingRs utf_16le \<and> begins bs [0xFF, 0xFE] then 2
      else if kind = EncodingRs utf_16be \<and> begins bs [0xFE, 0xFF] then 2
      else 0)"

definition is_legacy_encoding :: "source_kind \<Rightarrow> bool" where
  "is_legacy_encoding kind =
     (case kind of EncodingRs c \<Rightarrow> c \<noteq> utf_8 \<and> c \<noteq> utf_16le \<and> c \<noteq> utf_16be | _ \<Rightarrow> False)"

definition is_encoding_rs :: "source_kind \<Rightarrow> bool" where
  "is_encoding_rs kind = (case kind of EncodingRs _ \<Rightarrow> True | _ \<Rightarrow> False)"

definition ascii_lower :: "char \<Rightarrow> char" where
  "ascii_lower c = (let v = of_char c :: nat in if 65 \<le> v \<and> v \<le> 90 then char_of (v + 32) else c)"

definition is_ascii_whitespace :: "char \<Rightarrow> bool" where
  "is_ascii_whitespace c \<longleftrightarrow> (of_char c :: nat) \<in> {9, 10, 12, 13, 32}"

definition trim_label :: "utf8 \<Rightarrow> utf8" where
  "trim_label v = rev (dropWhile is_ascii_whitespace (rev (dropWhile is_ascii_whitespace v)))"

datatype encoding_rejection =
  Ambiguous "utf8 list" | MixedOrInconsistent "nat option" | Iso2022JpSignature | Undecodable
  | BomMismatch utf8 | ExplicitMalformed utf8 | InvalidLabel utf8

definition explicit_detected_encoding ::
    "encoding_crates \<Rightarrow> utf8 \<Rightarrow> byte list \<Rightarrow> encoding_rejection + detected_encoding" where
  "explicit_detected_encoding D value prefix =
     (let label = trim_label value;
          found = (\<lambda>kind source. Inr \<lparr>de_kind = kind, de_bom_len = matching_bom_len kind prefix,
                     de_source = source, de_origin = Explicit value\<rparr>) in
      if map ascii_lower label = ''utf-32le'' then found Utf32Le (Some ''UTF-32LE'')
      else if map ascii_lower label = ''utf-32be'' then found Utf32Be (Some ''UTF-32BE'')
      else case for_label D label of
          None \<Rightarrow> Inl (InvalidLabel value)
        | Some c \<Rightarrow> found (EncodingRs c) (if c \<noteq> utf_8 then Some c else None))"

definition canonical_encoding_label :: "encoding_crates \<Rightarrow> utf8 \<Rightarrow> encoding_rejection + utf8" where
  "canonical_encoding_label D value =
     map_r (\<lambda>d. case de_source d of None \<Rightarrow> ''UTF-8'' | Some s \<Rightarrow> s) (explicit_detected_encoding D value [])"

definition automatic_detected :: "charset \<Rightarrow> detected_encoding" where
  "automatic_detected c =
     \<lparr>de_kind = EncodingRs c, de_bom_len = 0, de_source = Some c, de_origin = Automatic\<rparr>"

definition has_binary_nul :: "byte list \<Rightarrow> bool" where
  "has_binary_nul bs \<longleftrightarrow> 0 \<in> set (take binary_probe_bytes bs)"

definition ascii_bytes :: "utf8 \<Rightarrow> byte list" where
  "ascii_bytes t = utf8_bytes t"

definition detect_binary_type :: "byte list \<Rightarrow> utf8 option" where
  "detect_binary_type bs =
     (if begins bs (ascii_bytes ''PK'' @ [0x03, 0x04]) then Some ''a ZIP archive''
      else if begins bs [0x1F, 0x8B] then Some ''gzip data''
      else if begins bs [0x37, 0x7A, 0xBC, 0xAF, 0x27, 0x1C] then Some ''7-Zip data''
      else if begins bs [0x28, 0xB5, 0x2F, 0xFD] then Some ''Zstandard data''
      else if begins bs (0x7F # ascii_bytes ''ELF'') then Some ''an ELF executable''
      else if begins bs (ascii_bytes ''MZ'') then Some ''a Windows executable''
      else if list_ex (begins bs) [[0xFE, 0xED, 0xFA, 0xCE], [0xFE, 0xED, 0xFA, 0xCF],
                [0xCE, 0xFA, 0xED, 0xFE], [0xCF, 0xFA, 0xED, 0xFE]]
      then Some ''a Mach-O executable''
      else if begins bs (ascii_bytes ''SQLite format 3'' @ [0]) then Some ''a SQLite database''
      else if begins bs (0 # ascii_bytes ''asm'') then Some ''a WebAssembly module''
      else if 262 \<le> length bs \<and> take 5 (drop 257 bs) = ascii_bytes ''ustar'' then Some ''a tar archive''
      else None)"

section \<open>Strict streaming decoders\<close>

text \<open>The state of a decoder: bytes carried to the next chunk, or what a crate decoder has been fed.\<close>

datatype decoder_state =
  Utf8Decoder "byte list" | CrateDecoder charset "byte list" | Utf32Decoder bool "byte list"

definition new_decoder :: "source_kind \<Rightarrow> decoder_state" where
  "new_decoder kind =
     (case kind of
        EncodingRs c \<Rightarrow> if c = utf_8 then Utf8Decoder [] else CrateDecoder c []
      | Utf32Le \<Rightarrow> Utf32Decoder True []
      | Utf32Be \<Rightarrow> Utf32Decoder False [])"

definition utf8_chunk :: "byte list \<Rightarrow> byte list \<Rightarrow> bool \<Rightarrow> (utf8 \<times> byte list) option" where
  "utf8_chunk carry input final =
     (let joined = carry @ input in
      case from_utf8 joined of
        Valid \<Rightarrow> Some (utf8_text joined, [])
      | Invalid v e \<Rightarrow>
          if e = None \<and> \<not> final then Some (utf8_text (take v joined), drop v joined) else None)"

definition unit_of :: "bool \<Rightarrow> byte list \<Rightarrow> nat" where
  "unit_of little raw = (if little then le_value raw else le_value (rev raw))"

fun utf32_units :: "bool \<Rightarrow> byte list \<Rightarrow> utf8 option" where
  "utf32_units little (a # b # c # d # bs) =
     (let v = unit_of little [a, b, c, d] in
      if is_scalar v then map_option (\<lambda>t. utf8_of v @ t) (utf32_units little bs) else None)"
| "utf32_units little bs = Some []"

definition utf32_chunk :: "bool \<Rightarrow> byte list \<Rightarrow> byte list \<Rightarrow> bool \<Rightarrow> (utf8 \<times> byte list) option" where
  "utf32_chunk little carry input final =
     (let joined = carry @ input; complete = length joined div 4 * 4 in
      if final \<and> length joined mod 4 \<noteq> 0 then None
      else map_option (\<lambda>t. (t, if final then [] else drop complete joined))
             (utf32_units little (take complete joined)))"

definition decoder_push ::
    "encoding_crates \<Rightarrow> decoder_state \<Rightarrow> byte list \<Rightarrow> bool \<Rightarrow> (utf8 \<times> decoder_state) option" where
  "decoder_push D s input final =
     (case s of
        Utf8Decoder carry \<Rightarrow> map_option (map_prod id Utf8Decoder) (utf8_chunk carry input final)
      | CrateDecoder c fed \<Rightarrow>
          map_option (\<lambda>t. (t, CrateDecoder c (fed @ input))) (decode_push D c fed input final)
      | Utf32Decoder little carry \<Rightarrow>
          map_option (map_prod id (Utf32Decoder little)) (utf32_chunk little carry input final))"

section \<open>Statistics and probes of a pass\<close>

record validation_stats =
  vs_decoded_any :: bool
  vs_newlines :: nat
  vs_trailing_newline :: bool
  vs_non_ascii :: bool
  vs_iso_2022 :: bool
  vs_previous_escape :: bool

definition new_stats :: validation_stats where
  "new_stats = \<lparr>vs_decoded_any = False, vs_newlines = 0, vs_trailing_newline = False,
     vs_non_ascii = False, vs_iso_2022 = False, vs_previous_escape = False\<rparr>"

definition ascii_char :: "char \<Rightarrow> bool" where
  "ascii_char c \<longleftrightarrow> (of_char c :: nat) < 128"

definition observe_escape :: "char \<Rightarrow> validation_stats \<Rightarrow> validation_stats" where
  "observe_escape c s =
     s\<lparr>vs_iso_2022 := vs_iso_2022 s \<or> (vs_previous_escape s \<and> c \<in> {CHR ''('', CHR ''$''}),
       vs_previous_escape := (c = CHR 0x1B)\<rparr>"

definition observe :: "utf8 \<Rightarrow> validation_stats \<Rightarrow> validation_stats" where
  "observe text s =
     (if text = [] then s
      else
        let s = s\<lparr>vs_decoded_any := True, vs_non_ascii := vs_non_ascii s \<or> \<not> list_all ascii_char text\<rparr>;
            s = fold observe_escape text s in
        s\<lparr>vs_newlines := sat_add (vs_newlines s) (length (filter ((=) nl) text)),
          vs_trailing_newline := (last text = nl)\<rparr>)"

definition stats_total_lines :: "validation_stats \<Rightarrow> nat" where
  "stats_total_lines s = (if vs_decoded_any s then sat_add (vs_newlines s) 1 else 0)"

record raw_probe =
  rp_decoder :: decoder_state
  rp_valid :: bool
  rp_non_ascii :: bool

definition new_raw_probe :: raw_probe where
  "new_raw_probe = \<lparr>rp_decoder = new_decoder (EncodingRs utf_8), rp_valid = True, rp_non_ascii = False\<rparr>"

definition raw_probe_push :: "encoding_crates \<Rightarrow> byte list \<Rightarrow> bool \<Rightarrow> raw_probe \<Rightarrow> raw_probe" where
  "raw_probe_push D input final p =
     (if \<not> rp_valid p then p
      else case decoder_push D (rp_decoder p) input final of
          Some (t, d) \<Rightarrow> p\<lparr>rp_decoder := d, rp_non_ascii := rp_non_ascii p \<or> \<not> list_all ascii_char t\<rparr>
        | None \<Rightarrow> p\<lparr>rp_valid := False\<rparr>)"

definition is_multibyte_utf8 :: "raw_probe \<Rightarrow> bool" where
  "is_multibyte_utf8 p \<longleftrightarrow> rp_valid p \<and> rp_non_ascii p"

text \<open>The round-trip verifier: pending encoded and source bytes that are still to be compared.\<close>

record verifier =
  vf_charset :: charset
  vf_fed :: utf8
  vf_encoded :: "byte list"
  vf_expected :: "byte list"
  vf_source_cursor :: nat
  vf_compared_cursor :: nat

definition new_verifier :: "charset \<Rightarrow> verifier" where
  "new_verifier c = \<lparr>vf_charset = c, vf_fed = [], vf_encoded = [], vf_expected = [],
     vf_source_cursor = 0, vf_compared_cursor = 0\<rparr>"

definition observe_source :: "byte list \<Rightarrow> verifier \<Rightarrow> verifier" where
  "observe_source bs v =
     v\<lparr>vf_expected := vf_expected v @ bs, vf_source_cursor := sat_add (vf_source_cursor v) (length bs)\<rparr>"

definition compare_available :: "verifier \<Rightarrow> bool \<times> verifier" where
  "compare_available v =
     (let n = min (length (vf_encoded v)) (length (vf_expected v)) in
      if take n (vf_encoded v) \<noteq> take n (vf_expected v) then (False, v)
      else (True, v\<lparr>vf_encoded := drop n (vf_encoded v), vf_expected := drop n (vf_expected v),
                    vf_compared_cursor := sat_add (vf_compared_cursor v) n\<rparr>))"

definition verifier_push ::
    "encoding_crates \<Rightarrow> utf8 \<Rightarrow> bool \<Rightarrow> verifier \<Rightarrow> bool \<times> verifier" where
  "verifier_push D text final v =
     (case encode_push D (vf_charset v) (vf_fed v) text final of
        None \<Rightarrow> (False, v)
      | Some bs \<Rightarrow>
          compare_available (v\<lparr>vf_fed := vf_fed v @ text, vf_encoded := vf_encoded v @ bs\<rparr>))"

definition verifier_finish :: "encoding_crates \<Rightarrow> verifier \<Rightarrow> bool" where
  "verifier_finish D v =
     (case verifier_push D [] True v of
        (False, _) \<Rightarrow> False
      | (True, v) \<Rightarrow>
          (case compare_available v of
             (False, _) \<Rightarrow> False
           | (True, v) \<Rightarrow> vf_encoded v = [] \<and> vf_expected v = [] \<and>
               vf_compared_cursor v = vf_source_cursor v))"

section \<open>One pass\<close>

record pass_options =
  po_hard_checks :: bool
  po_segments :: "charset option"
  po_raw_utf8 :: bool

definition plain_options :: pass_options where
  "plain_options = \<lparr>po_hard_checks = False, po_segments = None, po_raw_utf8 = False\<rparr>"

record pass_result =
  pr_stats :: "validation_stats option"
  pr_multibyte_utf8 :: bool
  pr_inconsistent :: bool

definition invalid_pass :: pass_result where
  "invalid_pass = \<lparr>pr_stats = None, pr_multibyte_utf8 = False, pr_inconsistent = False\<rparr>"

record 'c pass_state =
  ps_decoder :: decoder_state
  ps_raw :: "raw_probe option"
  ps_verifier :: "verifier option"
  ps_segments :: "'c segment_scanner option"
  ps_inconsistent :: bool
  ps_stats :: validation_stats
  ps_skip :: nat

definition start_pass :: "'c \<Rightarrow> detected_encoding \<Rightarrow> pass_options \<Rightarrow> 'c pass_state" where
  "start_pass cache detected options =
     \<lparr>ps_decoder = new_decoder (de_kind detected),
      ps_raw = (if po_raw_utf8 options then Some new_raw_probe else None),
      ps_verifier = (case de_kind detected of
          EncodingRs c \<Rightarrow> if po_hard_checks options then Some (new_verifier c) else None
        | _ \<Rightarrow> None),
      ps_segments = map_option (new_segment_scanner cache) (po_segments options),
      ps_inconsistent = False, ps_stats = new_stats, ps_skip = de_bom_len detected\<rparr>"

text \<open>One read of the loop; \<open>None\<close> is the early return of an invalid pass.\<close>

definition pass_segments ::
    "'c judge \<Rightarrow> byte list \<Rightarrow> 'c pass_state \<Rightarrow> 'c pass_state option" where
  "pass_segments j content s =
     (case ps_segments s of
        Some scanner \<Rightarrow>
          if ps_inconsistent s then Some s
          else (case scan_segments j content scanner of
              (Continue, scanner) \<Rightarrow> Some (s\<lparr>ps_segments := Some scanner\<rparr>)
            | (Inconsistent, scanner) \<Rightarrow> Some (s\<lparr>ps_segments := Some scanner, ps_inconsistent := True\<rparr>)
            | (CandidateInvalid, _) \<Rightarrow> None)
      | None \<Rightarrow> Some s)"

definition pass_verify :: "encoding_crates \<Rightarrow> utf8 \<Rightarrow> 'c pass_state \<Rightarrow> 'c pass_state option" where
  "pass_verify D decoded s =
     (case ps_verifier s of
        None \<Rightarrow> Some s
      | Some v \<Rightarrow>
          (case verifier_push D decoded False v of
             (False, _) \<Rightarrow> None
           | (True, v) \<Rightarrow> Some (s\<lparr>ps_verifier := Some v\<rparr>)))"

definition pass_decoded ::
    "encoding_crates \<Rightarrow> 'c judge \<Rightarrow> bool \<Rightarrow> byte list \<Rightarrow> utf8 \<Rightarrow> 'c pass_state \<Rightarrow> 'c pass_state option" where
  "pass_decoded D j hard content decoded s =
     (if hard \<and> has_disallowed decoded then None
      else
        case pass_verify D decoded s of
          None \<Rightarrow> None
        | Some s \<Rightarrow> pass_segments j content (s\<lparr>ps_stats := observe decoded (ps_stats s)\<rparr>))"

definition pass_chunk ::
    "encoding_crates \<Rightarrow> 'c judge \<Rightarrow> bool \<Rightarrow> byte list \<Rightarrow> bool \<Rightarrow> 'c pass_state \<Rightarrow> 'c pass_state option" where
  "pass_chunk D j hard raw final s =
     (let s = s\<lparr>ps_raw := map_option (raw_probe_push D raw final) (ps_raw s)\<rparr>;
          skipped = min (ps_skip s) (length raw);
          s = s\<lparr>ps_skip := ps_skip s - skipped\<rparr>;
          content = drop skipped raw;
          s = s\<lparr>ps_verifier := map_option (observe_source content) (ps_verifier s)\<rparr> in
      case decoder_push D (ps_decoder s) content final of
        None \<Rightarrow> None
      | Some (decoded, d) \<Rightarrow> pass_decoded D j hard content decoded (s\<lparr>ps_decoder := d\<rparr>))"

definition finish_pass :: "encoding_crates \<Rightarrow> 'c judge \<Rightarrow> 'c pass_state \<Rightarrow> pass_result" where
  "finish_pass D j s =
     (if (case ps_verifier s of None \<Rightarrow> False | Some v \<Rightarrow> \<not> verifier_finish D v) then invalid_pass
      else
        let verdict = (case ps_segments s of
              Some scanner \<Rightarrow> if ps_inconsistent s then Continue else finish_segments j scanner
            | None \<Rightarrow> Continue) in
        if verdict = CandidateInvalid then invalid_pass
        else \<lparr>pr_stats = Some (ps_stats s),
              pr_multibyte_utf8 = (case ps_raw s of None \<Rightarrow> False | Some p \<Rightarrow> is_multibyte_utf8 p),
              pr_inconsistent = (ps_inconsistent s \<or> verdict = Inconsistent)\<rparr>)"

fun pass_loop ::
    "encoding_crates \<Rightarrow> 'c judge \<Rightarrow> bool \<Rightarrow> byte list list \<Rightarrow> 'c pass_state \<Rightarrow> pass_result" where
  "pass_loop D j hard [] s =
     (case pass_chunk D j hard [] True s of None \<Rightarrow> invalid_pass | Some s \<Rightarrow> finish_pass D j s)"
| "pass_loop D j hard (raw # chunks) s =
     (case pass_chunk D j hard raw False s of None \<Rightarrow> invalid_pass | Some s \<Rightarrow> pass_loop D j hard chunks s)"

definition validate_selected ::
    "encoding_crates \<Rightarrow> byte list list \<Rightarrow> detected_encoding \<Rightarrow> pass_options \<Rightarrow> pass_result" where
  "validate_selected D chunks detected options =
     (if po_hard_checks options \<and> \<not> is_encoding_rs (de_kind detected) then invalid_pass
      else pass_loop D (cached_judge D) (po_hard_checks options) chunks (start_pass [] detected options))"

section \<open>Nomination\<close>

record nomination =
  no_encoding :: charset
  no_non_ascii :: nat
  no_conflict :: "nat option"

fun nomination_loop ::
    "encoding_crates \<Rightarrow> byte list list \<Rightarrow> byte list \<Rightarrow> nat \<Rightarrow> prefix_scanner \<Rightarrow> nat option \<Rightarrow> nomination" where
  "nomination_loop D [] fed n scanner conflict =
     \<lparr>no_encoding = guess_encoding D fed, no_non_ascii = n,
      no_conflict = (if conflict = None then scanner_finish scanner else conflict)\<rparr>"
| "nomination_loop D (bs # chunks) fed n scanner conflict =
     (let n = sat_add n (non_ascii_count bs);
          (conflict, scanner) = (if conflict = None then scanner_push bs scanner else (conflict, scanner)) in
      nomination_loop D chunks (fed @ bs) n scanner conflict)"

definition scan_nomination :: "encoding_crates \<Rightarrow> byte list list \<Rightarrow> nomination" where
  "scan_nomination D chunks = nomination_loop D chunks [] 0 new_scanner None"

section \<open>The trust hierarchy\<close>

record validated_encoding =
  ve_detected :: detected_encoding
  ve_total_lines :: nat
  ve_trailing_newline :: bool
  ve_utf8_warning :: bool

definition validated :: "detected_encoding \<Rightarrow> validation_stats \<Rightarrow> bool \<Rightarrow> validated_encoding" where
  "validated detected stats warning =
     \<lparr>ve_detected = detected, ve_total_lines = stats_total_lines stats,
      ve_trailing_newline = vs_trailing_newline stats, ve_utf8_warning = warning\<rparr>"

datatype encoding_decision = TextFile validated_encoding | Binary | Rejected encoding_rejection

type_synonym validation_memo = "(charset \<times> validation_stats option) list"

definition memo_get :: "charset \<Rightarrow> validation_memo \<Rightarrow> validation_stats option option" where
  "memo_get c memo = map_of memo c"

definition memo_insert :: "charset \<Rightarrow> validation_stats option \<Rightarrow> validation_memo \<Rightarrow> validation_memo" where
  "memo_insert c r memo =
     (if c \<in> set (map fst memo) then map (\<lambda>(k, v). (k, if k = c then r else v)) memo else memo @ [(c, r)])"

text \<open>The pass is an argument, so that the same hierarchy can be read over the reference pass.\<close>

type_synonym pass = "detected_encoding \<Rightarrow> pass_options \<Rightarrow> pass_result"

definition hard_options :: "charset option \<Rightarrow> pass_options" where
  "hard_options segments = \<lparr>po_hard_checks = True, po_segments = segments, po_raw_utf8 = False\<rparr>"

fun collect_candidates :: "pass \<Rightarrow> (utf8 \<times> charset) list \<Rightarrow> validation_memo \<Rightarrow> utf8 list" where
  "collect_candidates pass [] memo = []"
| "collect_candidates pass ((label, c) # rest) memo =
     (let (stats, memo) = (case memo_get c memo of
            Some cached \<Rightarrow> (cached, memo)
          | None \<Rightarrow>
              let r = pr_stats (pass (automatic_detected c) (hard_options None)) in (r, memo_insert c r memo)) in
      (if stats \<noteq> None then [label] else []) @ collect_candidates pass rest memo)"

definition fixed_candidates :: "pass \<Rightarrow> validation_memo \<Rightarrow> encoding_decision" where
  "fixed_candidates pass memo =
     (case collect_candidates pass fixed_legacy_encodings memo of
        [] \<Rightarrow> Rejected Undecodable
      | labels \<Rightarrow> Rejected (Ambiguous labels))"

definition decide_legacy :: "encoding_crates \<Rightarrow> pass \<Rightarrow> nomination \<Rightarrow> encoding_decision" where
  "decide_legacy D pass nomination =
     (case no_conflict nomination of
        Some offset \<Rightarrow> Rejected (MixedOrInconsistent (Some offset))
      | None \<Rightarrow>
          let candidate = no_encoding nomination in
          if legacy_evidence_bytes \<le> no_non_ascii nomination then
            let result = pass (automatic_detected candidate) (hard_options (Some candidate));
                memo = memo_insert candidate (pr_stats result) [] in
            (case pr_stats result of
               None \<Rightarrow> fixed_candidates pass memo
             | Some stats \<Rightarrow>
                 if pr_inconsistent result then Rejected (MixedOrInconsistent None)
                 else if \<not> is_single_byte D candidate
                 then TextFile (validated (automatic_detected candidate) stats False)
                 else fixed_candidates pass memo)
          else fixed_candidates pass [])"

definition decide_automatic ::
    "encoding_crates \<Rightarrow> pass \<Rightarrow> nomination \<Rightarrow> byte list \<Rightarrow> encoding_decision" where
  "decide_automatic D pass nomination prefix =
     (if has_binary_nul prefix then Binary
      else
        let utf8 = \<lparr>de_kind = EncodingRs utf_8, de_bom_len = 0, de_source = None, de_origin = Automatic\<rparr> in
        case pr_stats (pass utf8 plain_options) of
          Some stats \<Rightarrow>
            if vs_iso_2022 stats then Rejected Iso2022JpSignature
            else TextFile (validated utf8 stats False)
        | None \<Rightarrow>
            if detect_binary_type prefix \<noteq> None then Binary else decide_legacy D pass nomination)"

definition decide ::
    "encoding_crates \<Rightarrow> pass \<Rightarrow> nomination \<Rightarrow> byte list \<Rightarrow> utf8 option \<Rightarrow> encoding_decision" where
  "decide D pass nomination prefix explicit =
     (case explicit of
        Some value \<Rightarrow>
          (case explicit_detected_encoding D value prefix of
             Inl rejection \<Rightarrow> Rejected rejection
           | Inr detected \<Rightarrow>
               let result = pass detected \<lparr>po_hard_checks = False, po_segments = None,
                     po_raw_utf8 = is_legacy_encoding (de_kind detected)\<rparr> in
               (case pr_stats result of
                  Some stats \<Rightarrow> TextFile (validated detected stats (pr_multibyte_utf8 result))
                | None \<Rightarrow> Rejected (ExplicitMalformed value)))
      | None \<Rightarrow>
          (case bom_detected_encoding prefix of
             Some detected \<Rightarrow>
               if de_kind detected = EncodingRs utf_8 \<and> has_binary_nul prefix then Binary
               else (case pr_stats (pass detected plain_options) of
                   Some stats \<Rightarrow> TextFile (validated detected stats False)
                 | None \<Rightarrow> Rejected (BomMismatch
                     (case (de_source detected, de_origin detected) of
                        (Some source, _) \<Rightarrow> source
                      | (None, Bom name) \<Rightarrow> name
                      | _ \<Rightarrow> ''UTF-8'')))
           | None \<Rightarrow> decide_automatic D pass nomination prefix))"

definition validate_source ::
    "encoding_crates \<Rightarrow> byte list list \<Rightarrow> utf8 option \<Rightarrow> encoding_decision" where
  "validate_source D chunks explicit =
     decide D (validate_selected D chunks) (scan_nomination D chunks)
       (take binary_probe_bytes (concat chunks)) explicit"

end
