(* ===== verification/Encoding_Pass.thy ===== *)
theory Encoding_Pass
  imports Encoding_Detection
begin

text \<open>
  A validation pass against the whole file: however the reads cut the bytes, the pass of
  Encoding_Detection gives the result of the reference pass over the complete content, and the trust
  hierarchy the decision it gives over the reference.
\<close>

section \<open>The decoders stream\<close>

text \<open>
  The contract of an incremental decoder: decoding in pieces is decoding at once, and a prefix that
  fails cannot be repaired.
\<close>

locale stream_decoder =
  fixes push :: "'s \<Rightarrow> byte list \<Rightarrow> bool \<Rightarrow> (utf8 \<times> 's) option"
  assumes push_append: "push s (x @ y) final =
    (case push s x False of None \<Rightarrow> None
     | Some (a, s') \<Rightarrow> (case push s' y final of None \<Rightarrow> None | Some (b, s'') \<Rightarrow> Some (a @ b, s'')))"
begin

lemma broken_prefix: "push s x False = None \<Longrightarrow> push s (x @ y) final = None"
  by (simp add: push_append)

lemma continued:
  "push s x False = Some (a, s') \<Longrightarrow>
     push s (x @ y) final = (case push s' y final of None \<Rightarrow> None | Some (b, s'') \<Rightarrow> Some (a @ b, s''))"
  by (simp add: push_append)

end

lemma utf8_chunk_append:
  "utf8_chunk carry (x @ y) final =
    (case utf8_chunk carry x False of None \<Rightarrow> None
     | Some (a, c) \<Rightarrow> (case utf8_chunk c y final of None \<Rightarrow> None | Some (b, d) \<Rightarrow> Some (a @ b, d)))"
proof -
  obtain j where j: "carry @ x = j" by blast
  then have jy: "carry @ x @ y = j @ y" by simp
  show ?thesis
  proof (cases "from_utf8 j")
    case Valid
    then have "is_utf8 j" by (simp add: is_utf8_def)
    with Valid from_utf8_after [of j y] show ?thesis
      by (cases "from_utf8 y") (auto simp: utf8_chunk_def j jy Let_def)
  next
    case (Invalid v e)
    show ?thesis
    proof (cases e)
      case None
      obtain q r where q: "j = q @ r" "length q = v" "take v j = q" "drop v j = r"
        using from_utf8_parts(1) [OF Invalid] by (metis append_take_drop_id length_take min.absorb2)
      have "is_utf8 q" using from_utf8_parts(2) [OF Invalid] q by simp
      from from_utf8_after [OF this, of "r @ y"] Invalid None q show ?thesis
        by (cases "from_utf8 (r @ y)") (auto simp: utf8_chunk_def j jy Let_def)
    next
      case (Some k)
      with Invalid conflict_final [of j v k y] show ?thesis
        by (simp add: utf8_chunk_def j jy Let_def)
    qed
  qed
qed

interpretation utf8_decoder: stream_decoder utf8_chunk
  by unfold_locales (rule utf8_chunk_append)

lemma utf32_units_append:
  "length a mod 4 = 0 \<Longrightarrow> utf32_units little (a @ b) = then_also (utf32_units little a) (utf32_units little b)"
proof (induction little a rule: utf32_units.induct)
  case (1 little x y z w bs)
  have "length (x # y # z # w # bs) = length bs + 4" by simp
  with "1.prems" have "length bs mod 4 = 0" by (metis mod_add_self2)
  note IH = "1.IH" [OF refl _ this]
  show ?case
  proof (cases "is_scalar (unit_of little [x, y, z, w])")
    case True
    with IH show ?thesis
      by (simp add: then_also_def Let_def split: option.split)
  qed (simp add: then_also_def Let_def)
qed (auto simp: then_also_def split: option.split)

lemma utf32_units_short: "length a < 4 \<Longrightarrow> utf32_units little a = Some []"
  by (cases "(little, a)" rule: utf32_units.cases) auto

lemma utf32_chunk_append:
  "utf32_chunk little carry (x @ y) final =
    (case utf32_chunk little carry x False of None \<Rightarrow> None
     | Some (a, c) \<Rightarrow> (case utf32_chunk little c y final of None \<Rightarrow> None | Some (b, d) \<Rightarrow> Some (a @ b, d)))"
proof -
  let ?j = "carry @ x"
  let ?n = "length ?j div 4 * 4"
  obtain q r where q: "?j = q @ r" "take ?n ?j = q" "drop ?n ?j = r" by (metis append_take_drop_id)
  have lq: "length q = ?n" using q(2) by (metis length_take min.absorb2 div_times_less_eq_dividend)
  have m: "length q mod 4 = 0" by (simp add: lq)
  have jy: "carry @ x @ y = q @ r @ y" using q(1) by simp
  let ?z = "r @ y"
  let ?k = "length ?z div 4 * 4"
  have len: "length (q @ ?z) div 4 * 4 = length q + ?k" "length (q @ ?z) mod 4 = length ?z mod 4"
    using m by (auto simp: lq)
  have t: "take (length q + ?k) (q @ ?z) = q @ take ?k ?z" "drop (length q + ?k) (q @ ?z) = drop ?k ?z"
    by simp_all
  have u: "utf32_units little (q @ take ?k ?z) =
      then_also (utf32_units little q) (utf32_units little (take ?k ?z))"
    by (rule utf32_units_append [OF m])
  show ?thesis
    unfolding utf32_chunk_def Let_def jy len t u q(2, 3)
    by (auto simp: then_also_def split: option.splits)
qed

interpretation utf32_decoder: stream_decoder "utf32_chunk little" for little
  by unfold_locales (rule utf32_chunk_append)

lemma decoder_append:
  assumes D: "crates_ok D"
  shows "decoder_push D s (x @ y) final =
    (case decoder_push D s x False of None \<Rightarrow> None
     | Some (a, s') \<Rightarrow> (case decoder_push D s' y final of None \<Rightarrow> None | Some (b, s'') \<Rightarrow> Some (a @ b, s'')))"
proof (cases s)
  case (Utf8Decoder carry)
  then show ?thesis
    by (simp add: decoder_push_def utf8_chunk_append [of carry x y] split: option.split prod.split)
next
  case (CrateDecoder c fed)
  have "decode_push D c fed (x @ y) final =
      then_also (decode_push D c fed x False) (decode_push D c (fed @ x) y final)"
    using D by (simp add: crates_ok_def)
  with CrateDecoder show ?thesis
    by (simp add: decoder_push_def then_also_def split: option.split)
next
  case (Utf32Decoder little carry)
  then show ?thesis
    by (simp add: decoder_push_def utf32_chunk_append [of little carry x y] split: option.split prod.split)
qed

section \<open>The whole content at once\<close>

definition strict_decode :: "encoding_crates \<Rightarrow> source_kind \<Rightarrow> byte list \<Rightarrow> utf8 option" where
  "strict_decode D kind bs =
     (case kind of
        EncodingRs c \<Rightarrow>
          if c = utf_8 then (if is_utf8 bs then Some (utf8_text bs) else None) else decode_push D c [] bs True
      | Utf32Le \<Rightarrow> if length bs mod 4 = 0 then utf32_units True bs else None
      | Utf32Be \<Rightarrow> if length bs mod 4 = 0 then utf32_units False bs else None)"

lemma decoder_whole: "map_option fst (decoder_push D (new_decoder kind) bs True) = strict_decode D kind bs"
proof -
  have "map_option fst (utf32_chunk little [] bs True) =
      (if length bs mod 4 = 0 then utf32_units little bs else None)" for little
  proof (cases "length bs mod 4 = 0")
    case True
    then have "length bs div 4 * 4 = length bs" by auto
    with True show ?thesis by (simp add: utf32_chunk_def Let_def option.map_comp comp_def option.map_ident)
  qed (simp add: utf32_chunk_def)
  moreover have "map_option fst (utf8_chunk [] bs True) = (if is_utf8 bs then Some (utf8_text bs) else None)"
    by (simp add: utf8_chunk_def is_utf8_def split: utf8_result.split)
  ultimately show ?thesis
    by (simp add: strict_decode_def decoder_push_def new_decoder_def option.map_comp comp_def
        option.map_ident split: source_kind.split)
qed

lemma utf8_bytes_utf8_text_take: "is_utf8 q \<Longrightarrow> is_utf8 (utf8_bytes (utf8_text q))"
  by simp

lemma utf32_units_valid: "utf32_units little bs = Some t \<Longrightarrow> is_utf8 (utf8_bytes t)"
proof (induction little bs arbitrary: t rule: utf32_units.induct)
  case (1 little a b c d bs)
  then obtain u where u: "is_scalar (unit_of little [a, b, c, d])" "utf32_units little bs = Some u"
      "t = utf8_of (unit_of little [a, b, c, d]) @ u"
    by (auto simp: Let_def split: if_splits)
  from "1.IH" [OF refl u(1, 2)] u show ?case by (simp add: utf8_of_valid)
qed auto

lemma decoder_output_valid:
  assumes D: "crates_ok D" and d: "decoder_push D s x final = Some (t, s')"
  shows "is_utf8 (utf8_bytes t)"
proof (cases s)
  case (Utf8Decoder carry)
  obtain j where j: "carry @ x = j" by blast
  from d Utf8Decoder show ?thesis
    using from_utf8_parts(2) [of j]
    by (cases "from_utf8 j")
      (auto simp: decoder_push_def utf8_chunk_def is_utf8_def j Let_def split: if_splits)
next
  case (CrateDecoder c fed)
  with d D show ?thesis by (auto simp: decoder_push_def crates_ok_def)
next
  case (Utf32Decoder little carry)
  with d show ?thesis
    by (auto simp: decoder_push_def utf32_chunk_def Let_def dest: utf32_units_valid split: if_splits)
qed

lemma decoder_empty:
  "crates_ok D \<Longrightarrow> decoder_push D (new_decoder kind) [] False = Some ([], new_decoder kind)"
  by (auto simp: decoder_push_def new_decoder_def utf8_chunk_def utf32_chunk_def crates_ok_def from_utf8_def
      split: source_kind.split)

section \<open>Statistics and the raw probe\<close>

lemma fold_escape_fields [simp]:
  "vs_decoded_any (fold observe_escape t s) = vs_decoded_any s"
  "vs_newlines (fold observe_escape t s) = vs_newlines s"
  "vs_trailing_newline (fold observe_escape t s) = vs_trailing_newline s"
  "vs_non_ascii (fold observe_escape t s) = vs_non_ascii s"
  by (induction t arbitrary: s) (simp_all add: observe_escape_def)

lemma observe_escape_frame:
  "observe_escape c (s\<lparr>vs_decoded_any := a, vs_non_ascii := b\<rparr>) =
     (observe_escape c s)\<lparr>vs_decoded_any := a, vs_non_ascii := b\<rparr>"
  "observe_escape c (s\<lparr>vs_newlines := n, vs_trailing_newline := l\<rparr>) =
     (observe_escape c s)\<lparr>vs_newlines := n, vs_trailing_newline := l\<rparr>"
  by (simp_all add: observe_escape_def)

lemma fold_escape_frame:
  "fold observe_escape t (s\<lparr>vs_decoded_any := a, vs_non_ascii := b\<rparr>) =
     (fold observe_escape t s)\<lparr>vs_decoded_any := a, vs_non_ascii := b\<rparr>"
  "fold observe_escape t (s\<lparr>vs_newlines := n, vs_trailing_newline := l\<rparr>) =
     (fold observe_escape t s)\<lparr>vs_newlines := n, vs_trailing_newline := l\<rparr>"
  by (induction t arbitrary: s) (simp_all add: observe_escape_frame)

lemma sat_add_assoc: "sat_add (sat_add a b) c = sat_add a (b + c)"
  by (auto simp: sat_add_def)

lemma observe_append: "observe (t @ u) s = observe u (observe t s)"
proof (cases "t = [] \<or> u = []")
  case True
  then show ?thesis by (auto simp: observe_def)
next
  case False
  then show ?thesis
    by (intro validation_stats.equality)
      (simp_all add: observe_def Let_def fold_escape_frame sat_add_assoc)
qed

lemma ascii_text: "list_all ascii_char (utf8_text bs) = list_all is_ascii bs"
proof -
  have "ascii_char (char_of (unat b)) = is_ascii b" for b :: byte
  proof -
    have "unat b < 256" using unsigned_less [of b] by simp
    then show ?thesis by (simp add: ascii_char_def is_ascii_def)
  qed
  then show ?thesis by (simp add: utf8_text_def list_all_length)
qed

definition raw_inv :: "encoding_crates \<Rightarrow> raw_probe \<Rightarrow> byte list \<Rightarrow> bool" where
  "raw_inv D p bs \<longleftrightarrow>
     (case decoder_push D (new_decoder (EncodingRs utf_8)) bs False of
        None \<Rightarrow> \<not> rp_valid p
      | Some (t, d) \<Rightarrow> rp_valid p \<and> rp_decoder p = d \<and> rp_non_ascii p = (\<not> list_all ascii_char t))"

lemma raw_new: "crates_ok D \<Longrightarrow> raw_inv D new_raw_probe []"
  by (simp add: raw_inv_def decoder_empty new_raw_probe_def)

lemma raw_push:
  assumes D: "crates_ok D" and inv: "raw_inv D p bs"
  shows "raw_inv D (raw_probe_push D x False p) (bs @ x)"
  using inv decoder_append [OF D, of "new_decoder (EncodingRs utf_8)" bs x False]
  by (auto simp: raw_inv_def raw_probe_push_def split: option.splits prod.splits)

lemma raw_final:
  assumes D: "crates_ok D" and inv: "raw_inv D p bs"
  shows "is_multibyte_utf8 (raw_probe_push D [] True p) = (is_utf8 bs \<and> \<not> list_all is_ascii bs)"
proof -
  let ?d = "new_decoder (EncodingRs utf_8)"
  have w: "map_option fst (decoder_push D ?d (bs @ []) True) = (if is_utf8 bs then Some (utf8_text bs) else None)"
    using decoder_whole [of D "EncodingRs utf_8" bs] by (simp add: strict_decode_def)
  note w = w [unfolded decoder_append [OF D, of ?d bs "[]" True]]
  show ?thesis
  proof (cases "decoder_push D ?d bs False")
    case None
    with w inv show ?thesis
      by (auto simp: raw_inv_def raw_probe_push_def is_multibyte_utf8_def split: if_splits)
  next
    case (Some r)
    then obtain t d where r: "decoder_push D ?d bs False = Some (t, d)" by (cases r) auto
    have p: "rp_valid p" "rp_decoder p = d" "rp_non_ascii p = (\<not> list_all ascii_char t)"
      using inv r by (simp_all add: raw_inv_def)
    show ?thesis
    proof (cases "decoder_push D d [] True")
      case None
      with w r p show ?thesis
        by (simp add: raw_probe_push_def is_multibyte_utf8_def split: if_splits)
    next
      case (Some q)
      then obtain u e where q: "decoder_push D d [] True = Some (u, e)" by (cases q) auto
      with w r have "is_utf8 bs" "t @ u = utf8_text bs" by (auto split: if_splits)
      with ascii_text [of bs] have "(list_all ascii_char t \<and> list_all ascii_char u) = list_all is_ascii bs"
        by (metis list_all_append)
      with q p \<open>is_utf8 bs\<close> show ?thesis
        by (auto simp: raw_probe_push_def is_multibyte_utf8_def)
    qed
  qed
qed

section \<open>The round-trip verifier\<close>

definition verifier_inv :: "encoding_crates \<Rightarrow> verifier \<Rightarrow> utf8 \<Rightarrow> byte list \<Rightarrow> bool" where
  "verifier_inv D v fed source \<longleftrightarrow>
     vf_fed v = fed \<and>
     (\<exists>done. encode_push D (vf_charset v) [] fed False = Some (done @ vf_encoded v) \<and>
        source = done @ vf_expected v \<and> (vf_encoded v = [] \<or> vf_expected v = []) \<and>
        vf_source_cursor v = min (length source) usize_max \<and>
        vf_compared_cursor v = min (length done) usize_max)"

lemma verifier_new: "crates_ok D \<Longrightarrow> verifier_inv D (new_verifier c) [] []"
  by (simp add: verifier_inv_def new_verifier_def crates_ok_def)

text \<open>Comparing what is available, with bytes left over on at most one side.\<close>

definition agree :: "'a list \<Rightarrow> 'a list \<Rightarrow> bool" where
  "agree xs ys \<longleftrightarrow> take (min (length xs) (length ys)) xs = take (min (length xs) (length ys)) ys"

lemma agree_prefix: "agree (d @ xs) (d @ ys) = agree xs ys"
proof -
  have "min (length (d @ xs)) (length (d @ ys)) = length d + min (length xs) (length ys)"
    by (simp add: min_def)
  then show ?thesis by (simp add: agree_def)
qed

lemma agree_self_prefix: "agree xs (xs @ ys)" "agree (xs @ ys) xs"
  by (simp_all add: agree_def)

lemma compare_step:
  "compare_available v = (agree (vf_encoded v) (vf_expected v),
     if agree (vf_encoded v) (vf_expected v)
     then v\<lparr>vf_encoded := drop (length (vf_expected v)) (vf_encoded v),
            vf_expected := drop (length (vf_encoded v)) (vf_expected v),
            vf_compared_cursor :=
              sat_add (vf_compared_cursor v) (min (length (vf_encoded v)) (length (vf_expected v)))\<rparr>
     else v)"
proof -
  have "drop (min (length xs) (length ys)) xs = drop (length ys) xs" for xs ys :: "byte list"
    by (simp add: min_def)
  moreover have "drop (min (length xs) (length ys)) ys = drop (length xs) ys" for xs ys :: "byte list"
    by (simp add: min_def)
  ultimately show ?thesis by (simp add: compare_available_def agree_def Let_def)
qed

lemma agree_eq: "agree xs ys \<Longrightarrow> length xs = length ys \<Longrightarrow> xs = ys"
  by (simp add: agree_def)

lemma sat_min: "sat_add (min a usize_max) n = min (a + n) usize_max"
  by (auto simp: sat_add_def)

text \<open>Comparing when both sides continue a common part that is already compared.\<close>

lemma compare_continued:
  assumes "vf_compared_cursor v = min (length d) usize_max"
  shows "fst (compare_available v) = agree (d @ vf_encoded v) (d @ vf_expected v)"
    and "fst (compare_available v) \<Longrightarrow> \<exists>d' a b. compare_available v = (True, v\<lparr>vf_encoded := a, vf_expected := b,
          vf_compared_cursor := min (length d') usize_max\<rparr>) \<and>
        d @ vf_encoded v = d' @ a \<and> d @ vf_expected v = d' @ b \<and> (a = [] \<or> b = [])"
proof -
  let ?xs = "vf_encoded v" and ?ys = "vf_expected v"
  let ?n = "min (length ?xs) (length ?ys)"
  show fst: "fst (compare_available v) = agree (d @ ?xs) (d @ ?ys)" by (simp add: compare_step agree_prefix)
  assume "fst (compare_available v)"
  then have a: "agree ?xs ?ys" by (simp add: compare_step)
  have "?ys = take ?n ?ys @ drop (length ?xs) ?ys" by (simp add: min_def)
  with a have ys: "?ys = take ?n ?xs @ drop (length ?xs) ?ys" by (simp add: agree_def)
  have xs: "?xs = take ?n ?xs @ drop (length ?ys) ?xs" by (simp add: min_def)
  have "sat_add (vf_compared_cursor v) ?n = min (length (d @ take ?n ?xs)) usize_max"
    using assms by (simp add: sat_min)
  then have "compare_available v = (True, v\<lparr>vf_encoded := drop (length ?ys) ?xs,
      vf_expected := drop (length ?xs) ?ys, vf_compared_cursor := min (length (d @ take ?n ?xs)) usize_max\<rparr>)"
    using a by (simp only: compare_step if_True)
  moreover have "d @ ?xs = (d @ take ?n ?xs) @ drop (length ?ys) ?xs" using xs by simp
  moreover have "d @ ?ys = (d @ take ?n ?xs) @ drop (length ?xs) ?ys" using ys by simp
  moreover have "drop (length ?ys) ?xs = [] \<or> drop (length ?xs) ?ys = []" by auto
  ultimately show "\<exists>d' a b. compare_available v = (True, v\<lparr>vf_encoded := a, vf_expected := b,
          vf_compared_cursor := min (length d') usize_max\<rparr>) \<and>
        d @ ?xs = d' @ a \<and> d @ ?ys = d' @ b \<and> (a = [] \<or> b = [])" by blast
qed

lemma verifier_step:
  assumes D: "crates_ok D" and inv: "verifier_inv D v fed source" and t: "splits_at fed t"
  shows "case verifier_push D t final (observe_source x v) of
    (False, _) \<Rightarrow> \<not> (\<exists>e. encode_push D (vf_charset v) [] (fed @ t) final = Some e \<and> agree e (source @ x))
  | (True, v') \<Rightarrow> \<exists>e d. encode_push D (vf_charset v) [] (fed @ t) final = Some e \<and> agree e (source @ x) \<and>
      e = d @ vf_encoded v' \<and> source @ x = d @ vf_expected v' \<and>
      (vf_encoded v' = [] \<or> vf_expected v' = []) \<and> vf_charset v' = vf_charset v \<and> vf_fed v' = fed @ t \<and>
      vf_source_cursor v' = min (length (source @ x)) usize_max \<and>
      vf_compared_cursor v' = min (length d) usize_max"
proof -
  from inv obtain d where d: "vf_fed v = fed"
      "encode_push D (vf_charset v) [] fed False = Some (d @ vf_encoded v)" "source = d @ vf_expected v"
      "vf_source_cursor v = min (length source) usize_max" "vf_compared_cursor v = min (length d) usize_max"
    by (auto simp: verifier_inv_def)
  have whole: "encode_push D (vf_charset v) [] (fed @ t) final =
      then_also (Some (d @ vf_encoded v)) (encode_push D (vf_charset v) fed t final)"
    using D t d(2) by (simp add: crates_ok_def)
  show ?thesis
  proof (cases "encode_push D (vf_charset v) fed t final")
    case None
    with whole d(1) show ?thesis by (simp add: verifier_push_def observe_source_def then_also_def)
  next
    case (Some bs)
    let ?v = "v\<lparr>vf_expected := vf_expected v @ x,
      vf_source_cursor := sat_add (vf_source_cursor v) (length x), vf_fed := fed @ t,
      vf_encoded := vf_encoded v @ bs\<rparr>"
    have p: "verifier_push D t final (observe_source x v) = compare_available ?v"
      using Some d(1) by (simp add: verifier_push_def observe_source_def)
    have e: "encode_push D (vf_charset v) [] (fed @ t) final = Some (d @ vf_encoded ?v)"
      using whole Some by (simp add: then_also_def)
    have s: "source @ x = d @ vf_expected ?v" using d(3) by simp
    have c: "vf_compared_cursor ?v = min (length d) usize_max" using d(5) by simp
    have cur: "vf_source_cursor ?v = min (length (source @ x)) usize_max" using d(4) by (simp add: sat_min)
    note cmp = compare_continued [OF c]
    show ?thesis
    proof (cases "fst (compare_available ?v)")
      case False
      with cmp(1) e s show ?thesis unfolding p by (cases "compare_available ?v") auto
    next
      case True
      from cmp(2) [OF True] obtain d' a b where
        r: "compare_available ?v = (True, ?v\<lparr>vf_encoded := a, vf_expected := b,
            vf_compared_cursor := min (length d') usize_max\<rparr>)"
          "d @ vf_encoded ?v = d' @ a" "d @ vf_expected ?v = d' @ b" "a = [] \<or> b = []" by blast
      have "agree (d @ vf_encoded ?v) (source @ x)" using cmp(1) True unfolding s by simp
      with e s r cur show ?thesis
        unfolding p r(1) prod.case bool.case
        by (intro exI [of _ "d @ vf_encoded ?v"] exI [of _ d']) simp
    qed
  qed
qed

lemma verifier_done:
  assumes D: "crates_ok D" and inv: "verifier_inv D v fed source"
  shows "verifier_finish D v = (encode_push D (vf_charset v) [] fed True = Some source)"
proof -
  have o: "observe_source [] v = v" by (cases v) (simp add: observe_source_def sat_add_def; insert inv; auto simp: verifier_inv_def)
  have st: "splits_at fed []" by simp
  note step = verifier_step [OF D inv st, of True "[]", unfolded o append_Nil2]
  show ?thesis
  proof (cases "verifier_push D [] True v")
    case (Pair ok w)
    show ?thesis
    proof (cases ok)
      case False
      with step Pair have "\<not> (\<exists>e. encode_push D (vf_charset v) [] fed True = Some e \<and> agree e source)" by simp
      then have "encode_push D (vf_charset v) [] fed True \<noteq> Some source"
        using agree_self_prefix(1) [of source "[]"] by auto
      with False Pair show ?thesis by (simp add: verifier_finish_def)
    next
      case True
      with step Pair obtain e d where
        e: "encode_push D (vf_charset v) [] fed True = Some e" "agree e source" "e = d @ vf_encoded w"
          "source = d @ vf_expected w" "vf_encoded w = [] \<or> vf_expected w = []"
          "vf_source_cursor w = min (length source) usize_max" "vf_compared_cursor w = min (length d) usize_max"
        by auto
      have "compare_available w = (True, w)"
        using e(5, 7) by (cases w) (auto simp: compare_available_def sat_add_def)
      then have "verifier_finish D v \<longleftrightarrow> vf_encoded w = [] \<and> vf_expected w = [] \<and>
          vf_compared_cursor w = vf_source_cursor w"
        using Pair True by (simp add: verifier_finish_def)
      also have "\<dots> \<longleftrightarrow> e = source"
      proof
        assume "vf_encoded w = [] \<and> vf_expected w = [] \<and> vf_compared_cursor w = vf_source_cursor w"
        then show "e = source" using e(3, 4) by (metis append_Nil2)
      next
        assume "e = source"
        then have "vf_encoded w = vf_expected w" using e(3, 4) by (metis same_append_eq)
        with e(5) have n: "vf_encoded w = []" "vf_expected w = []" by auto
        then have "source = d" using e(4) by simp
        with n e(6, 7) show "vf_encoded w = [] \<and> vf_expected w = [] \<and> vf_compared_cursor w = vf_source_cursor w"
          by simp
      qed
      finally show ?thesis using e(1) by simp
    qed
  qed
qed

section \<open>The reference pass\<close>

definition segment_verdict :: "'c judge \<Rightarrow> 'c \<Rightarrow> charset \<Rightarrow> byte list \<Rightarrow> segment_scan" where
  "segment_verdict j k whole bs =
     (case scan_segments j bs (new_segment_scanner k whole) of
        (Continue, s) \<Rightarrow> finish_segments j s
      | (r, _) \<Rightarrow> r)"

definition reencodes :: "encoding_crates \<Rightarrow> source_kind \<Rightarrow> utf8 \<Rightarrow> byte list \<Rightarrow> bool" where
  "reencodes D kind text content =
     (case kind of EncodingRs c \<Rightarrow> encode_push D c [] text True = Some content | _ \<Rightarrow> True)"

definition reference_pass ::
    "encoding_crates \<Rightarrow> 'c judge \<Rightarrow> 'c \<Rightarrow> byte list \<Rightarrow> detected_encoding \<Rightarrow> pass_options \<Rightarrow> pass_result" where
  "reference_pass D j k bs detected options =
     (let content = drop (de_bom_len detected) bs; hard = po_hard_checks options in
      if hard \<and> \<not> is_encoding_rs (de_kind detected) then invalid_pass
      else case strict_decode D (de_kind detected) content of
          None \<Rightarrow> invalid_pass
        | Some text \<Rightarrow>
            if hard \<and> (has_disallowed text \<or> \<not> reencodes D (de_kind detected) text content) then invalid_pass
            else
              let verdict = (case po_segments options of
                    None \<Rightarrow> Continue | Some whole \<Rightarrow> segment_verdict j k whole content) in
              if verdict = CandidateInvalid then invalid_pass
              else \<lparr>pr_stats = Some (observe text new_stats),
                    pr_multibyte_utf8 = (po_raw_utf8 options \<and> is_utf8 bs \<and> \<not> list_all is_ascii bs),
                    pr_inconsistent = (verdict = Inconsistent)\<rparr>)"

lemma verdict_uncached: "segment_verdict (cached_judge D) [] whole bs = segment_verdict (plain_judge D) () whole bs"
  using cache_transparent [of D bs whole]
  by (cases "scan_segments (cached_judge D) bs (new_segment_scanner [] whole)";
      cases "scan_segments (plain_judge D) bs (new_segment_scanner () whole)")
    (auto simp: segment_verdict_def split: segment_scan.split)

lemma has_disallowed_append: "splits_at t u \<Longrightarrow> has_disallowed (t @ u) = (has_disallowed t \<or> has_disallowed u)"
  by (simp add: has_disallowed_def chars_append)

lemma has_disallowed_Nil [simp]: "\<not> has_disallowed []"
  by (simp add: has_disallowed_def)

text \<open>The state of the loop after the bytes \<open>p\<close>, whose decoded text is \<open>t\<close>.\<close>

definition segments_inv :: "'c judge \<Rightarrow> 'c \<Rightarrow> pass_options \<Rightarrow> 'c pass_state \<Rightarrow> byte list \<Rightarrow> bool" where
  "segments_inv j k options s content \<longleftrightarrow>
     (case po_segments options of
        None \<Rightarrow> ps_segments s = None \<and> \<not> ps_inconsistent s
      | Some whole \<Rightarrow>
          (case scan_segments j content (new_segment_scanner k whole) of
             (Continue, sc) \<Rightarrow> ps_segments s = Some sc \<and> \<not> ps_inconsistent s
           | (Inconsistent, _) \<Rightarrow> ps_segments s \<noteq> None \<and> ps_inconsistent s
           | (CandidateInvalid, _) \<Rightarrow> False))"

definition verifier_ok ::
    "encoding_crates \<Rightarrow> source_kind \<Rightarrow> bool \<Rightarrow> verifier option \<Rightarrow> utf8 \<Rightarrow> byte list \<Rightarrow> bool" where
  "verifier_ok D kind hard v t content \<longleftrightarrow>
     (case (kind, hard) of
        (EncodingRs c, True) \<Rightarrow> \<exists>w. v = Some w \<and> vf_charset w = c \<and> verifier_inv D w t content
      | _ \<Rightarrow> v = None)"

definition pass_inv ::
    "encoding_crates \<Rightarrow> 'c judge \<Rightarrow> 'c \<Rightarrow> detected_encoding \<Rightarrow> pass_options \<Rightarrow> 'c pass_state \<Rightarrow> byte list \<Rightarrow> bool" where
  "pass_inv D j k detected options s p \<longleftrightarrow>
     (let content = drop (de_bom_len detected) p; hard = po_hard_checks options in
      ps_skip s = de_bom_len detected - length p \<and>
      (case ps_raw s of None \<Rightarrow> \<not> po_raw_utf8 options | Some r \<Rightarrow> po_raw_utf8 options \<and> raw_inv D r p) \<and>
      segments_inv j k options s content \<and>
      (\<exists>t. decoder_push D (new_decoder (de_kind detected)) content False = Some (t, ps_decoder s) \<and>
         ps_stats s = observe t new_stats \<and> (hard \<longrightarrow> \<not> has_disallowed t) \<and>
         verifier_ok D (de_kind detected) hard (ps_verifier s) t content))"

lemma start_pass_inv:
  assumes "crates_ok D" "\<not> (po_hard_checks options \<and> \<not> is_encoding_rs (de_kind detected))"
  shows "pass_inv D j k detected options (start_pass k detected options) []"
  using assms
  by (auto simp: pass_inv_def start_pass_def segments_inv_def verifier_ok_def raw_new decoder_empty
      verifier_new observe_def new_verifier_def [THEN arg_cong, of vf_charset] is_encoding_rs_def
      split: source_kind.splits option.splits bool.splits)

lemma segments_inv_frame:
  assumes "ps_segments s' = ps_segments s" "ps_inconsistent s' = ps_inconsistent s"
  shows "segments_inv j k options s' content = segments_inv j k options s content"
  unfolding segments_inv_def assms ..

lemma pass_segments_step:
  assumes "segments_inv j k options s content"
  shows "case pass_segments j x s of
    Some s' \<Rightarrow> segments_inv j k options s' (content @ x) \<and>
      ps_decoder s' = ps_decoder s \<and> ps_raw s' = ps_raw s \<and> ps_verifier s' = ps_verifier s \<and>
      ps_stats s' = ps_stats s \<and> ps_skip s' = ps_skip s
  | None \<Rightarrow> \<exists>whole sc. po_segments options = Some whole \<and>
      scan_segments j (content @ x) (new_segment_scanner k whole) = (CandidateInvalid, sc)"
proof (cases "po_segments options")
  case None
  with assms show ?thesis
    by (simp add: segments_inv_def pass_segments_def)
next
  case (Some whole)
  obtain r sc where r: "scan_segments j content (new_segment_scanner k whole) = (r, sc)"
    by (cases "scan_segments j content (new_segment_scanner k whole)")
  obtain r' sc' where r': "scan_segments j x sc = (r', sc')" by (cases "scan_segments j x sc")
  show ?thesis
  proof (cases r)
    case Continue
    with assms Some r r' show ?thesis
      by (cases r') (auto simp: segments_inv_def pass_segments_def scan_segments_append)
  next
    case Inconsistent
    with assms Some r show ?thesis
      by (auto simp: segments_inv_def pass_segments_def scan_segments_append split: option.split)
  next
    case CandidateInvalid
    with assms Some r show ?thesis by (simp add: segments_inv_def)
  qed
qed

text \<open>One read keeps the invariant, or shows that no continuation of the file passes.\<close>

lemma drop_chunk: "drop n (p @ raw) = drop n p @ drop (min (n - length p) (length raw)) raw"
  by (simp add: min_def)

lemma decoded_text:
  assumes D: "crates_ok D" and d: "decoder_push D s x False = Some (t, s')"
    and w: "map_option fst (decoder_push D s (x @ y) True) = Some text"
  shows "\<exists>u. text = t @ u \<and> splits_at t u \<and> map_option fst (decoder_push D s' y True) = Some u"
proof -
  from w d obtain u s'' where u: "decoder_push D s' y True = Some (u, s'')" "text = t @ u"
    by (auto simp: decoder_append [OF D, of s x y] split: option.splits prod.splits)
  with decoder_output_valid [OF D u(1)] well_formed_splits show ?thesis by auto
qed

lemma reference_invalid:
  assumes "\<And>text. strict_decode D (de_kind detected) (drop (de_bom_len detected) bs) = Some text \<Longrightarrow>
      po_hard_checks options \<and> (has_disallowed text \<or>
        \<not> reencodes D (de_kind detected) text (drop (de_bom_len detected) bs)) \<or>
      (\<exists>whole. po_segments options = Some whole \<and>
         segment_verdict j k whole (drop (de_bom_len detected) bs) = CandidateInvalid)"
  shows "reference_pass D j k bs detected options = invalid_pass"
proof (cases "strict_decode D (de_kind detected) (drop (de_bom_len detected) bs)")
  case None
  then show ?thesis by (simp add: reference_pass_def Let_def)
next
  case (Some tx)
  from assms [OF Some] Some show ?thesis by (auto simp: reference_pass_def Let_def)
qed

lemma rejected_prefix:
  assumes D: "crates_ok D" and v: "splits_at t v" and e: "encode_push D c [] (t @ v) True = Some (source @ z)"
  shows "\<exists>e. encode_push D c [] t False = Some e \<and> agree e source"
proof -
  have "encode_push D c [] (t @ v) True = then_also (encode_push D c [] t False) (encode_push D c t v True)"
    using D v by (simp add: crates_ok_def)
  with e obtain a b where ab: "encode_push D c [] t False = Some a" "a @ b = source @ z"
    by (auto simp: then_also_def split: option.splits)
  from ab(2) have "agree a source" by (auto simp: agree_def append_eq_append_conv2 min_def)
  with ab(1) show ?thesis by blast
qed

lemma pass_verify_step:
  assumes D: "crates_ok D" and su: "splits_at t u"
    and vok: "verifier_ok D kind hard v t C" and s: "ps_verifier s = map_option (observe_source x) v"
  shows "case pass_verify D u s of
    Some s' \<Rightarrow> verifier_ok D kind hard (ps_verifier s') (t @ u) (C @ x) \<and>
      ps_segments s' = ps_segments s \<and> ps_inconsistent s' = ps_inconsistent s \<and> ps_stats s' = ps_stats s \<and>
      ps_decoder s' = ps_decoder s \<and> ps_raw s' = ps_raw s \<and> ps_skip s' = ps_skip s
  | None \<Rightarrow> hard \<and> (\<forall>z v. splits_at (t @ u) v \<longrightarrow> \<not> reencodes D kind ((t @ u) @ v) (C @ x @ z))"
proof (cases v)
  case None
  with s vok show ?thesis
    by (auto simp: pass_verify_def verifier_ok_def split: source_kind.splits bool.splits)
next
  case (Some w)
  with vok obtain c where c: "kind = EncodingRs c" "hard" "vf_charset w = c" "verifier_inv D w t C"
    by (auto simp: verifier_ok_def split: source_kind.splits bool.splits)
  note step = verifier_step [OF D c(4) su, of False x]
  obtain ok w' where p: "verifier_push D u False (observe_source x w) = (ok, w')"
    by (cases "verifier_push D u False (observe_source x w)")
  show ?thesis
  proof (cases ok)
    case True
    with step p c(3) have "vf_charset w' = c \<and> verifier_inv D w' (t @ u) (C @ x)"
      by (auto simp: verifier_inv_def)
    with True p s Some c show ?thesis by (auto simp: pass_verify_def verifier_ok_def)
  next
    case False
    have no: "\<not> (\<exists>e. encode_push D c [] (t @ u) False = Some e \<and> agree e (C @ x))"
      using False step p c(3) by simp
    have "\<not> reencodes D kind ((t @ u) @ v) (C @ x @ z)" if "splits_at (t @ u) v" for z v
      using rejected_prefix [OF D that, of c "C @ x" z] no by (auto simp: reencodes_def c(1))
    with False p s Some c show ?thesis by (simp add: pass_verify_def)
  qed
qed

lemma pass_decoded_step:
  assumes D: "crates_ok D" and su: "splits_at t u" and sg: "segments_inv j k options s C"
    and stats: "ps_stats s = observe t new_stats" and clean: "hard \<longrightarrow> \<not> has_disallowed t"
    and vok: "verifier_ok D kind hard v t C" and s: "ps_verifier s = map_option (observe_source x) v"
  shows "case pass_decoded D j hard x u s of
    Some s' \<Rightarrow> segments_inv j k options s' (C @ x) \<and> ps_stats s' = observe (t @ u) new_stats \<and>
      (hard \<longrightarrow> \<not> has_disallowed (t @ u)) \<and> verifier_ok D kind hard (ps_verifier s') (t @ u) (C @ x) \<and>
      ps_decoder s' = ps_decoder s \<and> ps_raw s' = ps_raw s \<and> ps_skip s' = ps_skip s
  | None \<Rightarrow> (hard \<and> (has_disallowed (t @ u) \<or>
        (\<forall>z v. splits_at (t @ u) v \<longrightarrow> \<not> reencodes D kind ((t @ u) @ v) (C @ x @ z)))) \<or>
      (\<exists>whole sc. po_segments options = Some whole \<and>
         scan_segments j (C @ x) (new_segment_scanner k whole) = (CandidateInvalid, sc))"
proof (cases "hard \<and> has_disallowed u")
  case True
  then show ?thesis by (simp add: pass_decoded_def has_disallowed_append [OF su])
next
  case False
  note step = pass_verify_step [OF D su vok s]
  show ?thesis
  proof (cases "pass_verify D u s")
    case None
    with False step show ?thesis by (simp add: pass_decoded_def)
  next
    case (Some s1)
    from Some step have s1: "verifier_ok D kind hard (ps_verifier s1) (t @ u) (C @ x)"
      "ps_segments s1 = ps_segments s" "ps_inconsistent s1 = ps_inconsistent s" "ps_stats s1 = ps_stats s"
      "ps_decoder s1 = ps_decoder s" "ps_raw s1 = ps_raw s" "ps_skip s1 = ps_skip s" by simp_all
    let ?s2 = "s1\<lparr>ps_stats := observe u (ps_stats s1)\<rparr>"
    have "segments_inv j k options ?s2 C" using sg segments_inv_frame [of ?s2 s j k options C] s1(2, 3) by simp
    note seg = pass_segments_step [OF this, of x]
    show ?thesis
    proof (cases "pass_segments j x ?s2")
      case None
      with False Some seg show ?thesis by (simp add: pass_decoded_def)
    next
      case (Some s3)
      with \<open>pass_verify D u s = Some s1\<close> False seg s1 stats clean show ?thesis
        by (simp add: pass_decoded_def observe_append has_disallowed_append [OF su])
    qed
  qed
qed

text \<open>What a rejected prefix means for the reference of every longer content.\<close>

lemma rejected_reference:
  assumes D: "crates_ok D"
    and content: "drop (de_bom_len detected) bs = C @ z"
    and dec: "\<And>tx. strict_decode D (de_kind detected) (C @ z) = Some tx \<Longrightarrow> \<exists>v. tx = t @ v \<and> splits_at t v"
    and rej: "(po_hard_checks options \<and> (has_disallowed t \<or>
        (\<forall>v. splits_at t v \<longrightarrow> \<not> reencodes D (de_kind detected) (t @ v) (C @ z)))) \<or>
      (\<exists>whole sc. po_segments options = Some whole \<and>
         scan_segments j C (new_segment_scanner k whole) = (CandidateInvalid, sc))"
  shows "reference_pass D j k bs detected options = invalid_pass"
proof (rule reference_invalid)
  fix tx
  assume a: "strict_decode D (de_kind detected) (drop (de_bom_len detected) bs) = Some tx"
  from dec [OF a [unfolded content]] obtain v where v: "tx = t @ v" "splits_at t v" by blast
  from rej show "po_hard_checks options \<and> (has_disallowed tx \<or>
        \<not> reencodes D (de_kind detected) tx (drop (de_bom_len detected) bs)) \<or>
      (\<exists>whole. po_segments options = Some whole \<and>
         segment_verdict j k whole (drop (de_bom_len detected) bs) = CandidateInvalid)"
  proof (elim disjE exE conjE)
    assume "po_hard_checks options" "has_disallowed t"
    then show ?thesis using v by (simp add: has_disallowed_append)
  next
    assume "po_hard_checks options"
      "\<forall>v. splits_at t v \<longrightarrow> \<not> reencodes D (de_kind detected) (t @ v) (C @ z)"
    then show ?thesis using v content by simp
  next
    fix whole sc
    assume w: "po_segments options = Some whole"
      "scan_segments j C (new_segment_scanner k whole) = (CandidateInvalid, sc)"
    then have "segment_verdict j k whole (C @ z) = CandidateInvalid"
      by (simp add: segment_verdict_def scan_segments_append)
    with w(1) content show ?thesis by auto
  qed
qed

lemma pass_chunk_unfold:
  assumes "drop (min (ps_skip s) (length raw)) raw = x"
  shows "pass_chunk D j hard raw final s =
    (case decoder_push D (ps_decoder s) x final of None \<Rightarrow> None
     | Some (decoded, d) \<Rightarrow> pass_decoded D j hard x decoded
         (s\<lparr>ps_raw := map_option (raw_probe_push D raw final) (ps_raw s),
            ps_skip := ps_skip s - min (ps_skip s) (length raw),
            ps_verifier := map_option (observe_source x) (ps_verifier s), ps_decoder := d\<rparr>))"
  using assms by (simp add: pass_chunk_def Let_def split: option.split prod.split)

lemma pass_chunk_step:
  fixes j :: "'c judge"
  assumes D: "crates_ok D" and inv: "pass_inv D j k detected options s p"
  shows "case pass_chunk D j (po_hard_checks options) raw False s of
    Some s' \<Rightarrow> pass_inv D j k detected options s' (p @ raw)
  | None \<Rightarrow> \<forall>y. reference_pass D j k ((p @ raw) @ y) detected options = invalid_pass"
proof -
  let ?bom = "de_bom_len detected" and ?kind = "de_kind detected" and ?hard = "po_hard_checks options"
  obtain C where C: "drop ?bom p = C" by blast
  obtain x where x: "drop (min (?bom - length p) (length raw)) raw = x" by blast
  have Cx: "drop ?bom (p @ raw) = C @ x" unfolding drop_chunk C x ..
  have Cxz: "\<exists>z. drop ?bom ((p @ raw) @ y) = C @ x @ z" for y
    unfolding drop_chunk [of ?bom "p @ raw"] Cx by auto
  from inv obtain t where t: "decoder_push D (new_decoder ?kind) C False = Some (t, ps_decoder s)"
      "ps_stats s = observe t new_stats" "?hard \<longrightarrow> \<not> has_disallowed t"
      "verifier_ok D ?kind ?hard (ps_verifier s) t C"
    and base: "ps_skip s = ?bom - length p" "segments_inv j k options s C"
      "case ps_raw s of None \<Rightarrow> \<not> po_raw_utf8 options | Some r \<Rightarrow> po_raw_utf8 options \<and> raw_inv D r p"
    unfolding pass_inv_def Let_def C by blast
  have raw': "case map_option (raw_probe_push D raw False) (ps_raw s) of None \<Rightarrow> \<not> po_raw_utf8 options
      | Some r \<Rightarrow> po_raw_utf8 options \<and> raw_inv D r (p @ raw)"
    using base(3) raw_push [OF D] by (cases "ps_raw s") auto
  have skip': "ps_skip s - min (ps_skip s) (length raw) = ?bom - length (p @ raw)"
    using base(1) by (simp add: min_def)
  have x': "drop (min (ps_skip s) (length raw)) raw = x" using x base(1) by simp
  let ?s1 = "s\<lparr>ps_raw := map_option (raw_probe_push D raw False) (ps_raw s),
    ps_skip := ps_skip s - min (ps_skip s) (length raw),
    ps_verifier := map_option (observe_source x) (ps_verifier s)\<rparr>"
  have chunk: "pass_chunk D j ?hard raw False s =
      (case decoder_push D (ps_decoder s) x False of None \<Rightarrow> None
       | Some (decoded, d) \<Rightarrow> pass_decoded D j ?hard x decoded (?s1\<lparr>ps_decoder := d\<rparr>))"
    using pass_chunk_unfold [OF x', of D j ?hard False] by simp
  show ?thesis
  proof (cases "decoder_push D (ps_decoder s) x False")
    case None
    have "strict_decode D ?kind (C @ x @ z) = None" for z
    proof -
      have "decoder_push D (new_decoder ?kind) ((C @ x) @ z) True = None"
        using t(1) None decoder_append [OF D, of "new_decoder ?kind" C x False]
          decoder_append [OF D, of "new_decoder ?kind" "C @ x" z True] by simp
      then show ?thesis using decoder_whole [of D ?kind "C @ x @ z"] by simp
    qed
    note none = this
    have "reference_pass D j k ((p @ raw) @ y) detected options = invalid_pass" for y
    proof -
      obtain z where z: "drop ?bom ((p @ raw) @ y) = C @ x @ z" using Cxz by blast
      show ?thesis by (rule reference_invalid) (simp only: z none option.distinct)
    qed
    with None chunk show ?thesis by simp
  next
    case (Some r)
    then obtain u d where u: "decoder_push D (ps_decoder s) x False = Some (u, d)" by (cases r) auto
    have tu: "decoder_push D (new_decoder ?kind) (C @ x) False = Some (t @ u, d)"
      using decoder_append [OF D, of "new_decoder ?kind" C x False] t(1) u by simp
    have su: "splits_at t u" using well_formed_splits [OF decoder_output_valid [OF D u]] .
    have dec: "\<exists>v. tx = (t @ u) @ v \<and> splits_at (t @ u) v"
      if "strict_decode D ?kind ((C @ x) @ z) = Some tx" for z tx
      using decoded_text [OF D tu, of z tx] decoder_whole [of D ?kind "(C @ x) @ z"] that by auto
    let ?s2 = "?s1\<lparr>ps_decoder := d\<rparr>"
    have sg: "segments_inv j k options ?s2 C" using base(2) segments_inv_frame [of ?s2 s j k options C] by simp
    have st: "ps_stats ?s2 = observe t new_stats" "ps_verifier ?s2 = map_option (observe_source x) (ps_verifier s)"
      using t(2) by simp_all
    note step = pass_decoded_step [OF D su sg st(1) t(3, 4) st(2)]
    show ?thesis
    proof (cases "pass_decoded D j ?hard x u ?s2")
      case None
      have "reference_pass D j k ((p @ raw) @ y) detected options = invalid_pass" for y
      proof -
        obtain z where z: "drop ?bom ((p @ raw) @ y) = (C @ x) @ z" using Cxz by auto
        show ?thesis
          by (rule rejected_reference [OF D z dec]) (use step None in auto)
      qed
      with None chunk u show ?thesis by simp
    next
      case (Some s3)
      with step have s3: "segments_inv j k options s3 (C @ x)" "ps_stats s3 = observe (t @ u) new_stats"
          "?hard \<longrightarrow> \<not> has_disallowed (t @ u)" "verifier_ok D ?kind ?hard (ps_verifier s3) (t @ u) (C @ x)"
          "ps_decoder s3 = d" "ps_raw s3 = map_option (raw_probe_push D raw False) (ps_raw s)"
          "ps_skip s3 = ps_skip s - min (ps_skip s) (length raw)"
        by simp_all
      have "pass_inv D j k detected options s3 (p @ raw)"
        unfolding pass_inv_def Let_def Cx
        using s3 tu raw' skip' by (intro conjI exI [of _ "t @ u"]) simp_all
      with Some chunk u show ?thesis by simp
    qed
  qed
qed

lemma pass_end_step:
  fixes j :: "'c judge"
  assumes D: "crates_ok D" and inv: "pass_inv D j k detected options s p"
    and kind: "\<not> (po_hard_checks options \<and> \<not> is_encoding_rs (de_kind detected))"
  shows "pass_loop D j (po_hard_checks options) [] s = reference_pass D j k p detected options"
proof -
  let ?bom = "de_bom_len detected" and ?kind = "de_kind detected" and ?hard = "po_hard_checks options"
  obtain C where C: "drop ?bom p = C" by blast
  from inv obtain t where t: "decoder_push D (new_decoder ?kind) C False = Some (t, ps_decoder s)"
      "ps_stats s = observe t new_stats" "?hard \<longrightarrow> \<not> has_disallowed t"
      "verifier_ok D ?kind ?hard (ps_verifier s) t C"
    and base: "segments_inv j k options s C"
      "case ps_raw s of None \<Rightarrow> \<not> po_raw_utf8 options | Some r \<Rightarrow> po_raw_utf8 options \<and> raw_inv D r p"
    unfolding pass_inv_def Let_def C by blast
  let ?s1 = "s\<lparr>ps_raw := map_option (raw_probe_push D [] True) (ps_raw s),
    ps_skip := ps_skip s - min (ps_skip s) (length ([] :: byte list)),
    ps_verifier := map_option (observe_source []) (ps_verifier s)\<rparr>"
  have chunk: "pass_chunk D j ?hard [] True s =
      (case decoder_push D (ps_decoder s) [] True of None \<Rightarrow> None
       | Some (decoded, d) \<Rightarrow> pass_decoded D j ?hard [] decoded (?s1\<lparr>ps_decoder := d\<rparr>))"
    by (rule pass_chunk_unfold) simp
  have whole: "strict_decode D ?kind C = map_option (\<lambda>(u, _). t @ u) (decoder_push D (ps_decoder s) [] True)"
    using decoder_whole [of D ?kind "C @ []"] decoder_append [OF D, of "new_decoder ?kind" C "[]" True] t(1)
    by (auto split: option.splits)
  show ?thesis
  proof (cases "decoder_push D (ps_decoder s) [] True")
    case None
    with whole chunk C show ?thesis by (simp add: reference_pass_def Let_def)
  next
    case (Some r)
    then obtain u d where u: "decoder_push D (ps_decoder s) [] True = Some (u, d)" by (cases r) auto
    have tx: "strict_decode D ?kind C = Some (t @ u)" using whole u by simp
    have su: "splits_at t u" using well_formed_splits [OF decoder_output_valid [OF D u]] .
    let ?s2 = "?s1\<lparr>ps_decoder := d\<rparr>"
    have sg: "segments_inv j k options ?s2 C" using base(1) segments_inv_frame [of ?s2 s j k options C] by simp
    have st: "ps_stats ?s2 = observe t new_stats" "ps_verifier ?s2 = map_option (observe_source []) (ps_verifier s)"
      using t(2) by simp_all
    note step = pass_decoded_step [OF D su sg st(1) t(3, 4) st(2), unfolded append_Nil2]
    show ?thesis
    proof (cases "pass_decoded D j ?hard [] u ?s2")
      case None
      have "reference_pass D j k p detected options = invalid_pass"
      proof (rule rejected_reference [OF D])
        show "drop ?bom p = C @ []" using C by simp
        show "\<exists>v. y = (t @ u) @ v \<and> splits_at (t @ u) v" if "strict_decode D ?kind (C @ []) = Some y" for y
          using that tx by auto
      qed (use step None in \<open>auto dest: spec [of _ "[]"]\<close>)
      with None chunk u show ?thesis by simp
    next
      case (Some s3)
      with step have s3: "segments_inv j k options s3 C" "ps_stats s3 = observe (t @ u) new_stats"
          "?hard \<longrightarrow> \<not> has_disallowed (t @ u)" "verifier_ok D ?kind ?hard (ps_verifier s3) (t @ u) C"
          "ps_raw s3 = map_option (raw_probe_push D [] True) (ps_raw s)"
        by simp_all
      have multi: "(case ps_raw s3 of None \<Rightarrow> False | Some q \<Rightarrow> is_multibyte_utf8 q) =
          (po_raw_utf8 options \<and> is_utf8 p \<and> \<not> list_all is_ascii p)"
        using base(2) raw_final [OF D] unfolding s3(5) by (cases "ps_raw s") auto
      have verify: "(case ps_verifier s3 of None \<Rightarrow> False | Some v \<Rightarrow> \<not> verifier_finish D v) =
          (?hard \<and> \<not> reencodes D ?kind (t @ u) C)"
        using s3(4) kind verifier_done [OF D]
        by (auto simp: verifier_ok_def reencodes_def is_encoding_rs_def split: source_kind.splits bool.splits option.splits)
      have verdict: "(case ps_segments s3 of Some sc \<Rightarrow> if ps_inconsistent s3 then Continue else finish_segments j sc
            | None \<Rightarrow> Continue) = (case po_segments options of None \<Rightarrow> Continue
            | Some w \<Rightarrow> if ps_inconsistent s3 then Continue else segment_verdict j k w C) \<and>
          (ps_inconsistent s3 \<longrightarrow> (\<exists>w. po_segments options = Some w \<and> segment_verdict j k w C = Inconsistent))"
        using s3(1)
        by (auto simp: segments_inv_def segment_verdict_def split: option.splits segment_scan.splits prod.splits)
      have fin: "pass_loop D j ?hard [] s = finish_pass D j s3" using chunk u Some by simp
      show ?thesis
        unfolding fin finish_pass_def verify multi
        using verdict s3(2, 3) tx kind C
        by (auto simp: reference_pass_def Let_def split: option.splits)
    qed
  qed
qed

lemma pass_loop_exact:
  fixes j :: "'c judge"
  assumes D: "crates_ok D" and kind: "\<not> (po_hard_checks options \<and> \<not> is_encoding_rs (de_kind detected))"
  shows "pass_inv D j k detected options s p \<Longrightarrow>
    pass_loop D j (po_hard_checks options) chunks s = reference_pass D j k (p @ concat chunks) detected options"
proof (induction chunks arbitrary: s p)
  case Nil
  then show ?case using pass_end_step [OF D Nil kind] by simp
next
  case (Cons raw chunks)
  from pass_chunk_step [OF D Cons.prems, of raw] show ?case
    using Cons.IH by (cases "pass_chunk D j (po_hard_checks options) raw False s") (auto)
qed

text \<open>The pass of the program, cache and chunks and all, is the reference pass over the whole file.\<close>

lemma pass_exact:
  assumes D: "crates_ok D"
  shows "validate_selected D chunks detected options =
    reference_pass D (plain_judge D) () (concat chunks) detected options"
proof (cases "po_hard_checks options \<and> \<not> is_encoding_rs (de_kind detected)")
  case True
  then show ?thesis by (simp add: validate_selected_def reference_pass_def)
next
  case False
  have "validate_selected D chunks detected options =
      reference_pass D (cached_judge D) [] (concat chunks) detected options"
    using False pass_loop_exact
      [where chunks = chunks and j = "cached_judge D" and k = "[]", OF D False start_pass_inv [OF D False]]
    by (auto simp: validate_selected_def)
  also have "\<dots> = reference_pass D (plain_judge D) () (concat chunks) detected options"
    unfolding reference_pass_def verdict_uncached ..
  finally show ?thesis .
qed

end
