(* ===== verification/Encoding_Trust.thy ===== *)
theory Encoding_Trust
  imports Encoding_Pass
begin

text \<open>
  The trust hierarchy over the whole file: the decision depends on the bytes alone and not on where
  the reads cut them, and what an automatic decision for a legacy encoding promises.
\<close>

section \<open>Nomination\<close>

definition reference_nomination :: "encoding_crates \<Rightarrow> byte list \<Rightarrow> nomination" where
  "reference_nomination D bs =
     \<lparr>no_encoding = guess_encoding D bs, no_non_ascii = non_ascii_count bs,
      no_conflict = conflict_reference bs\<rparr>"

text \<open>The loop after the bytes \<open>p\<close>: the conflict is settled, or the scanner still watches.\<close>

definition watch_inv :: "byte list \<Rightarrow> prefix_scanner \<Rightarrow> nat option \<Rightarrow> bool" where
  "watch_inv p scanner conflict \<longleftrightarrow>
     (case conflict of
        None \<Rightarrow> scanner_inv scanner p
      | Some c \<Rightarrow> \<forall>y. conflict_reference (p @ y) = Some c)"

lemma watch_step:
  assumes inv: "watch_inv p scanner conflict" and size: "length (p @ x) \<le> usize_max"
    and step: "(if conflict = None then scanner_push x scanner else (conflict, scanner)) = (conflict', scanner')"
  shows "watch_inv (p @ x) scanner' conflict'"
proof (cases conflict)
  case None
  with scanner_push_step [of scanner p x] inv size step show ?thesis
    by (cases conflict') (auto simp: watch_inv_def)
next
  case (Some c)
  with inv step show ?thesis by (auto simp: watch_inv_def)
qed

lemma nomination_loop_exact:
  "watch_inv p scanner conflict \<Longrightarrow> length (p @ concat chunks) \<le> usize_max \<Longrightarrow>
     nomination_loop D chunks p (non_ascii_count p) scanner conflict =
     reference_nomination D (p @ concat chunks)"
proof (induction chunks arbitrary: p scanner conflict)
  case Nil
  show ?case
  proof (cases conflict)
    case None
    with Nil scanner_finish_step [of scanner p] show ?thesis
      by (simp add: watch_inv_def reference_nomination_def)
  next
    case (Some c)
    with Nil(1) have "\<forall>y. conflict_reference (p @ y) = Some c" by (simp add: watch_inv_def)
    then have "conflict_reference p = Some c" by (metis append_Nil2)
    with Some show ?thesis by (simp add: reference_nomination_def)
  qed
next
  case (Cons bs chunks)
  obtain conflict' scanner' where
    s: "(if conflict = None then scanner_push bs scanner else (conflict, scanner)) = (conflict', scanner')"
    by (metis surj_pair)
  have "sat_add (non_ascii_count p) (non_ascii_count bs) = non_ascii_count (p @ bs)"
    using Cons.prems(2) non_ascii_le [of p] non_ascii_le [of bs] by (simp add: sat_add_exact)
  moreover have "watch_inv (p @ bs) scanner' conflict'"
    using watch_step [OF Cons.prems(1) _ s] Cons.prems(2) by simp
  ultimately show ?case
    using Cons.IH [of "p @ bs" scanner' conflict'] Cons.prems(2) s by (simp add: Let_def)
qed

lemma nomination_exact:
  assumes "length (concat chunks) \<le> usize_max"
  shows "scan_nomination D chunks = reference_nomination D (concat chunks)"
  using nomination_loop_exact [of "[]" new_scanner None chunks D] assms
  by (simp add: watch_inv_def scanner_new scan_nomination_def non_ascii_count_def)

section \<open>The decision over the whole file\<close>

definition reference_decision :: "encoding_crates \<Rightarrow> byte list \<Rightarrow> utf8 option \<Rightarrow> encoding_decision" where
  "reference_decision D bs explicit =
     decide D (reference_pass D (plain_judge D) () bs) (reference_nomination D bs)
       (take binary_probe_bytes bs) explicit"

lemma decision_exact:
  assumes D: "crates_ok D" and size: "length (concat chunks) \<le> usize_max"
  shows "validate_source D chunks explicit = reference_decision D (concat chunks) explicit"
proof -
  have "validate_selected D chunks = reference_pass D (plain_judge D) () (concat chunks)"
    by (intro ext) (rule pass_exact [OF D])
  then show ?thesis
    by (simp add: validate_source_def reference_decision_def nomination_exact [OF size])
qed

section \<open>What an automatic legacy decision promises\<close>

lemma reference_pass_accepts:
  assumes "pr_stats (reference_pass D j k bs (automatic_detected c) (hard_options whole)) = Some stats"
  shows "\<exists>t. strict_decode D (EncodingRs c) bs = Some t \<and> encode_push D c [] t True = Some bs \<and>
    \<not> has_disallowed t \<and> stats = observe t new_stats"
proof (cases "strict_decode D (EncodingRs c) bs")
  case None
  with assms show ?thesis
    by (simp add: reference_pass_def automatic_detected_def hard_options_def is_encoding_rs_def invalid_pass_def)
next
  case (Some t)
  with assms show ?thesis
    by (auto simp: reference_pass_def automatic_detected_def hard_options_def is_encoding_rs_def
        invalid_pass_def reencodes_def Let_def split: if_splits)
qed

lemma consistent_segments:
  assumes "pr_stats (reference_pass D j k bs (automatic_detected c) (hard_options (Some c))) \<noteq> None"
    and "\<not> pr_inconsistent (reference_pass D j k bs (automatic_detected c) (hard_options (Some c)))"
  shows "segment_verdict j k c bs = Continue"
  using assms
  by (cases "segment_verdict j k c bs")
    (auto simp: reference_pass_def automatic_detected_def hard_options_def is_encoding_rs_def
      invalid_pass_def Let_def split: if_splits option.splits)

lemma fixed_candidates_reject: "fixed_candidates pass memo \<noteq> TextFile v"
  by (simp add: fixed_candidates_def split: list.split)

lemma legacy_accepted:
  assumes "decide_legacy D (reference_pass D j k bs) (reference_nomination D bs) = TextFile v"
  shows "\<exists>c t. ve_detected v = automatic_detected c \<and> c = guess_encoding D bs \<and> \<not> is_single_byte D c \<and>
    strict_decode D (EncodingRs c) bs = Some t \<and> encode_push D c [] t True = Some bs \<and> \<not> has_disallowed t \<and>
    legacy_evidence_bytes \<le> non_ascii_count bs \<and> conflict_reference bs = None \<and>
    segment_verdict j k c bs = Continue"
proof -
  let ?c = "guess_encoding D bs"
  let ?r = "reference_pass D j k bs (automatic_detected ?c) (hard_options (Some ?c))"
  from assms have a: "conflict_reference bs = None" "legacy_evidence_bytes \<le> non_ascii_count bs"
    by (auto simp: decide_legacy_def reference_nomination_def fixed_candidates_reject Let_def
        split: option.splits if_splits)
  from assms a obtain stats where s: "pr_stats ?r = Some stats"
    by (cases "pr_stats ?r") (auto simp: decide_legacy_def reference_nomination_def fixed_candidates_reject Let_def)
  from assms a s have d: "\<not> pr_inconsistent ?r" "\<not> is_single_byte D ?c" "v = validated (automatic_detected ?c) stats False"
    by (auto simp: decide_legacy_def reference_nomination_def fixed_candidates_reject Let_def split: if_splits)
  have "segment_verdict j k ?c bs = Continue" by (rule consistent_segments [of D]) (simp_all add: s d(1))
  with reference_pass_accepts [OF s] a d show ?thesis by (auto simp: validated_def)
qed

lemma automatic_accepted:
  assumes "reference_decision D bs None = TextFile v" and "de_origin (ve_detected v) = Automatic"
    and "de_source (ve_detected v) = Some c"
  shows "decide_legacy D (reference_pass D (plain_judge D) () bs) (reference_nomination D bs) = TextFile v \<and>
    bom_detected_encoding (take binary_probe_bytes bs) = None \<and> \<not> has_binary_nul bs \<and>
    detect_binary_type (take binary_probe_bytes bs) = None \<and> \<not> is_utf8 bs"
proof -
  let ?p = "take binary_probe_bytes bs"
  have nul: "has_binary_nul ?p = has_binary_nul bs" by (simp add: has_binary_nul_def)
  have bom: "bom_detected_encoding ?p = None"
  proof (rule ccontr)
    assume "bom_detected_encoding ?p \<noteq> None"
    then obtain d where d: "bom_detected_encoding ?p = Some d" by blast
    then obtain b where "de_origin d = Bom b"
      by (auto simp: bom_detected_encoding_def Let_def split: if_splits)
    with d assms show False
      by (auto simp: reference_decision_def decide_def validated_def Let_def split: if_splits option.splits)
  qed
  let ?u = "\<lparr>de_kind = EncodingRs utf_8, de_bom_len = 0, de_source = None, de_origin = Automatic\<rparr>"
  let ?r = "reference_pass D (plain_judge D) () bs ?u plain_options"
  from assms bom have "decide_automatic D (reference_pass D (plain_judge D) () bs) (reference_nomination D bs) ?p = TextFile v"
    by (simp add: reference_decision_def decide_def)
  note auto = this [unfolded decide_automatic_def Let_def]
  have n: "\<not> has_binary_nul bs" using auto nul by (auto split: if_splits)
  have u: "pr_stats ?r = None"
    using auto n assms(3) by (auto simp: nul validated_def split: option.splits if_splits)
  then have "\<not> is_utf8 bs"
    by (auto simp: reference_pass_def plain_options_def is_encoding_rs_def strict_decode_def invalid_pass_def Let_def)
  with auto n u bom show ?thesis by (auto simp: nul split: if_splits)
qed

section \<open>UTF-8 files\<close>

lemma observe_new:
  "vs_decoded_any (observe t new_stats) = (t \<noteq> [])"
  "vs_newlines (observe t new_stats) = (if t = [] then 0 else sat_add 0 (length (filter ((=) nl) t)))"
  "vs_trailing_newline (observe t new_stats) = (t \<noteq> [] \<and> List.last t = nl)"
  by (simp_all add: observe_def new_stats_def Let_def)

text \<open>The lines the program counts: one more than the newlines, none in an empty file.\<close>

definition text_lines :: "utf8 \<Rightarrow> nat" where
  "text_lines t = (if t = [] then 0 else min (length (filter ((=) nl) t) + 1) usize_max)"

lemma stats_lines: "stats_total_lines (observe t new_stats) = text_lines t"
  by (auto simp: stats_total_lines_def text_lines_def observe_new sat_add_def)

definition plain_utf8 :: detected_encoding where
  "plain_utf8 = \<lparr>de_kind = EncodingRs utf_8, de_bom_len = 0, de_source = None, de_origin = Automatic\<rparr>"

lemma reference_pass_utf8:
  "is_utf8 bs \<Longrightarrow> pr_stats (reference_pass D j k bs plain_utf8 plain_options) = Some (observe (utf8_text bs) new_stats)"
  by (simp add: reference_pass_def plain_utf8_def plain_options_def strict_decode_def)

lemma utf8_decision:
  assumes "is_utf8 bs" and "bom_detected_encoding (take binary_probe_bytes bs) = None" and "\<not> has_binary_nul bs"
  shows "reference_decision D bs None =
    (let t = utf8_text bs; stats = observe t new_stats in
     if vs_iso_2022 stats then Rejected Iso2022JpSignature
     else TextFile \<lparr>ve_detected = plain_utf8, ve_total_lines = text_lines t,
            ve_trailing_newline = (t \<noteq> [] \<and> List.last t = nl), ve_utf8_warning = False\<rparr>)"
proof -
  have "\<not> has_binary_nul (take binary_probe_bytes bs)" using assms(3) by (simp add: has_binary_nul_def)
  with assms(2) reference_pass_utf8 [OF assms(1), of D "plain_judge D" "()"] show ?thesis
    by (simp add: reference_decision_def decide_def decide_automatic_def Let_def plain_utf8_def [symmetric]
        validated_def stats_lines observe_new)
qed

section \<open>Properties\<close>

text \<open>
  Crates to evaluate the model with: every charset decodes a byte to the character of its number,
  and the detector always guesses Shift_JIS.
\<close>

definition byte_crates :: encoding_crates where
  "byte_crates =
     \<lparr>for_label = (\<lambda>l. if map ascii_lower l = ''utf-8'' then Some utf_8 else None), is_single_byte = (\<lambda>c. False),
      decode_push = (\<lambda>c p x l. Some (concat (map (\<lambda>b. utf8_of (unat b)) x))),
      encode_push = (\<lambda>c p t l. Some (map (\<lambda>ch. of_nat (scalar ch)) (chars t))),
      guess_encoding = (\<lambda>bs. ''Shift_JIS'')\<rparr>"

lemma byte_crates_ok: "crates_ok byte_crates"
proof -
  have "list_all is_scalar (map unat (x :: byte list))" for x
  proof -
    have "unat b < 256" for b :: byte using unsigned_less [of b] by simp
    then have "is_scalar (unat b)" for b :: byte
      using order.strict_trans [OF \<open>unat b < 256\<close>] by (simp add: is_scalar_def not_le)
    then show ?thesis by (simp add: list_all_length)
  qed
  from valid_utf8_encodes [OF this]
  have "is_utf8 (utf8_bytes (concat (map (\<lambda>b. utf8_of (unat b)) (x :: byte list))))" for x
    by (simp add: comp_def)
  then show ?thesis by (simp add: crates_ok_def byte_crates_def then_also_def chars_append)
qed

text \<open>
  UTF-8 validation: the bytes \<open>std::str::from_utf8\<close> accepts, and the bytes the incremental
  evidence automaton of the segment scan accepts, are exactly the encodings of sequences of Unicode
  scalar values (no surrogates, no overlong forms, nothing above 0x10FFFF).
\<close>

theorem evidence_accepts_utf8:
  "(evidence_complete (fold evidence_push bs new_evidence) \<longleftrightarrow> from_utf8 bs = Valid) \<and>
   (from_utf8 bs = Valid \<longleftrightarrow> (\<exists>vs. list_all is_scalar vs \<and> bs = utf8_bytes (concat (map utf8_of vs))))"
  using evidence_exact [of bs] is_utf8_scalars [of bs] by (metis is_utf8_def utf8_bytes_text utf8_text_bytes)

text \<open>
  C28. Refinement of the streaming detection: whatever chunks the file arrives in, the decision of
  \<open>validate_source\<close> is that of the reference decision over the complete bytes, which decodes,
  re-encodes, counts and scans the whole content at once, without carries, cursors or the segment
  cache. Files that fit \<open>usize\<close>, over encoding crates that stream.
\<close>

theorem detection_refines_reference:
  assumes "crates_ok D" and "length (concat chunks) \<le> usize_max"
  shows "validate_source D chunks explicit = reference_decision D (concat chunks) explicit"
  by (rule decision_exact [OF assms])

theorem detection_refines_reference_witness:
  "validate_source byte_crates [[0xC3], [0xA9, 10]] None =
     TextFile \<lparr>ve_detected = plain_utf8, ve_total_lines = 2, ve_trailing_newline = True, ve_utf8_warning = False\<rparr>"
proof -
  let ?bs = "[0xC3, 0xA9, 10] :: byte list"
  have bs: "is_utf8 ?bs" "bom_detected_encoding (take binary_probe_bytes ?bs) = None" "\<not> has_binary_nul ?bs"
    by (simp_all add: follow_def in_range_def cont_def bom_detected_encoding_def begins_def has_binary_nul_def binary_probe_bytes_def)
  have t: "utf8_text ?bs = [CHR 0xC3, CHR 0xA9, nl]" by code_simp
  have "\<not> vs_iso_2022 (observe [CHR 0xC3, CHR 0xA9, nl] new_stats)" "text_lines [CHR 0xC3, CHR 0xA9, nl] = 2"
    by (simp_all add: observe_def observe_escape_def new_stats_def text_lines_def usize_max_def Let_def)
  then have "reference_decision byte_crates ?bs None =
     TextFile \<lparr>ve_detected = plain_utf8, ve_total_lines = 2, ve_trailing_newline = True, ve_utf8_warning = False\<rparr>"
    unfolding utf8_decision [OF bs, of byte_crates] t Let_def by simp
  with detection_refines_reference [OF byte_crates_ok, of "[[0xC3], [0xA9, 10]]" None] show ?thesis
    by (simp add: usize_max_def)
qed

text \<open>
  C30. A file that is valid UTF-8, without a byte-order mark and without a NUL in the probe, is text
  in UTF-8 with one line more than it has newlines (none when it is empty), however it is read; only
  a text with an ISO-2022 escape is rejected instead.
\<close>

theorem utf8_file_accepted:
  assumes "crates_ok D" and "length (concat chunks) \<le> usize_max" and "is_utf8 (concat chunks)"
    and "bom_detected_encoding (take binary_probe_bytes (concat chunks)) = None"
    and "\<not> has_binary_nul (concat chunks)"
  shows "validate_source D chunks None =
    (let t = utf8_text (concat chunks) in
     if vs_iso_2022 (observe t new_stats) then Rejected Iso2022JpSignature
     else TextFile \<lparr>ve_detected = plain_utf8, ve_total_lines = text_lines t,
            ve_trailing_newline = (t \<noteq> [] \<and> List.last t = nl), ve_utf8_warning = False\<rparr>)"
  using decision_exact [OF assms(1, 2), of None] utf8_decision [OF assms(3-5), of D] by (simp add: Let_def)

theorem utf8_file_accepted_witness:
  "validate_source byte_crates [[97], [10, 0xE2], [0x82, 0xAC]] None =
     TextFile \<lparr>ve_detected = plain_utf8, ve_total_lines = 2, ve_trailing_newline = False, ve_utf8_warning = False\<rparr>"
proof -
  let ?bs = "[97, 10, 0xE2, 0x82, 0xAC] :: byte list"
  have bs: "is_utf8 ?bs" "bom_detected_encoding (take binary_probe_bytes ?bs) = None" "\<not> has_binary_nul ?bs"
    by (simp_all add: follow_def in_range_def cont_def bom_detected_encoding_def begins_def has_binary_nul_def binary_probe_bytes_def)
  have "utf8_text ?bs = [CHR ''a'', nl, CHR 0xE2, CHR 0x82, CHR 0xAC]" by code_simp
  moreover have "\<not> vs_iso_2022 (observe [CHR ''a'', nl, CHR 0xE2, CHR 0x82, CHR 0xAC] new_stats)"
    "text_lines [CHR ''a'', nl, CHR 0xE2, CHR 0x82, CHR 0xAC] = 2"
    "CHR 0xAC \<noteq> nl"
    by (simp_all add: observe_def observe_escape_def new_stats_def text_lines_def usize_max_def Let_def)
  moreover note bs
  ultimately show ?thesis using utf8_file_accepted [OF byte_crates_ok, of "[[97], [10, 0xE2], [0x82, 0xAC]]"]
    by (simp add: usize_max_def Let_def)
qed

text \<open>
  C29. Soundness of the automatic legacy decision: a file is only accepted as legacy text without an
  explicit label or a mark when it is not UTF-8, has no NUL in the probe and no binary signature,
  the detector nominates a multi-byte encoding with at least 32 non-ASCII bytes of evidence, the
  strict decoding of all its bytes encodes back to exactly those bytes and has no control or
  noncharacter, no long valid UTF-8 prefix conflicts, and no evident line contradicts the choice.
\<close>

theorem legacy_decision_sound:
  assumes "crates_ok D" and "length (concat chunks) \<le> usize_max"
    and "validate_source D chunks None = TextFile v"
    and "de_origin (ve_detected v) = Automatic" and "de_source (ve_detected v) = Some c"
  shows "let bs = concat chunks in
    c = guess_encoding D bs \<and> \<not> is_single_byte D c \<and> ve_detected v = automatic_detected c \<and>
    \<not> is_utf8 bs \<and> \<not> has_binary_nul bs \<and> detect_binary_type (take binary_probe_bytes bs) = None \<and>
    32 \<le> non_ascii_count bs \<and> conflict_reference bs = None \<and>
    (\<exists>t. strict_decode D (EncodingRs c) bs = Some t \<and> encode_push D c [] t True = Some bs \<and> \<not> has_disallowed t) \<and>
    segment_verdict (plain_judge D) () c bs = Continue"
proof -
  have ref: "reference_decision D (concat chunks) None = TextFile v"
    using decision_exact [OF assms(1, 2), of None] assms(3) by simp
  note auto = automatic_accepted [OF ref assms(4, 5)]
  from legacy_accepted [OF conjunct1 [OF auto]] assms(5) auto show ?thesis
    by (auto simp: legacy_evidence_bytes_def automatic_detected_def Let_def)
qed

section \<open>A legacy file to evaluate\<close>

lemma evidence_fold:
  "se_non_ascii e \<le> usize_max \<Longrightarrow>
     se_non_ascii (fold segment_evidence_push bs e) = sat_add (se_non_ascii e) (non_ascii_count bs)"
  "se_utf8 (fold segment_evidence_push bs e) = fold evidence_push bs (se_utf8 e)"
proof -
  show "se_non_ascii e \<le> usize_max \<Longrightarrow>
     se_non_ascii (fold segment_evidence_push bs e) = sat_add (se_non_ascii e) (non_ascii_count bs)"
    by (induction bs arbitrary: e)
      (auto simp: segment_evidence_push_def sat_add_def non_ascii_count_def)
  show "se_utf8 (fold segment_evidence_push bs e) = fold evidence_push bs (se_utf8 e)"
    by (induction bs arbitrary: e) (simp_all add: segment_evidence_push_def)
qed

lemma evidence_of_fields:
  "se_non_ascii (evidence_of bs) = min (non_ascii_count bs) usize_max"
  "evidence_complete (se_utf8 (evidence_of bs)) = is_utf8 bs"
  by (simp_all add: evidence_of_def evidence_fold new_segment_evidence_def sat_add_def evidence_exact)

text \<open>A short last line is only looked at when the file ends.\<close>

lemma scan_one_line:
  "10 \<notin> set bs \<Longrightarrow> length (sc_pending s) + length bs < legacy_segment_max_bytes \<Longrightarrow>
     scan_segments j bs s = (Continue, s\<lparr>sc_pending := sc_pending s @ bs,
       sc_evidence := fold segment_evidence_push bs (sc_evidence s)\<rparr>)"
proof (induction bs arbitrary: s)
  case (Cons b bs)
  let ?s = "s\<lparr>sc_pending := sc_pending s @ [b], sc_evidence := segment_evidence_push b (sc_evidence s)\<rparr>"
  have "scan_byte j b s = (Continue, ?s)" using Cons.prems by (simp add: scan_byte_def Let_def)
  with Cons.IH [of ?s] Cons.prems show ?case by simp
qed simp

definition byte_text :: "byte list \<Rightarrow> utf8" where
  "byte_text bs = concat (map utf8_of (map unat bs))"

lemma byte_scalars: "list_all is_scalar (map unat (bs :: byte list))"
proof -
  have "is_scalar (unat b)" for b :: byte
  proof -
    have "unat b < 256" using unsigned_less [of b] by simp
    then show ?thesis by (simp add: is_scalar_def)
  qed
  then show ?thesis by (simp add: list_all_length)
qed

lemma byte_crates_round_trip:
  "decode_push byte_crates c p bs l = Some (byte_text bs)"
  "encode_push byte_crates c q (byte_text bs) l = Some bs"
proof -
  show "decode_push byte_crates c p bs l = Some (byte_text bs)"
    by (simp add: byte_crates_def byte_text_def comp_def)
  have "scalar (utf8_of (unat b)) = unat b" for b :: byte
    using byte_scalars [of "[b]"] by (simp add: utf8_of_char)
  then show "encode_push byte_crates c q (byte_text bs) l = Some bs"
    unfolding byte_crates_def byte_text_def encoding_crates.simps chars_scalars [OF byte_scalars]
    by (simp add: comp_def map_idI)
qed

definition legacy_file :: "byte list" where
  "legacy_file = replicate 32 0xE9"

lemma legacy_file_facts:
  "\<not> is_utf8 legacy_file" "non_ascii_count legacy_file = 32" "10 \<notin> set legacy_file"
  "length legacy_file = 32" "\<not> has_binary_nul legacy_file"
  "take binary_probe_bytes legacy_file = legacy_file" "bom_detected_encoding legacy_file = None"
  "detect_binary_type legacy_file = None" "conflict_reference legacy_file = None"
  "\<not> has_disallowed (byte_text legacy_file)"
proof -
  have e: "legacy_file = 0xE9 # 0xE9 # replicate 30 0xE9" by (simp add: legacy_file_def numeral_eq_Suc)
  have f: "from_utf8 legacy_file = Invalid 0 (Some 1)"
    by (simp add: e from_utf8_def follow_def in_range_def cont_def)
  then show "\<not> is_utf8 legacy_file" by (simp add: is_utf8_def)
  show "conflict_reference legacy_file = None"
    by (simp add: conflict_reference_def f utf8_segment_min_bytes_def)
  show "non_ascii_count legacy_file = 32" "10 \<notin> set legacy_file" "length legacy_file = 32"
    "\<not> has_binary_nul legacy_file" "take binary_probe_bytes legacy_file = legacy_file"
    by (simp_all add: legacy_file_def non_ascii_count_def is_ascii_def has_binary_nul_def binary_probe_bytes_def)
  show "bom_detected_encoding legacy_file = None" "detect_binary_type legacy_file = None"
    by (simp_all add: e bom_detected_encoding_def detect_binary_type_def begins_def ascii_bytes_def utf8_bytes_def)
  have "chars (byte_text legacy_file) = replicate 32 (utf8_of 0xE9)"
    using chars_scalars [OF byte_scalars, of legacy_file]
    by (simp add: byte_text_def legacy_file_def map_replicate_const)
  moreover have "scalar (utf8_of 0xE9) = 0xE9" by (simp add: utf8_of_char is_scalar_def)
  ultimately show "\<not> has_disallowed (byte_text legacy_file)"
    by (simp add: has_disallowed_def is_disallowed_legacy_character_def list_ex_length)
qed

lemma legacy_file_verdict:
  "segment_verdict (plain_judge byte_crates) () ''Shift_JIS'' legacy_file = Continue"
proof -
  have "hard_validate byte_crates c legacy_file" for c
    by (simp add: hard_validate_def byte_crates_round_trip legacy_file_facts)
  moreover have "\<not> disagrees byte_crates ''Shift_JIS'' legacy_file False"
    by (simp add: disagrees_def byte_crates_def)
  moreover have "\<not> is_strong_utf8 (evidence_of legacy_file)"
    by (simp add: is_strong_utf8_def evidence_of_fields legacy_file_facts)
  ultimately show ?thesis
    by (simp add: segment_verdict_def scan_one_line legacy_file_facts legacy_segment_max_bytes_def
        finish_segments_def inspect_pending_def new_segment_scanner_def plain_judge_def
        evidence_of_def [symmetric])
qed

theorem legacy_decision_sound_witness:
  "strict_decode byte_crates (EncodingRs ''Shift_JIS'') legacy_file \<noteq> None \<and> 32 \<le> non_ascii_count legacy_file"
proof -
  let ?stats = "observe (byte_text legacy_file) new_stats"
  let ?r = "reference_pass byte_crates (plain_judge byte_crates) () legacy_file"
  let ?v = "validated (automatic_detected ''Shift_JIS'') ?stats False"
  have pass: "?r (automatic_detected ''Shift_JIS'') (hard_options (Some ''Shift_JIS'')) =
      \<lparr>pr_stats = Some ?stats, pr_multibyte_utf8 = False, pr_inconsistent = False\<rparr>"
    by (simp add: reference_pass_def automatic_detected_def hard_options_def is_encoding_rs_def strict_decode_def
        utf_8_def byte_crates_round_trip reencodes_def legacy_file_facts legacy_file_verdict)
  have no_utf8: "pr_stats (?r plain_utf8 plain_options) = None"
    by (simp add: reference_pass_def plain_utf8_def plain_options_def strict_decode_def
        legacy_file_facts invalid_pass_def)
  have nom: "reference_nomination byte_crates legacy_file =
      \<lparr>no_encoding = ''Shift_JIS'', no_non_ascii = 32, no_conflict = None\<rparr>"
    by (simp add: reference_nomination_def legacy_file_facts byte_crates_def)
  have "reference_decision byte_crates legacy_file None = TextFile ?v"
    unfolding reference_decision_def decide_def decide_automatic_def decide_legacy_def nom legacy_file_facts
    by (simp add: legacy_file_facts no_utf8 plain_utf8_def [symmetric] pass legacy_evidence_bytes_def)
      (simp add: byte_crates_def)
  moreover have "length (concat [legacy_file]) \<le> usize_max" by (simp add: legacy_file_facts usize_max_def)
  ultimately have "validate_source byte_crates [legacy_file] None = TextFile ?v"
    using decision_exact [OF byte_crates_ok, of "[legacy_file]" None] by simp
  from legacy_decision_sound [OF byte_crates_ok _ this, of "''Shift_JIS''"] show ?thesis
    by (auto simp: legacy_file_facts usize_max_def validated_def automatic_detected_def Let_def)
qed

end
