(* ===== verification/Encoding_Reader.thy ===== *)
theory Encoding_Reader
  imports Encoding_Trust Token_Budget
begin

text \<open>
  Reading a validated file (\<open>src/src/encoding.rs\<close>): the chunk reader behind \<open>stream_text\<close> and
  \<open>Utf8Reader\<close>, the capture-time validators, whole-snapshot decoding, and the messages a decision
  is reported with. Failing reads are left out; a reader is the list of its nonempty reads.
\<close>

section \<open>Messages\<close>

definition malformed_rejection :: "validated_encoding \<Rightarrow> encoding_rejection" where
  "malformed_rejection v =
     (case de_origin (ve_detected v) of
        Explicit encoding \<Rightarrow> ExplicitMalformed encoding
      | Bom encoding \<Rightarrow> BomMismatch encoding
      | Automatic \<Rightarrow> Undecodable)"

definition encoding_note :: "validated_encoding \<Rightarrow> utf8 option" where
  "encoding_note v =
     (case de_source (ve_detected v) of
        None \<Rightarrow> None
      | Some encoding \<Rightarrow>
          (case de_origin (ve_detected v) of
             Explicit _ \<Rightarrow>
               if ve_utf8_warning v
               then Some (''(Note: decoded from '' @ encoding @ '' as requested; output is UTF-8. Warning: the raw bytes are also valid UTF-8 ''
                 @ em_dash @ '' if this looks garbled, retry with encoding='' @ dq @ ''utf-8'' @ dq @ '' or omit encoding.)'')
               else Some (''(Note: decoded from '' @ encoding @ '' as requested; output is UTF-8.)'')
           | _ \<Rightarrow> Some (''(Note: decoded from '' @ encoding @ ''; output is UTF-8.)'')))"

definition view_hex :: utf8 where
  "view_hex = ''view='' @ dq @ ''hex'' @ dq"

definition quoted :: "utf8 \<Rightarrow> utf8" where
  "quoted t = dq @ t @ dq"

fun rejection_message :: "utf8 \<Rightarrow> encoding_rejection \<Rightarrow> utf8" where
  "rejection_message path (Ambiguous candidates) =
     ''Cannot determine the text encoding of '' @ path @ '' with confidence: the bytes decode cleanly as '' @
     join '', '' candidates @ ''. Retry with encoding='' @ quoted ''...'' @
     '' if the context tells you which one, or use '' @ view_hex @ ''.''"
| "rejection_message path (MixedOrInconsistent offset) =
     ''Cannot decode '' @ path @ '' as text: it appears to contain mixed or inconsistent encodings '' @ em_dash @
     '' no single encoding explains the whole file.'' @
     (case offset of None \<Rightarrow> [] | Some k \<Rightarrow>
        '' The first conflicting bytes are at hex-view offset '' @ show_nat k @ ''.'') @
     '' Use '' @ view_hex @ '' to inspect the raw bytes, or split/normalize the file to a single encoding externally.''"
| "rejection_message path Iso2022JpSignature =
     ''Cannot decode '' @ path @ '' as text with confidence: the bytes are valid UTF-8 but contain ISO-2022 escape sequences (a stateful encoding such as ISO-2022-JP). Retry with encoding='' @
     quoted ''iso-2022-jp'' @ '', or encoding='' @ quoted ''utf-8'' @ '' to force the raw UTF-8 reading, or use '' @
     view_hex @ ''.''"
| "rejection_message path Undecodable =
     ''Cannot decode '' @ path @ '' as text: no supported encoding decodes it cleanly. Use '' @ view_hex @
     '' to inspect its raw bytes.''"
| "rejection_message path (BomMismatch encoding) =
     ''Cannot decode '' @ path @ '': it has a '' @ encoding @ '' byte order mark but the content is not valid '' @
     encoding @ ''. Use '' @ view_hex @ '' to inspect its raw bytes.''"
| "rejection_message path (ExplicitMalformed encoding) =
     ''Cannot decode '' @ path @ '' as '' @ encoding @ '': the content is not valid '' @ encoding @
     ''. Try another encoding or '' @ view_hex @ ''.''"
| "rejection_message path (InvalidLabel value) =
     ''Invalid encoding value '' @ quoted value @ ''. Use a WHATWG encoding label such as '' @
     join '', '' (map quoted [''gbk'', ''shift_jis'', ''big5'', ''euc-kr'', ''windows-1252'', ''utf-16le'']) @
     '', or '' @ quoted ''utf-32le'' @ ''.''"

fun skip_reason :: "encoding_rejection \<Rightarrow> utf8" where
  "skip_reason (Ambiguous candidates) = ''ambiguous: '' @ join '', '' candidates"
| "skip_reason Iso2022JpSignature = ''ambiguous: iso-2022-jp''"
| "skip_reason (MixedOrInconsistent _) = ''mixed or inconsistent encodings''"
| "skip_reason _ = ''undecodable''"

section \<open>Whole snapshots\<close>

definition utf8_snapshot_start :: "validated_encoding \<Rightarrow> nat option" where
  "utf8_snapshot_start v =
     (if de_kind (ve_detected v) = EncodingRs utf_8 then Some (de_bom_len (ve_detected v)) else None)"

definition decode_utf32_bytes :: "byte list \<Rightarrow> bool \<Rightarrow> utf8 option" where
  "decode_utf32_bytes bs little = (if length bs mod 4 \<noteq> 0 then None else utf32_units little bs)"

definition decode_snapshot :: "encoding_crates \<Rightarrow> byte list \<Rightarrow> detected_encoding \<Rightarrow> utf8 option" where
  "decode_snapshot D bs detected =
     (if length bs < de_bom_len detected then None
      else
        let content = drop (de_bom_len detected) bs in
        case de_kind detected of
          EncodingRs c \<Rightarrow> decode_push D c [] content True
        | Utf32Le \<Rightarrow> decode_utf32_bytes content True
        | Utf32Be \<Rightarrow> decode_utf32_bytes content False)"

definition decode_for_search :: "encoding_crates \<Rightarrow> validated_encoding \<Rightarrow> byte list \<Rightarrow> byte list option" where
  "decode_for_search D v raw =
     (if length raw < de_bom_len (ve_detected v) then None
      else if de_kind (ve_detected v) = EncodingRs utf_8 then Some (drop (de_bom_len (ve_detected v)) raw)
      else map_option utf8_bytes (decode_snapshot D raw (ve_detected v)))"

definition decode_text :: "encoding_crates \<Rightarrow> byte list list \<Rightarrow> (utf8 \<times> utf8 option) option" where
  "decode_text D chunks =
     (case validate_source D chunks None of
        TextFile v \<Rightarrow>
          map_option (\<lambda>t. (t, de_source (ve_detected v))) (decode_snapshot D (concat chunks) (ve_detected v))
      | _ \<Rightarrow> None)"

section \<open>Capture-time validators\<close>

record strict_validator =
  sv_decoder :: decoder_state
  sv_malformed :: bool

definition new_validator :: "detected_encoding \<Rightarrow> strict_validator" where
  "new_validator detected = \<lparr>sv_decoder = new_decoder (de_kind detected), sv_malformed = False\<rparr>"

definition validator_feed ::
    "encoding_crates \<Rightarrow> byte list \<Rightarrow> strict_validator \<Rightarrow> bool \<times> strict_validator" where
  "validator_feed D input s =
     (if sv_malformed s then (True, s)
      else case decoder_push D (sv_decoder s) input False of
          None \<Rightarrow> (True, s\<lparr>sv_malformed := True\<rparr>)
        | Some (_, d) \<Rightarrow> (False, s\<lparr>sv_decoder := d, sv_malformed := False\<rparr>))"

record bom_validator =
  bv_validator :: strict_validator
  bv_bom_len :: nat
  bv_encoding :: utf8
  bv_is_utf8 :: bool

definition explicit_streaming_validator ::
    "encoding_crates \<Rightarrow> utf8 \<Rightarrow> byte list \<Rightarrow> encoding_rejection + strict_validator \<times> nat" where
  "explicit_streaming_validator D value prefix =
     map_r (\<lambda>d. (new_validator d, de_bom_len d)) (explicit_detected_encoding D value prefix)"

definition bom_streaming_validator :: "byte list \<Rightarrow> bom_validator option" where
  "bom_streaming_validator prefix =
     (case bom_detected_encoding prefix of
        Some d \<Rightarrow>
          (case de_origin d of
             Bom encoding \<Rightarrow> Some \<lparr>bv_validator = new_validator d, bv_bom_len = de_bom_len d,
               bv_encoding = encoding, bv_is_utf8 = (de_kind d = EncodingRs utf_8)\<rparr>
           | _ \<Rightarrow> None)
      | None \<Rightarrow> None)"

section \<open>The chunk reader\<close>

text \<open>\<open>Inl ()\<close> is \<open>DecodeFailure::Malformed\<close>.\<close>

record chunk_reader =
  cr_source :: "byte list list"
  cr_decoder :: decoder_state
  cr_finished :: bool

definition open_chunk_reader :: "byte list list \<Rightarrow> detected_encoding \<Rightarrow> chunk_reader" where
  "open_chunk_reader reads detected =
     \<lparr>cr_source = reads, cr_decoder = new_decoder (de_kind detected), cr_finished = False\<rparr>"

fun next_loop :: "encoding_crates \<Rightarrow> byte list list \<Rightarrow> decoder_state \<Rightarrow> unit + utf8 option \<times> chunk_reader" where
  "next_loop D [] d =
     (case decoder_push D d [] True of
        None \<Rightarrow> Inl ()
      | Some (t, d) \<Rightarrow>
          Inr (if t \<noteq> [] then Some t else None, \<lparr>cr_source = [], cr_decoder = d, cr_finished = True\<rparr>))"
| "next_loop D (raw # reads) d =
     (case decoder_push D d raw False of
        None \<Rightarrow> Inl ()
      | Some (t, d) \<Rightarrow>
          if t \<noteq> [] then Inr (Some t, \<lparr>cr_source = reads, cr_decoder = d, cr_finished = False\<rparr>)
          else next_loop D reads d)"

definition next_chunk :: "encoding_crates \<Rightarrow> chunk_reader \<Rightarrow> unit + utf8 option \<times> chunk_reader" where
  "next_chunk D r = (if cr_finished r then Inr (None, r) else next_loop D (cr_source r) (cr_decoder r))"

definition reader_size :: "chunk_reader \<Rightarrow> nat" where
  "reader_size r = (if cr_finished r then 0 else length (cr_source r) + 1)"

lemma next_loop_size: "next_loop D reads d = Inr (Some t, r) \<Longrightarrow> reader_size r < length reads + 1"
proof (induction reads arbitrary: d)
  case (Cons raw reads)
  then show ?case
    by (cases "decoder_push D d raw False") (auto simp: reader_size_def less_SucI split: if_splits)
qed (auto simp: reader_size_def split: option.splits prod.splits if_splits)

lemma next_chunk_size: "next_chunk D r = Inr (Some t, r') \<Longrightarrow> reader_size r' < reader_size r"
  by (auto simp: next_chunk_def reader_size_def [of r] dest: next_loop_size split: if_splits)

text \<open>\<open>stream_text\<close>: the callback threads a state and returns false to stop.\<close>

function stream_chunks ::
    "encoding_crates \<Rightarrow> (utf8 \<Rightarrow> 's \<Rightarrow> bool \<times> 's) \<Rightarrow> chunk_reader \<Rightarrow> 's \<Rightarrow> unit + bool \<times> 's" where
  "stream_chunks D on_text r s =
     (case next_chunk D r of
        Inl e \<Rightarrow> Inl e
      | Inr (None, _) \<Rightarrow> Inr (True, s)
      | Inr (Some t, r) \<Rightarrow>
          (case on_text t s of
             (False, s) \<Rightarrow> Inr (False, s)
           | (True, s) \<Rightarrow> stream_chunks D on_text r s))"
  by pat_completeness auto
termination
  by (relation "measure (\<lambda>(D, f, r, s). reader_size r)") (auto dest: next_chunk_size)

declare stream_chunks.simps [simp del]

definition stream_text ::
    "encoding_crates \<Rightarrow> byte list list \<Rightarrow> detected_encoding \<Rightarrow> (utf8 \<Rightarrow> 's \<Rightarrow> bool \<times> 's) \<Rightarrow> 's \<Rightarrow>
      unit + bool \<times> 's" where
  "stream_text D reads detected on_text s = stream_chunks D on_text (open_chunk_reader reads detected) s"

text \<open>\<open>Utf8Reader::read\<close> into a buffer of \<open>n\<close> bytes. A decoded chunk is never empty, so the loop of the
  code runs once more after it and returns.\<close>

record utf8_reader =
  ur_decoder :: chunk_reader
  ur_pending :: "byte list"
  ur_offset :: nat

definition take_pending :: "nat \<Rightarrow> utf8_reader \<Rightarrow> byte list \<times> utf8_reader" where
  "take_pending n r =
     (let available = drop (ur_offset r) (ur_pending r); count = min (length available) n in
      (take count available, r\<lparr>ur_offset := ur_offset r + count\<rparr>))"

definition reader_read :: "encoding_crates \<Rightarrow> nat \<Rightarrow> utf8_reader \<Rightarrow> unit + byte list \<times> utf8_reader" where
  "reader_read D n r =
     (if n = 0 then Inr ([], r)
      else if ur_offset r < length (ur_pending r) then Inr (take_pending n r)
      else case next_chunk D (ur_decoder r) of
          Inl e \<Rightarrow> Inl e
        | Inr (None, d) \<Rightarrow> Inr ([], r\<lparr>ur_decoder := d\<rparr>)
        | Inr (Some chunk, d) \<Rightarrow>
            Inr (take_pending n \<lparr>ur_decoder = d, ur_pending = utf8_bytes chunk, ur_offset = 0\<rparr>))"

section \<open>Streaming is decoding\<close>

text \<open>The text still to be delivered by a reader.\<close>

definition reader_text :: "encoding_crates \<Rightarrow> chunk_reader \<Rightarrow> utf8 option" where
  "reader_text D r =
     (if cr_finished r then Some []
      else map_option fst (decoder_push D (cr_decoder r) (concat (cr_source r)) True))"

lemma reader_text_open: "reader_text D (open_chunk_reader reads detected) = strict_decode D (de_kind detected) (concat reads)"
  by (simp add: reader_text_def open_chunk_reader_def decoder_whole)

lemma next_loop_text:
  assumes D: "crates_ok D"
  shows "map_option fst (decoder_push D d (concat reads) True) = Some t \<Longrightarrow>
    case next_loop D reads d of
      Inl _ \<Rightarrow> False
    | Inr (None, r) \<Rightarrow> t = [] \<and> reader_text D r = Some []
    | Inr (Some a, r) \<Rightarrow> \<exists>b. a \<noteq> [] \<and> reader_text D r = Some b \<and> t = a @ b \<and> splits_at a b"
proof (induction reads arbitrary: d)
  case Nil
  then show ?case by (auto simp: reader_text_def)
next
  case (Cons raw reads)
  have w: "map_option fst (decoder_push D d (raw @ concat reads) True) = Some t" using Cons.prems by simp
  then obtain a d' where a: "decoder_push D d raw False = Some (a, d')"
    using decoder_append [OF D, of d raw "concat reads" True] by (auto split: option.splits)
  from decoded_text [OF D a w] obtain u where
    u: "t = a @ u" "splits_at a u" "map_option fst (decoder_push D d' (concat reads) True) = Some u" by blast
  show ?case
  proof (cases "a = []")
    case True
    with Cons.IH [of d'] u a show ?thesis by simp
  next
    case False
    with u a show ?thesis by (simp add: reader_text_def)
  qed
qed

lemma next_chunk_text:
  assumes "crates_ok D" and "reader_text D r = Some t"
  shows "case next_chunk D r of
      Inl _ \<Rightarrow> False
    | Inr (None, r) \<Rightarrow> t = [] \<and> reader_text D r = Some []
    | Inr (Some a, r) \<Rightarrow> \<exists>b. a \<noteq> [] \<and> reader_text D r = Some b \<and> t = a @ b \<and> splits_at a b"
proof (cases "cr_finished r")
  case True
  with assms(2) show ?thesis by (simp add: next_chunk_def reader_text_def)
next
  case False
  with next_loop_text [OF assms(1)] assms(2) show ?thesis by (simp add: next_chunk_def reader_text_def)
qed

text \<open>The contract of a callback: text in pieces is text at once, up to the stop.\<close>

locale text_sink =
  fixes sink :: "utf8 \<Rightarrow> 's \<Rightarrow> bool \<times> 's"
  assumes sink_empty: "sink [] s = (True, s)"
    and sink_append: "splits_at a b \<Longrightarrow>
      sink (a @ b) s = (case sink a s of (False, s') \<Rightarrow> (False, s') | (True, s') \<Rightarrow> sink b s')"
begin

lemma stream_chunks_text:
  assumes D: "crates_ok D"
  shows "reader_text D r = Some t \<Longrightarrow> stream_chunks D sink r s = Inr (sink t s)"
proof (induction r arbitrary: s t rule: measure_induct_rule [of reader_size])
  case (less r)
  note next_r = next_chunk_text [OF D less.prems]
  show ?case
  proof (cases "next_chunk D r")
    case (Inl e)
    with next_r show ?thesis by simp
  next
    case (Inr p)
    obtain piece r' where p: "next_chunk D r = Inr (piece, r')" using Inr by (cases p) auto
    show ?thesis
    proof (cases piece)
      case None
      with next_r p show ?thesis by (simp add: stream_chunks.simps [of D sink r s] sink_empty)
    next
      case (Some a)
      with next_r p obtain b where b: "reader_text D r' = Some b" "t = a @ b" "splits_at a b" by auto
      have "reader_size r' < reader_size r" using next_chunk_size p Some by blast
      from less.IH [OF this b(1)] p Some b(2) sink_append [OF b(3)] show ?thesis
        by (simp add: stream_chunks.simps [of D sink r s] split: bool.split prod.split)
    qed
  qed
qed

lemma stream_text_exact:
  "crates_ok D \<Longrightarrow> strict_decode D (de_kind detected) (concat reads) = Some t \<Longrightarrow>
     stream_text D reads detected sink s = Inr (sink t s)"
  unfolding stream_text_def by (rule stream_chunks_text) (simp_all add: reader_text_open)

end

text \<open>A buffer reader hands out the decoded bytes in order; an empty answer is the end.\<close>

definition utf8_reader_text :: "encoding_crates \<Rightarrow> utf8_reader \<Rightarrow> byte list option" where
  "utf8_reader_text D r =
     map_option (\<lambda>t. drop (ur_offset r) (ur_pending r) @ utf8_bytes t) (reader_text D (ur_decoder r))"

lemma take_pending_text:
  "take_pending n r = (out, r') \<Longrightarrow>
     drop (ur_offset r) (ur_pending r) = out @ drop (ur_offset r') (ur_pending r') \<and>
     ur_decoder r' = ur_decoder r \<and> length out = min (length (ur_pending r) - ur_offset r) n"
  by (auto simp: take_pending_def Let_def min_def add.commute)
    (metis add.commute append_take_drop_id drop_drop)+

lemma reader_read_text:
  assumes D: "crates_ok D" and t: "utf8_reader_text D r = Some t" and n: "0 < n"
  shows "\<exists>out r'. reader_read D n r = Inr (out, r') \<and>
    (\<exists>u. utf8_reader_text D r' = Some u \<and> t = out @ u) \<and> (out = [] \<longrightarrow> t = []) \<and> length out \<le> n"
proof (cases "ur_offset r < length (ur_pending r)")
  case True
  obtain out r' where o: "take_pending n r = (out, r')" by (cases "take_pending n r")
  from take_pending_text [OF o] True n t o show ?thesis
    by (auto simp: reader_read_def utf8_reader_text_def)
next
  case False
  from t obtain tx where tx: "reader_text D (ur_decoder r) = Some tx" by (auto simp: utf8_reader_text_def)
  with t False have tt: "t = utf8_bytes tx" by (simp add: utf8_reader_text_def)
  note next_r = next_chunk_text [OF D tx]
  show ?thesis
  proof (cases "next_chunk D (ur_decoder r)")
    case (Inl e)
    with next_r show ?thesis by simp
  next
    case (Inr p)
    obtain piece d where p: "next_chunk D (ur_decoder r) = Inr (piece, d)" using Inr by (cases p) auto
    show ?thesis
    proof (cases piece)
      case None
      with next_r p False n tt show ?thesis by (simp add: reader_read_def utf8_reader_text_def)
    next
      case (Some a)
      with next_r p obtain b where b: "a \<noteq> []" "reader_text D d = Some b" "tx = a @ b" by auto
      let ?r = "\<lparr>ur_decoder = d, ur_pending = utf8_bytes a, ur_offset = 0\<rparr>"
      obtain out r' where o: "take_pending n ?r = (out, r')" by (cases "take_pending n ?r")
      from take_pending_text [OF o, unfolded utf8_reader.simps drop_0 diff_zero]
      have s: "utf8_bytes a = out @ drop (ur_offset r') (ur_pending r')"
        "ur_decoder r' = d" "length out = min (length (utf8_bytes a)) n" by blast+
      have "out \<noteq> []" using s(3) b(1) n by (cases a) (auto simp: utf8_bytes_def)
      have "reader_read D n r = Inr (out, r')"
        using p Some False n o by (simp add: reader_read_def)
      moreover have "utf8_reader_text D r' = Some (drop (ur_offset r') (ur_pending r') @ utf8_bytes b)"
        using b(2) s(2) by (simp add: utf8_reader_text_def)
      moreover have "t = out @ drop (ur_offset r') (ur_pending r') @ utf8_bytes b"
        using tt b(3) s(1) by (simp add: utf8_bytes_def)
      moreover have "length out \<le> n" using s(3) by simp
      ultimately show ?thesis using \<open>out \<noteq> []\<close> by blast
    qed
  qed
qed

text \<open>What a validator calls malformed is malformed however the file goes on.\<close>

definition validator_inv :: "encoding_crates \<Rightarrow> source_kind \<Rightarrow> strict_validator \<Rightarrow> byte list \<Rightarrow> bool" where
  "validator_inv D kind s p \<longleftrightarrow>
     (case decoder_push D (new_decoder kind) p False of
        None \<Rightarrow> sv_malformed s
      | Some (_, d) \<Rightarrow> \<not> sv_malformed s \<and> sv_decoder s = d)"

lemma validator_new: "crates_ok D \<Longrightarrow> validator_inv D (de_kind d) (new_validator d) []"
  by (simp add: validator_inv_def new_validator_def decoder_empty)

lemma validator_step:
  assumes D: "crates_ok D" and inv: "validator_inv D kind s p" and f: "validator_feed D x s = (bad, s')"
  shows "validator_inv D kind s' (p @ x) \<and> bad = sv_malformed s' \<and>
    (bad \<longrightarrow> strict_decode D kind ((p @ x) @ y) = None)"
proof -
  have v: "validator_inv D kind s' (p @ x) \<and> bad = sv_malformed s'"
    using inv f decoder_append [OF D, of "new_decoder kind" p x False]
    by (auto simp: validator_inv_def validator_feed_def split: option.splits if_splits)
  moreover have "strict_decode D kind ((p @ x) @ y) = None" if "sv_malformed s'"
    using that v decoder_append [OF D, of "new_decoder kind" "p @ x" y True]
      decoder_whole [of D kind "(p @ x) @ y"]
    by (auto simp: validator_inv_def split: option.splits)
  ultimately show ?thesis by blast
qed

section \<open>An accepted file decodes\<close>

lemma reference_stats_decode:
  "pr_stats (reference_pass D j k bs d opts) = Some st \<Longrightarrow>
     \<exists>t. strict_decode D (de_kind d) (drop (de_bom_len d) bs) = Some t \<and> st = observe t new_stats"
  by (auto simp: reference_pass_def invalid_pass_def Let_def split: if_splits option.splits)

lemma decide_legacy_decodes:
  "decide_legacy D (reference_pass D j k bs) nom = TextFile v \<Longrightarrow>
     \<exists>t. strict_decode D (de_kind (ve_detected v)) (drop (de_bom_len (ve_detected v)) bs) = Some t \<and>
       ve_total_lines v = text_lines t"
  by (auto dest!: reference_stats_decode simp: decide_legacy_def Let_def validated_def fixed_candidates_reject stats_lines
      split: option.splits if_splits)

lemma decision_decodes:
  assumes "reference_decision D bs explicit = TextFile v"
  shows "\<exists>t. strict_decode D (de_kind (ve_detected v)) (drop (de_bom_len (ve_detected v)) bs) = Some t \<and>
    ve_total_lines v = text_lines t"
proof -
  have A: "\<exists>t. strict_decode D (de_kind (ve_detected v)) (drop (de_bom_len (ve_detected v)) bs) = Some t \<and>
      ve_total_lines v = text_lines t"
    if "decide_automatic D (reference_pass D (plain_judge D) () bs) nom p = TextFile v" for nom p
    using that decide_legacy_decodes
    by (auto dest!: reference_stats_decode simp: decide_automatic_def Let_def validated_def stats_lines
        split: option.splits if_splits)
  show ?thesis
  proof (cases "explicit")
    case None
    with assms A show ?thesis
      by (auto dest!: reference_stats_decode simp: reference_decision_def decide_def Let_def validated_def stats_lines
          split: option.splits if_splits)
  next
    case (Some label)
    with assms show ?thesis
      by (auto dest!: reference_stats_decode simp: reference_decision_def decide_def Let_def validated_def stats_lines
          split: option.splits sum.splits)
  qed
qed

end
