(* ===== verification/Text_Read.thy ===== *)
theory Text_Read
  imports Encoding_Reader
begin

text \<open>
  The text channel of the read tool (\<open>src/src/read_tool/text_file.rs\<close>): the incremental line
  collector, the notes, and the page it shrinks into the token budget. Metadata and failing reads
  belong to the file system; the size of the file and its reads are arguments.
\<close>

section \<open>Notes\<close>

definition max_line_chars :: nat where
  "max_line_chars = 2000"

definition total_count_size_limit :: nat where
  "total_count_size_limit = 64 * 1024 * 1024"

definition unbounded_line_limit :: nat where
  "unbounded_line_limit = usize_max"

definition tab :: char where
  "tab = CHR 0x09"

definition line_noun :: "nat \<Rightarrow> utf8" where
  "line_noun n = (if n = 1 then ''line'' else ''lines'')"

definition line_span :: "nat \<Rightarrow> nat \<Rightarrow> utf8" where
  "line_span first final =
     (if first = final then ''line '' @ show_nat first
      else ''lines '' @ show_nat first @ ''-'' @ show_nat final)"

definition read_notes :: "utf8 option \<Rightarrow> bool \<Rightarrow> nat \<Rightarrow> nat \<Rightarrow> nat \<Rightarrow> bool \<Rightarrow> utf8 list" where
  "read_notes note truncated offset shown all known =
     (case note of None \<Rightarrow> [] | Some n \<Rightarrow> [n]) @
     (if 0 < shown then
        let final = offset + shown - 1; span = line_span offset final in
        [if truncated then
           if known then ''(Partial: '' @ span @ '' of '' @ show_nat all @ '' shown. Continue with offset='' @
             show_nat (final + 1) @ ''.)''
           else ''(Partial: '' @ span @ '' shown. Continue with offset='' @ show_nat (final + 1) @ ''.)''
         else ''(Complete: reached end of file; '' @ span @ '' of '' @ show_nat all @ '' shown.)'']
      else [])"

definition beyond_end :: "nat \<Rightarrow> nat \<Rightarrow> utf8" where
  "beyond_end all offset =
     ''Warning: the file has only '' @ show_nat all @ '' '' @ line_noun all @ '', but offset='' @
     show_nat offset @ '' was requested.''"

definition note_too_small :: "token_budget \<Rightarrow> utf8" where
  "note_too_small b =
     tb_variable b @ ''='' @ show_nat (tb_value b) @
     '' is too small to return the required continuation note. Increase it and retry.''"

section \<open>The collector\<close>

record collector =
  co_offset :: nat
  co_request_end :: nat
  co_budget :: nat
  co_total_is_known :: bool
  co_line_number :: nat
  co_prefix :: utf8
  co_chars :: nat
  co_ends_with_cr :: bool
  co_decoded_any :: bool
  co_last_was_newline :: bool
  co_rendered :: "utf8 list"
  co_body_tokens :: line_counter
  co_saturated :: bool
  co_total_lines :: nat
  co_stopped_early :: bool

definition new_collector :: "nat \<Rightarrow> nat \<Rightarrow> nat \<Rightarrow> bool \<Rightarrow> collector" where
  "new_collector offset limit budget known =
     \<lparr>co_offset = offset, co_request_end = sat_add offset (limit - 1), co_budget = budget,
      co_total_is_known = known, co_line_number = 1, co_prefix = [], co_chars = 0,
      co_ends_with_cr = False, co_decoded_any = False, co_last_was_newline = False, co_rendered = [],
      co_body_tokens = default_line_counter, co_saturated = False, co_total_lines = 0,
      co_stopped_early = False\<rparr>"

definition should_capture :: "collector \<Rightarrow> bool" where
  "should_capture s \<longleftrightarrow>
     \<not> co_saturated s \<and> co_offset s \<le> co_line_number s \<and> co_line_number s \<le> co_request_end s"

definition reset_line :: "collector \<Rightarrow> collector" where
  "reset_line s =
     s\<lparr>co_line_number := sat_add (co_line_number s) 1, co_prefix := [], co_chars := 0,
       co_ends_with_cr := False\<rparr>"

definition pop_char :: "utf8 \<Rightarrow> utf8" where
  "pop_char t = concat (butlast (chars t))"

text \<open>What is stored of the line that ends, with its number.\<close>

definition finished_line :: "collector \<Rightarrow> utf8" where
  "finished_line s =
     (let prefix = (if co_ends_with_cr s \<and> co_chars s \<le> max_line_chars then pop_char (co_prefix s)
                    else co_prefix s);
          n = co_chars s - (if co_ends_with_cr s then 1 else 0);
          line = (if n \<le> max_line_chars then prefix
                  else prefix @ ''... [line truncated: '' @ show_nat n @ '' chars total]'') in
      show_nat (co_line_number s) @ tab # line)"

definition finish_line :: "tokenizer \<Rightarrow> collector \<Rightarrow> bool \<times> collector" where
  "finish_line T s =
     (let s = s\<lparr>co_total_lines := co_line_number s\<rparr> in
      if co_request_end s < co_line_number s then (co_total_is_known s, reset_line s)
      else if co_offset s \<le> co_line_number s \<and> \<not> co_saturated s then
        let rendered = finished_line s;
            counter = push_line T rendered (co_body_tokens s);
            s = s\<lparr>co_rendered := co_rendered s @ [rendered], co_body_tokens := counter\<rparr> in
        if co_budget s < lc_tokens counter
        then (co_total_is_known s, reset_line (s\<lparr>co_saturated := True\<rparr>))
        else (True, reset_line s)
      else (True, reset_line s))"

fun collect_chars :: "tokenizer \<Rightarrow> utf8 list \<Rightarrow> collector \<Rightarrow> bool \<times> collector" where
  "collect_chars T [] s = (True, s)"
| "collect_chars T (ch # cs) s =
     (let s = s\<lparr>co_decoded_any := True\<rparr> in
      if co_request_end s < co_line_number s \<and> \<not> co_total_is_known s
      then (False, s\<lparr>co_total_lines := co_line_number s, co_stopped_early := True\<rparr>)
      else if ch = [nl] then
        (case finish_line T (s\<lparr>co_last_was_newline := True\<rparr>) of
           (False, s) \<Rightarrow> (False, s\<lparr>co_stopped_early := True\<rparr>)
         | (True, s) \<Rightarrow> collect_chars T cs s)
      else
        let s = s\<lparr>co_last_was_newline := False, co_chars := sat_add (co_chars s) 1,
                  co_ends_with_cr := (ch = [cr])\<rparr>;
            s = (if should_capture s \<and> co_chars s \<le> max_line_chars
                 then s\<lparr>co_prefix := co_prefix s @ ch\<rparr> else s) in
        collect_chars T cs s)"

definition collector_push :: "tokenizer \<Rightarrow> utf8 \<Rightarrow> collector \<Rightarrow> bool \<times> collector" where
  "collector_push T t s = collect_chars T (chars t) s"

definition finish_eof :: "tokenizer \<Rightarrow> collector \<Rightarrow> collector" where
  "finish_eof T s =
     (if co_last_was_newline s \<or> co_decoded_any s \<or> 0 < co_chars s then snd (finish_line T s) else s)"

text \<open>The response: the longest stored prefix whose text and notes fit.\<close>

function shrink_page ::
    "tokenizer \<Rightarrow> utf8 option \<Rightarrow> token_budget \<Rightarrow> collector \<Rightarrow> utf8 list \<Rightarrow> bool \<Rightarrow> tool_response" where
  "shrink_page T note budget s rendered saturated =
     (let shown = length rendered in
      if shown = 0 \<and> (co_stopped_early s \<or> saturated) then error_response (note_too_small budget)
      else
        let final = sat_add (co_offset s) (shown - 1);
            truncated = (co_stopped_early s \<or> saturated \<or> (0 < shown \<and> final < co_total_lines s));
            notes = read_notes note truncated (co_offset s) shown (co_total_lines s) (co_total_is_known s);
            output = assemble_text rendered notes in
        if estimate_tokens T output \<le> tb_value budget then text_response output
        else if rendered = [] then error_response (note_too_small budget)
        else shrink_page T note budget s (butlast rendered) True)"
  by pat_completeness auto
termination
  by (relation "measure (\<lambda>(T, n, b, s, r, f). length r)") auto

declare shrink_page.simps [simp del]

definition into_response :: "tokenizer \<Rightarrow> utf8 option \<Rightarrow> token_budget \<Rightarrow> collector \<Rightarrow> tool_response" where
  "into_response T note budget s =
     (if co_total_lines s < co_offset s then text_response (beyond_end (co_total_lines s) (co_offset s))
      else shrink_page T note budget s (co_rendered s) (co_saturated s))"

section \<open>The requests\<close>

definition binary_error_message :: "utf8 \<Rightarrow> utf8 option \<Rightarrow> utf8" where
  "binary_error_message path kind =
     ''Cannot read binary file as text: '' @ path @
     (case kind of None \<Rightarrow> [] | Some k \<Rightarrow> '' (looks like '' @ k @ '')'') @
     ''. Use '' @ view_hex @ '' to inspect its raw bytes.''"

definition invalid_zero :: "utf8 \<Rightarrow> utf8" where
  "invalid_zero parameter = ''Invalid '' @ parameter @ '' value: 0. Expected an integer >= 1.''"

text \<open>
  A file: its size, the reads of the validation and the reads of the second pass, which starts after
  the byte-order mark.
\<close>

record text_file =
  tf_size :: nat
  tf_chunks :: "byte list list"
  tf_reads :: "byte list list"

definition collect_text ::
    "tokenizer \<Rightarrow> encoding_crates \<Rightarrow> text_file \<Rightarrow> validated_encoding \<Rightarrow> collector \<Rightarrow> unit + collector" where
  "collect_text T D f v s =
     (case stream_text D (tf_reads f) (ve_detected v) (collector_push T) s of
        Inl _ \<Rightarrow> Inl ()
      | Inr (exhausted, s) \<Rightarrow> Inr (if exhausted then finish_eof T s else s))"

definition read_text_file ::
    "tokenizer \<Rightarrow> encoding_crates \<Rightarrow> text_file \<Rightarrow> utf8 \<Rightarrow> nat option \<Rightarrow> nat option \<Rightarrow> utf8 option \<Rightarrow>
      utf8 option \<Rightarrow> token_budget \<Rightarrow> tool_response" where
  "read_text_file T D f path offset limit explicit binary_type budget =
     (let offset = (case offset of None \<Rightarrow> 1 | Some n \<Rightarrow> n);
          limit = (case limit of None \<Rightarrow> unbounded_line_limit | Some n \<Rightarrow> n) in
      if offset = 0 then error_response (invalid_zero ''offset'')
      else if limit = 0 then error_response (invalid_zero ''limit'')
      else case validate_source D (tf_chunks f) explicit of
          Binary \<Rightarrow> error_response (binary_error_message path binary_type)
        | Rejected rejection \<Rightarrow> error_response (rejection_message path rejection)
        | TextFile v \<Rightarrow>
            if ve_total_lines v = 0 then text_response ''Warning: the file exists but is empty.''
            else
              let known = tf_size f \<le> total_count_size_limit in
              case collect_text T D f v (new_collector offset limit (tb_value budget) known) of
                Inl _ \<Rightarrow> error_response (rejection_message path (malformed_rejection v))
              | Inr s \<Rightarrow> into_response T (encoding_note v) budget s)"

record batch_text =
  bt_first :: nat
  bt_lines :: "utf8 list"
  bt_total_lines :: nat
  bt_total_is_known :: bool
  bt_note :: "utf8 option"
  bt_slice_complete :: bool

definition read_batch_text_file ::
    "tokenizer \<Rightarrow> encoding_crates \<Rightarrow> text_file \<Rightarrow> utf8 \<Rightarrow> nat option \<Rightarrow> nat option \<Rightarrow> utf8 option \<Rightarrow>
      utf8 option \<Rightarrow> nat \<Rightarrow> utf8 + batch_text" where
  "read_batch_text_file T D f path offset limit explicit binary_type budget =
     (let offset = (case offset of None \<Rightarrow> 1 | Some n \<Rightarrow> n);
          limit = (case limit of None \<Rightarrow> unbounded_line_limit | Some n \<Rightarrow> n) in
      case validate_source D (tf_chunks f) explicit of
        Binary \<Rightarrow> Inl (binary_error_message path binary_type)
      | Rejected rejection \<Rightarrow> Inl (rejection_message path rejection)
      | TextFile v \<Rightarrow>
          if ve_total_lines v = 0 then Inl ''Warning: the file exists but is empty.''
          else if ve_total_lines v < offset then Inl (beyond_end (ve_total_lines v) offset)
          else
            let known = tf_size f \<le> total_count_size_limit in
            case collect_text T D f v (new_collector offset limit budget known) of
              Inl _ \<Rightarrow> Inl (rejection_message path (malformed_rejection v))
            | Inr s \<Rightarrow> Inr \<lparr>bt_first = offset, bt_lines = co_rendered s, bt_total_lines = ve_total_lines v,
                bt_total_is_known = known, bt_note = encoding_note v, bt_slice_complete = (\<not> co_saturated s)\<rparr>)"

section \<open>The lines of a text\<close>

fun char_lines :: "utf8 list \<Rightarrow> utf8 list list" where
  "char_lines [] = [[]]"
| "char_lines (c # cs) =
     (if c = [nl] then [] # char_lines cs else (c # hd (char_lines cs)) # tl (char_lines cs))"

definition strip_cr :: "utf8 list \<Rightarrow> utf8 list" where
  "strip_cr l = (if l \<noteq> [] \<and> last l = [cr] then butlast l else l)"

text \<open>How a line is shown: without its carriage return, at most two thousand characters of it.\<close>

definition presented :: "utf8 list \<Rightarrow> utf8" where
  "presented l =
     (let n = length (strip_cr l) in
      if n \<le> max_line_chars then concat (strip_cr l)
      else concat (take max_line_chars l) @ ''... [line truncated: '' @ show_nat n @ '' chars total]'')"

definition numbered :: "nat \<times> utf8 list \<Rightarrow> utf8" where
  "numbered p = show_nat (fst p) @ tab # presented (snd p)"

text \<open>Storing stops after the first line that takes the counter past the budget.\<close>

definition store :: "tokenizer \<Rightarrow> nat \<Rightarrow> utf8 list \<times> line_counter \<times> bool \<Rightarrow> utf8 \<Rightarrow> utf8 list \<times> line_counter \<times> bool" where
  "store T budget = (\<lambda>(stored, counter, full) line.
     if full then (stored, counter, full)
     else let counter = push_line T line counter in (stored @ [line], counter, budget < lc_tokens counter))"

definition in_request :: "nat \<Rightarrow> nat \<Rightarrow> nat \<times> utf8 list \<Rightarrow> bool" where
  "in_request offset final p \<longleftrightarrow> offset \<le> fst p \<and> fst p \<le> final"

definition stored_lines :: "tokenizer \<Rightarrow> nat \<Rightarrow> nat \<Rightarrow> nat \<Rightarrow> utf8 list list \<Rightarrow> utf8 list \<times> line_counter \<times> bool" where
  "stored_lines T budget offset final ls =
     foldl (store T budget) ([], default_line_counter, False)
       (map numbered (filter (in_request offset final) (enumerate 1 ls)))"

lemma char_lines_nonempty [simp]: "char_lines cs \<noteq> []"
  by (cases cs) auto

lemma char_lines_snoc:
  "char_lines (cs @ [c]) =
     (if c = [nl] then char_lines cs @ [[]] else butlast (char_lines cs) @ [last (char_lines cs) @ [c]])"
proof (induction cs)
  case (Cons a cs)
  then show ?case
    by (cases "char_lines cs") (auto simp: hd_append tl_append split: list.split)
qed simp

lemma length_char_lines: "length (char_lines cs) = length (filter ((=) [nl]) cs) + 1"
proof (induction cs)
  case (Cons a cs)
  then show ?case by (cases "char_lines cs") auto
qed simp

lemma char_lines_split: "\<exists>ms. ms \<noteq> [] \<and> char_lines (xs @ ys) = butlast (char_lines xs) @ ms"
proof (induction xs)
  case Nil
  show ?case by simp
next
  case (Cons a xs)
  then obtain ms where ms: "ms \<noteq> []" "char_lines (xs @ ys) = butlast (char_lines xs) @ ms" by blast
  obtain l ls where l: "char_lines xs = l # ls" by (cases "char_lines xs") auto
  show ?case
  proof (cases "ls = []")
    case True
    with ms l show ?thesis by (auto simp: neq_Nil_conv)
  next
    case False
    with ms l show ?thesis by auto
  qed
qed

lemma char_lines_newline: "char_lines (xs @ [nl] # ys) = char_lines xs @ char_lines ys"
  by (induction xs) auto

lemma length_char_lines_le: "length (char_lines cs) \<le> length cs + 1"
  using length_filter_le [of "(=) [nl]" cs] by (simp add: length_char_lines)

lemma stored_lines_Nil [simp]: "stored_lines T b offset final [] = ([], default_line_counter, False)"
  by (simp add: stored_lines_def)

lemma stored_lines_snoc:
  "stored_lines T b offset final (ls @ [l]) =
     (if offset \<le> length ls + 1 \<and> length ls + 1 \<le> final
      then store T b (stored_lines T b offset final ls) (numbered (length ls + 1, l))
      else stored_lines T b offset final ls)"
  by (simp add: stored_lines_def enumerate_append_eq in_request_def)

lemma stored_lines_beyond:
  "final \<le> length ls \<Longrightarrow> stored_lines T b offset final (ls @ ms) = stored_lines T b offset final ls"
proof (induction ms rule: rev_induct)
  case (snoc m ms)
  then show ?case using stored_lines_snoc [of T b offset final "ls @ ms" m] by simp
qed simp

lemma stored_lines_full:
  "snd (snd (stored_lines T b offset final ls)) \<Longrightarrow>
     stored_lines T b offset final (ls @ ms) = stored_lines T b offset final ls"
proof (induction ms rule: rev_induct)
  case (snoc m ms)
  then show ?case
    using stored_lines_snoc [of T b offset final "ls @ ms" m]
    by (auto simp: store_def split: prod.splits)
qed simp

lemma stored_lines_before:
  "length ls < offset \<Longrightarrow> stored_lines T b offset final ls = ([], default_line_counter, False)"
  by (induction ls rule: rev_induct) (simp_all add: stored_lines_snoc)

section \<open>The collector stores the lines of the text\<close>

text \<open>The collector after the characters \<open>cs\<close>, when nothing has stopped it.\<close>

definition same_request :: "collector \<Rightarrow> collector \<Rightarrow> bool" where
  "same_request s0 s \<longleftrightarrow>
     co_offset s = co_offset s0 \<and> co_request_end s = co_request_end s0 \<and> co_budget s = co_budget s0 \<and>
     co_total_is_known s = co_total_is_known s0"

definition has_stored :: "tokenizer \<Rightarrow> collector \<Rightarrow> collector \<Rightarrow> utf8 list list \<Rightarrow> bool" where
  "has_stored T s0 s ls \<longleftrightarrow>
     (co_rendered s, co_body_tokens s, co_saturated s) =
       stored_lines T (co_budget s0) (co_offset s0) (co_request_end s0) ls"

definition collected :: "tokenizer \<Rightarrow> collector \<Rightarrow> collector \<Rightarrow> utf8 list \<Rightarrow> bool" where
  "collected T s0 s cs \<longleftrightarrow>
     (let ls = char_lines cs; current = last ls in
      same_request s0 s \<and> has_stored T s0 s (butlast ls) \<and> co_line_number s = length ls \<and>
      co_prefix s = (if should_capture s then concat (take max_line_chars current) else []) \<and>
      co_chars s = length current \<and> co_ends_with_cr s = (current \<noteq> [] \<and> last current = [cr]) \<and>
      co_decoded_any s = (cs \<noteq> []) \<and> \<not> co_stopped_early s \<and>
      (co_saturated s \<longrightarrow> co_total_is_known s0))"

lemma collected_new: "collected T (new_collector a l b k) (new_collector a l b k) []"
  by (simp add: collected_def same_request_def has_stored_def new_collector_def should_capture_def)

lemma chars_pieces: "concat (chars t) = t"
  by (induction t rule: chars.induct) auto

lemma pop_cr [simp]: "pop_char (t @ [cr]) = t"
proof -
  have "chars (t @ [cr]) = chars t @ [[cr]]" using chars_append [of t "[cr]"] by simp
  then show ?thesis by (simp add: pop_char_def chars_pieces)
qed

lemma finished_line_presents:
  assumes "co_prefix s = concat (take max_line_chars l)" and "co_chars s = length l"
    and "co_ends_with_cr s = (l \<noteq> [] \<and> last l = [cr])"
  shows "finished_line s = numbered (co_line_number s, l)"
proof (cases "l \<noteq> [] \<and> last l = [cr]")
  case True
  then obtain k where k: "l = k @ [[cr]]" by (metis append_butlast_last_id)
  show ?thesis
  proof (cases "length l \<le> max_line_chars")
    case True
    with assms k show ?thesis
      by (simp add: finished_line_def numbered_def presented_def strip_cr_def)
  next
    case False
    then have "take max_line_chars (k @ [[cr]]) = take max_line_chars k" using k by simp
    with False assms k show ?thesis
      by (simp add: finished_line_def numbered_def presented_def strip_cr_def Let_def)
  qed
next
  case False
  with assms show ?thesis
    by (auto simp: finished_line_def numbered_def presented_def strip_cr_def Let_def)
qed

lemma request_frame [simp]:
  "same_request s0 (s\<lparr>co_decoded_any := a, co_last_was_newline := b\<rparr>) = same_request s0 s"
  "has_stored T s0 (s\<lparr>co_decoded_any := a, co_last_was_newline := b\<rparr>) ls = has_stored T s0 s ls"
  "same_request s0 (s\<lparr>co_stopped_early := a\<rparr>) = same_request s0 s"
  "has_stored T s0 (s\<lparr>co_stopped_early := a\<rparr>) ls = has_stored T s0 s ls"
  by (simp_all add: same_request_def has_stored_def)

text \<open>A finished line is stored, and the collector is ready for the next one.\<close>

lemma finish_line_step:
  assumes c: "collected T s0 s cs" and small: "length cs + 1 < usize_max"
  shows "let s' = snd (finish_line T s); ls = char_lines cs in
    same_request s0 s' \<and> has_stored T s0 s' ls \<and> co_total_lines s' = length ls \<and>
    co_line_number s' = length ls + 1 \<and> co_prefix s' = [] \<and> co_chars s' = 0 \<and> \<not> co_ends_with_cr s' \<and>
    co_decoded_any s' = co_decoded_any s \<and> \<not> co_stopped_early s' \<and>
    fst (finish_line T s) = (co_total_is_known s0 \<or> length ls \<le> co_request_end s0 \<and> \<not> co_saturated s')"
proof -
  let ?ls = "char_lines cs"
  obtain init l where il: "?ls = init @ [l]" by (metis append_butlast_last_id char_lines_nonempty)
  have n: "sat_add (length ?ls) 1 = length ?ls + 1"
    using small length_char_lines_le [of cs] by (simp add: sat_add_exact)
  from c have f: "same_request s0 s" "has_stored T s0 s init" "co_line_number s = length ?ls"
      "co_prefix s = (if should_capture s then concat (take max_line_chars l) else [])"
      "co_chars s = length l" "co_ends_with_cr s = (l \<noteq> [] \<and> last l = [cr])" "\<not> co_stopped_early s"
      "co_saturated s \<longrightarrow> co_total_is_known s0"
    by (simp_all add: collected_def Let_def il)
  note q = f(1) [unfolded same_request_def]
  show ?thesis
  proof (cases "should_capture s")
    case False
    then have "co_saturated s \<or> \<not> (co_offset s0 \<le> length init + 1 \<and> length init + 1 \<le> co_request_end s0)"
      using q f(3) il by (auto simp: should_capture_def)
    then have "stored_lines T (co_budget s0) (co_offset s0) (co_request_end s0) ?ls =
        stored_lines T (co_budget s0) (co_offset s0) (co_request_end s0) init"
      using f(2) unfolding il stored_lines_snoc has_stored_def
      by (auto simp: store_def split: prod.splits)
    then have "has_stored T s0 s ?ls" using f(2) by (simp add: has_stored_def)
    with False f q n show ?thesis
      by (auto simp: finish_line_def reset_line_def should_capture_def same_request_def has_stored_def Let_def)
  next
    case True
    let ?s = "s\<lparr>co_total_lines := co_line_number s\<rparr>"
    have "finished_line ?s = numbered (co_line_number ?s, l)"
      by (rule finished_line_presents) (use f True in simp_all)
    then have fl: "finished_line ?s = numbered (length init + 1, l)" using f(3) il by simp
    let ?N = "numbered (length init + 1, l)"
    have cap: "\<not> co_saturated s" "co_offset s0 \<le> length init + 1" "length init + 1 \<le> co_request_end s0"
      using True q f(3) il by (auto simp: should_capture_def)
    have st: "stored_lines T (co_budget s0) (co_offset s0) (co_request_end s0) (init @ [l]) =
        (co_rendered s @ [?N], push_line T ?N (co_body_tokens s),
         co_budget s0 < lc_tokens (push_line T ?N (co_body_tokens s)))"
      unfolding stored_lines_snoc f(2) [unfolded has_stored_def, symmetric]
      using cap by (simp add: store_def Let_def)
    have fin: "finish_line T s =
        (let s' = ?s\<lparr>co_rendered := co_rendered s @ [?N], co_body_tokens := push_line T ?N (co_body_tokens s)\<rparr> in
         if co_budget s0 < lc_tokens (push_line T ?N (co_body_tokens s))
         then (co_total_is_known s0, reset_line (s'\<lparr>co_saturated := True\<rparr>)) else (True, reset_line s'))"
      using cap q f(3) il fl by (simp add: finish_line_def Let_def)
    show ?thesis
      unfolding fin using cap q f(3, 7) n il
      by (simp add: reset_line_def same_request_def has_stored_def st Let_def)
  qed
qed

text \<open>Where a collector of a file of unknown length may stop.\<close>

definition halted :: "tokenizer \<Rightarrow> collector \<Rightarrow> collector \<Rightarrow> utf8 list list \<Rightarrow> bool" where
  "halted T s0 s ls \<longleftrightarrow>
     same_request s0 s \<and> has_stored T s0 s ls \<and> co_stopped_early s \<and> \<not> co_total_is_known s0 \<and>
     co_offset s0 \<le> co_total_lines s \<and> (co_saturated s \<or> co_request_end s0 < length ls)"

lemma last_line_length: "length (last (char_lines cs)) \<le> length cs"
  by (induction cs rule: rev_induct) (auto simp: char_lines_snoc)

definition marked :: "bool \<Rightarrow> bool \<Rightarrow> collector \<Rightarrow> collector" where
  "marked a b s = s\<lparr>co_decoded_any := a, co_last_was_newline := b\<rparr>"

lemma finished_line_marked: "finished_line (marked a b s) = finished_line s"
  by (simp add: finished_line_def marked_def)

lemma finish_line_marked:
  "finish_line T (marked a b s) = (fst (finish_line T s), marked a b (snd (finish_line T s)))"
proof -
  have l: "finished_line (marked a b s\<lparr>co_total_lines := n\<rparr>) = finished_line (s\<lparr>co_total_lines := n\<rparr>)" for n
    by (simp add: finished_line_def marked_def)
  show ?thesis
    unfolding finish_line_def Let_def l by (simp add: reset_line_def marked_def)
qed

lemma collected_newline:
  assumes c: "collected T s0 s cs" and small: "length cs + 1 < usize_max"
    and go: "fst (finish_line T (s\<lparr>co_decoded_any := True, co_last_was_newline := True\<rparr>))"
  shows "collected T s0 (snd (finish_line T (s\<lparr>co_decoded_any := True, co_last_was_newline := True\<rparr>))) (cs @ [[nl]])"
proof -
  let ?s = "s\<lparr>co_decoded_any := True, co_last_was_newline := True\<rparr>"
  note frame = finish_line_marked [of T True True s, unfolded marked_def]
  obtain ok s1 where r: "finish_line T s = (ok, s1)" by (cases "finish_line T s")
  have ok: ok using go unfolding frame r by simp
  from finish_line_step [OF c small] r ok have "same_request s0 s1 \<and> has_stored T s0 s1 (char_lines cs) \<and>
    co_line_number s1 = length (char_lines cs) + 1 \<and> co_prefix s1 = [] \<and> co_chars s1 = 0 \<and>
    \<not> co_ends_with_cr s1 \<and> \<not> co_stopped_early s1 \<and> (co_saturated s1 \<longrightarrow> co_total_is_known s0)"
    by (auto simp: Let_def)
  then show ?thesis
    unfolding frame r by (simp add: collected_def char_lines_snoc)
qed

lemma collected_character:
  assumes c: "collected T s0 s cs" and d: "d \<noteq> [nl]" and small: "length cs + 1 < usize_max"
  shows "collected T s0
    (let s = s\<lparr>co_decoded_any := True\<rparr>;
         s = s\<lparr>co_last_was_newline := False, co_chars := sat_add (co_chars s) 1, co_ends_with_cr := (d = [cr])\<rparr> in
     if should_capture s \<and> co_chars s \<le> max_line_chars then s\<lparr>co_prefix := co_prefix s @ d\<rparr> else s) (cs @ [d])"
proof -
  obtain init l where il: "char_lines cs = init @ [l]" by (metis append_butlast_last_id char_lines_nonempty)
  have "length l \<le> length cs"
    using last_line_length [of cs] il by simp
  then have n: "sat_add (length l) 1 = length l + 1" using small by (simp add: sat_add_exact)
  from c have f: "same_request s0 s" "has_stored T s0 s init" "co_line_number s = length init + 1"
      "co_prefix s = (if should_capture s then concat (take max_line_chars l) else [])"
      "co_chars s = length l" "\<not> co_stopped_early s" "co_saturated s \<longrightarrow> co_total_is_known s0"
    by (simp_all add: collected_def Let_def il)
  have capture: "should_capture (s\<lparr>co_decoded_any := a, co_last_was_newline := b, co_chars := n, co_ends_with_cr := e\<rparr>)
      = should_capture s" for a b n e by (simp add: should_capture_def)
  show ?thesis
    using f d n il
    by (auto simp: collected_def char_lines_snoc same_request_def has_stored_def should_capture_def Let_def)
qed

lemma collected_request:
  assumes "collected T s0 s cs"
  shows "co_request_end s = co_request_end s0" "co_total_is_known s = co_total_is_known s0"
    "co_line_number s = length (char_lines cs)"
  using assms by (simp_all add: collected_def same_request_def Let_def)

lemma collect_chars_step:
  "collected T s0 s cs \<Longrightarrow> length (cs @ ds) + 1 < usize_max \<Longrightarrow> co_offset s0 \<le> co_request_end s0 \<Longrightarrow>
     case collect_chars T ds s of
       (True, s') \<Rightarrow> collected T s0 s' (cs @ ds)
     | (False, s') \<Rightarrow> halted T s0 s' (char_lines (cs @ ds))"
proof (induction ds arbitrary: s cs)
  case Nil
  then show ?case by simp
next
  case (Cons d ds)
  note req = collected_request [OF Cons.prems(1)]
  have small: "length cs + 1 < usize_max" using Cons.prems(2) by simp
  show ?case
  proof (cases "co_request_end s < co_line_number s \<and> \<not> co_total_is_known s")
    case True
    obtain ms where ms: "ms \<noteq> []" "char_lines (cs @ d # ds) = butlast (char_lines cs) @ ms"
      using char_lines_split [of cs "d # ds"] by blast
    have b: "co_request_end s0 \<le> length (butlast (char_lines cs))" "co_request_end s0 < length (char_lines (cs @ d # ds))"
      using True req ms by (cases ms; simp)+
    have "has_stored T s0 s (char_lines (cs @ d # ds))"
      using Cons.prems(1) unfolding ms(2) has_stored_def stored_lines_beyond [OF b(1)]
      by (simp add: collected_def has_stored_def Let_def)
    with True b Cons.prems req show ?thesis
      by (simp add: halted_def has_stored_def same_request_def collected_def Let_def)
  next
    case False
    show ?thesis
    proof (cases "d = [nl]")
      case True
      let ?s = "marked True True s"
      have s': "s\<lparr>co_decoded_any := True, co_last_was_newline := True\<rparr> = ?s" by (simp add: marked_def)
      obtain ok s1 where r: "finish_line T ?s = (ok, s1)" by (cases "finish_line T ?s")
      have step: "collect_chars T (d # ds) s =
          (if ok then collect_chars T ds s1 else (False, s1\<lparr>co_stopped_early := True\<rparr>))"
        using False True r by (auto simp: s' Let_def split: bool.split)
      show ?thesis
      proof (cases ok)
        case ok: True
        have "collected T s0 s1 (cs @ [d])"
          using collected_newline [OF Cons.prems(1) small] r ok True by (simp add: s')
        from Cons.IH [OF this, unfolded append_assoc append_Cons append_Nil] Cons.prems(2,3) ok
        show ?thesis unfolding step by simp
      next
        case bad: False
        obtain ok1 s2 where r2: "finish_line T s = (ok1, s2)" by (cases "finish_line T s")
        have s1: "ok1 = ok" "s1 = marked True True s2" using r r2 by (simp_all add: finish_line_marked)
        from finish_line_step [OF Cons.prems(1) small] r2 bad s1(1)
        have f: "same_request s0 s2" "has_stored T s0 s2 (char_lines cs)" "co_total_lines s2 = length (char_lines cs)"
            "\<not> co_total_is_known s0" "\<not> (length (char_lines cs) \<le> co_request_end s0 \<and> \<not> co_saturated s2)"
          by (simp_all add: Let_def)
        have within: "length (char_lines cs) \<le> co_request_end s0" using False req f(4) by simp
        with f(5) have full: "co_saturated s2" by simp
        have whole: "char_lines (cs @ d # ds) = char_lines cs @ char_lines ds"
          using True by (simp add: char_lines_newline)
        have st: "has_stored T s0 s2 (char_lines (cs @ d # ds))"
          using f(2) full stored_lines_full [of T _ _ _ "char_lines cs" "char_lines ds"]
          unfolding whole has_stored_def by (metis snd_conv)
        have "co_offset s0 \<le> length (char_lines cs)"
          using stored_lines_before [of "char_lines cs" "co_offset s0" T "co_budget s0" "co_request_end s0"] f(2) full
          by (cases "length (char_lines cs) < co_offset s0") (simp_all add: has_stored_def)
        then have "halted T s0 (s1\<lparr>co_stopped_early := True\<rparr>) (char_lines (cs @ d # ds))"
          using f st full by (simp add: halted_def s1 marked_def same_request_def has_stored_def)
        with bad step show ?thesis by simp
      qed
    next
      case other: False
      let ?t = "let s = s\<lparr>co_decoded_any := True\<rparr>;
         s = s\<lparr>co_last_was_newline := False, co_chars := sat_add (co_chars s) 1, co_ends_with_cr := (d = [cr])\<rparr> in
         if should_capture s \<and> co_chars s \<le> max_line_chars then s\<lparr>co_prefix := co_prefix s @ d\<rparr> else s"
      have "collect_chars T (d # ds) s = collect_chars T ds ?t"
        using False other by (auto simp: Let_def)
      with Cons.IH [OF collected_character [OF Cons.prems(1) other small],
          unfolded append_assoc append_Cons append_Nil] Cons.prems(2,3)
      show ?thesis by simp
    qed
  qed
qed

text \<open>The collector at the end of the file.\<close>

definition settled :: "tokenizer \<Rightarrow> collector \<Rightarrow> collector \<Rightarrow> utf8 list list \<Rightarrow> bool" where
  "settled T s0 s ls \<longleftrightarrow>
     same_request s0 s \<and> has_stored T s0 s ls \<and>
     (if co_stopped_early s
      then \<not> co_total_is_known s0 \<and> co_offset s0 \<le> co_total_lines s \<and>
        (co_saturated s \<or> co_request_end s0 < length ls)
      else co_total_lines s = length ls)"

lemma length_chars: "length (chars t) \<le> length t"
proof (induction t rule: chars.induct)
  case (2 c cs)
  have "length (dropWhile is_continuation cs) \<le> length cs" by (rule length_dropWhile_le)
  with 2 show ?case by (auto intro: order_trans)
qed simp

lemma collect_whole:
  assumes "length t + 1 < usize_max" and "t \<noteq> []" and off: "offset \<le> usize_max"
  shows "settled T (new_collector offset limit budget known)
    (case collector_push T t (new_collector offset limit budget known) of
       (True, s) \<Rightarrow> finish_eof T s | (False, s) \<Rightarrow> s) (char_lines (chars t))"
proof -
  let ?s0 = "new_collector offset limit budget known"
  note len = length_chars [of t]
  have ne: "chars t \<noteq> []" using assms(2) by (cases t) auto
  have req: "co_offset ?s0 \<le> co_request_end ?s0" using off by (simp add: new_collector_def sat_add_def)
  from collect_chars_step [OF collected_new _ req, of "chars t" T, unfolded append_Nil] len assms(1)
  have step: "case collect_chars T (chars t) ?s0 of
      (True, s') \<Rightarrow> collected T ?s0 s' (chars t) | (False, s') \<Rightarrow> halted T ?s0 s' (char_lines (chars t))"
    by simp
  obtain ok s where r: "collect_chars T (chars t) ?s0 = (ok, s)" by (cases "collect_chars T (chars t) ?s0")
  show ?thesis
  proof (cases ok)
    case True
    with step r have c: "collected T ?s0 s (chars t)" by simp
    then have "co_decoded_any s" using ne by (simp add: collected_def Let_def)
    moreover have "settled T ?s0 (snd (finish_line T s)) (char_lines (chars t))"
      using finish_line_step [OF c] len assms(1) by (simp add: settled_def Let_def)
    ultimately show ?thesis using True r by (simp add: collector_push_def finish_eof_def)
  next
    case False
    with step r show ?thesis by (simp add: collector_push_def halted_def settled_def)
  qed
qed

text \<open>The collector is a sink: text in pieces is text at once.\<close>

lemma collect_chars_append:
  "collect_chars T (as @ bs) s =
     (case collect_chars T as s of (False, s') \<Rightarrow> (False, s') | (True, s') \<Rightarrow> collect_chars T bs s')"
proof (induction as arbitrary: s)
  case (Cons a as)
  show ?case
    unfolding append_Cons collect_chars.simps Let_def
    by (simp add: Cons.IH split: prod.split bool.split)
qed simp

interpretation line_sink: text_sink "collector_push T" for T
  by (unfold_locales, unfold collector_push_def) (simp_all add: chars_append collect_chars_append)

section \<open>The page\<close>

text \<open>The lines a request shows, and the notes that follow them.\<close>

definition page_lines :: "nat \<Rightarrow> nat \<Rightarrow> utf8 list list \<Rightarrow> utf8 list" where
  "page_lines offset shown ls = map numbered (enumerate offset (take shown (drop (offset - 1) ls)))"

definition page_text :: "utf8 option \<Rightarrow> nat \<Rightarrow> bool \<Rightarrow> bool \<Rightarrow> utf8 list list \<Rightarrow> nat \<Rightarrow> utf8" where
  "page_text note offset clipped known ls shown =
     assemble_text (page_lines offset shown ls)
       (read_notes note (clipped \<or> offset + shown - 1 < length ls) offset shown (length ls) known)"

lemma length_page_lines [simp]: "length (page_lines offset k ls) = min k (length ls - (offset - 1))"
  by (simp add: page_lines_def min.commute)

lemma page_lines_append:
  "k \<le> length ls - (offset - 1) \<Longrightarrow> page_lines offset k (ls @ ms) = page_lines offset k ls"
  by (cases "offset - 1 \<le> length ls") (simp_all add: page_lines_def)

lemma page_lines_next:
  "1 \<le> offset \<Longrightarrow> offset + k = length ls + 1 \<Longrightarrow>
     page_lines offset (k + 1) (ls @ [l]) = page_lines offset k ls @ [numbered (offset + k, l)]"
  by (simp add: page_lines_def enumerate_append_eq)

lemma page_lines_Suc:
  "k < length ls - (offset - 1) \<Longrightarrow>
     page_lines offset (Suc k) ls = page_lines offset k ls @ [numbered (offset + k, ls ! (offset - 1 + k))]"
  by (simp add: page_lines_def take_Suc_conv_app_nth enumerate_append_eq)

lemma butlast_page_lines: "k < length ls - (offset - 1) \<Longrightarrow> butlast (page_lines offset (Suc k) ls) = page_lines offset k ls"
  by (simp add: page_lines_Suc)

text \<open>What the line counter reports of the first lines of a page.\<close>

definition counted_tokens :: "tokenizer \<Rightarrow> utf8 list \<Rightarrow> nat" where
  "counted_tokens T ls = lc_tokens (foldl (\<lambda>c l. push_line T l c) default_line_counter ls)"

definition overrun :: "tokenizer \<Rightarrow> nat \<Rightarrow> nat \<Rightarrow> utf8 list list \<Rightarrow> nat \<Rightarrow> bool" where
  "overrun T b offset ls k \<longleftrightarrow> 0 < k \<and> b < counted_tokens T (page_lines offset k ls)"

definition stored_as ::
    "tokenizer \<Rightarrow> nat \<Rightarrow> nat \<Rightarrow> nat \<Rightarrow> utf8 list list \<Rightarrow> utf8 list \<times> line_counter \<times> bool \<Rightarrow> nat \<Rightarrow> bool" where
  "stored_as T b offset final ls st k \<longleftrightarrow>
     (case st of (stored, c, full) \<Rightarrow>
        stored = page_lines offset k ls \<and> c = foldl (\<lambda>c l. push_line T l c) default_line_counter stored \<and>
        full = overrun T b offset ls k \<and> (\<forall>i < k. \<not> overrun T b offset ls i) \<and>
        k \<le> min final (length ls) + 1 - offset \<and> (offset \<le> length ls \<longrightarrow> 1 \<le> k) \<and>
        (\<not> full \<longrightarrow> k = min final (length ls) + 1 - offset))"

lemma stored_page:
  assumes "1 \<le> offset" "offset \<le> final"
  shows "\<exists>k. stored_as T b offset final ls (stored_lines T b offset final ls) k"
proof (induction ls rule: rev_induct)
  case Nil
  then show ?case using assms by (simp add: page_lines_def stored_as_def overrun_def)
next
  case (snoc l ls)
  obtain stored c full where st: "stored_lines T b offset final ls = (stored, c, full)"
    by (cases "stored_lines T b offset final ls")
  obtain k where "stored_as T b offset final ls (stored, c, full) k" using snoc unfolding st ..
  from this [unfolded stored_as_def prod.case] have k: "stored = page_lines offset k ls" "k \<le> min final (length ls) + 1 - offset"
    "offset \<le> length ls \<longrightarrow> 1 \<le> k" "\<not> full \<longrightarrow> k = min final (length ls) + 1 - offset"
    "c = foldl (\<lambda>c l. push_line T l c) default_line_counter stored"
    "full = overrun T b offset ls k" "\<forall>i < k. \<not> overrun T b offset ls i" by blast+
  have full: "full \<longrightarrow> 1 \<le> k" using k(6) by (simp add: overrun_def)
  have keep: "page_lines offset i (ls @ [l]) = page_lines offset i ls" if "i \<le> k" for i
    by (rule page_lines_append) (use that k(2) assms in linarith)
  then have over: "overrun T b offset (ls @ [l]) i = overrun T b offset ls i" if "i \<le> k" for i
    using that by (simp add: overrun_def)
  show ?case
  proof (cases "\<not> full \<and> offset \<le> length ls + 1 \<and> length ls + 1 \<le> final")
    case True
    with k(4) have ok: "offset + k = length ls + 1" by linarith
    note next_line = page_lines_next [OF assms(1) ok, of l]
    let ?N = "numbered (length ls + 1, l)"
    have page: "page_lines offset (k + 1) (ls @ [l]) = stored @ [?N]" using next_line k(1) ok by simp
    have none: "\<forall>i < k + 1. \<not> overrun T b offset (ls @ [l]) i"
      using over k(6,7) True by (auto simp: less_Suc_eq_le le_less)
    have here: "overrun T b offset (ls @ [l]) (k + 1) \<longleftrightarrow> b < lc_tokens (push_line T ?N c)"
      unfolding overrun_def counted_tokens_def page by (simp add: k(5))
    have next_st: "stored_lines T b offset final (ls @ [l]) =
        (stored @ [?N], push_line T ?N c, b < lc_tokens (push_line T ?N c))"
      using True by (simp add: stored_lines_snoc st store_def Let_def)
    have "stored_as T b offset final (ls @ [l]) (stored_lines T b offset final (ls @ [l])) (k + 1)"
      unfolding stored_as_def next_st prod.case page here
      using True ok k(5) none by auto
    then show ?thesis ..
  next
    case False
    have same: "stored_lines T b offset final (ls @ [l]) = (stored, c, full)"
      using False st by (auto simp: stored_lines_snoc store_def)
    have "stored_as T b offset final (ls @ [l]) (stored, c, full) k"
      unfolding stored_as_def prod.case
    proof (intro conjI)
      show "stored = page_lines offset k (ls @ [l])" using k(1) keep [of k] by simp
      show "full = overrun T b offset (ls @ [l]) k" using k(6) over [of k] by simp
      show "\<forall>i < k. \<not> overrun T b offset (ls @ [l]) i" using k(7) over by (simp add: less_imp_le)
      show "k \<le> min final (length (ls @ [l])) + 1 - offset" using k(2) by simp
      show "offset \<le> length (ls @ [l]) \<longrightarrow> 1 \<le> k"
        using k(3) full False assms by (cases "offset = length ls + 1") auto
      show "\<not> full \<longrightarrow> k = min final (length (ls @ [l])) + 1 - offset"
        using k(4) False by (auto simp: min_def)
    qed (rule k(5))
    then show ?thesis unfolding same ..
  qed
qed

lemma read_notes_total: "truncated \<Longrightarrow> \<not> known \<Longrightarrow> read_notes note truncated offset shown all known =
    read_notes note truncated offset shown all' known"
  by (simp add: read_notes_def Let_def)

text \<open>Shrinking finds the longest stored prefix that fits with its notes.\<close>

lemma shrink_longest:
  fixes audit :: "utf8 option"
  assumes st: "settled T s0 s ls" and off: "1 \<le> co_offset s0" and m: "1 \<le> m" "co_offset s0 + m - 1 \<le> length ls"
    and cutoff: "co_offset s0 + m - 1 \<le> co_request_end s0" and small: "length ls \<le> usize_max"
  defines "page \<equiv> page_text audit (co_offset s0) (co_saturated s) (co_total_is_known s0) ls"
  shows "k \<le> m \<Longrightarrow> full = (co_saturated s \<or> k < m) \<Longrightarrow>
    (\<exists>j. 1 \<le> j \<and> j \<le> k \<and>
       shrink_page T audit budget s (page_lines (co_offset s0) k ls) full = text_response (page j) \<and>
       estimate_tokens T (page j) \<le> tb_value budget \<and>
       (\<forall>i. j < i \<and> i \<le> k \<longrightarrow> tb_value budget < estimate_tokens T (page i))) \<or>
    (shrink_page T audit budget s (page_lines (co_offset s0) k ls) full = error_response (note_too_small budget) \<and>
       (\<forall>i. 1 \<le> i \<and> i \<le> k \<longrightarrow> tb_value budget < estimate_tokens T (page i)))"
proof (induction k arbitrary: full)
  case 0
  with m show ?case by (simp add: shrink_page.simps)
next
  case (Suc k)
  let ?off = "co_offset s0"
  have req: "co_offset s = ?off" "co_total_is_known s = co_total_is_known s0" "co_request_end s = co_request_end s0"
    using st by (simp_all add: settled_def same_request_def)
  have len: "length (page_lines ?off (Suc k) ls) = Suc k" using m Suc.prems off by simp
  have final: "sat_add ?off k = ?off + k" using m(2) Suc.prems small by (simp add: sat_add_exact)
  let ?t = "co_stopped_early s \<or> full \<or> ?off + k < co_total_lines s"
  have t: "?t \<longleftrightarrow> co_saturated s \<or> ?off + k < length ls"
    using st Suc.prems m cutoff by (auto simp: settled_def split: if_splits)
  have nts: "read_notes audit ?t ?off (Suc k) (co_total_lines s) (co_total_is_known s0) =
      read_notes audit (co_saturated s \<or> ?off + k < length ls) ?off (Suc k) (length ls) (co_total_is_known s0)"
    unfolding t
    by (cases "co_stopped_early s") (use st t in \<open>auto simp: settled_def intro: read_notes_total\<close>)
  have page: "assemble_text (page_lines ?off (Suc k) ls)
      (read_notes audit ?t ?off (Suc k) (co_total_lines s) (co_total_is_known s0)) = page (Suc k)"
    unfolding nts by (simp add: page_def page_text_def)
  have step: "shrink_page T audit budget s (page_lines ?off (Suc k) ls) full =
      (if estimate_tokens T (page (Suc k)) \<le> tb_value budget then text_response (page (Suc k))
       else shrink_page T audit budget s (page_lines ?off k ls) True)"
  proof -
    have ne: "page_lines ?off (Suc k) ls \<noteq> []" using len by (metis length_0_conv nat.distinct(1))
    have b: "butlast (page_lines ?off (Suc k) ls) = page_lines ?off k ls"
      using butlast_page_lines [of k ls ?off] m Suc.prems off by simp
    show ?thesis
      unfolding shrink_page.simps [of T audit budget s "page_lines ?off (Suc k) ls"] len Let_def req b
      using page final ne by simp
  qed
  show ?case
  proof (cases "estimate_tokens T (page (Suc k)) \<le> tb_value budget")
    case True
    with step show ?thesis by (intro disjI1 exI [of _ "Suc k"]) simp
  next
    case False
    have "k \<le> m" "True = (co_saturated s \<or> k < m)" using Suc.prems by auto
    from Suc.IH [OF this] False step show ?thesis
      by (auto simp: le_Suc_eq)
  qed
qed

section \<open>Properties\<close>

lemma text_lines_char_lines: "text_lines t = (if t = [] then 0 else min (length (char_lines (chars t))) usize_max)"
proof -
  have "length (filter ((=) nl) t) = length (filter ((=) [nl]) (chars t))"
  proof (induction t rule: chars.induct)
    case (2 c cs)
    have "filter ((=) nl) (takeWhile is_continuation cs) = []"
      by (auto simp: filter_empty_conv dest: set_takeWhileD)
    moreover have "filter ((=) nl) cs = filter ((=) nl) (takeWhile is_continuation cs) @
        filter ((=) nl) (dropWhile is_continuation cs)"
      by (metis filter_append takeWhile_dropWhile_id)
    ultimately show ?case using 2 by auto
  qed simp
  then show ?thesis by (simp add: text_lines_def length_char_lines)
qed

lemma collect_text_settled:
  assumes D: "crates_ok D" and dec: "strict_decode D (de_kind (ve_detected v)) (concat (tf_reads f)) = Some t"
    and t: "length t + 1 < usize_max" "t \<noteq> []" and off: "offset \<le> usize_max"
  shows "\<exists>s. collect_text T D f v (new_collector offset limit b known) = Inr s \<and>
    settled T (new_collector offset limit b known) s (char_lines (chars t))"
  using line_sink.stream_text_exact [OF D dec] collect_whole [OF t off, of T limit b known]
  by (cases "collector_push T t (new_collector offset limit b known)")
    (auto simp: collect_text_def split: bool.splits)



end
