(* ===== verification/Hex_View.thy ===== *)
theory Hex_View
  imports Text_Read
begin

text \<open>
  The hexadecimal view of the read tool (\<open>src/src/read_tool/hex_file.rs\<close>): sixteen bytes a line, a
  page shrunk into the token budget. The bytes of the file are an argument; failing reads are left
  out.
\<close>

section \<open>Lines\<close>

definition bytes_per_line :: nat where
  "bytes_per_line = 16"

definition default_hex_line_limit :: nat where
  "default_hex_line_limit = 2000"

definition hex_digit :: "nat \<Rightarrow> char" where
  "hex_digit d = char_of (if d < 10 then 48 + d else 87 + d)"

fun show_hex :: "nat \<Rightarrow> utf8" where
  "show_hex n = (if n < 16 then [hex_digit n] else show_hex (n div 16) @ [hex_digit (n mod 16)])"

declare show_hex.simps [simp del]

text \<open>\<open>{:08x}\<close> and \<open>{:02x}\<close>\<close>

definition padded_hex :: "nat \<Rightarrow> nat \<Rightarrow> utf8" where
  "padded_hex width n = (let digits = show_hex n in replicate (width - length digits) (CHR ''0'') @ digits)"

definition hex_cell :: "byte list \<Rightarrow> nat \<Rightarrow> utf8" where
  "hex_cell bs i =
     (if 0 < i then '' '' else []) @ (if i = 8 then '' '' else []) @
     (if i < length bs then padded_hex 2 (unat (bs ! i)) else ''  '')"

definition hex_column :: "byte list \<Rightarrow> utf8" where
  "hex_column bs = concat (map (hex_cell bs) [0..<bytes_per_line])"

definition printable :: "byte \<Rightarrow> char" where
  "printable b = (if 0x20 \<le> unat b \<and> unat b \<le> 0x7E then char_of (unat b) else CHR ''.'')"

definition format_hex_line :: "nat \<Rightarrow> byte list \<Rightarrow> utf8" where
  "format_hex_line offset bs =
     padded_hex 8 offset @ ''  '' @ hex_column bs @ ''  |'' @ map printable bs @ ''|''"

section \<open>The page\<close>

definition hex_terminal :: "nat \<Rightarrow> nat \<Rightarrow> nat \<Rightarrow> utf8" where
  "hex_terminal first final all =
     (if final < all
      then ''(Partial: '' @ line_span first final @ '' of '' @ show_nat all @ '' shown. Continue with offset='' @
        show_nat (final + 1) @ ''.)''
      else ''(Complete: reached end of file; '' @ line_span first final @ '' of '' @ show_nat all @ '' shown.)'')"

text \<open>The read loop: a line is read completely before the next one, and an empty read ends the file.\<close>

fun hex_lines :: "nat \<Rightarrow> nat \<Rightarrow> byte list \<Rightarrow> utf8 list" where
  "hex_lines byte_offset 0 bs = []"
| "hex_lines byte_offset (Suc n) bs =
     (if bs = [] then []
      else format_hex_line byte_offset (take bytes_per_line bs) #
        hex_lines (byte_offset + bytes_per_line) n (drop bytes_per_line bs))"

function shrink_hex :: "tokenizer \<Rightarrow> token_budget \<Rightarrow> nat \<Rightarrow> nat \<Rightarrow> utf8 list \<Rightarrow> tool_response" where
  "shrink_hex T budget first all rendered =
     (if rendered = [] then error_response (note_too_small budget)
      else
        let final = first + length rendered - 1;
            output = assemble_text rendered [hex_terminal first final all] in
        if estimate_tokens T output \<le> tb_value budget then text_response output
        else shrink_hex T budget first all (butlast rendered))"
  by pat_completeness auto
termination
  by (relation "measure (\<lambda>(T, b, f, a, r). length r)") auto

declare shrink_hex.simps [simp del]

definition hex_line_count :: "byte list \<Rightarrow> nat" where
  "hex_line_count bs =
     length bs div bytes_per_line + (if length bs mod bytes_per_line \<noteq> 0 then 1 else 0)"

definition read_hex_file ::
    "tokenizer \<Rightarrow> byte list \<Rightarrow> nat option \<Rightarrow> nat option \<Rightarrow> token_budget \<Rightarrow> tool_response" where
  "read_hex_file T bs offset limit budget =
     (let offset = (case offset of None \<Rightarrow> 1 | Some n \<Rightarrow> n);
          limit = (case limit of None \<Rightarrow> default_hex_line_limit | Some n \<Rightarrow> n) in
      if offset = 0 then error_response (invalid_zero ''offset'')
      else if limit = 0 then error_response (invalid_zero ''limit'')
      else if bs = [] then text_response ''Warning: the file exists but is empty.''
      else
        let all = hex_line_count bs in
        if all < offset then text_response (beyond_end all offset)
        else
          let byte_offset = (offset - 1) * bytes_per_line;
              remaining = all - offset + 1;
              budget_probe = sat_add (sat_mul (tb_value budget) 4) 1;
              candidates = min (min remaining limit) (max budget_probe 1) in
          shrink_hex T budget offset all (hex_lines byte_offset candidates (drop byte_offset bs)))"

section \<open>A line can be read back\<close>

definition hex_value :: "char \<Rightarrow> nat option" where
  "hex_value c =
     (let v = of_char c :: nat in
      if 48 \<le> v \<and> v < 58 then Some (v - 48) else if 97 \<le> v \<and> v < 103 then Some (v - 87) else None)"

fun decode_cell :: "utf8 \<Rightarrow> byte option" where
  "decode_cell [a, b] =
     (case (hex_value a, hex_value b) of (Some x, Some y) \<Rightarrow> Some (of_nat (16 * x + y)) | _ \<Rightarrow> None)"
| "decode_cell _ = None"

definition cell_position :: "nat \<Rightarrow> nat" where
  "cell_position i = 3 * i + (if 8 \<le> i then 1 else 0)"

definition decode_column :: "utf8 \<Rightarrow> byte list" where
  "decode_column col =
     List.map_filter (\<lambda>i. decode_cell (take 2 (drop (cell_position i) col))) [0..<bytes_per_line]"

definition decode_hex_line :: "utf8 \<Rightarrow> byte list" where
  "decode_hex_line line = decode_column (take 48 (drop 2 (dropWhile (\<lambda>c. c \<noteq> CHR '' '') line)))"

lemma hex_value_digit [simp]: "d < 16 \<Longrightarrow> hex_value (hex_digit d) = Some d"
  by (simp add: hex_value_def hex_digit_def Let_def)

lemma hex_digit_no_space: "\<not> (d < 16 \<and> hex_digit d = CHR '' '')"
proof (rule notI, elim conjE)
  assume "d < 16" "hex_digit d = CHR '' ''"
  moreover have "hex_value (CHR '' '') = None" by code_simp
  ultimately show False using hex_value_digit [of d] by simp
qed

lemma two_digits: "n < 256 \<Longrightarrow> padded_hex 2 n = [hex_digit (n div 16), hex_digit (n mod 16)]"
proof -
  assume "n < 256"
  then have "n div 16 < 16" by simp
  moreover have "hex_digit 0 = CHR ''0''" by code_simp
  ultimately show ?thesis
    by (cases "n < 16") (simp_all add: padded_hex_def show_hex.simps [of n] show_hex.simps [of "n div 16"] Let_def)
qed

lemma cell_decodes:
  "decode_cell (padded_hex 2 (unat (b :: byte))) = Some b" "decode_cell ''  '' = None"
proof -
  have "unat b < 256" using unsigned_less [of b] by simp
  then show "decode_cell (padded_hex 2 (unat b)) = Some b" by (simp add: two_digits)
  show "decode_cell ''  '' = None" by (simp add: hex_value_def)
qed

definition cell_text :: "byte list \<Rightarrow> nat \<Rightarrow> utf8" where
  "cell_text bs i = (if i < length bs then padded_hex 2 (unat (bs ! i)) else ''  '')"

lemma length_cell_text [simp]: "length (cell_text bs i) = 2"
proof -
  have "unat b < 256" for b :: byte using unsigned_less [of b] by simp
  then show ?thesis by (simp add: cell_text_def two_digits)
qed

lemma cell_prefix:
  "length (concat (map (hex_cell bs) [0..<i])) = (if i = 0 then 0 else cell_position i - (if i = 8 then 2 else 1))"
proof (induction i)
  case (Suc i)
  have "length (hex_cell bs i) = 2 + (if 0 < i then 1 else 0) + (if i = 8 then 1 else 0)"
    using length_cell_text [of bs i] by (simp add: hex_cell_def cell_text_def)
  with Suc show ?case by (auto simp: cell_position_def)
qed simp

lemma column_cell:
  assumes "i < bytes_per_line"
  shows "take 2 (drop (cell_position i) (hex_column bs)) = cell_text bs i"
proof -
  have s: "[0..<bytes_per_line] = [0..<i] @ i # [Suc i..<bytes_per_line]"
    using assms by (metis upt_add_eq_append less_imp_le_nat le0 upt_conv_Cons add_0 le_add_diff_inverse)
  let ?a = "concat (map (hex_cell bs) [0..<i])"
  have h: "hex_cell bs i = ((if 0 < i then '' '' else []) @ (if i = 8 then '' '' else [])) @ cell_text bs i"
    by (simp add: hex_cell_def cell_text_def)
  have "hex_column bs = (?a @ (if 0 < i then '' '' else []) @ (if i = 8 then '' '' else [])) @
      cell_text bs i @ concat (map (hex_cell bs) [Suc i..<bytes_per_line])"
    unfolding hex_column_def s by (simp add: h)
  moreover have "length (?a @ (if 0 < i then '' '' else []) @ (if i = 8 then '' '' else [])) = cell_position i"
    using cell_prefix [of bs i] by (auto simp: cell_position_def)
  ultimately show ?thesis using length_cell_text [of bs i]
    by (metis append_eq_conv_conj)
qed

lemma map_filter_cong: "(\<And>x. x \<in> set xs \<Longrightarrow> f x = g x) \<Longrightarrow> List.map_filter f xs = List.map_filter g xs"
  by (induction xs) (auto split: option.split)

lemma decode_column_id:
  assumes "length bs \<le> bytes_per_line"
  shows "decode_column (hex_column bs) = bs" "length (hex_column bs) = 48"
proof -
  have "decode_column (hex_column bs) =
      List.map_filter (\<lambda>i. decode_cell (cell_text bs i)) [0..<bytes_per_line]"
    unfolding decode_column_def by (rule map_filter_cong) (simp add: column_cell)
  also have "\<dots> = List.map_filter (\<lambda>i. if i < length bs then Some (bs ! i) else None) [0..<bytes_per_line]"
    by (rule map_filter_cong) (simp add: cell_text_def cell_decodes del: decode_cell.simps)
  also have "\<dots> = map ((!) bs) (filter (\<lambda>i. i < length bs) [0..<bytes_per_line])"
    by (rule map_filter_map_filter [symmetric])
  also have "[0..<bytes_per_line] = [0..<length bs] @ [length bs..<bytes_per_line]"
    using assms by (metis le0 le_add_diff_inverse upt_add_eq_append)
  also have "filter (\<lambda>i. i < length bs) \<dots> = [0..<length bs]" by (simp add: filter_id_conv filter_empty_conv)
  finally show "decode_column (hex_column bs) = bs" by (simp add: map_nth)
  show "length (hex_column bs) = 48"
    using cell_prefix [of bs bytes_per_line] by (simp add: hex_column_def bytes_per_line_def cell_position_def)
qed

lemma show_hex_digits: "c \<in> set (show_hex n) \<Longrightarrow> \<exists>d < 16. c = hex_digit d"
proof (induction n rule: show_hex.induct)
  case (1 n)
  show ?case
  proof (cases "n < 16")
    case True
    with 1 show ?thesis by (auto simp: show_hex.simps [of n])
  next
    case False
    with "1.prems" have "c \<in> set (show_hex (n div 16)) \<or> c = hex_digit (n mod 16)"
      by (auto simp: show_hex.simps [of n])
    with "1.IH" [OF False] show ?thesis by (auto intro: exI [of _ "n mod 16"])
  qed
qed

lemma padded_hex_no_space: "CHR '' '' \<notin> set (padded_hex w n)"
proof
  assume "CHR '' '' \<in> set (padded_hex w n)"
  then have "CHR '' '' \<in> set (show_hex n)" by (auto simp: padded_hex_def Let_def)
  with show_hex_digits hex_digit_no_space show False by metis
qed

lemma decode_hex_line_id:
  assumes "length bs \<le> bytes_per_line"
  shows "decode_hex_line (format_hex_line offset bs) = bs"
proof -
  have "dropWhile (\<lambda>c. c \<noteq> CHR '' '') (format_hex_line offset bs) =
      ''  '' @ hex_column bs @ ''  |'' @ map printable bs @ ''|''"
    unfolding format_hex_line_def
    using padded_hex_no_space [of 8 offset] by (subst dropWhile_append2) auto
  then show ?thesis by (simp add: decode_hex_line_def decode_column_id [OF assms])
qed

lemma hex_lines_bytes: "concat (map decode_hex_line (hex_lines b n bs)) = take (n * bytes_per_line) bs"
  by (induction b n bs rule: hex_lines.induct) (auto simp: decode_hex_line_id take_add add.commute)

lemma hex_lines_take: "k \<le> n \<Longrightarrow> take k (hex_lines b n bs) = hex_lines b k bs"
proof (induction b n bs arbitrary: k rule: hex_lines.induct)
  case (2 b n bs)
  then show ?case by (cases k) auto
qed simp

lemma length_hex_lines: "(n - 1) * bytes_per_line < length bs \<Longrightarrow> length (hex_lines b n bs) = n"
proof (induction b n bs rule: hex_lines.induct)
  case (2 b n bs)
  then show ?case by (cases n) (auto simp: bytes_per_line_def)
qed simp

text \<open>Shrinking finds the longest page that fits.\<close>

definition hex_page :: "nat \<Rightarrow> byte list \<Rightarrow> nat \<Rightarrow> utf8" where
  "hex_page offset bs k =
     assemble_text (hex_lines ((offset - 1) * bytes_per_line) k (drop ((offset - 1) * bytes_per_line) bs))
       [hex_terminal offset (offset + k - 1) (hex_line_count bs)]"

lemma shrink_hex_longest:
  fixes bs :: "byte list" and offset :: nat
  defines "start \<equiv> (offset - 1) * bytes_per_line"
  assumes "1 \<le> offset"
  shows "(k - 1) * bytes_per_line < length (drop start bs) \<Longrightarrow>
    (\<exists>j. 1 \<le> j \<and> j \<le> k \<and> shrink_hex T budget offset (hex_line_count bs) (hex_lines start k (drop start bs)) =
         text_response (hex_page offset bs j) \<and> estimate_tokens T (hex_page offset bs j) \<le> tb_value budget \<and>
       (\<forall>i. j < i \<and> i \<le> k \<longrightarrow> tb_value budget < estimate_tokens T (hex_page offset bs i))) \<or>
    (shrink_hex T budget offset (hex_line_count bs) (hex_lines start k (drop start bs)) =
       error_response (note_too_small budget) \<and>
       (\<forall>i. 1 \<le> i \<and> i \<le> k \<longrightarrow> tb_value budget < estimate_tokens T (hex_page offset bs i)))"
proof (induction k)
  case 0
  show ?case by (simp add: shrink_hex.simps)
next
  case (Suc k)
  let ?d = "drop start bs" and ?all = "hex_line_count bs"
  have len: "length (hex_lines start (Suc k) ?d) = Suc k" by (rule length_hex_lines [OF Suc.prems])
  then have ne: "hex_lines start (Suc k) ?d \<noteq> []" by (metis length_0_conv nat.distinct(1))
  have b: "butlast (hex_lines start (Suc k) ?d) = hex_lines start k ?d"
    using hex_lines_take [of k "Suc k" start ?d] len by (simp add: butlast_conv_take)
  have page: "assemble_text (hex_lines start (Suc k) ?d) [hex_terminal offset (offset + k) ?all] = hex_page offset bs (Suc k)"
    using assms(2) by (simp add: hex_page_def start_def)
  have step: "shrink_hex T budget offset ?all (hex_lines start (Suc k) ?d) =
      (if estimate_tokens T (hex_page offset bs (Suc k)) \<le> tb_value budget then text_response (hex_page offset bs (Suc k))
       else shrink_hex T budget offset ?all (hex_lines start k ?d))"
    unfolding shrink_hex.simps [of T budget offset ?all "hex_lines start (Suc k) ?d"] len Let_def b
    using page ne by simp
  have "(k - 1) * bytes_per_line < length ?d"
    using Suc.prems by (cases k) auto
  from Suc.IH [OF this] step show ?case
    by (cases "estimate_tokens T (hex_page offset bs (Suc k)) \<le> tb_value budget") (auto simp: le_Suc_eq)
qed

section \<open>Properties\<close>

text \<open>
  C32. The hexadecimal view: an accepted request lists the longest run of sixteen-byte lines from the
  requested line, within the limit and the probe of the budget, whose text fits the budget with its
  terminal note. The bytes can be read back from the lines shown: they are exactly the bytes of the
  file from the first line shown to the last, so nothing is skipped between a page and the line its
  note says to continue with.
\<close>

theorem hex_view_page:
  assumes req: "1 \<le> offset" "1 \<le> limit" and bs: "bs \<noteq> []"
  shows "let all = hex_line_count bs;
      response = read_hex_file T bs (Some offset) (Some limit) budget;
      reach = min (min (all - offset + 1) limit) (max (sat_add (sat_mul (tb_value budget) 4) 1) 1);
      fits = (\<lambda>i. estimate_tokens T (hex_page offset bs i) \<le> tb_value budget);
      start = (offset - 1) * bytes_per_line in
    if all < offset then response = text_response (beyond_end all offset)
    else ((\<exists>j. 1 \<le> j \<and> j \<le> reach \<and> response = text_response (hex_page offset bs j) \<and> fits j \<and>
           (\<forall>i. j < i \<and> i \<le> reach \<longrightarrow> \<not> fits i)) \<or>
          (response = error_response (note_too_small budget) \<and> (\<forall>i. 1 \<le> i \<and> i \<le> reach \<longrightarrow> \<not> fits i))) \<and>
      (\<forall>j. concat (map decode_hex_line (hex_lines start j (drop start bs))) =
         take (j * bytes_per_line) (drop start bs))"
proof (cases "hex_line_count bs < offset")
  case True
  with req bs show ?thesis by (simp add: read_hex_file_def Let_def)
next
  case False
  let ?all = "hex_line_count bs" and ?start = "(offset - 1) * bytes_per_line"
  let ?reach = "min (min (?all - offset + 1) limit) (max (sat_add (sat_mul (tb_value budget) 4) 1) 1)"
  have "(?all - 1) * bytes_per_line < length bs"
  proof -
    obtain q r where qr: "length bs div 16 = q" "length bs mod 16 = r" by blast
    then have "length bs = q * 16 + r" by (metis div_mult_mod_eq)
    with qr bs show ?thesis by (cases q) (auto simp: hex_line_count_def bytes_per_line_def)
  qed
  moreover have "offset - 1 + (?reach - 1) \<le> ?all - 1" using False req by simp
  ultimately have "(?reach - 1) * bytes_per_line < length (drop ?start bs)"
    by (simp add: bytes_per_line_def less_diff_conv)
  from shrink_hex_longest [OF req(1) this, of T budget]
  have page: "(\<exists>j. 1 \<le> j \<and> j \<le> ?reach \<and>
        read_hex_file T bs (Some offset) (Some limit) budget = text_response (hex_page offset bs j) \<and>
        estimate_tokens T (hex_page offset bs j) \<le> tb_value budget \<and>
        (\<forall>i. j < i \<and> i \<le> ?reach \<longrightarrow> tb_value budget < estimate_tokens T (hex_page offset bs i))) \<or>
      (read_hex_file T bs (Some offset) (Some limit) budget = error_response (note_too_small budget) \<and>
        (\<forall>i. 1 \<le> i \<and> i \<le> ?reach \<longrightarrow> tb_value budget < estimate_tokens T (hex_page offset bs i)))"
    using req bs False by (simp add: read_hex_file_def Let_def)
  show ?thesis
    using False page unfolding Let_def by (simp add: not_le hex_lines_bytes)
qed

theorem hex_view_page_witness:
  "read_hex_file byte_tokenizer [0x41, 10] (Some 1) (Some 1) \<lparr>tb_value = 500, tb_variable = ''B''\<rparr> =
     text_response (hex_page 1 [0x41, 10] 1) \<and>
   concat (map decode_hex_line (hex_lines 0 1 [0x41, 10])) = [0x41, 10]"
proof -
  let ?b = "\<lparr>tb_value = 500, tb_variable = ''B''\<rparr> :: token_budget"
  have count: "hex_line_count [0x41, 10] = 1" by (simp add: hex_line_count_def bytes_per_line_def)
  have "length (hex_page 1 [0x41, 10] 1) \<le> 500" by code_simp
  with hex_view_page [of 1 1 "[0x41, 10]" byte_tokenizer ?b] show ?thesis
    by (auto simp: count byte_tokens bytes_per_line_def Let_def le_Suc_eq dest: spec [of _ "1 :: nat"])
qed

end
