(* ===== verification/Paths.thy ===== *)
theory Paths
  imports Token_Budget
begin

text \<open>
  Input paths and their display form on Unix (\<open>src/src/paths.rs\<close>): separators, local file URIs, and
  the messages for missing files. The operating system and the crates url, dunce and strsim are the
  parameter \<open>host\<close>; a path is its text.
\<close>

section \<open>The host\<close>

record parsed_url =
  pu_has_user :: bool
  pu_has_port :: bool
  pu_has_query :: bool
  pu_has_fragment :: bool
  pu_host :: "utf8 option"
  pu_file_path :: "utf8 option"

record host =
  ho_cwd :: "utf8 option"
  ho_canonical :: "utf8 \<Rightarrow> utf8 option"
  ho_exists :: "utf8 \<Rightarrow> bool"
  ho_nearest :: "utf8 \<Rightarrow> utf8 option"
  ho_parse_url :: "utf8 \<Rightarrow> utf8 + parsed_url"

section \<open>Paths\<close>

definition backslash :: char where
  "backslash = CHR 0x5C"

definition to_slashes :: "utf8 \<Rightarrow> utf8" where
  "to_slashes t = map (\<lambda>c. if c = backslash then CHR ''/'' else c) t"

definition parse_input_path :: "utf8 \<Rightarrow> utf8" where
  "parse_input_path input = to_slashes input"

definition is_absolute :: "utf8 \<Rightarrow> bool" where
  "is_absolute p \<longleftrightarrow> p \<noteq> [] \<and> hd p = CHR ''/''"

definition join_path :: "utf8 \<Rightarrow> utf8 \<Rightarrow> utf8" where
  "join_path base p =
     (if is_absolute p then p
      else if base = [] \<or> List.last base = CHR ''/'' then base @ p else base @ ''/'' @ p)"

definition strip_prefix :: "utf8 \<Rightarrow> utf8 \<Rightarrow> utf8 option" where
  "strip_prefix p t = (if take (length p) t = p then Some (drop (length p) t) else None)"

definition display_path :: "utf8 \<Rightarrow> utf8" where
  "display_path path =
     (let v = to_slashes path in
      case strip_prefix ''//?/UNC/'' v of
        Some rest \<Rightarrow> ''//'' @ rest
      | None \<Rightarrow> (case strip_prefix ''//?/'' v of Some rest \<Rightarrow> rest | None \<Rightarrow> v))"

section \<open>Local file URIs\<close>

definition ascii_alphabetic :: "char \<Rightarrow> bool" where
  "ascii_alphabetic c \<longleftrightarrow> (let v = of_char c :: nat in (65 \<le> v \<and> v \<le> 90) \<or> (97 \<le> v \<and> v \<le> 122))"

definition ascii_digit :: "char \<Rightarrow> bool" where
  "ascii_digit c \<longleftrightarrow> (let v = of_char c :: nat in 48 \<le> v \<and> v \<le> 57)"

definition hex_digit_char :: "char \<Rightarrow> bool" where
  "hex_digit_char c \<longleftrightarrow>
     (let v = of_char c :: nat in ascii_digit c \<or> (65 \<le> v \<and> v \<le> 70) \<or> (97 \<le> v \<and> v \<le> 102))"

definition scheme_char :: "char \<Rightarrow> bool" where
  "scheme_char c \<longleftrightarrow> ascii_alphabetic c \<or> ascii_digit c \<or> c \<in> {CHR ''+'', CHR ''-'', CHR ''.''}"

definition uri_scheme :: "utf8 \<Rightarrow> utf8 option" where
  "uri_scheme input =
     (if CHR '':'' \<notin> set input then None
      else
        let scheme = takeWhile (\<lambda>c. c \<noteq> CHR '':'') input in
        if length scheme < 2 then None
        else if ascii_alphabetic (hd scheme) \<and> list_all scheme_char (tl scheme) then Some scheme else None)"

definition same_ignoring_case :: "utf8 \<Rightarrow> utf8 \<Rightarrow> bool" where
  "same_ignoring_case a b \<longleftrightarrow> map Token_Budget.ascii_lower a = map Token_Budget.ascii_lower b"

fun has_valid_percent_escapes :: "utf8 \<Rightarrow> bool" where
  "has_valid_percent_escapes [] = True"
| "has_valid_percent_escapes (c # cs) =
     (if c \<noteq> CHR ''%'' then has_valid_percent_escapes cs
      else case cs of
          a # b # rest \<Rightarrow> hex_digit_char a \<and> hex_digit_char b \<and> has_valid_percent_escapes rest
        | _ \<Rightarrow> False)"

definition uri_error :: "utf8 \<Rightarrow> utf8 + 'a" where
  "uri_error t = Inl (''Invalid local file URI: '' @ t)"

definition is_local_file_uri_input :: "utf8 \<Rightarrow> bool" where
  "is_local_file_uri_input input =
     (case uri_scheme input of None \<Rightarrow> False | Some scheme \<Rightarrow> same_ignoring_case scheme ''file'')"

definition uri_authority :: "utf8 \<Rightarrow> utf8" where
  "uri_authority t = takeWhile (\<lambda>c. c \<notin> {CHR ''/'', backslash, CHR ''?'', CHR ''#''}) t"

definition parse_local_path_input :: "host \<Rightarrow> utf8 \<Rightarrow> utf8 + utf8" where
  "parse_local_path_input H input =
     (case uri_scheme input of
        None \<Rightarrow> Inr (parse_input_path input)
      | Some scheme \<Rightarrow>
          if \<not> same_ignoring_case scheme ''file''
          then Inl (''Unsupported URI scheme '' @ dq @ map Token_Budget.ascii_lower scheme @ dq @
            '' for a local filesystem path.'')
          else if take 2 (drop (length scheme + 1) input) \<noteq> ''//''
          then uri_error ''expected an absolute URI with a local authority.''
          else if \<not> has_valid_percent_escapes input then uri_error ''malformed percent escape.''
          else
            let authority = uri_authority (drop (length scheme + 3) input) in
            case ho_parse_url H input of
              Inl e \<Rightarrow> uri_error (e @ ''.'')
            | Inr u \<Rightarrow>
                if pu_has_user u \<or> pu_has_port u
                then uri_error ''user information and ports are not supported.''
                else if pu_has_query u \<or> pu_has_fragment u
                then uri_error ''query and fragment components are not supported.''
                else if (authority \<noteq> [] \<and> \<not> same_ignoring_case authority ''localhost'') \<or>
                  (case pu_host u of None \<Rightarrow> False | Some h \<Rightarrow> \<not> same_ignoring_case h ''localhost'')
                then uri_error ''remote authorities are not supported.''
                else case pu_file_path u of
                    None \<Rightarrow> uri_error ''it cannot be represented as a local filesystem path.''
                  | Some path \<Rightarrow>
                      if CHR 0x00 \<in> set path then uri_error ''the decoded path contains a NUL byte.''
                      else if \<not> is_absolute path then uri_error ''the decoded path is not absolute.''
                      else Inr path)"

section \<open>Messages\<close>

definition current_dir_display :: "host \<Rightarrow> utf8" where
  "current_dir_display H =
     (case ho_cwd H of
        None \<Rightarrow> ''.''
      | Some p \<Rightarrow> display_path (case ho_canonical H p of None \<Rightarrow> p | Some q \<Rightarrow> q))"

definition or_self :: "utf8 option \<Rightarrow> utf8 \<Rightarrow> utf8" where
  "or_self v p = (case v of None \<Rightarrow> p | Some q \<Rightarrow> q)"

definition missing_file_message :: "host \<Rightarrow> utf8 \<Rightarrow> utf8" where
  "missing_file_message H input =
     (let cwd = or_self (ho_cwd H) ''.'';
          parsed = parse_input_path input;
          resolved = (if is_absolute parsed then parsed else join_path cwd parsed);
          requested = (if is_absolute parsed then display_path parsed else to_slashes input) in
      ''File does not exist: '' @ requested @ [nl] @
      ''Note: the session working directory is '' @ current_dir_display H @ ''.'' @
      (if \<not> is_absolute parsed \<and> ho_exists H resolved
       then '' Use the absolute path '' @ display_path (or_self (ho_canonical H resolved) resolved) @ ''.''
       else []) @
      (case ho_nearest H resolved of
         None \<Rightarrow> []
       | Some c \<Rightarrow> [nl] @ ''Did you mean: '' @ display_path (or_self (ho_canonical H c) c) @ ''?''))"

definition replacement_char :: utf8 where
  "replacement_char = [CHR 0xEF, CHR 0xBF, CHR 0xBD]"

definition missing_read_file_message :: "host \<Rightarrow> utf8 \<Rightarrow> utf8" where
  "missing_read_file_message H input =
     missing_file_message H input @
     (if contains input replacement_char
      then [nl] @ ''Note: this path contains U+FFFD (a placeholder for bytes that are not valid text); it looks like the lossy rendering of a filename that cannot be represented as text and cannot be opened by name.''
      else [])"

definition missing_search_path_message :: "host \<Rightarrow> utf8 \<Rightarrow> utf8" where
  "missing_search_path_message H input =
     (let cwd = or_self (ho_cwd H) ''.'';
          parsed = parse_input_path input;
          resolved = (if is_absolute parsed then parsed else join_path cwd parsed) in
      ''Path does not exist: '' @ to_slashes input @ [nl] @
      ''Note: the session working directory is '' @ current_dir_display H @ ''.'' @
      (if \<not> is_absolute input \<and> ho_exists H resolved
       then '' Use the absolute path '' @ display_path (or_self (ho_canonical H resolved) resolved) @ ''.''
       else []))"

datatype open_failure = PermissionDenied | OtherFailure utf8

definition io_error_message :: "utf8 \<Rightarrow> open_failure \<Rightarrow> utf8" where
  "io_error_message path e =
     (case e of
        PermissionDenied \<Rightarrow> ''Permission denied: '' @ display_path path
      | OtherFailure t \<Rightarrow> ''Cannot open file: '' @ display_path path @ '' ('' @ t @ '')'')"

section \<open>Absolute paths are plain\<close>

lemma absolute_input:
  assumes "is_absolute p"
  shows "parse_local_path_input H p = Inr (parse_input_path p)" "\<not> is_local_file_uri_input p"
proof -
  from assms obtain t where p: "p = CHR ''/'' # t" by (cases p) (auto simp: is_absolute_def)
  have "uri_scheme p = None"
    by (cases "takeWhile (\<lambda>c. c \<noteq> CHR '':'') t") (simp_all add: p uri_scheme_def ascii_alphabetic_def Let_def)
  then show "parse_local_path_input H p = Inr (parse_input_path p)" "\<not> is_local_file_uri_input p"
    by (simp_all add: parse_local_path_input_def is_local_file_uri_input_def)
qed

lemma to_slashes_id: "backslash \<notin> set t \<Longrightarrow> to_slashes t = t"
  by (auto simp: to_slashes_def intro: map_idI)

text \<open>A host for concrete inputs; its URL parser answers every input alike.\<close>

definition plain_host :: host where
  "plain_host = \<lparr>ho_cwd = None, ho_canonical = Some, ho_exists = (\<lambda>_. True), ho_nearest = (\<lambda>_. None),
     ho_parse_url = (\<lambda>_. Inr \<lparr>pu_has_user = False, pu_has_port = False, pu_has_query = False,
       pu_has_fragment = False, pu_host = None, pu_file_path = Some (CHR ''/'' # ''a'' @ [backslash] @ ''b'')\<rparr>)\<rparr>"

end
