(* ===== verification/Batch_Read.thy ===== *)
theory Batch_Read
  imports Hex_View Paths
begin

text \<open>
  Request dispatch and text batches of the read tool (\<open>src/src/read_tool/mod.rs\<close>,
  \<open>src/src/read_tool/batch.rs\<close>): validation of the entries, packing them into one shared budget, and
  the continuation that resumes exactly where the response stopped. The file system, the PDF and
  image channels and the JSON printer (serde_json) are parameters.
\<close>

section \<open>The file system\<close>

datatype file_kind = RegularFile | DirectoryFile | SpecialFile

datatype metadata_failure = NotFound | MetadataFailure open_failure

record files =
  fi_host :: host
  fi_metadata :: "utf8 \<Rightarrow> metadata_failure + file_kind"
  fi_prefix :: "utf8 \<Rightarrow> open_failure + byte list"
  fi_text :: "utf8 \<Rightarrow> text_file"
  fi_bytes :: "utf8 \<Rightarrow> byte list"
  fi_read_pdf :: "utf8 \<Rightarrow> utf8 option \<Rightarrow> bool \<Rightarrow> token_budget option \<Rightarrow> tool_response"
  fi_read_image :: "utf8 \<Rightarrow> tool_response"

section \<open>File types\<close>

definition extension :: "utf8 \<Rightarrow> utf8 option" where
  "extension path =
     (let name = rev (takeWhile (\<lambda>c. c \<noteq> CHR ''/'') (rev path));
          ext = rev (takeWhile (\<lambda>c. c \<noteq> CHR ''.'') (rev name)) in
      if CHR ''.'' \<notin> set name \<or> length ext + 1 = length name then None else Some ext)"

definition is_pdf :: "utf8 \<Rightarrow> byte list \<Rightarrow> bool" where
  "is_pdf path bs \<longleftrightarrow>
     begins bs (ascii_bytes ''%PDF'') \<or>
     (case extension path of None \<Rightarrow> False | Some e \<Rightarrow> same_ignoring_case e ''pdf'')"

definition detect_image_mime :: "utf8 \<Rightarrow> byte list \<Rightarrow> utf8 option" where
  "detect_image_mime path bs =
     (if begins bs ([0x89] @ ascii_bytes ''PNG'' @ [0x0D, 0x0A, 0x1A, 0x0A]) then Some ''image/png''
      else if begins bs [0xFF, 0xD8, 0xFF] then Some ''image/jpeg''
      else if begins bs (ascii_bytes ''GIF87a'') \<or> begins bs (ascii_bytes ''GIF89a'') then Some ''image/gif''
      else if 12 \<le> length bs \<and> begins bs (ascii_bytes ''RIFF'') \<and> take 4 (drop 8 bs) = ascii_bytes ''WEBP''
      then Some ''image/webp''
      else if begins bs (ascii_bytes ''BM'') then Some ''image/bmp''
      else case map_option (map Token_Budget.ascii_lower) (extension path) of
          None \<Rightarrow> None
        | Some e \<Rightarrow>
            if e = ''png'' then Some ''image/png''
            else if e = ''jpg'' \<or> e = ''jpeg'' then Some ''image/jpeg''
            else if e = ''gif'' then Some ''image/gif''
            else if e = ''webp'' then Some ''image/webp''
            else if e = ''bmp'' then Some ''image/bmp''
            else None)"

section \<open>Entries\<close>

definition max_batch_entries :: nat where
  "max_batch_entries = 32"

record batch_entry =
  be_path :: utf8
  be_offset :: "nat option"
  be_limit :: "nat option"
  be_encoding :: "utf8 option"

record continuation =
  cn_path :: utf8
  cn_offset :: "nat option"
  cn_limit :: "nat option"
  cn_encoding :: "utf8 option"

type_synonym json_printer = "continuation list \<Rightarrow> utf8"

definition from_request :: "batch_entry \<Rightarrow> continuation" where
  "from_request e =
     \<lparr>cn_path = be_path e, cn_offset = be_offset e, cn_limit = be_limit e, cn_encoding = be_encoding e\<rparr>"

definition continuation_path :: "utf8 \<Rightarrow> utf8" where
  "continuation_path input = display_path (parse_input_path input)"

type_synonym entry_key = "utf8 \<times> nat option \<times> nat option \<times> utf8 option"

definition validate_entry ::
    "encoding_crates \<Rightarrow> host \<Rightarrow> entry_key list \<Rightarrow> batch_entry \<Rightarrow> utf8 + entry_key list \<times> batch_entry" where
  "validate_entry D H seen e =
     (if be_offset e = Some 0 then Inl (invalid_zero ''offset'')
      else if be_limit e = Some 0 then Inl (invalid_zero ''limit'')
      else
        bind_r (parse_local_path_input H (be_path e)) (\<lambda>parsed.
        bind_r (case be_encoding e of
            None \<Rightarrow> Inr ()
          | Some label \<Rightarrow> map_err (rejection_message []) (map_r (\<lambda>_. ()) (canonical_encoding_label D label))) (\<lambda>_.
        let from_uri = is_local_file_uri_input (be_path e);
            key_path = display_path
              (if is_absolute parsed then or_self (ho_canonical H parsed) parsed else parsed);
            e' = e\<lparr>be_path := (if from_uri then display_path parsed else continuation_path (be_path e))\<rparr>;
            key = (key_path, be_offset e, be_limit e, be_encoding e) in
        if key \<in> set seen
        then Inl (''Duplicate files entry: two entries request the exact same text interval for '' @ be_path e' @
          '' (including offset, limit, and encoding).'')
        else Inr (seen @ [key], e'))))"

fun validate_entries ::
    "encoding_crates \<Rightarrow> host \<Rightarrow> entry_key list \<Rightarrow> batch_entry list \<Rightarrow> utf8 + batch_entry list" where
  "validate_entries D H seen [] = Inr []"
| "validate_entries D H seen (e # es) =
     bind_r (validate_entry D H seen e) (\<lambda>(seen, e).
     map_r ((#) e) (validate_entries D H seen es))"

datatype prepared = Content batch_text | Message utf8

definition prepare_entry ::
    "tokenizer \<Rightarrow> encoding_crates \<Rightarrow> files \<Rightarrow> nat \<Rightarrow> batch_entry \<Rightarrow> utf8 \<times> prepared" where
  "prepare_entry T D F budget e =
     (let H = fi_host F; parsed = parse_input_path (be_path e); missing = missing_read_file_message H (be_path e) in
      if \<not> is_absolute parsed then (display_path parsed, Message missing)
      else case fi_metadata F parsed of
          Inl NotFound \<Rightarrow> (display_path parsed, Message missing)
        | Inl (MetadataFailure err) \<Rightarrow> (display_path parsed, Message (io_error_message parsed err))
        | Inr kind \<Rightarrow>
            let path = or_self (ho_canonical H parsed) parsed; shown = display_path path in
            (shown,
             if kind = DirectoryFile
             then Message (shown @ '' is a directory, not a file. Use the glob tool to list its contents.'')
             else if kind = SpecialFile
             then Message (''Cannot read non-regular file: '' @ shown @ ''. Only regular files are supported.'')
             else case fi_prefix F path of
                 Inl err \<Rightarrow> Message (io_error_message path err)
               | Inr prefix \<Rightarrow>
                   if is_pdf path prefix
                   then Message ''PDF files cannot be included in files. Read this file separately with file_path and optional pages/pdf_mode.''
                   else if detect_image_mime path prefix \<noteq> None
                   then Message ''Image files cannot be included in files. Read this file separately with file_path.''
                   else case read_batch_text_file T D (fi_text F path) shown (be_offset e) (be_limit e)
                          (be_encoding e) (detect_binary_type prefix) budget of
                       Inl m \<Rightarrow> Message m
                     | Inr c \<Rightarrow> Content c))"

section \<open>Packing\<close>

definition progress_after :: "batch_entry \<Rightarrow> batch_text \<Rightarrow> nat \<Rightarrow> continuation option" where
  "progress_after e c shown =
     (let final = sat_add (bt_first c) (shown - 1) in
      if bt_total_lines c \<le> final then None
      else Some \<lparr>cn_path = be_path e, cn_offset = Some (sat_add final 1),
        cn_limit = (case be_limit e of
            None \<Rightarrow> None
          | Some l \<Rightarrow> if shown \<le> l \<and> 0 < l - shown then Some (l - shown) else None),
        cn_encoding = be_encoding e\<rparr>)"

definition content_segment :: "utf8 \<Rightarrow> batch_text \<Rightarrow> nat \<Rightarrow> utf8" where
  "content_segment path c shown =
     (let final = sat_add (bt_first c) (shown - 1);
          span = '' (lines '' @ show_nat (bt_first c) @ ''-'' @ show_nat final;
          header = ''=== '' @ path @ span @
            (if bt_total_is_known c then '' of '' @ show_nat (bt_total_lines c) else []) @ '') ==='' in
      join [nl] ((header # (case bt_note c of None \<Rightarrow> [] | Some n \<Rightarrow> [n])) @ take shown (bt_lines c)))"

definition message_segment :: "utf8 \<Rightarrow> utf8 \<Rightarrow> utf8" where
  "message_segment path m = ''=== '' @ path @ '' ==='' @ nl # m"

definition batch_terminal :: "json_printer \<Rightarrow> continuation option list \<Rightarrow> nat \<Rightarrow> utf8" where
  "batch_terminal json progress all =
     (let pending = List.map_filter id progress in
      if pending = []
      then ''(Complete: '' @ show_nat all @ '' '' @ (if all = 1 then ''entry'' else ''entries'') @ '' processed.)''
      else ''(Partial: '' @ show_nat (all - length pending) @ '' of '' @ show_nat all @
        '' entries processed. Continue with files='' @ json pending @ ''.)'')"

definition render_response :: "json_printer \<Rightarrow> utf8 list \<Rightarrow> continuation option list \<Rightarrow> nat \<Rightarrow> utf8" where
  "render_response json segments progress all =
     (if segments = [] then batch_terminal json progress all
      else join [nl, nl] segments @ [nl, nl] @ batch_terminal json progress all)"

definition candidate_fits ::
    "tokenizer \<Rightarrow> json_printer \<Rightarrow> utf8 list \<Rightarrow> utf8 \<Rightarrow> continuation option list \<Rightarrow> nat \<Rightarrow> nat \<Rightarrow> bool" where
  "candidate_fits T json segments candidate progress all budget \<longleftrightarrow>
     estimate_tokens T (render_response json (segments @ [candidate]) progress all) \<le> budget"

text \<open>The search starts at one, so \<open>shown\<close> is never zero.\<close>

function search_shown :: "(nat \<Rightarrow> bool) \<Rightarrow> nat \<Rightarrow> nat \<Rightarrow> nat \<Rightarrow> nat" where
  "search_shown fits low high best =
     (if low \<le> high then
        let shown = low + (high - low) div 2 in
        if fits shown then search_shown fits (shown + 1) high (max best shown)
        else if shown \<le> 1 then best
        else search_shown fits low (shown - 1) best
      else best)"
  by pat_completeness auto
termination
  by (relation "measure (\<lambda>(fits, low, high, best). Suc high - low)") auto

declare search_shown.simps [simp del]

definition prefix_fits ::
    "tokenizer \<Rightarrow> json_printer \<Rightarrow> utf8 list \<Rightarrow> utf8 \<Rightarrow> batch_entry \<Rightarrow> batch_text \<Rightarrow> continuation option list \<Rightarrow>
      nat \<Rightarrow> nat \<Rightarrow> nat \<Rightarrow> nat \<Rightarrow> bool" where
  "prefix_fits T json segments path e c progress index all budget shown =
     candidate_fits T json segments (content_segment path c shown)
       (progress[index := progress_after e c shown]) all budget"

definition largest_fitting_prefix :: "(nat \<Rightarrow> bool) \<Rightarrow> nat \<Rightarrow> nat" where
  "largest_fitting_prefix fits maximum =
     (if fits maximum then maximum
      else if maximum \<le> 1 then 0
      else search_shown fits 1 (maximum - 1) 0)"

fun pack_loop ::
    "tokenizer \<Rightarrow> json_printer \<Rightarrow> (batch_entry \<Rightarrow> utf8 \<times> prepared) \<Rightarrow> token_budget \<Rightarrow> nat \<Rightarrow> nat \<Rightarrow>
      batch_entry list \<Rightarrow> utf8 list \<Rightarrow> continuation option list \<Rightarrow> tool_response" where
  "pack_loop T json prepare budget all index [] segments progress =
     text_response (render_response json segments progress all)"
| "pack_loop T json prepare budget all index (e # es) segments progress =
     (let stop = (if segments = [] then error_response (note_too_small budget)
                  else text_response (render_response json segments progress all)) in
      case prepare e of
        (path, Message m) \<Rightarrow>
          let segment = message_segment path m; proposed = progress[index := None] in
          if \<not> candidate_fits T json segments segment proposed all (tb_value budget) then stop
          else pack_loop T json prepare budget all (index + 1) es (segments @ [segment]) proposed
      | (path, Content c) \<Rightarrow>
          let shown = largest_fitting_prefix
                (prefix_fits T json segments path e c progress index all (tb_value budget)) (length (bt_lines c)) in
          if shown = 0 then stop
          else
            let progress = progress[index := progress_after e c shown];
                segments = segments @ [content_segment path c shown] in
            if shown < length (bt_lines c) \<or> \<not> bt_slice_complete c
            then text_response (render_response json segments progress all)
            else pack_loop T json prepare budget all (index + 1) es segments progress)"

definition pack_entries ::
    "tokenizer \<Rightarrow> encoding_crates \<Rightarrow> json_printer \<Rightarrow> files \<Rightarrow> batch_entry list \<Rightarrow> token_budget \<Rightarrow> tool_response" where
  "pack_entries T D json F entries budget =
     pack_loop T json (prepare_entry T D F (tb_value budget)) budget (length entries) 0 entries []
       (map (Some \<circ> from_request) entries)"

section \<open>The request\<close>

record read_request =
  rq_file_path :: "utf8 option"
  rq_files :: "batch_entry list option"
  rq_offset :: "nat option"
  rq_limit :: "nat option"
  rq_pages :: "utf8 option"
  rq_pdf_mode :: "utf8 option"
  rq_encoding :: "utf8 option"
  rq_view :: "utf8 option"

definition first_present :: "(utf8 \<times> bool) list \<Rightarrow> utf8 option" where
  "first_present ps = map_option fst (find snd ps)"

definition read_text_files ::
    "tokenizer \<Rightarrow> encoding_crates \<Rightarrow> json_printer \<Rightarrow> files \<Rightarrow> environment \<Rightarrow> budget_slots \<Rightarrow> read_request \<Rightarrow>
      batch_entry list \<Rightarrow> tool_response" where
  "read_text_files T D json F env slots r entries =
     (if \<not> (1 \<le> length entries \<and> length entries \<le> max_batch_entries)
      then error_response (''Invalid files value: expected 1 to 32 entries, got '' @ show_nat (length entries) @ ''.'')
      else case first_present [(''offset'', rq_offset r \<noteq> None), (''limit'', rq_limit r \<noteq> None),
             (''encoding'', rq_encoding r \<noteq> None)] of
        Some p \<Rightarrow> error_response (''The top-level '' @ p @
          '' parameter cannot be combined with files; set it inside the files entries instead.'')
      | None \<Rightarrow>
          (case first_present [(''pages'', rq_pages r \<noteq> None), (''pdf_mode'', rq_pdf_mode r \<noteq> None),
             (''view'', rq_view r \<noteq> None)] of
            Some p \<Rightarrow> error_response (''The '' @ p @
              '' parameter cannot be combined with files; PDFs, images, and hex view are single-file reads.'')
          | None \<Rightarrow>
              (case validate_entries D (fi_host F) [] entries of
                 Inl e \<Rightarrow> error_response e
               | Inr entries \<Rightarrow>
                   (case tool_token_budget env ''FASTCTX_READ_TOKEN_BUDGET'' slots of
                      Inl e \<Rightarrow> error_response e
                    | Inr budget \<Rightarrow> pack_entries T D json F entries budget))))"

datatype view_mode = AutoView | HexView

definition parse_view :: "utf8 option \<Rightarrow> utf8 + view_mode" where
  "parse_view v =
     (case v of
        None \<Rightarrow> Inr AutoView
      | Some t \<Rightarrow>
          if t = ''auto'' then Inr AutoView
          else if t = ''hex'' then Inr HexView
          else Inl (''Invalid view value '' @ quoted t @ ''. Use '' @ quoted ''auto'' @ '' or '' @ quoted ''hex'' @ ''.''))"

text \<open>\<open>True\<close> is the image mode.\<close>

definition parse_pdf_mode :: "utf8 option \<Rightarrow> utf8 + bool" where
  "parse_pdf_mode v =
     (case v of
        None \<Rightarrow> Inr False
      | Some t \<Rightarrow>
          if t = ''text'' then Inr False
          else if t = ''image'' then Inr True
          else Inl (''Invalid pdf_mode value '' @ quoted t @ ''. Use '' @ quoted ''text'' @ '' or '' @
            quoted ''image'' @ ''.''))"

definition read_one_file ::
    "tokenizer \<Rightarrow> encoding_crates \<Rightarrow> files \<Rightarrow> environment \<Rightarrow> budget_slots \<Rightarrow> read_request \<Rightarrow> utf8 \<Rightarrow> byte list \<Rightarrow>
      utf8 + tool_response" where
  "read_one_file T D F env slots r path prefix =
     bind_r (parse_view (rq_view r)) (\<lambda>view.
     let budget = tool_token_budget env ''FASTCTX_READ_TOKEN_BUDGET'' slots in
     if view = HexView then
       (case first_present [(''pdf_mode'', rq_pdf_mode r \<noteq> None), (''pages'', rq_pages r \<noteq> None),
          (''encoding'', rq_encoding r \<noteq> None)] of
          Some p \<Rightarrow> Inl (''The '' @ p @ '' parameter cannot be combined with '' @ view_hex @ ''.'')
        | None \<Rightarrow> map_r (read_hex_file T (fi_bytes F path) (rq_offset r) (rq_limit r)) budget)
     else if is_pdf path prefix then
       if rq_encoding r \<noteq> None then Inl ''The encoding parameter only applies to text files.''
       else
         bind_r (parse_pdf_mode (rq_pdf_mode r)) (\<lambda>image.
         bind_r (if image then Inr None else map_r Some budget) (\<lambda>b.
         Inr (fi_read_pdf F path (rq_pages r) image b)))
     else if rq_pages r \<noteq> None then Inl ''The pages parameter only applies to PDF files.''
     else if rq_pdf_mode r \<noteq> None then Inl ''The pdf_mode parameter only applies to PDF files.''
     else if detect_image_mime path prefix \<noteq> None then
       if rq_encoding r \<noteq> None then Inl ''The encoding parameter only applies to text files.''
       else Inr (fi_read_image F path)
     else
       map_r (read_text_file T D (fi_text F path) (display_path path) (rq_offset r) (rq_limit r) (rq_encoding r)
         (detect_binary_type prefix)) budget)"

definition read_file ::
    "tokenizer \<Rightarrow> encoding_crates \<Rightarrow> json_printer \<Rightarrow> files \<Rightarrow> environment \<Rightarrow> budget_slots \<Rightarrow> read_request \<Rightarrow>
      tool_response" where
  "read_file T D json F env slots r =
     (let H = fi_host F; respond = (\<lambda>x. case x of Inl e \<Rightarrow> error_response e | Inr x \<Rightarrow> x) in
      case (rq_file_path r, rq_files r) of
        (Some _, Some _) \<Rightarrow> error_response ''Provide exactly one of file_path or files.''
      | (None, None) \<Rightarrow> error_response ''Provide exactly one of file_path or files.''
      | (None, Some entries) \<Rightarrow> read_text_files T D json F env slots r entries
      | (Some input, None) \<Rightarrow>
          respond (bind_r (parse_local_path_input H input) (\<lambda>parsed.
            let missing = missing_read_file_message H (display_path parsed) in
            if \<not> is_absolute parsed then Inl missing
            else case fi_metadata F parsed of
                Inl NotFound \<Rightarrow> Inl missing
              | Inl (MetadataFailure err) \<Rightarrow> Inl (io_error_message parsed err)
              | Inr kind \<Rightarrow>
                  let path = or_self (ho_canonical H parsed) parsed; shown = display_path path in
                  if kind = DirectoryFile
                  then Inl (shown @ '' is a directory, not a file. Use the glob tool to list its contents.'')
                  else if kind = SpecialFile
                  then Inl (''Cannot read non-regular file: '' @ shown @ ''. Only regular files are supported.'')
                  else case fi_prefix F path of
                      Inl err \<Rightarrow> Inl (io_error_message path err)
                    | Inr prefix \<Rightarrow> read_one_file T D F env slots r path prefix)))"

section \<open>What a response resumes\<close>

lemma search_shown_spec:
  "1 \<le> low \<Longrightarrow> best + 1 = low \<Longrightarrow> (best = 0 \<or> fits best) \<Longrightarrow> low \<le> high + 1 \<Longrightarrow> \<not> fits (high + 1) \<Longrightarrow>
     search_shown fits low high best \<le> high \<and>
     (search_shown fits low high best = 0 \<or> fits (search_shown fits low high best)) \<and>
     \<not> fits (search_shown fits low high best + 1)"
proof (induction fits low high best rule: search_shown.induct)
  case (1 fits low high best)
  show ?case
  proof (cases "low \<le> high")
    case False
    then have "search_shown fits low high best = best" by (simp add: search_shown.simps [of fits low high best])
    moreover from False "1.prems" have "high = best" by simp
    ultimately show ?thesis using "1.prems" by simp
  next
    case True
    obtain k where k: "k = low + (high - low) div 2" by blast
    with True have b: "low \<le> k" "k \<le> high" by auto
    show ?thesis
    proof (cases "fits k")
      case hit: True
      have step: "search_shown fits low high best = search_shown fits (k + 1) high k"
        using True hit b "1.prems" by (subst search_shown.simps) (simp add: k [symmetric] Let_def max_def)
      from "1.IH"(1) [OF True k] hit b "1.prems" show ?thesis unfolding step by (simp add: max_def)
    next
      case miss: False
      show ?thesis
      proof (cases "k \<le> 1")
        case True
        with b "1.prems" have "best = 0" "k = 1" by auto
        with True miss \<open>low \<le> high\<close> show ?thesis
          by (subst (1 2 3 4) search_shown.simps) (simp add: k [symmetric] Let_def)
      next
        case False
        have step: "search_shown fits low high best = search_shown fits low (k - 1) best"
          using True miss False by (subst search_shown.simps) (simp add: k [symmetric] Let_def)
        from "1.IH"(2) [OF True k miss False] miss False b "1.prems"
        have "search_shown fits low (k - 1) best \<le> k - 1 \<and>
            (search_shown fits low (k - 1) best = 0 \<or> fits (search_shown fits low (k - 1) best)) \<and>
            \<not> fits (search_shown fits low (k - 1) best + 1)" by simp
        with b show ?thesis unfolding step by linarith
      qed
    qed
  qed
qed

lemma largest_fitting_prefix_spec:
  "let shown = largest_fitting_prefix fits maximum in
     shown \<le> maximum \<and> (shown = 0 \<or> fits shown) \<and> (shown = maximum \<or> \<not> fits (shown + 1))"
proof (cases "fits maximum \<or> maximum \<le> 1")
  case True
  then show ?thesis by (auto simp: largest_fitting_prefix_def Let_def le_Suc_eq)
next
  case False
  with search_shown_spec [of 1 0 fits "maximum - 1"] show ?thesis
    by (simp add: largest_fitting_prefix_def Let_def) linarith
qed

text \<open>The segment of an entry and what is left of it, when \<open>shown\<close> of its lines are listed.\<close>

definition segment_of :: "utf8 \<times> prepared \<Rightarrow> nat \<Rightarrow> utf8" where
  "segment_of p shown =
     (case p of
        (path, Message m) \<Rightarrow> message_segment path m
      | (path, Content c) \<Rightarrow> content_segment path c shown)"

definition rest_of :: "batch_entry \<Rightarrow> utf8 \<times> prepared \<Rightarrow> nat \<Rightarrow> continuation option" where
  "rest_of e p shown = (case snd p of Message m \<Rightarrow> None | Content c \<Rightarrow> progress_after e c shown)"

definition batch_segments :: "(batch_entry \<Rightarrow> utf8 \<times> prepared) \<Rightarrow> batch_entry list \<Rightarrow> (nat \<Rightarrow> nat) \<Rightarrow> nat \<Rightarrow> utf8 list" where
  "batch_segments prepare entries shown n = map (\<lambda>i. segment_of (prepare (entries ! i)) (shown i)) [0..<n]"

definition batch_progress ::
    "(batch_entry \<Rightarrow> utf8 \<times> prepared) \<Rightarrow> batch_entry list \<Rightarrow> (nat \<Rightarrow> nat) \<Rightarrow> nat \<Rightarrow> continuation option list" where
  "batch_progress prepare entries shown n =
     map (\<lambda>i. if i < n then rest_of (entries ! i) (prepare (entries ! i)) (shown i)
              else Some (from_request (entries ! i))) [0..<length entries]"

definition batch_render ::
    "json_printer \<Rightarrow> (batch_entry \<Rightarrow> utf8 \<times> prepared) \<Rightarrow> batch_entry list \<Rightarrow> (nat \<Rightarrow> nat) \<Rightarrow> nat \<Rightarrow> utf8" where
  "batch_render json prepare entries shown n =
     render_response json (batch_segments prepare entries shown n) (batch_progress prepare entries shown n)
       (length entries)"

text \<open>An entry listed to its end, so that the next one may follow.\<close>

definition listed_whole :: "utf8 \<times> prepared \<Rightarrow> nat \<Rightarrow> bool" where
  "listed_whole p shown =
     (case snd p of Message m \<Rightarrow> True | Content c \<Rightarrow> shown = length (bt_lines c) \<and> bt_slice_complete c)"

definition listed_some :: "utf8 \<times> prepared \<Rightarrow> nat \<Rightarrow> bool" where
  "listed_some p shown =
     (case snd p of Message m \<Rightarrow> True | Content c \<Rightarrow> 1 \<le> shown \<and> shown \<le> length (bt_lines c))"

lemma batch_next:
  assumes "n < length entries"
  shows "batch_segments prepare entries (shown(n := k)) (Suc n) =
      batch_segments prepare entries shown n @ [segment_of (prepare (entries ! n)) k]"
    and "batch_progress prepare entries (shown(n := k)) (Suc n) =
      (batch_progress prepare entries shown n)[n := rest_of (entries ! n) (prepare (entries ! n)) k]"
proof -
  show "batch_segments prepare entries (shown(n := k)) (Suc n) =
      batch_segments prepare entries shown n @ [segment_of (prepare (entries ! n)) k]"
    by (simp add: batch_segments_def)
  show "batch_progress prepare entries (shown(n := k)) (Suc n) =
      (batch_progress prepare entries shown n)[n := rest_of (entries ! n) (prepare (entries ! n)) k]"
    by (rule nth_equalityI) (auto simp: batch_progress_def nth_list_update less_Suc_eq)
qed

text \<open>
  The first \<open>n\<close> entries are listed, all but the last one whole; the response stops there because
  there is no other entry, the last one listed is cut, or the next one does not fit.
\<close>

definition batch_listing :: "(batch_entry \<Rightarrow> utf8 \<times> prepared) \<Rightarrow> batch_entry list \<Rightarrow> (nat \<Rightarrow> nat) \<Rightarrow> nat \<Rightarrow> bool" where
  "batch_listing prepare entries shown n \<longleftrightarrow>
     n \<le> length entries \<and>
     list_all (\<lambda>i. listed_some (prepare (entries ! i)) (shown i)) [0..<n] \<and>
     list_all (\<lambda>i. listed_whole (prepare (entries ! i)) (shown i)) [0..<n - 1]"

definition fits_with ::
    "tokenizer \<Rightarrow> json_printer \<Rightarrow> (batch_entry \<Rightarrow> utf8 \<times> prepared) \<Rightarrow> batch_entry list \<Rightarrow> (nat \<Rightarrow> nat) \<Rightarrow> nat \<Rightarrow>
      nat \<Rightarrow> nat \<Rightarrow> bool" where
  "fits_with T json prepare entries shown n budget k \<longleftrightarrow>
     estimate_tokens T (batch_render json prepare entries (shown(n := k)) (Suc n)) \<le> budget"

definition cut_at ::
    "tokenizer \<Rightarrow> json_printer \<Rightarrow> (batch_entry \<Rightarrow> utf8 \<times> prepared) \<Rightarrow> batch_entry list \<Rightarrow> nat \<Rightarrow> (nat \<Rightarrow> nat) \<Rightarrow>
      nat \<Rightarrow> bool" where
  "cut_at T json prepare entries budget shown i \<longleftrightarrow>
     (case snd (prepare (entries ! i)) of
        Message m \<Rightarrow> False
      | Content c \<Rightarrow>
          if shown i = length (bt_lines c) then \<not> bt_slice_complete c
          else \<not> fits_with T json prepare entries shown i budget (shown i + 1))"

definition refused_at ::
    "tokenizer \<Rightarrow> json_printer \<Rightarrow> (batch_entry \<Rightarrow> utf8 \<times> prepared) \<Rightarrow> batch_entry list \<Rightarrow> nat \<Rightarrow> (nat \<Rightarrow> nat) \<Rightarrow>
      nat \<Rightarrow> bool" where
  "refused_at T json prepare entries budget shown n \<longleftrightarrow>
     (case snd (prepare (entries ! n)) of
        Message m \<Rightarrow> \<not> fits_with T json prepare entries shown n budget 0
      | Content c \<Rightarrow> bt_lines c = [] \<or> \<not> fits_with T json prepare entries shown n budget 1)"

definition stops_at ::
    "tokenizer \<Rightarrow> json_printer \<Rightarrow> (batch_entry \<Rightarrow> utf8 \<times> prepared) \<Rightarrow> batch_entry list \<Rightarrow> nat \<Rightarrow> (nat \<Rightarrow> nat) \<Rightarrow>
      nat \<Rightarrow> bool" where
  "stops_at T json prepare entries budget shown n \<longleftrightarrow>
     n = length entries \<or>
     (0 < n \<and> cut_at T json prepare entries budget shown (n - 1)) \<or>
     (n < length entries \<and> refused_at T json prepare entries budget shown n)"

definition batch_result ::
    "tokenizer \<Rightarrow> json_printer \<Rightarrow> (batch_entry \<Rightarrow> utf8 \<times> prepared) \<Rightarrow> batch_entry list \<Rightarrow> token_budget \<Rightarrow>
      (nat \<Rightarrow> nat) \<Rightarrow> nat \<Rightarrow> tool_response \<Rightarrow> bool" where
  "batch_result T json prepare entries budget shown n r \<longleftrightarrow>
     batch_listing prepare entries shown n \<and>
     stops_at T json prepare entries (tb_value budget) shown n \<and>
     (n = 0 \<or> estimate_tokens T (batch_render json prepare entries shown n) \<le> tb_value budget) \<and>
     r = (if n = 0 \<and> entries \<noteq> [] then error_response (note_too_small budget)
          else text_response (batch_render json prepare entries shown n))"

lemma batch_segments_length [simp]: "length (batch_segments prepare entries shown n) = n"
  by (simp add: batch_segments_def)

lemma batch_segments_empty [simp]: "batch_segments prepare entries shown n = [] \<longleftrightarrow> n = 0"
  by (simp add: batch_segments_def)

lemma fits_with_candidate:
  assumes "n < length entries"
  shows "fits_with T json prepare entries shown n budget k \<longleftrightarrow>
    candidate_fits T json (batch_segments prepare entries shown n) (segment_of (prepare (entries ! n)) k)
      ((batch_progress prepare entries shown n)[n := rest_of (entries ! n) (prepare (entries ! n)) k])
      (length entries) budget"
  by (simp add: fits_with_def candidate_fits_def batch_render_def batch_next [OF assms])

lemma batch_listing_next:
  assumes "n < length entries" "batch_listing prepare entries shown n"
    and "n = 0 \<or> listed_whole (prepare (entries ! (n - 1))) (shown (n - 1))"
    and "listed_some (prepare (entries ! n)) k"
  shows "batch_listing prepare entries (shown(n := k)) (Suc n)"
  using assms by (cases n) (auto simp: batch_listing_def list_all_iff less_Suc_eq Suc_le_eq)

lemma batch_result_cut:
  assumes "n < length entries" "batch_listing prepare entries (shown(n := k)) (Suc n)"
    and "cut_at T json prepare entries (tb_value budget) (shown(n := k)) n"
    and "fits_with T json prepare entries shown n (tb_value budget) k"
  shows "batch_result T json prepare entries budget (shown(n := k)) (Suc n)
    (text_response (batch_render json prepare entries (shown(n := k)) (Suc n)))"
  using assms by (simp add: batch_result_def stops_at_def fits_with_def)

lemma batch_result_refused:
  assumes "n < length entries" "batch_listing prepare entries shown n"
    and "refused_at T json prepare entries (tb_value budget) shown n"
    and "n = 0 \<or> estimate_tokens T (batch_render json prepare entries shown n) \<le> tb_value budget"
  shows "batch_result T json prepare entries budget shown n
    (if batch_segments prepare entries shown n = [] then error_response (note_too_small budget)
     else text_response (batch_render json prepare entries shown n))"
  using assms by (auto simp: batch_result_def stops_at_def)

lemma pack_loop_result:
  assumes "entries = pre @ es" "length pre = n" "batch_listing prepare entries shown n"
    and "n = 0 \<or> listed_whole (prepare (entries ! (n - 1))) (shown (n - 1))"
    and "n = 0 \<or> estimate_tokens T (batch_render json prepare entries shown n) \<le> tb_value budget"
  shows "\<exists>m shown'. batch_result T json prepare entries budget shown' m
    (pack_loop T json prepare budget (length entries) n es (batch_segments prepare entries shown n)
      (batch_progress prepare entries shown n))"
  using assms
proof (induction es arbitrary: pre n shown)
  case Nil
  then have "batch_result T json prepare entries budget shown n
    (text_response (batch_render json prepare entries shown n))"
    by (auto simp: batch_result_def stops_at_def)
  then show ?case by (auto simp: batch_render_def)
next
  case (Cons e es)
  then have n: "n < length entries" and e: "entries ! n = e"
    by (auto simp: nth_append)
  obtain path p where p: "prepare e = (path, p)" by (cases "prepare e")
  let ?stop = "if batch_segments prepare entries shown n = [] then error_response (note_too_small budget)
     else text_response (batch_render json prepare entries shown n)"
  have step: "\<exists>m shown'. batch_result T json prepare entries budget shown' m
      (pack_loop T json prepare budget (length entries) (n + 1) es
        (batch_segments prepare entries shown n @ [segment_of (prepare e) k])
        ((batch_progress prepare entries shown n)[n := rest_of e (prepare e) k]))"
    if "listed_some (prepare e) k" "listed_whole (prepare e) k"
      "fits_with T json prepare entries shown n (tb_value budget) k" for k
  proof -
    have "\<exists>m shown'. batch_result T json prepare entries budget shown' m
      (pack_loop T json prepare budget (length entries) (Suc n) es
        (batch_segments prepare entries (shown(n := k)) (Suc n))
        (batch_progress prepare entries (shown(n := k)) (Suc n)))"
    proof (rule Cons.IH)
      show "entries = (pre @ [e]) @ es" using Cons.prems(1) by simp
      show "length (pre @ [e]) = Suc n" using Cons.prems(2) by simp
      show "batch_listing prepare entries (shown(n := k)) (Suc n)"
        by (rule batch_listing_next [OF n Cons.prems(3,4)]) (simp add: e that)
      show "Suc n = 0 \<or> listed_whole (prepare (entries ! (Suc n - 1))) ((shown(n := k)) (Suc n - 1))"
        using that by (simp add: e)
      show "Suc n = 0 \<or> estimate_tokens T (batch_render json prepare entries (shown(n := k)) (Suc n)) \<le> tb_value budget"
        using that by (simp add: fits_with_def)
    qed
    then show ?thesis by (simp add: batch_next [OF n] e del: fun_upd_apply)
  qed
  show ?case
  proof (cases p)
    case (Message m)
    show ?thesis
    proof (cases "fits_with T json prepare entries shown n (tb_value budget) 0")
      case True
      with step [of 0] Message p fits_with_candidate [OF n, of T json prepare shown "tb_value budget" 0]
      show ?thesis by (simp add: listed_some_def listed_whole_def segment_of_def rest_of_def e Let_def)
    next
      case False
      with Message p e have "refused_at T json prepare entries (tb_value budget) shown n"
        by (simp add: refused_at_def)
      from batch_result_refused [OF n Cons.prems(3) this Cons.prems(5)] False Message p
        fits_with_candidate [OF n, of T json prepare shown "tb_value budget" 0]
      show ?thesis
        by (intro exI [of _ n] exI [of _ shown])
          (simp add: segment_of_def rest_of_def e Let_def batch_render_def split: if_splits)
    qed
  next
    case (Content c)
    define fits where "fits = prefix_fits T json (batch_segments prepare entries shown n) path e c
      (batch_progress prepare entries shown n) n (length entries) (tb_value budget)"
    have fits: "fits k \<longleftrightarrow> fits_with T json prepare entries shown n (tb_value budget) k" for k
      using fits_with_candidate [OF n, of T json prepare shown "tb_value budget" k] Content p
      by (simp add: fits_def prefix_fits_def segment_of_def rest_of_def e)
    define k where "k = largest_fitting_prefix fits (length (bt_lines c))"
    have k: "k \<le> length (bt_lines c)" "k = 0 \<or> fits k" "k = length (bt_lines c) \<or> \<not> fits (k + 1)"
      using largest_fitting_prefix_spec [of fits "length (bt_lines c)"] by (simp_all add: k_def Let_def)
    have unfold: "pack_loop T json prepare budget (length entries) n (e # es)
        (batch_segments prepare entries shown n) (batch_progress prepare entries shown n) =
      (if k = 0 then ?stop
       else if k < length (bt_lines c) \<or> \<not> bt_slice_complete c
       then text_response (render_response json (batch_segments prepare entries shown n @ [segment_of (prepare e) k])
         ((batch_progress prepare entries shown n)[n := rest_of e (prepare e) k]) (length entries))
       else pack_loop T json prepare budget (length entries) (n + 1) es
         (batch_segments prepare entries shown n @ [segment_of (prepare e) k])
         ((batch_progress prepare entries shown n)[n := rest_of e (prepare e) k]))"
      using Content p
      by (simp add: fits_def [symmetric] k_def [symmetric] Let_def segment_of_def rest_of_def batch_render_def)
    show ?thesis
    proof (cases "k = 0")
      case True
      with k(3) fits [of 1] Content p e have "refused_at T json prepare entries (tb_value budget) shown n"
        by (auto simp: refused_at_def)
      from batch_result_refused [OF n Cons.prems(3) this Cons.prems(5)] True show ?thesis
        unfolding unfold by (intro exI [of _ n] exI [of _ shown]) simp
    next
      case False
      with k fits have fit: "fits_with T json prepare entries shown n (tb_value budget) k" by simp
      from False k Content p have some: "listed_some (prepare e) k" by (simp add: listed_some_def)
      show ?thesis
      proof (cases "k < length (bt_lines c) \<or> \<not> bt_slice_complete c")
        case True
        have "batch_listing prepare entries (shown(n := k)) (Suc n)"
          by (rule batch_listing_next [OF n Cons.prems(3,4)]) (simp add: e some)
        moreover have "cut_at T json prepare entries (tb_value budget) (shown(n := k)) n"
          using True k fits [of "k + 1"] Content p e by (auto simp: cut_at_def fits_with_def)
        ultimately show ?thesis using batch_result_cut [OF n _ _ fit] True False
          unfolding unfold by (auto simp: batch_render_def batch_next [OF n] e)
      next
        case whole: False
        with k have "listed_whole (prepare e) k" using Content p by (auto simp: listed_whole_def)
        from step [OF some this fit] whole False show ?thesis unfolding unfold by simp
      qed
    qed
  qed
qed


section \<open>What validation promises\<close>

definition entry_parsed :: "host \<Rightarrow> batch_entry \<Rightarrow> utf8" where
  "entry_parsed H e = (case parse_local_path_input H (be_path e) of Inl _ \<Rightarrow> [] | Inr parsed \<Rightarrow> parsed)"

definition entry_key_of :: "host \<Rightarrow> batch_entry \<Rightarrow> entry_key" where
  "entry_key_of H e =
     (display_path (let parsed = entry_parsed H e in
        if is_absolute parsed then or_self (ho_canonical H parsed) parsed else parsed),
      be_offset e, be_limit e, be_encoding e)"

definition validated :: "encoding_crates \<Rightarrow> host \<Rightarrow> batch_entry \<Rightarrow> batch_entry \<Rightarrow> bool" where
  "validated D H e e' \<longleftrightarrow>
     be_offset e \<noteq> Some 0 \<and> be_limit e \<noteq> Some 0 \<and>
     parse_local_path_input H (be_path e) = Inr (entry_parsed H e) \<and>
     (case be_encoding e of None \<Rightarrow> True | Some label \<Rightarrow> \<exists>k. canonical_encoding_label D label = Inr k) \<and>
     e' = e\<lparr>be_path := display_path (entry_parsed H e)\<rparr>"

lemma plain_path_parsed:
  assumes "parse_local_path_input H input = Inr parsed" "\<not> is_local_file_uri_input input"
  shows "parsed = parse_input_path input"
  using assms by (auto simp: parse_local_path_input_def is_local_file_uri_input_def split: option.splits)

lemma validate_entry_spec:
  assumes "validate_entry D H seen e = Inr (seen', e')"
  shows "validated D H e e' \<and> entry_key_of H e \<notin> set seen \<and> seen' = seen @ [entry_key_of H e]"
proof -
  from assms have z: "be_offset e \<noteq> Some 0" "be_limit e \<noteq> Some 0"
    by (auto simp: validate_entry_def split: if_splits)
  from assms z obtain parsed u where p: "parse_local_path_input H (be_path e) = Inr parsed"
    and l: "(case be_encoding e of
            None \<Rightarrow> Inr ()
          | Some label \<Rightarrow> map_err (rejection_message []) (map_r (\<lambda>_. ()) (canonical_encoding_label D label))) = Inr u"
    by (auto simp: validate_entry_def bind_simps)
  have e: "entry_parsed H e = parsed" by (simp add: entry_parsed_def p)
  have name: "(if is_local_file_uri_input (be_path e) then display_path parsed else continuation_path (be_path e)) =
      display_path parsed"
    using plain_path_parsed [OF p] by (simp add: continuation_path_def)
  from l have label: "case be_encoding e of None \<Rightarrow> True | Some label \<Rightarrow> \<exists>k. canonical_encoding_label D label = Inr k"
    by (auto simp: bind_simps split: option.splits)
  have "entry_key_of H e \<notin> set seen \<and> seen' = seen @ [entry_key_of H e] \<and> e' = e\<lparr>be_path := display_path parsed\<rparr>"
    using assms z p l name by (simp add: validate_entry_def entry_key_of_def e Let_def split: if_splits)
  with z p label e show ?thesis by (simp add: validated_def)
qed

lemma validate_entries_spec:
  "validate_entries D H seen es = Inr es' \<Longrightarrow> distinct seen \<Longrightarrow>
     list_all2 (validated D H) es es' \<and> distinct (seen @ map (entry_key_of H) es)"
proof (induction es arbitrary: seen es')
  case (Cons e es)
  then obtain seen' e' rest where v: "validate_entry D H seen e = Inr (seen', e')"
    and r: "validate_entries D H seen' es = Inr rest" "es' = e' # rest"
    by (auto simp: bind_simps)
  note step = validate_entry_spec [OF v]
  with Cons.IH [OF r(1)] Cons.prems(2) r(2) show ?case by auto
qed simp


definition two_ranges :: "batch_entry list" where
  "two_ranges =
     [\<lparr>be_path = ''/a'' @ [backslash] @ ''b'', be_offset = None, be_limit = Some 2, be_encoding = None\<rparr>,
      \<lparr>be_path = ''/a/b'', be_offset = Some 3, be_limit = Some 2, be_encoding = None\<rparr>]"


text \<open>
  The batch re-parses the display form of a path, which turns a backslash into a separator: a file URI
  whose decoded path holds one names a different file in a batch than in a single read.
\<close>

lemma uri_backslash_path:
  "parse_local_path_input plain_host ''file:///a%5Cb'' = Inr (''/a'' @ [backslash] @ ''b'') \<and>
   parse_input_path (display_path (''/a'' @ [backslash] @ ''b'')) = ''/a/b''"
  by code_simp

end
