(* ===== verification/Path_Codec.thy ===== *)
theory Path_Codec
  imports Search_Order Paths Utf8_Validation
begin

text \<open>
  The search tools' path codec on Unix (\<open>src/src/path_codec.rs\<close>): a native path is any byte string,
  its display is one line of UTF-8 in which every component that is not plain text stands as a token
  \<open>~fastctx~b<hex>~\<close>, and parsing decodes each token exactly once. A path is its bytes, written as
  characters; the file system is the parameter of Paths and a metadata function.
\<close>

section \<open>Path components (std::path on Unix)\<close>

datatype component = RootDir | CurDir | ParentDir | Normal utf8

fun split_on :: "'a \<Rightarrow> 'a list \<Rightarrow> 'a list list" where
  "split_on sep [] = [[]]"
| "split_on sep (c # cs) =
     (if c = sep then [] # split_on sep cs
      else case split_on sep cs of [] \<Rightarrow> [[c]] | p # ps \<Rightarrow> (c # p) # ps)"

definition body_parts :: "utf8 \<Rightarrow> utf8 list" where
  "body_parts path = filter (\<lambda>s. s \<noteq> [] \<and> s \<noteq> ''.'') (split_on (CHR ''/'') path)"

definition body_component :: "utf8 \<Rightarrow> component" where
  "body_component s = (if s = ''..'' then ParentDir else Normal s)"

definition components :: "utf8 \<Rightarrow> component list" where
  "components path =
     (if is_absolute path then [RootDir]
      else if hd (split_on (CHR ''/'') path) = ''.'' then [CurDir] else []) @
     map body_component (body_parts path)"

text \<open>\<open>Path::strip_prefix\<close>, by components.\<close>

definition strip_components :: "utf8 \<Rightarrow> utf8 \<Rightarrow> component list option" where
  "strip_components base path =
     (let b = components base; p = components path in
      if take (length b) p = b then Some (drop (length b) p) else None)"

section \<open>Tokens\<close>

definition byte_token_prefix :: utf8 where
  "byte_token_prefix = ''~fastctx~b''"

definition windows_token_prefix :: utf8 where
  "windows_token_prefix = ''~fastctx~w''"

definition token_suffix :: char where
  "token_suffix = CHR ''~''"

datatype canonical_token = ByteToken utf8 | WindowsToken utf8

definition is_lower_hex :: "char \<Rightarrow> bool" where
  "is_lower_hex c \<longleftrightarrow> ascii_digit c \<or> (97 \<le> (of_char c :: nat) \<and> (of_char c :: nat) \<le> 102)"

definition strip_suffix :: "char \<Rightarrow> utf8 \<Rightarrow> utf8 option" where
  "strip_suffix c t = (if t \<noteq> [] \<and> List.last t = c then Some (butlast t) else None)"

definition token_payload :: "utf8 \<Rightarrow> nat \<Rightarrow> utf8 \<Rightarrow> utf8 option" where
  "token_payload token_prefix width c =
     (case strip_prefix token_prefix c of
        None \<Rightarrow> None
      | Some rest \<Rightarrow>
          (case strip_suffix token_suffix rest of
             None \<Rightarrow> None
           | Some payload \<Rightarrow>
               if payload \<noteq> [] \<and> length payload mod width = 0 \<and> list_all is_lower_hex payload
               then Some payload else None))"

definition canonical_token :: "utf8 \<Rightarrow> canonical_token option" where
  "canonical_token c =
     (case token_payload byte_token_prefix 2 c of
        Some payload \<Rightarrow> Some (ByteToken payload)
      | None \<Rightarrow> map_option WindowsToken (token_payload windows_token_prefix 4 c))"

definition hex_char :: "nat \<Rightarrow> char" where
  "hex_char d = ''0123456789abcdef'' ! d"

definition append_lower_hex :: "utf8 \<Rightarrow> utf8" where
  "append_lower_hex bs = concat (map (\<lambda>b. [hex_char (of_char b div 16), hex_char (of_char b mod 16)]) bs)"

definition byte_token :: "utf8 \<Rightarrow> utf8" where
  "byte_token bs = byte_token_prefix @ append_lower_hex bs @ [token_suffix]"

definition decode_hex_nibble :: "char \<Rightarrow> nat" where
  "decode_hex_nibble c = (if ascii_digit c then of_char c - 48 else of_char c - 97 + 10)"

fun decode_byte_pairs :: "utf8 \<Rightarrow> utf8" where
  "decode_byte_pairs (a # b # rest) =
     char_of (decode_hex_nibble a * 16 + decode_hex_nibble b) # decode_byte_pairs rest"
| "decode_byte_pairs _ = []"

section \<open>Components and their display\<close>

definition is_text :: "utf8 \<Rightarrow> bool" where
  "is_text c \<longleftrightarrow> is_utf8 (utf8_bytes c)"

definition is_control :: "nat \<Rightarrow> bool" where
  "is_control v \<longleftrightarrow> v < 32 \<or> (127 \<le> v \<and> v < 160)"

definition breaks_line :: "utf8 \<Rightarrow> bool" where
  "breaks_line c \<longleftrightarrow> is_control (scalar c) \<or> scalar c = 0x2028 \<or> scalar c = 0x2029"

definition component_is_safe :: "utf8 \<Rightarrow> bool" where
  "component_is_safe c \<longleftrightarrow>
     \<not> list_ex breaks_line (chars c) \<and> backslash \<notin> set c \<and> canonical_token c = None"

definition encode_component :: "utf8 \<Rightarrow> utf8" where
  "encode_component c = (if is_text c \<and> component_is_safe c then c else byte_token c)"

definition codec_error :: "utf8 \<Rightarrow> utf8" where
  "codec_error c =
     ''Invalid FastCtx-encoded path component '' @ dq @ c @ dq @
     '' for this platform. Copy an encoded path exactly as returned by FastCtx.''"

definition is_single_normal_component :: "utf8 \<Rightarrow> bool" where
  "is_single_normal_component c \<longleftrightarrow>
     CHR 0x00 \<notin> set c \<and> CHR ''/'' \<notin> set c \<and>
     (case components c of [Normal _] \<Rightarrow> True | _ \<Rightarrow> False)"

definition decode_byte_component :: "utf8 \<Rightarrow> utf8 \<Rightarrow> utf8 + utf8" where
  "decode_byte_component payload source =
     (let bs = decode_byte_pairs payload in if byte_token bs \<noteq> source then Inl (codec_error source) else Inr bs)"

definition decode_component_once :: "utf8 \<Rightarrow> utf8 + utf8" where
  "decode_component_once c =
     (if \<not> is_text c then Inr c
      else case canonical_token c of
          None \<Rightarrow> Inr c
        | Some token \<Rightarrow>
            bind_r (case token of
                ByteToken payload \<Rightarrow> decode_byte_component payload c
              | WindowsToken payload \<Rightarrow> Inl (codec_error c)) (\<lambda>decoded.
            if is_single_normal_component decoded then Inr decoded else Inl (codec_error c)))"

definition append_display_component :: "utf8 \<Rightarrow> utf8 \<Rightarrow> utf8" where
  "append_display_component shown c =
     (if shown \<noteq> [] \<and> List.last shown \<noteq> CHR ''/'' then shown @ ''/'' else shown) @ c"

definition append_component :: "utf8 \<Rightarrow> component \<Rightarrow> utf8" where
  "append_component shown c =
     (case c of
        RootDir \<Rightarrow> if shown \<noteq> [] \<and> List.last shown = CHR ''/'' then shown else shown @ ''/''
      | CurDir \<Rightarrow> append_display_component shown ''.''
      | ParentDir \<Rightarrow> append_display_component shown ''..''
      | Normal s \<Rightarrow> append_display_component shown (encode_component s))"

definition display_components :: "component list \<Rightarrow> utf8" where
  "display_components cs = foldl append_component [] cs"

definition display_encoded :: "utf8 \<Rightarrow> utf8" where
  "display_encoded path = display_components (components path)"

section \<open>Parsing\<close>

fun decode_components :: "utf8 \<Rightarrow> component list \<Rightarrow> utf8 + utf8" where
  "decode_components decoded [] = Inr decoded"
| "decode_components decoded (c # cs) =
     (case c of
        RootDir \<Rightarrow> decode_components (join_path decoded ''/'') cs
      | CurDir \<Rightarrow> decode_components (join_path decoded ''.'') cs
      | ParentDir \<Rightarrow> decode_components (join_path decoded ''..'') cs
      | Normal s \<Rightarrow> bind_r (decode_component_once s) (\<lambda>s. decode_components (join_path decoded s) cs))"

definition parse_encoded_path :: "host \<Rightarrow> utf8 \<Rightarrow> utf8 + utf8" where
  "parse_encoded_path H input =
     bind_r (parse_local_path_input H input) (\<lambda>path.
     if is_local_file_uri_input input then Inr path else decode_components [] (components path))"

section \<open>Path records\<close>

definition without_metadata :: "utf8 \<Rightarrow> utf8 \<Rightarrow> 'fp path_record" where
  "without_metadata path match_root =
     \<lparr>native = utf8_bytes path, display = utf8_bytes (display_encoded path),
      relative_match = utf8_bytes (display_components
        (case strip_components match_root path of None \<Rightarrow> components path | Some cs \<Rightarrow> cs)),
      native_key = utf8_bytes path, modified = None, traversal_len_hint = None, traversal_fingerprint = None\<rparr>"

record 'fp metadata =
  md_len :: nat
  md_modified :: "utf8 + int"
  md_identity :: 'fp

definition from_metadata :: "utf8 \<Rightarrow> utf8 \<Rightarrow> 'fp metadata \<Rightarrow> bool \<Rightarrow> utf8 + 'fp path_record" where
  "from_metadata path match_root md include_modified =
     map_r (\<lambda>m. (without_metadata path match_root)\<lparr>modified := m, traversal_len_hint := Some (md_len md),
       traversal_fingerprint := Some (md_identity md)\<rparr>)
      (if include_modified then map_r Some (md_modified md) else Inr None)"

section \<open>Search roots\<close>

datatype root_kind = RootFile | RootDirectory

datatype root_requirement = FileOrDirectory | DirectoryOnly

datatype root_failure = RootMissing | RootFailure open_failure

record resolved_root =
  rr_native :: utf8
  rr_display :: utf8
  rr_kind :: root_kind

text \<open>What \<open>fs::metadata\<close> and \<open>dunce::canonicalize\<close> say of a path; \<open>None\<close> is neither file nor directory.\<close>

record search_fs =
  sf_host :: host
  sf_metadata :: "utf8 \<Rightarrow> root_failure + root_kind option"
  sf_canonical :: "utf8 \<Rightarrow> open_failure + utf8"

definition encoded_io_error :: "utf8 \<Rightarrow> open_failure \<Rightarrow> utf8" where
  "encoded_io_error path e =
     (case e of
        PermissionDenied \<Rightarrow> ''Permission denied: '' @ display_encoded path
      | OtherFailure t \<Rightarrow> ''Cannot open file: '' @ display_encoded path @ '' ('' @ t @ '')'')"

definition encoded_current_dir :: "search_fs \<Rightarrow> utf8" where
  "encoded_current_dir S =
     (case ho_cwd (sf_host S) of
        None \<Rightarrow> ''.''
      | Some p \<Rightarrow> display_encoded (or_self (ho_canonical (sf_host S) p) p))"

definition missing_absolute_search_path_message :: "search_fs \<Rightarrow> utf8 \<Rightarrow> utf8" where
  "missing_absolute_search_path_message S path =
     ''Path does not exist: '' @ display_encoded path @ [nl] @
     ''Note: the session working directory is '' @ encoded_current_dir S @ ''.''"

definition missing_relative_search_path_message :: "search_fs \<Rightarrow> utf8 \<Rightarrow> utf8" where
  "missing_relative_search_path_message S path =
     (let resolved = join_path (or_self (ho_cwd (sf_host S)) ''.'') path in
      ''Path does not exist: '' @ display_encoded path @ [nl] @
      ''Note: the session working directory is '' @ encoded_current_dir S @ ''.'' @
      (case (sf_metadata S resolved, sf_canonical S resolved) of
         (Inr _, Inr absolute) \<Rightarrow> '' Use the absolute path '' @ display_encoded absolute @ ''.''
       | _ \<Rightarrow> []))"

definition metadata_kind :: "utf8 \<Rightarrow> root_kind option \<Rightarrow> utf8 + root_kind" where
  "metadata_kind path kind = ok_or (''Path is not a file or directory: '' @ display_encoded path) kind"

definition resolve_search_root ::
    "search_fs \<Rightarrow> utf8 \<Rightarrow> utf8 option \<Rightarrow> root_requirement \<Rightarrow> utf8 + resolved_root" where
  "resolve_search_root S cwd_error input requirement =
     bind_r (case input of
         Some input \<Rightarrow> parse_encoded_path (sf_host S) input
       | None \<Rightarrow> ok_or (''Cannot access the session working directory: '' @ cwd_error) (ho_cwd (sf_host S)))
     (\<lambda>parsed.
       if input \<noteq> None \<and> \<not> is_absolute parsed then Inl (missing_relative_search_path_message S parsed)
       else
         bind_r (map_err (\<lambda>e. case e of
             RootMissing \<Rightarrow> missing_absolute_search_path_message S parsed
           | RootFailure e \<Rightarrow> encoded_io_error parsed e) (sf_metadata S parsed)) (\<lambda>md.
         bind_r (metadata_kind parsed md) (\<lambda>kind.
         if requirement = DirectoryOnly \<and> kind \<noteq> RootDirectory
         then Inl (''Path is not a directory: '' @ display_encoded parsed)
         else map_r (\<lambda>canonical.
             \<lparr>rr_native = canonical, rr_display = display_encoded canonical, rr_kind = kind\<rparr>)
           (map_err (encoded_io_error parsed) (sf_canonical S parsed)))))"

section \<open>Components of a path and of its display\<close>

abbreviation slash :: char where
  "slash \<equiv> CHR ''/''"

lemma split_on_parts: "split_on sep t \<noteq> [] \<and> list_all (\<lambda>p. sep \<notin> set p) (split_on sep t)"
  by (induction sep t rule: split_on.induct) (auto split: list.split)

lemma split_on_free: "sep \<notin> set t \<Longrightarrow> split_on sep t = [t]"
  by (induction t) auto

lemma split_on_append: "sep \<notin> set a \<Longrightarrow> split_on sep (a @ sep # b) = a # split_on sep b"
  by (induction a) auto

lemma split_on_set: "p \<in> set (split_on sep t) \<Longrightarrow> set p \<subseteq> set t"
  by (induction sep t arbitrary: p rule: split_on.induct) (fastforce split: list.splits if_splits)+

lemma split_join: "ps \<noteq> [] \<Longrightarrow> list_all (\<lambda>p. sep \<notin> set p) ps \<Longrightarrow> split_on sep (join [sep] ps) = ps"
proof (induction ps)
  case (Cons p ps)
  then show ?case by (cases ps) (simp_all add: split_on_free split_on_append join_Cons)
qed simp

definition plain_part :: "utf8 \<Rightarrow> bool" where
  "plain_part s \<longleftrightarrow> s \<noteq> [] \<and> s \<noteq> ''.'' \<and> slash \<notin> set s"

lemma plain_part_relative: "plain_part p \<Longrightarrow> \<not> is_absolute p"
  by (cases p) (auto simp: plain_part_def is_absolute_def)

lemma body_parts_plain: "list_all plain_part (body_parts path)"
  using split_on_parts [of slash path] by (auto simp: body_parts_def plain_part_def list_all_iff)

lemma body_parts_join: "list_all plain_part ps \<Longrightarrow> body_parts (slash # join ''/'' ps) = ps"
proof (cases "ps = []")
  case False
  assume ps: "list_all plain_part ps"
  then have "list_all (\<lambda>p. slash \<notin> set p) ps" by (auto simp: list_all_iff plain_part_def)
  from split_join [OF False this] have "split_on slash (slash # join ''/'' ps) = [] # ps" by simp
  then show ?thesis using ps by (simp add: body_parts_def) (auto simp: list_all_iff plain_part_def filter_id_conv)
qed (simp add: body_parts_def)

lemma components_join:
  "list_all plain_part ps \<Longrightarrow> components (slash # join ''/'' ps) = RootDir # map body_component ps"
  by (simp add: components_def is_absolute_def body_parts_join)

text \<open>Pushing parts one by one writes them joined by separators.\<close>

lemma fold_parts:
  assumes "list_all plain_part ps"
    and f: "\<And>t p. t \<noteq> [] \<Longrightarrow> plain_part p \<Longrightarrow> f t p = (if List.last t = slash then t @ p else t @ slash # p)"
  shows "foldl f [slash] ps = slash # join ''/'' ps"
  using assms(1)
proof (induction ps rule: rev_induct)
  case (snoc p ps)
  then have p: "plain_part p" and ps: "list_all plain_part ps" by auto
  have "join ''/'' ps = [] \<or> List.last (slash # join ''/'' ps) \<noteq> slash"
  proof (cases ps rule: rev_cases)
    case (snoc qs q)
    with ps have "plain_part q" by simp
    then have "q \<noteq> []" "slash \<notin> set q" by (auto simp: plain_part_def)
    then have "List.last q \<noteq> slash" using last_in_set by metis
    with snoc \<open>q \<noteq> []\<close> show ?thesis by (cases "qs = []") (simp_all add: join_snoc)
  qed simp
  moreover have "ps \<noteq> [] \<Longrightarrow> join ''/'' ps \<noteq> []"
    using ps by (cases ps; cases "tl ps") (auto simp: plain_part_def)
  ultimately show ?case using snoc.IH [OF ps] f [OF _ p, of "slash # join ''/'' ps"]
    by (cases "ps = []") (auto simp: join_snoc split: if_splits)
qed simp

section \<open>Tokens decode to what they encode\<close>

definition printable_ascii :: "char \<Rightarrow> bool" where
  "printable_ascii c \<longleftrightarrow> 32 \<le> (of_char c :: nat) \<and> (of_char c :: nat) < 127 \<and> c \<noteq> backslash"

lemma hex_nibble:
  assumes "d < 16"
  shows "is_lower_hex (hex_char d)" "decode_hex_nibble (hex_char d) = d" "printable_ascii (hex_char d)"
    "hex_char d \<noteq> slash"
proof -
  have "list_all (\<lambda>d. is_lower_hex (hex_char d) \<and> decode_hex_nibble (hex_char d) = d \<and>
      printable_ascii (hex_char d) \<and> hex_char d \<noteq> slash) [0..<16]"
    by code_simp
  with assms show "is_lower_hex (hex_char d)" "decode_hex_nibble (hex_char d) = d" "printable_ascii (hex_char d)"
    "hex_char d \<noteq> slash"
    by (simp_all add: list_all_iff)
qed

lemma char_nibbles: "(of_char c :: nat) div 16 < 16" "(of_char c :: nat) mod 16 < 16"
  using nat_of_char_less_256 [of c] by (simp_all add: less_mult_imp_div_less)

lemma append_lower_hex_simps [simp]:
  "append_lower_hex [] = []"
  "append_lower_hex (b # bs) = hex_char (of_char b div 16) # hex_char (of_char b mod 16) # append_lower_hex bs"
  by (simp_all add: append_lower_hex_def)

lemma hex_payload:
  "list_all is_lower_hex (append_lower_hex bs)" "length (append_lower_hex bs) = 2 * length bs"
  "decode_byte_pairs (append_lower_hex bs) = bs"
  by (induction bs) (simp_all add: hex_nibble char_nibbles)

lemma byte_token_canonical: "c \<noteq> [] \<Longrightarrow> canonical_token (byte_token c) = Some (ByteToken (append_lower_hex c))"
  using hex_payload [of c]
  by (cases c) (simp_all add: canonical_token_def token_payload_def byte_token_def strip_prefix_def strip_suffix_def)

lemma byte_token_printable: "list_all (\<lambda>c. printable_ascii c \<and> c \<noteq> slash) (byte_token c)"
proof -
  have "list_all (\<lambda>c. printable_ascii c \<and> c \<noteq> slash) (append_lower_hex c)"
    using hex_nibble char_nibbles
    by (induction c) auto
  then show ?thesis by (simp add: byte_token_def byte_token_prefix_def token_suffix_def printable_ascii_def backslash_def)
qed

lemma ascii_is_text: "list_all printable_ascii t \<Longrightarrow> is_text t"
proof (induction t)
  case (Cons c t)
  then have "follow (of_nat (of_char c)) = Some []"
    by (simp add: printable_ascii_def follow_def Let_def unat_of_nat)
  with Cons show ?case by (simp add: is_text_def utf8_bytes_def)
qed (simp add: is_text_def)

lemma is_text_append: "is_text a \<Longrightarrow> is_text (a @ b) = is_text b"
  by (simp add: is_text_def is_utf8_append)

lemma encode_component_text: "is_text (encode_component c)"
  using byte_token_printable [of c] ascii_is_text [of "byte_token c"]
  by (auto simp: encode_component_def list_all_iff)

lemma decode_encode_component:
  assumes "plain_part c" "c \<noteq> ''..''" "CHR 0x00 \<notin> set c"
  shows "decode_component_once (encode_component c) = Inr c"
proof (cases "is_text c \<and> component_is_safe c")
  case True
  then show ?thesis by (simp add: encode_component_def decode_component_once_def component_is_safe_def)
next
  case False
  have "\<not> is_absolute c" using assms(1) by (cases c) (auto simp: is_absolute_def plain_part_def)
  then have "components c = [Normal c]"
    using assms(1,2) by (simp add: components_def body_parts_def split_on_free plain_part_def body_component_def)
  with assms have "is_single_normal_component c" by (simp add: is_single_normal_component_def plain_part_def)
  moreover have "is_text (byte_token c)"
    using byte_token_printable [of c] by (intro ascii_is_text) (simp add: list_all_iff)
  ultimately show ?thesis using False byte_token_canonical [of c] assms(1)
    by (auto simp: encode_component_def decode_component_once_def decode_byte_component_def hex_payload plain_part_def)
qed

text \<open>What is displayed for a part, and pushed back for it.\<close>

definition shown_part :: "utf8 \<Rightarrow> utf8" where
  "shown_part s = (if s = ''..'' then s else encode_component s)"

lemma encode_component_plain:
  assumes "plain_part s" "s \<noteq> ''..''"
  shows "plain_part (encode_component s) \<and> encode_component s \<noteq> ''..''"
proof (cases "is_text s \<and> component_is_safe s")
  case True
  with assms show ?thesis by (simp add: encode_component_def)
next
  case False
  have "slash \<notin> set (byte_token s)" using byte_token_printable [of s] by (auto simp: list_all_iff)
  moreover obtain t where "byte_token s = CHR ''~'' # t" by (simp add: byte_token_def byte_token_prefix_def)
  ultimately show ?thesis using False by (auto simp: encode_component_def plain_part_def)
qed

lemma shown_part_plain: "plain_part s \<Longrightarrow> plain_part (shown_part s)"
  using encode_component_plain by (auto simp: shown_part_def)

lemma body_component_shown:
  "plain_part s \<Longrightarrow> body_component (shown_part s) = (if s = ''..'' then ParentDir else Normal (encode_component s))"
  using encode_component_plain by (auto simp: shown_part_def body_component_def)

lemma absolute_components: "is_absolute p \<Longrightarrow> components p = RootDir # map body_component (body_parts p)"
  by (simp add: components_def)

lemma display_absolute:
  assumes "is_absolute p"
  shows "display_encoded p = slash # join ''/'' (map shown_part (body_parts p))"
proof -
  have body: "append_component t (body_component s) = append_display_component t (shown_part s)" for t s
    by (simp add: append_component_def body_component_def shown_part_def)
  have "list_all plain_part (map shown_part (body_parts p))"
    using body_parts_plain [of p] shown_part_plain by (auto simp: list_all_iff)
  then have "foldl append_display_component [slash] (map shown_part (body_parts p)) =
      slash # join ''/'' (map shown_part (body_parts p))"
    by (rule fold_parts) (simp add: append_display_component_def)
  moreover have "append_component [] RootDir = [slash]" by (simp add: append_component_def)
  ultimately show ?thesis using assms
    by (simp add: display_encoded_def display_components_def absolute_components foldl_map body)
qed

lemma decode_shown_parts:
  assumes "list_all (\<lambda>s. plain_part s \<and> CHR 0x00 \<notin> set s) ps"
  shows "decode_components t (map (body_component \<circ> shown_part) ps) = Inr (foldl join_path t ps)"
  using assms
  by (induction ps arbitrary: t) (auto simp: body_component_shown decode_encode_component)

section \<open>Displayed paths are one line of text\<close>

definition line_safe :: "utf8 \<Rightarrow> bool" where
  "line_safe t \<longleftrightarrow> is_text t \<and> \<not> list_ex breaks_line (chars t) \<and> backslash \<notin> set t"

lemma line_safe_append: "line_safe a \<Longrightarrow> line_safe b \<Longrightarrow> line_safe (a @ b)"
  using well_formed_splits [of b a]
  by (auto simp: line_safe_def is_text_append is_text_def [of b] chars_append)

lemma printable_line_safe: "list_all printable_ascii t \<Longrightarrow> line_safe t"
proof -
  assume t: "list_all printable_ascii t"
  then have "chars t = map (\<lambda>c. [c]) t" by (induction t) (auto simp: printable_ascii_def)
  with t ascii_is_text [OF t] show ?thesis
    by (auto simp: line_safe_def list_ex_iff list_all_iff breaks_line_def is_control_def scalar_def lead_bits_def
        printable_ascii_def)
qed

lemma encode_component_line_safe: "line_safe (encode_component c)"
  using byte_token_printable [of c] printable_line_safe [of "byte_token c"]
  by (auto simp: encode_component_def component_is_safe_def line_safe_def list_all_iff)

lemma line_safe_literals: "line_safe ''/''" "line_safe ''.''" "line_safe ''..''" "line_safe []"
  by (rule printable_line_safe, simp add: printable_ascii_def backslash_def)+

lemma append_component_line_safe:
  assumes t: "line_safe t"
  shows "line_safe (append_component t c)"
proof -
  have "line_safe (append_display_component t s)" if "line_safe s" for s
    unfolding append_display_component_def
    by (intro line_safe_append that) (simp add: t line_safe_append line_safe_literals)
  then have "line_safe (append_display_component t ''.'')" "line_safe (append_display_component t ''..'')"
    "line_safe (append_display_component t (encode_component s))" for s
    by (simp_all add: line_safe_literals encode_component_line_safe)
  with t show ?thesis by (cases c) (auto simp: append_component_def line_safe_append line_safe_literals)
qed

lemma display_components_line_safe: "line_safe (display_components cs)"
proof -
  have "line_safe t \<Longrightarrow> line_safe (foldl append_component t cs)" for t
    by (induction cs arbitrary: t) (auto simp: append_component_line_safe)
  then show ?thesis by (simp add: display_components_def line_safe_literals)
qed

section \<open>The codec is lossless\<close>

lemma display_parse_spec:
  assumes p: "is_absolute p" "CHR 0x00 \<notin> set p"
  shows "parse_encoded_path H (display_encoded p) = Inr (slash # join ''/'' (body_parts p))"
    and "components (slash # join ''/'' (body_parts p)) = components p"
proof -
  let ?ps = "body_parts p"
  show "components (slash # join ''/'' ?ps) = components p"
    by (simp add: components_join body_parts_plain absolute_components p)
  have abs: "is_absolute (display_encoded p)" by (simp add: display_absolute [OF p(1)] is_absolute_def)
  have "backslash \<notin> set (display_encoded p)"
    using display_components_line_safe by (simp add: display_encoded_def line_safe_def)
  then have same: "parse_input_path (display_encoded p) = display_encoded p"
    by (simp add: parse_input_path_def to_slashes_id)
  have shown: "list_all plain_part (map shown_part ?ps)"
    using body_parts_plain [of p] shown_part_plain by (auto simp: list_all_iff)
  have nul: "list_all (\<lambda>s. plain_part s \<and> CHR 0x00 \<notin> set s) ?ps"
    using body_parts_plain [of p] split_on_set [of _ slash p] p(2) by (auto simp: list_all_iff body_parts_def)
  have "decode_components [] (components (display_encoded p)) = Inr (foldl join_path ''/'' ?ps)"
    using decode_shown_parts [OF nul, of "''/''"]
    by (simp add: display_absolute [OF p(1)] components_join [OF shown] join_path_def is_absolute_def)
  also have "foldl join_path ''/'' ?ps = slash # join ''/'' ?ps"
    by (rule fold_parts [OF body_parts_plain]) (simp add: join_path_def plain_part_relative)
  finally show "parse_encoded_path H (display_encoded p) = Inr (slash # join ''/'' ?ps)"
    by (simp add: parse_encoded_path_def absolute_input [OF abs] same)
qed

text \<open>
  C35. A path that the search tools display can be given back to them: for every absolute native path,
  text or not, parsing the displayed form succeeds and yields a path with the same components, so two
  paths with different components are never displayed alike, file names that look like tokens included.
\<close>

theorem displayed_path_parses:
  assumes "is_absolute p" "CHR 0x00 \<notin> set p"
  shows "\<exists>q. parse_encoded_path H (display_encoded p) = Inr q \<and> components q = components p \<and>
    (\<forall>p'. display_encoded p' = display_encoded p \<longrightarrow> is_absolute p' \<longrightarrow> CHR 0x00 \<notin> set p' \<longrightarrow>
       components p' = components p)"
proof -
  have "components p' = components p"
    if "display_encoded p' = display_encoded p" "is_absolute p'" "CHR 0x00 \<notin> set p'" for p'
    using display_parse_spec(1) [OF that(2,3), of H] display_parse_spec(1) [OF assms, of H]
      display_parse_spec(2) [OF that(2,3)] display_parse_spec(2) [OF assms] that(1) by simp
  with display_parse_spec(1) [OF assms, of H] display_parse_spec(2) [OF assms] show ?thesis by blast
qed

definition odd_name :: utf8 where
  "odd_name = ''/d/'' @ [CHR 0xFF, nl]"

theorem displayed_path_parses_witness:
  "display_encoded odd_name = ''/d/~fastctx~bff0a~'' \<and>
   (\<exists>q. parse_encoded_path plain_host ''/d/~fastctx~bff0a~'' = Inr q \<and> components q = [RootDir, Normal ''d'', Normal [CHR 0xFF, nl]])"
proof -
  have d: "display_encoded odd_name = ''/d/~fastctx~bff0a~''"
    and c: "components odd_name = [RootDir, Normal ''d'', Normal [CHR 0xFF, nl]]"
    and a: "is_absolute odd_name" "CHR 0x00 \<notin> set odd_name"
    by code_simp+
  show ?thesis using displayed_path_parses [OF a, of plain_host] unfolding d c by blast
qed

text \<open>
  C36. Every displayed path is one line of text, whatever bytes the file names hold: well-formed UTF-8
  without control characters, line or paragraph separators, or backslashes.
\<close>

theorem displayed_path_line_safe:
  "is_utf8 (utf8_bytes (display_encoded p)) \<and> backslash \<notin> set (display_encoded p) \<and>
   \<not> list_ex (\<lambda>c. is_control (scalar c) \<or> scalar c = 0x2028 \<or> scalar c = 0x2029) (chars (display_encoded p))"
  using display_components_line_safe [of "components p"]
  by (simp add: display_encoded_def line_safe_def is_text_def breaks_line_def [abs_def])

end
