(* ===== verification/Snapshot.thy ===== *)
theory Snapshot
  imports Encoding_Reader Search_Order Render_Plan
begin

text \<open>
  Single-open snapshots of search candidates (\<open>src/src/file_snapshot.rs\<close>): the capture of a file's
  bytes, the classifier that may end it before the end of the file, the identity checks around it, and
  the byte ranges of the sealed snapshot. A file is what its reads deliver; a temporary file is its
  bytes, and the failures of its creation, writes and flush are parameters.
\<close>

section \<open>Failures and results\<close>

datatype io_kind = IoNotFound | IoPermissionDenied | IoInvalidData | IoOther

record io_error =
  ie_kind :: io_kind
  ie_text :: utf8

definition preflight_bytes :: nat where
  "preflight_bytes = 8 * 1024"

definition snapshot_chunk_bytes :: nat where
  "snapshot_chunk_bytes = 64 * 1024"

definition memory_snapshot_limit :: nat where
  "memory_snapshot_limit = 8 * 1024 * 1024"

datatype fallback_state = FallbackAbsent | PermanentlyMalformed

datatype terminal_proof =
    NulWithinFrozenProbe
  | BinaryMagicAfterUtf8Failure
  | ExplicitDecoderMalformed utf8
  | BomDecoderMalformed utf8
  | AutomaticRejected nat fallback_state

definition proof_rejection :: "terminal_proof \<Rightarrow> encoding_rejection option" where
  "proof_rejection proof' =
     (case proof' of
        NulWithinFrozenProbe \<Rightarrow> None
      | BinaryMagicAfterUtf8Failure \<Rightarrow> None
      | ExplicitDecoderMalformed encoding \<Rightarrow> Some (ExplicitMalformed encoding)
      | BomDecoderMalformed encoding \<Rightarrow> Some (BomMismatch encoding)
      | AutomaticRejected offset _ \<Rightarrow> Some (MixedOrInconsistent (Some offset)))"

datatype capture_failure =
    CaptureCancelled
  | CaptureRetired
  | CaptureInvalidEncoding encoding_rejection
  | CaptureIo io_error
  | CaptureSnapshot io_error

definition capture_checkpoint :: "work_probe option \<Rightarrow> nat \<Rightarrow> capture_failure + nat" where
  "capture_checkpoint op k =
     (case op of
        None \<Rightarrow> Inr k
      | Some p \<Rightarrow>
          (case p k of
             Some RequestCancelled \<Rightarrow> Inl CaptureCancelled
           | Some EpochRetired \<Rightarrow> Inl CaptureRetired
           | None \<Rightarrow> Inr (Suc k)))"

definition prefer_stop :: "work_probe option \<Rightarrow> nat \<Rightarrow> capture_failure \<Rightarrow> capture_failure" where
  "prefer_stop op k failure = (case capture_checkpoint op k of Inr _ \<Rightarrow> failure | Inl stop \<Rightarrow> stop)"

section \<open>Sealed bytes\<close>

datatype backing = MemoryBacking "byte list" | TempBacking "byte list"

fun backing_bytes :: "backing \<Rightarrow> byte list" where
  "backing_bytes (MemoryBacking bs) = bs"
| "backing_bytes (TempBacking bs) = bs"

record captured_snapshot =
  cp_len :: nat
  cp_storage :: backing

record byte_range =
  br_backing :: backing
  br_start :: nat
  br_len :: nat

definition invalid_data :: "utf8 \<Rightarrow> io_error" where
  "invalid_data text = \<lparr>ie_kind = IoInvalidData, ie_text = text\<rparr>"

definition snapshot_range_error :: io_error where
  "snapshot_range_error = invalid_data ''captured text range lies outside its snapshot backing''"

text \<open>\<open>bytes.get(start..end)\<close>\<close>

definition get_range :: "byte list \<Rightarrow> nat \<Rightarrow> nat \<Rightarrow> byte list option" where
  "get_range bs first final =
     (if first \<le> final \<and> final \<le> length bs then Some (take (final - first) (drop first bs)) else None)"

definition range_memory_bytes :: "byte_range \<Rightarrow> byte list option" where
  "range_memory_bytes r =
     (case br_backing r of
        MemoryBacking bs \<Rightarrow>
          (case checked_add (br_start r) (br_len r) of None \<Rightarrow> None | Some final \<Rightarrow> get_range bs (br_start r) final)
      | TempBacking _ \<Rightarrow> None)"

text \<open>What a reader from a position of the temporary file reads.\<close>

definition open_range_reader :: "byte_range \<Rightarrow> io_error + byte list" where
  "open_range_reader r =
     (case br_backing r of
        MemoryBacking bs \<Rightarrow>
          bind_r (ok_or snapshot_range_error (checked_add (br_start r) (br_len r))) (\<lambda>final.
          ok_or snapshot_range_error (get_range bs (br_start r) final))
      | TempBacking bs \<Rightarrow> Inr (drop (br_start r) bs))"

definition read_range :: "byte_range \<Rightarrow> nat \<Rightarrow> nat \<Rightarrow> io_error + byte list" where
  "read_range r first final =
     (if final < first \<or> br_len r < final
      then Inl (invalid_data ''captured text range lies outside its snapshot backing'')
      else
        bind_r (ok_or (invalid_data ''snapshot offset overflow'') (checked_add (br_start r) first)) (\<lambda>start.
        case br_backing r of
          MemoryBacking bs \<Rightarrow>
            bind_r (ok_or snapshot_range_error (checked_add start (final - first))) (\<lambda>finish.
            ok_or snapshot_range_error (get_range bs start finish))
        | TempBacking bs \<Rightarrow>
            ok_or \<lparr>ie_kind = IoOther, ie_text = ''failed to fill whole buffer''\<rparr>
              (get_range bs start (start + (final - first)))))"

definition snapshot_memory_bytes :: "captured_snapshot \<Rightarrow> byte list option" where
  "snapshot_memory_bytes c = (case cp_storage c of MemoryBacking bs \<Rightarrow> Some bs | TempBacking _ \<Rightarrow> None)"

definition memory_prefix :: "captured_snapshot \<Rightarrow> nat \<Rightarrow> byte list option" where
  "memory_prefix c maximum = map_option (\<lambda>bs. take (min (length bs) maximum) bs) (snapshot_memory_bytes c)"

definition open_snapshot_reader :: "captured_snapshot \<Rightarrow> nat \<Rightarrow> byte list" where
  "open_snapshot_reader c start =
     (case cp_storage c of
        MemoryBacking bs \<Rightarrow> drop (min start (length bs)) bs
      | TempBacking bs \<Rightarrow> drop start bs)"

definition shared_range :: "captured_snapshot \<Rightarrow> nat \<Rightarrow> io_error + byte_range" where
  "shared_range c start =
     (if cp_len c < start then Inl (invalid_data ''decoded text starts beyond the captured snapshot'')
      else Inr \<lparr>br_backing = cp_storage c, br_start = start, br_len = cp_len c - start\<rparr>)"

section \<open>The classifier\<close>

datatype classifier_mode =
    ExplicitMode utf8 strict_validator bool
  | BomMode strict_validator utf8 bool bool
  | AutomaticMode strict_validator bool prefix_scanner "nat option" "strict_validator option" bool

record classifier =
  cl_explicit :: "utf8 option"
  cl_fallback :: "utf8 option"
  cl_probe :: "byte list"
  cl_mode :: "classifier_mode option"

definition new_classifier :: "utf8 option \<Rightarrow> utf8 option \<Rightarrow> classifier" where
  "new_classifier explicit fallback =
     \<lparr>cl_explicit = explicit, cl_fallback = fallback, cl_probe = [], cl_mode = None\<rparr>"

definition initialize :: "encoding_crates \<Rightarrow> classifier \<Rightarrow> encoding_rejection + classifier" where
  "initialize D c =
     (case cl_explicit c of
        Some encoding \<Rightarrow>
          bind_r (explicit_streaming_validator D encoding (cl_probe c)) (\<lambda>(decoder, bom_len).
          case validator_feed D (drop bom_len (cl_probe c)) decoder of
            (malformed, decoder) \<Rightarrow> Inr (c\<lparr>cl_mode := Some (ExplicitMode encoding decoder malformed)\<rparr>))
      | None \<Rightarrow>
          (case bom_streaming_validator (cl_probe c) of
             Some b \<Rightarrow>
               (case validator_feed D (drop (bv_bom_len b) (cl_probe c)) (bv_validator b) of
                  (malformed, decoder) \<Rightarrow>
                    Inr (c\<lparr>cl_mode := Some (BomMode decoder (bv_encoding b) (bv_is_utf8 b) malformed)\<rparr>))
           | None \<Rightarrow>
               bind_r (explicit_streaming_validator D ''utf-8'' (cl_probe c)) (\<lambda>(utf8, _).
               case validator_feed D (cl_probe c) utf8 of (utf8_malformed, utf8) \<Rightarrow>
               case scanner_push (cl_probe c) new_scanner of (conflict, scanner) \<Rightarrow>
               bind_r
                 (case cl_fallback c of
                    Some fallback \<Rightarrow>
                      map_r (\<lambda>(decoder, bom_len).
                          case validator_feed D (cl_probe c) decoder of (malformed, decoder) \<Rightarrow> (Some decoder, malformed))
                        (explicit_streaming_validator D fallback (cl_probe c))
                  | None \<Rightarrow> Inr (None, False)) (\<lambda>(fallback, fallback_malformed).
               Inr (c\<lparr>cl_mode := Some (AutomaticMode utf8 utf8_malformed scanner conflict fallback fallback_malformed)\<rparr>)))))"

fun feed_mode :: "encoding_crates \<Rightarrow> byte list \<Rightarrow> classifier_mode \<Rightarrow> classifier_mode" where
  "feed_mode D bs (ExplicitMode encoding decoder malformed) =
     (case validator_feed D bs decoder of (m, decoder) \<Rightarrow> ExplicitMode encoding decoder (malformed \<or> m))"
| "feed_mode D bs (BomMode decoder encoding utf8_mark malformed) =
     (case validator_feed D bs decoder of (m, decoder) \<Rightarrow> BomMode decoder encoding utf8_mark (malformed \<or> m))"
| "feed_mode D bs (AutomaticMode utf8 utf8_malformed scanner conflict fallback fallback_malformed) =
     (case validator_feed D bs utf8 of (m, utf8) \<Rightarrow>
      case (if conflict = None then scanner_push bs scanner else (conflict, scanner)) of (conflict, scanner) \<Rightarrow>
      case (case fallback of
              Some f \<Rightarrow> (case validator_feed D bs f of (m, f) \<Rightarrow> (Some f, fallback_malformed \<or> m))
            | None \<Rightarrow> (None, fallback_malformed)) of (fallback, fallback_malformed) \<Rightarrow>
      AutomaticMode utf8 (utf8_malformed \<or> m) scanner conflict fallback fallback_malformed)"

definition probe_is_settled :: "classifier \<Rightarrow> bool" where
  "probe_is_settled c \<longleftrightarrow> length (cl_probe c) = preflight_bytes"

definition classifier_proof :: "classifier \<Rightarrow> terminal_proof option" where
  "classifier_proof c =
     (case cl_mode c of
        None \<Rightarrow> None
      | Some (ExplicitMode encoding decoder malformed) \<Rightarrow>
          if malformed then Some (ExplicitDecoderMalformed encoding) else None
      | Some (BomMode decoder encoding utf8_mark malformed) \<Rightarrow>
          if utf8_mark \<and> 0 \<in> set (cl_probe c) then Some NulWithinFrozenProbe
          else if malformed \<and> (\<not> utf8_mark \<or> probe_is_settled c) then Some (BomDecoderMalformed encoding)
          else None
      | Some (AutomaticMode utf8 utf8_malformed scanner conflict fallback fallback_malformed) \<Rightarrow>
          if 0 \<in> set (cl_probe c) then Some NulWithinFrozenProbe
          else if \<not> probe_is_settled c then None
          else if utf8_malformed \<and> detect_binary_type (cl_probe c) \<noteq> None then Some BinaryMagicAfterUtf8Failure
          else
            (case conflict of
               None \<Rightarrow> None
             | Some offset \<Rightarrow>
                 (case fallback of
                    None \<Rightarrow> Some (AutomaticRejected offset FallbackAbsent)
                  | Some _ \<Rightarrow>
                      if fallback_malformed then Some (AutomaticRejected offset PermanentlyMalformed) else None)))"

definition classifier_feed ::
    "encoding_crates \<Rightarrow> byte list \<Rightarrow> classifier \<Rightarrow> encoding_rejection + terminal_proof option \<times> classifier" where
  "classifier_feed D bs c =
     (let remaining = preflight_bytes - length (cl_probe c);
          c = c\<lparr>cl_probe := cl_probe c @ take (min (length bs) remaining) bs\<rparr> in
      case cl_mode c of
        None \<Rightarrow>
          if length (cl_probe c) < 4 then Inr (None, c)
          else map_r (\<lambda>c. (classifier_proof c, c)) (initialize D c)
      | Some m \<Rightarrow>
          let c = c\<lparr>cl_mode := Some (feed_mode D bs m)\<rparr> in Inr (classifier_proof c, c))"

definition classifier_finish_eof :: "classifier \<Rightarrow> terminal_proof option" where
  "classifier_finish_eof c = classifier_proof c"

section \<open>Building the snapshot\<close>

record temp_host =
  th_create :: "io_error option"
  th_write :: "nat \<Rightarrow> io_error option"
  th_flush :: "io_error option"

text \<open>A temporary file holds the bytes written so far.\<close>

definition write_snapshot_chunk ::
    "temp_host \<Rightarrow> work_probe option \<Rightarrow> byte list \<Rightarrow> byte list \<times> nat \<Rightarrow> capture_failure + byte list \<times> nat" where
  "write_snapshot_chunk H op bs v =
     bind_r (capture_checkpoint op (snd v)) (\<lambda>k.
     case th_write H (length (fst v)) of
       Some e \<Rightarrow> Inl (prefer_stop op k (CaptureSnapshot e))
     | None \<Rightarrow> map_r (\<lambda>k. (fst v @ bs, k)) (capture_checkpoint op k))"

fun write_chunks ::
    "temp_host \<Rightarrow> work_probe option \<Rightarrow> byte list list \<Rightarrow> byte list \<times> nat \<Rightarrow> capture_failure + byte list \<times> nat" where
  "write_chunks H op [] v = Inr v"
| "write_chunks H op (c # cs) v = bind_r (write_snapshot_chunk H op c v) (write_chunks H op cs)"

definition snapshot_append ::
    "temp_host \<Rightarrow> work_probe option \<Rightarrow> byte list \<Rightarrow> backing \<times> nat \<Rightarrow> capture_failure + backing \<times> nat" where
  "snapshot_append H op bs v =
     bind_r
       (case fst v of
          MemoryBacking memory \<Rightarrow>
            if memory_snapshot_limit < sat_add (length memory) (length bs) then
              bind_r (capture_checkpoint op (snd v)) (\<lambda>k.
              bind_r (capture_checkpoint op k) (\<lambda>k.
              case th_create H of
                Some e \<Rightarrow> Inl (prefer_stop op k (CaptureSnapshot e))
              | None \<Rightarrow>
                  map_r (\<lambda>(file, k). (TempBacking file, k))
                    (write_chunks H op (chunks_of snapshot_chunk_bytes memory) ([], k))))
            else Inr v
        | TempBacking _ \<Rightarrow> Inr v) (\<lambda>(builder, k).
     case builder of
       MemoryBacking memory \<Rightarrow> Inr (MemoryBacking (memory @ bs), k)
     | TempBacking file \<Rightarrow>
         map_r (\<lambda>(file, k). (TempBacking file, k)) (write_snapshot_chunk H op bs (file, k)))"

definition snapshot_finish ::
    "temp_host \<Rightarrow> work_probe option \<Rightarrow> backing \<times> nat \<Rightarrow> capture_failure + captured_snapshot \<times> nat" where
  "snapshot_finish H op v =
     map_r (\<lambda>k. (\<lparr>cp_len = length (backing_bytes (fst v)), cp_storage = fst v\<rparr>, k))
       (case fst v of
          MemoryBacking _ \<Rightarrow> Inr (snd v)
        | TempBacking _ \<Rightarrow>
            bind_r (capture_checkpoint op (snd v)) (\<lambda>k.
            case th_flush H of
              Some e \<Rightarrow> Inl (prefer_stop op k (CaptureSnapshot e))
            | None \<Rightarrow> capture_checkpoint op k))"

section \<open>The capture\<close>

text \<open>A read of at most \<open>maximum\<close> bytes; what is left of a delivery comes with the next read.\<close>

type_synonym read_source = "(io_error + byte list) list"

fun source_read :: "nat \<Rightarrow> read_source \<Rightarrow> (io_error + byte list) \<times> read_source" where
  "source_read maximum [] = (Inr [], [])"
| "source_read maximum (Inl e # src) = (Inl e, src)"
| "source_read maximum (Inr bs # src) =
     (Inr (take maximum bs), if maximum < length bs then Inr (drop maximum bs) # src else src)"

record capture_state =
  ca_source :: read_source
  ca_classifier :: classifier
  ca_builder :: backing
  ca_polls :: nat

datatype chunk_step = ChunkEof nat | ChunkTerminal terminal_proof nat | ChunkMore nat capture_state

text \<open>One turn of either loop: the number of bytes read and the next state.\<close>

definition capture_chunk ::
    "encoding_crates \<Rightarrow> temp_host \<Rightarrow> work_probe option \<Rightarrow> nat \<Rightarrow> capture_state \<Rightarrow> capture_failure + chunk_step" where
  "capture_chunk D H op maximum s =
     bind_r (capture_checkpoint op (ca_polls s)) (\<lambda>k.
     bind_r (capture_checkpoint op k) (\<lambda>k.
     case source_read maximum (ca_source s) of
       (Inl e, _) \<Rightarrow> Inl (prefer_stop op k (CaptureIo e))
     | (Inr bs, src) \<Rightarrow>
         bind_r (capture_checkpoint op k) (\<lambda>k.
         if bs = [] then Inr (ChunkEof k)
         else
           case classifier_feed D bs (ca_classifier s) of
             Inl rejection \<Rightarrow> Inl (prefer_stop op k (CaptureInvalidEncoding rejection))
           | Inr (proof', c) \<Rightarrow>
               bind_r (capture_checkpoint op k) (\<lambda>k.
               case proof' of
                 Some proof' \<Rightarrow> Inr (ChunkTerminal proof' k)
               | None \<Rightarrow>
                   map_r (\<lambda>(builder, k). ChunkMore (length bs)
                       \<lparr>ca_source = src, ca_classifier = c, ca_builder = builder, ca_polls = k\<rparr>)
                     (snapshot_append H op bs (ca_builder s, k))))))"

definition source_size :: "read_source \<Rightarrow> nat" where
  "source_size src = sum_list (map (\<lambda>r. case r of Inl _ \<Rightarrow> 1 | Inr bs \<Rightarrow> Suc (length bs)) src)"

lemma source_read_size:
  "source_read maximum src = (Inr bs, src') \<Longrightarrow> bs \<noteq> [] \<Longrightarrow> source_size src' < source_size src"
  by (induction maximum src rule: source_read.induct) (auto simp: source_size_def split: if_splits)

text \<open>What a turn did, by its outcome.\<close>

lemma capture_chunk_cases:
  assumes "capture_chunk D H op maximum s = Inr r"
  obtains (eof) k src where "r = ChunkEof k" "source_read maximum (ca_source s) = (Inr [], src)"
    | (more) bs src c k where "source_read maximum (ca_source s) = (Inr bs, src)" "bs \<noteq> []"
      "classifier_feed D bs (ca_classifier s) = Inr (None, c)"
      "\<exists>builder k'. snapshot_append H op bs (ca_builder s, k) = Inr (builder, k') \<and>
        r = ChunkMore (length bs) \<lparr>ca_source = src, ca_classifier = c, ca_builder = builder, ca_polls = k'\<rparr>"
    | (proof') bs src c k p where "source_read maximum (ca_source s) = (Inr bs, src)" "bs \<noteq> []"
      "classifier_feed D bs (ca_classifier s) = Inr (Some p, c)" "r = ChunkTerminal p k"
proof -
  obtain got src where r: "source_read maximum (ca_source s) = (got, src)" by fastforce
  with assms obtain bs where got: "got = Inr bs"
    by (cases got) (auto simp: capture_chunk_def bind_simps)
  show ?thesis
  proof (cases "bs = []")
    case True
    with assms r got have "\<exists>k. r = ChunkEof k" by (auto simp: capture_chunk_def bind_simps)
    with eof r got True show ?thesis by blast
  next
    case False
    with assms r got obtain p c where f: "classifier_feed D bs (ca_classifier s) = Inr (p, c)"
      by (cases "classifier_feed D bs (ca_classifier s)") (auto simp: capture_chunk_def bind_simps)
    show ?thesis
    proof (cases p)
      case None
      with assms r got False f obtain k where
        "map_r (\<lambda>(builder, k). ChunkMore (length bs)
           \<lparr>ca_source = src, ca_classifier = c, ca_builder = builder, ca_polls = k\<rparr>)
         (snapshot_append H op bs (ca_builder s, k)) = Inr r"
        by (auto simp: capture_chunk_def bind_simps)
      then have "\<exists>builder k'. snapshot_append H op bs (ca_builder s, k) = Inr (builder, k') \<and>
        r = ChunkMore (length bs) \<lparr>ca_source = src, ca_classifier = c, ca_builder = builder, ca_polls = k'\<rparr>"
        by (auto simp: bind_simps)
      with more r got False f None show ?thesis by blast
    next
      case (Some p')
      with assms r got False f have "\<exists>k. r = ChunkTerminal p' k" by (auto simp: capture_chunk_def bind_simps)
      with proof' r got False f Some show ?thesis by blast
    qed
  qed
qed

lemma source_read_bound: "source_read maximum src = (Inr bs, src') \<Longrightarrow> length bs \<le> maximum"
  by (induction maximum src rule: source_read.induct) auto

lemma capture_chunk_size:
  assumes "capture_chunk D H op maximum s = Inr (ChunkMore n s')"
  shows "source_size (ca_source s') < source_size (ca_source s)"
  using assms
proof (cases rule: capture_chunk_cases)
  case (more bs src c k)
  with source_read_size [OF more(1,2)] show ?thesis by auto
qed auto

datatype capture_read = CaptureTerminal terminal_proof | CaptureComplete captured_snapshot

text \<open>The second loop reads whole chunks to the end of the file.\<close>

function capture_rest ::
    "encoding_crates \<Rightarrow> temp_host \<Rightarrow> work_probe option \<Rightarrow> capture_state \<Rightarrow>
      capture_failure + (terminal_proof option \<times> capture_state)" where
  "capture_rest D H op s =
     (case capture_chunk D H op snapshot_chunk_bytes s of
        Inl e \<Rightarrow> Inl e
      | Inr (ChunkEof k) \<Rightarrow> Inr (None, s\<lparr>ca_polls := k\<rparr>)
      | Inr (ChunkTerminal proof' k) \<Rightarrow> Inr (Some proof', s\<lparr>ca_polls := k\<rparr>)
      | Inr (ChunkMore n s) \<Rightarrow> capture_rest D H op s)"
  by pat_completeness auto
termination
  by (relation "measure (\<lambda>(D, H, op, s). source_size (ca_source s))") (auto dest: capture_chunk_size)

declare capture_rest.simps [simp del]

text \<open>The first loop reads the preflight bytes; it tells whether it met the end of the file.\<close>

function capture_preflight ::
    "encoding_crates \<Rightarrow> temp_host \<Rightarrow> work_probe option \<Rightarrow> nat \<Rightarrow> capture_state \<Rightarrow>
      capture_failure + (terminal_proof option \<times> bool \<times> capture_state)" where
  "capture_preflight D H op done' s =
     (if done' < preflight_bytes then
        (case capture_chunk D H op (preflight_bytes - done') s of
           Inl e \<Rightarrow> Inl e
         | Inr (ChunkEof k) \<Rightarrow> Inr (None, True, s\<lparr>ca_polls := k\<rparr>)
         | Inr (ChunkTerminal proof' k) \<Rightarrow> Inr (Some proof', False, s\<lparr>ca_polls := k\<rparr>)
         | Inr (ChunkMore n s) \<Rightarrow> capture_preflight D H op (done' + n) s)
      else Inr (None, False, s))"
  by pat_completeness auto
termination
  by (relation "measure (\<lambda>(D, H, op, n, s). source_size (ca_source s))") (auto dest: capture_chunk_size)

declare capture_preflight.simps [simp del]

definition capture_reader ::
    "encoding_crates \<Rightarrow> temp_host \<Rightarrow> work_probe option \<Rightarrow> read_source \<Rightarrow> utf8 option \<Rightarrow> utf8 option \<Rightarrow> nat \<Rightarrow>
      capture_failure + capture_read \<times> nat" where
  "capture_reader D H op src explicit fallback k =
     bind_r (capture_preflight D H op 0
       \<lparr>ca_source = src, ca_classifier = new_classifier explicit fallback, ca_builder = MemoryBacking [],
        ca_polls = k\<rparr>) (\<lambda>(proof', reached_eof, s).
     bind_r
       (if proof' \<noteq> None then Inr (proof', s)
        else if reached_eof then Inr (None, s)
        else capture_rest D H op s) (\<lambda>(proof', s).
     case proof' of
       Some p \<Rightarrow> Inr (CaptureTerminal p, ca_polls s)
     | None \<Rightarrow>
         let proof' = classifier_finish_eof (ca_classifier s) in
         bind_r (capture_checkpoint op (ca_polls s)) (\<lambda>k.
         case proof' of
           Some p \<Rightarrow> Inr (CaptureTerminal p, k)
         | None \<Rightarrow>
             map_r (\<lambda>(c, k). (CaptureComplete c, k)) (snapshot_finish H op (ca_builder s, k)))))"

section \<open>Identity\<close>

record file_identity =
  fi_device :: nat
  fi_inode :: nat
  fi_len :: nat
  fi_modified_seconds :: int
  fi_modified_nanoseconds :: int
  fi_changed_seconds :: int
  fi_changed_nanoseconds :: int

definition matches_hint :: "file_identity \<Rightarrow> file_identity option \<Rightarrow> bool" where
  "matches_hint i hint \<longleftrightarrow>
     (case hint of
        None \<Rightarrow> True
      | Some h \<Rightarrow>
          fi_device i = fi_device h \<and> fi_inode i = fi_inode h \<and> fi_len i = fi_len h \<and>
          fi_modified_seconds i = fi_modified_seconds h \<and>
          fi_modified_nanoseconds i = fi_modified_nanoseconds h \<and>
          fi_changed_seconds i = fi_changed_seconds h \<and>
          fi_changed_nanoseconds i = fi_changed_nanoseconds h)"

text \<open>
  What the operating system answers for one candidate: opening it, the identity of the handle before and
  after the capture and of the path afterwards, each with whether it is a regular file.
\<close>

record candidate_file =
  cf_open :: "io_error option"
  cf_before :: "io_error + file_identity \<times> bool"
  cf_source :: read_source
  cf_after :: "io_error + file_identity \<times> bool"
  cf_path :: "io_error + file_identity \<times> bool"
  cf_temp :: temp_host

datatype disposition =
    Searchable captured_snapshot
  | BinarySkipped terminal_proof
  | EncodingRejected encoding_rejection terminal_proof
  | FileChanged

definition disposition_of :: "capture_read \<Rightarrow> disposition" where
  "disposition_of capture =
     (case capture of
        CaptureTerminal proof' \<Rightarrow>
          (case proof_rejection proof' of
             Some rejection \<Rightarrow> EncodingRejected rejection proof'
           | None \<Rightarrow> BinarySkipped proof')
      | CaptureComplete c \<Rightarrow> Searchable c)"

definition capture_classify ::
    "encoding_crates \<Rightarrow> work_probe option \<Rightarrow> candidate_file \<Rightarrow> file_identity path_record \<Rightarrow> utf8 option \<Rightarrow>
      utf8 option \<Rightarrow> nat \<Rightarrow> capture_failure + disposition \<times> nat" where
  "capture_classify D op f candidate explicit fallback k =
     bind_r (capture_checkpoint op k) (\<lambda>k.
     case cf_open f of
       Some e \<Rightarrow>
         if ie_kind e = IoNotFound then map_r (\<lambda>k. (FileChanged, k)) (capture_checkpoint op k)
         else Inl (prefer_stop op k (CaptureIo e))
     | None \<Rightarrow>
         (case cf_before f of
            Inl e \<Rightarrow> Inl (prefer_stop op k (CaptureIo e))
          | Inr (before, is_regular) \<Rightarrow>
              bind_r (capture_checkpoint op k) (\<lambda>k.
              if \<not> is_regular \<or> \<not> matches_hint before (traversal_fingerprint candidate) then Inr (FileChanged, k)
              else
                bind_r (capture_reader D (cf_temp f) op (cf_source f) explicit fallback k) (\<lambda>(capture, k).
                bind_r (capture_checkpoint op k) (\<lambda>k.
                bind_r (capture_checkpoint op k) (\<lambda>k.
                case cf_after f of
                  Inl e \<Rightarrow> Inl (prefer_stop op k (CaptureIo e))
                | Inr (after, is_regular) \<Rightarrow>
                    (case cf_path f of
                       Inl e \<Rightarrow>
                         if ie_kind e = IoNotFound then map_r (\<lambda>k. (FileChanged, k)) (capture_checkpoint op k)
                         else Inl (prefer_stop op k (CaptureIo e))
                     | Inr (path_identity, path_regular) \<Rightarrow>
                         bind_r (capture_checkpoint op k) (\<lambda>k.
                         if \<not> is_regular \<or> \<not> path_regular \<or> before \<noteq> after \<or> after \<noteq> path_identity \<or>
                            \<not> matches_hint after (traversal_fingerprint candidate)
                         then Inr (FileChanged, k)
                         else Inr (disposition_of capture, k)))))))))"

end
