(* ===== verification/Grep_Sink.thy ===== *)
theory Grep_Sink
  imports Snapshot
begin

text \<open>
  What a search keeps of one file (\<open>src/src/grep_sink.rs\<close>): the sinks for existence, counts and
  content, the line layout of a match, the selection of entries and the capture of context lines. The
  regex engine is the parameter \<open>finder\<close> (the matches in a buffer, in order), the searcher the sequence
  of its callbacks; captured text is a byte range of the immutable search input.
\<close>

section \<open>Plans and results\<close>

definition occurrence_check_interval :: nat where
  "occurrence_check_interval = 256"

definition occurrence_byte_check_interval :: nat where
  "occurrence_byte_check_interval = 64 * 1024"

record content_spec =
  cs_multiline :: bool
  cs_skip :: nat
  cs_limit :: "nat option"
  cs_capture_text :: bool
  cs_before :: nat
  cs_after :: nat
  cs_heap_limit :: nat

datatype search_plan = PlanExists | PlanCount | PlanLine content_spec | PlanOccurrence content_spec

definition content_multiline :: "search_plan \<Rightarrow> bool option" where
  "content_multiline p =
     (case p of PlanLine s \<Rightarrow> Some (cs_multiline s) | PlanOccurrence s \<Rightarrow> Some (cs_multiline s) | _ \<Rightarrow> None)"

definition plan_before :: "search_plan \<Rightarrow> nat" where
  "plan_before p = (case p of PlanLine s \<Rightarrow> cs_before s | PlanOccurrence s \<Rightarrow> cs_before s | _ \<Rightarrow> 0)"

definition plan_after :: "search_plan \<Rightarrow> nat" where
  "plan_after p = (case p of PlanLine s \<Rightarrow> cs_after s | PlanOccurrence s \<Rightarrow> cs_after s | _ \<Rightarrow> 0)"

definition with_content_window :: "search_plan \<Rightarrow> nat \<Rightarrow> nat option \<Rightarrow> search_plan" where
  "with_content_window p skip limit =
     (case p of
        PlanLine s \<Rightarrow> PlanLine (s\<lparr>cs_skip := skip, cs_limit := limit\<rparr>)
      | PlanOccurrence s \<Rightarrow> PlanOccurrence (s\<lparr>cs_skip := skip, cs_limit := limit\<rparr>)
      | _ \<Rightarrow> p)"

type_synonym text_range = "nat \<times> nat"

definition range_len :: "text_range \<Rightarrow> nat" where
  "range_len r = snd r - fst r"

record match_span =
  sp_line :: nat
  sp_start :: nat
  sp_len :: nat

record occurrence =
  oc_text :: "text_range option"
  oc_start :: nat
  oc_end :: nat
  oc_spans :: "match_span list"

datatype content_entry = MatchingLine nat | OccurrenceEntry nat nat

record content_payload =
  cp_backing :: "byte list"
  cp_lines :: "nat \<Rightarrow> text_range option"
  cp_occurrences :: "nat \<Rightarrow> occurrence list option"
  cp_entries :: "content_entry list"
  cp_occurrence_total :: nat
  cp_total_lines :: nat
  cp_trailing_newline :: bool

datatype file_payload = ExistsPayload | CountPayload nat | ContentPayload content_payload

record file_result =
  fr_path :: utf8
  fr_payload :: file_payload

definition occurrence_count :: "file_result \<Rightarrow> nat" where
  "occurrence_count r =
     (case fr_payload r of ExistsPayload \<Rightarrow> 1 | CountPayload n \<Rightarrow> n | ContentPayload c \<Rightarrow> cp_occurrence_total c)"

definition result_entries :: "file_result \<Rightarrow> content_entry list" where
  "result_entries r = (case fr_payload r of ContentPayload c \<Rightarrow> cp_entries c | _ \<Rightarrow> [])"

definition trim_entries :: "nat \<Rightarrow> nat \<Rightarrow> file_result \<Rightarrow> file_result" where
  "trim_entries first final r =
     (case fr_payload r of
        ContentPayload c \<Rightarrow>
          r\<lparr>fr_payload := ContentPayload (c\<lparr>cp_entries := take (final - first) (drop first (cp_entries c))\<rparr>)\<rparr>
      | _ \<Rightarrow> r)"

datatype sink_error =
    SinkIo io_error
  | SinkSearch utf8
  | SinkStopped work_stop
  | CaptureOverflow
  | CountOverflow

section \<open>Checkpoints\<close>

record sink_control =
  ct_occurrences :: nat
  ct_bytes :: nat
  ct_polls :: nat

definition new_control :: "nat \<Rightarrow> sink_control" where
  "new_control k = \<lparr>ct_occurrences = 0, ct_bytes = 0, ct_polls = k\<rparr>"

definition checkpoint :: "work_probe option \<Rightarrow> sink_control \<Rightarrow> sink_error + sink_control" where
  "checkpoint op c =
     (case op of
        None \<Rightarrow> Inr c
      | Some p \<Rightarrow>
          (case p (ct_polls c) of
             Some stop \<Rightarrow> Inl (SinkStopped stop)
           | None \<Rightarrow> Inr (c\<lparr>ct_polls := Suc (ct_polls c)\<rparr>)))"

definition sink_match_checkpoint :: "work_probe option \<Rightarrow> sink_control \<Rightarrow> sink_error + sink_control" where
  "sink_match_checkpoint op c = bind_r (checkpoint op c) (checkpoint op)"

definition occurrence_checkpoint :: "work_probe option \<Rightarrow> nat \<Rightarrow> sink_control \<Rightarrow> sink_error + sink_control" where
  "occurrence_checkpoint op span c =
     (let c = c\<lparr>ct_occurrences := sat_add (ct_occurrences c) 1, ct_bytes := sat_add (ct_bytes c) span\<rparr> in
      if ct_occurrences c < occurrence_check_interval \<and> ct_bytes c < occurrence_byte_check_interval
      then Inr c
      else sink_match_checkpoint op (c\<lparr>ct_occurrences := 0, ct_bytes := 0\<rparr>))"

section \<open>Matches in a buffer\<close>

type_synonym found = "nat \<times> nat"
type_synonym finder = "byte list \<Rightarrow> found list"

definition is_synthetic_trailing_empty :: "byte list \<Rightarrow> found \<Rightarrow> bool" where
  "is_synthetic_trailing_empty bs m \<longleftrightarrow>
     fst m = snd m \<and> snd m = length bs \<and> bs \<noteq> [] \<and> List.last bs = 0x0A"

text \<open>\<open>Matcher::try_find_iter\<close>: the callback says whether to go on.\<close>

fun try_find_iter :: "(found \<Rightarrow> 's \<Rightarrow> 'e + bool \<times> 's) \<Rightarrow> found list \<Rightarrow> 's \<Rightarrow> 'e + 's" where
  "try_find_iter f [] s = Inr s"
| "try_find_iter f (m # ms) s =
     bind_r (f m s) (\<lambda>(go, s). if go then try_find_iter f ms s else Inr s)"

definition exists_matched ::
    "finder \<Rightarrow> work_probe option \<Rightarrow> byte list \<Rightarrow> bool \<times> sink_control \<Rightarrow> sink_error + bool \<times> bool \<times> sink_control" where
  "exists_matched F op bs s =
     bind_r (sink_match_checkpoint op (snd s)) (\<lambda>c.
     map_r (\<lambda>s. (\<not> fst s, s))
       (try_find_iter (\<lambda>m s.
          if is_synthetic_trailing_empty bs m then Inr (True, s)
          else map_r (\<lambda>c. (False, True, c)) (occurrence_checkpoint op (snd m - fst m) (snd s)))
        (F bs) (fst s, c)))"

definition count_matched ::
    "finder \<Rightarrow> work_probe option \<Rightarrow> byte list \<Rightarrow> nat \<times> sink_control \<Rightarrow> sink_error + bool \<times> nat \<times> sink_control" where
  "count_matched F op bs s =
     bind_r (sink_match_checkpoint op (snd s)) (\<lambda>c.
     map_r (\<lambda>s. (True, s))
       (try_find_iter (\<lambda>m s.
          if is_synthetic_trailing_empty bs m then Inr (True, s)
          else
            bind_r (occurrence_checkpoint op (snd m - fst m) (snd s)) (\<lambda>c.
            map_r (\<lambda>n. (True, n, c)) (ok_or CountOverflow (checked_add (fst s) 1))))
        (F bs) (fst s, c)))"

section \<open>Line layout\<close>

record logical_line =
  ll_start :: nat
  ll_content_end :: nat
  ll_full_end :: nat

text \<open>\<open>after_cr\<close> tells that the previous byte is a carriage return.\<close>

fun layout_loop :: "byte list \<Rightarrow> nat \<Rightarrow> nat \<Rightarrow> bool \<Rightarrow> logical_line list \<times> nat" where
  "layout_loop [] index line_start after_cr = ([], line_start)"
| "layout_loop (b # bs) index line_start after_cr =
     (if b \<noteq> 0x0A then layout_loop bs (index + 1) line_start (b = 0x0D)
      else
        let content_end = (if line_start < index \<and> after_cr then index - 1 else index) in
        case layout_loop bs (index + 1) (index + 1) False of
          (ls, rest) \<Rightarrow>
            (\<lparr>ll_start = line_start, ll_content_end = content_end, ll_full_end = index + 1\<rparr> # ls, rest))"

definition layout_lines :: "byte list \<Rightarrow> logical_line list" where
  "layout_lines bs =
     (case layout_loop bs 0 0 False of
        (ls, line_start) \<Rightarrow>
          if line_start < length bs \<or> ls = []
          then ls @ [\<lparr>ll_start = line_start, ll_content_end = length bs, ll_full_end = length bs\<rparr>]
          else ls)"

record line_layout =
  ly_bytes :: "byte list"
  ly_first :: nat
  ly_lines :: "logical_line list"
  ly_cursors :: "(nat \<times> nat) list"

definition new_layout :: "byte list \<Rightarrow> nat \<Rightarrow> line_layout" where
  "new_layout bs first =
     \<lparr>ly_bytes = bs, ly_first = first, ly_lines = layout_lines bs,
      ly_cursors = map (\<lambda>l. (ll_start l, 0)) (layout_lines bs)\<rparr>"

definition offset_is_in_line :: "logical_line list \<Rightarrow> nat \<Rightarrow> nat \<Rightarrow> bool" where
  "offset_is_in_line ls i offset \<longleftrightarrow>
     offset < ll_full_end (ls ! i) \<or> (i + 1 = length ls \<and> offset \<le> ll_full_end (ls ! i))"

function advance_cursor :: "logical_line list \<Rightarrow> nat \<Rightarrow> nat \<Rightarrow> nat" where
  "advance_cursor ls offset i =
     (if i + 1 < length ls \<and> \<not> offset_is_in_line ls i offset then advance_cursor ls offset (i + 1) else i)"
  by pat_completeness auto
termination
  by (relation "measure (\<lambda>(ls, offset, i). length ls - i)") auto

declare advance_cursor.simps [simp del]

definition locate :: "line_layout \<Rightarrow> found \<Rightarrow> nat \<times> nat \<Rightarrow> nat \<times> nat" where
  "locate ly m cursor =
     (let first = advance_cursor (ly_lines ly) (fst m) (fst cursor);
          end_offset = (if fst m < snd m then snd m - 1 else fst m) in
      (first, advance_cursor (ly_lines ly) end_offset (max (snd cursor) first)))"

text \<open>\<open>str::chars().count()\<close>, which the standard library computes as the bytes that start a character.\<close>

definition starts_char :: "byte \<Rightarrow> bool" where
  "starts_char b \<longleftrightarrow> unat b < 0x80 \<or> 0xC0 \<le> unat b"

definition char_count :: "byte list \<Rightarrow> nat" where
  "char_count bs = length (filter starts_char bs)"

definition char_offset :: "nat \<Rightarrow> nat \<Rightarrow> line_layout \<Rightarrow> nat \<times> line_layout" where
  "char_offset i absolute ly =
     (let line = ly_lines ly ! i;
          target = min (max absolute (ll_start line)) (ll_content_end line);
          cursor = ly_cursors ly ! i in
      if fst cursor < target then
        let n = sat_add (snd cursor) (char_count (take (target - fst cursor) (drop (fst cursor) (ly_bytes ly)))) in
        (n, ly\<lparr>ly_cursors := (ly_cursors ly)[i := (target, n)]\<rparr>)
      else (snd cursor, ly))"

definition line_span_of :: "found \<Rightarrow> nat \<Rightarrow> line_layout \<Rightarrow> match_span \<times> line_layout" where
  "line_span_of m i ly =
     (let line = ly_lines ly ! i;
          overlap_start = min (max (fst m) (ll_start line)) (ll_content_end line);
          overlap_end = max (min (snd m) (ll_content_end line)) overlap_start;
          anchor = (if overlap_start < overlap_end then overlap_start
                    else if fst m \<le> ll_start line then ll_start line
                    else ll_content_end line) in
      case char_offset i anchor ly of
        (first, ly) \<Rightarrow>
          (case (if overlap_start < overlap_end
                 then (case char_offset i overlap_end ly of (final, ly) \<Rightarrow> (final - first, ly))
                 else (0, ly)) of
             (n, ly) \<Rightarrow> (\<lparr>sp_line = sat_add (ly_first ly) i, sp_start = first, sp_len = n\<rparr>, ly)))"

fun line_spans :: "found \<Rightarrow> nat list \<Rightarrow> line_layout \<Rightarrow> match_span list \<times> line_layout" where
  "line_spans m [] ly = ([], ly)"
| "line_spans m (i # is) ly =
     (case line_span_of m i ly of
        (span, ly) \<Rightarrow> (case line_spans m is ly of (spans, ly) \<Rightarrow> (span # spans, ly)))"

section \<open>Selected lines of a callback\<close>

definition intervals_insert :: "nat \<Rightarrow> nat \<Rightarrow> (nat \<times> nat) list \<Rightarrow> (nat \<times> nat) list" where
  "intervals_insert first final rs =
     (if rs \<noteq> [] \<and> first \<le> sat_add (snd (List.last rs)) 1
      then butlast rs @ [(fst (List.last rs), max (snd (List.last rs)) final)]
      else rs @ [(first, final)])"

function skip_intervals :: "(nat \<times> nat) list \<Rightarrow> nat \<Rightarrow> nat \<Rightarrow> nat" where
  "skip_intervals rs line cursor =
     (if cursor < length rs \<and> snd (rs ! cursor) < line then skip_intervals rs line (cursor + 1) else cursor)"
  by pat_completeness auto
termination
  by (relation "measure (\<lambda>(rs, line, cursor). length rs - cursor)") auto

declare skip_intervals.simps [simp del]

definition intervals_contain :: "(nat \<times> nat) list \<Rightarrow> nat \<Rightarrow> nat \<Rightarrow> bool \<times> nat" where
  "intervals_contain rs line cursor =
     (let cursor = skip_intervals rs line cursor in
      (cursor < length rs \<and> fst (rs ! cursor) \<le> line \<and> line \<le> snd (rs ! cursor), cursor))"

definition absolute_range :: "nat \<Rightarrow> nat \<Rightarrow> nat \<Rightarrow> sink_error + text_range" where
  "absolute_range base first final =
     (case (checked_add base first, checked_add base final) of
        (Some a, Some b) \<Rightarrow>
          if a \<le> b then Inr (a, b)
          else Inl (SinkSearch ''ripgrep reported a byte offset that overflowed the search source'')
      | _ \<Rightarrow> Inl (SinkSearch ''ripgrep reported a byte offset that overflowed the search source''))"

definition strip_line_terminator :: "byte list \<Rightarrow> byte list" where
  "strip_line_terminator bs =
     (let bs = (if bs \<noteq> [] \<and> List.last bs = 0x0A then butlast bs else bs) in
      if bs \<noteq> [] \<and> List.last bs = 0x0D then butlast bs else bs)"

section \<open>The content sink\<close>

datatype content_mode = LineMode | OccurrenceMode

record content_sink =
  sk_control :: sink_control
  sk_occurrences :: "nat \<Rightarrow> occurrence list option"
  sk_entries :: "content_entry list"
  sk_lines :: "nat \<Rightarrow> text_range option"
  sk_occurrence_total :: nat
  sk_seen :: nat
  sk_selected :: nat
  sk_last_line :: "nat option"
  sk_line_selected :: bool
  sk_recent :: "(nat \<times> text_range) list"
  sk_recent_bytes :: nat
  sk_stored_bytes :: nat
  sk_after_until :: nat
  sk_overflow :: bool

definition new_content_sink :: "nat \<Rightarrow> content_sink" where
  "new_content_sink k =
     \<lparr>sk_control = new_control k, sk_occurrences = Map.empty, sk_entries = [], sk_lines = Map.empty,
      sk_occurrence_total = 0, sk_seen = 0, sk_selected = 0, sk_last_line = None, sk_line_selected = False,
      sk_recent = [], sk_recent_bytes = 0, sk_stored_bytes = 0, sk_after_until = 0, sk_overflow = False\<rparr>"

definition reserve_ok :: "content_spec \<Rightarrow> nat \<Rightarrow> content_sink \<Rightarrow> bool" where
  "reserve_ok spec additional s \<longleftrightarrow>
     sat_add (sat_add (sk_stored_bytes s) (sk_recent_bytes s)) additional \<le> cs_heap_limit spec"

definition store_line :: "content_spec \<Rightarrow> nat \<Rightarrow> text_range \<Rightarrow> content_sink \<Rightarrow> content_sink" where
  "store_line spec n line s =
     (if sk_lines s n \<noteq> None then s
      else if \<not> reserve_ok spec (range_len line) s then s\<lparr>sk_overflow := True\<rparr>
      else s\<lparr>sk_stored_bytes := sat_add (sk_stored_bytes s) (range_len line), sk_lines := (sk_lines s)(n \<mapsto> line)\<rparr>)"

text \<open>The loop that makes room for one more recent line.\<close>

fun pop_recent :: "nat \<Rightarrow> (nat \<times> text_range) list \<Rightarrow> nat \<Rightarrow> (nat \<times> text_range) list \<times> nat" where
  "pop_recent before [] bytes = ([], bytes)"
| "pop_recent before (r # rs) bytes =
     (if before \<le> length (r # rs) then pop_recent before rs (bytes - range_len (snd r)) else (r # rs, bytes))"

definition push_recent :: "content_spec \<Rightarrow> nat \<Rightarrow> text_range \<Rightarrow> content_sink \<Rightarrow> content_sink" where
  "push_recent spec n line s =
     (if cs_before spec = 0 \<or> (sk_recent s \<noteq> [] \<and> fst (List.last (sk_recent s)) = n) then s
      else
        case pop_recent (cs_before spec) (sk_recent s) (sk_recent_bytes s) of
          (recent, bytes) \<Rightarrow>
            let s = s\<lparr>sk_recent := recent, sk_recent_bytes := bytes\<rparr> in
            if \<not> reserve_ok spec (range_len line) s then s\<lparr>sk_overflow := True\<rparr>
            else s\<lparr>sk_recent := recent @ [(n, line)], sk_recent_bytes := sat_add bytes (range_len line)\<rparr>)"

fun commit_lines :: "(nat \<times> text_range) list \<Rightarrow> content_sink \<Rightarrow> content_sink" where
  "commit_lines [] s = s"
| "commit_lines ((n, line) # rs) s =
     commit_lines rs
       (if sk_lines s n \<noteq> None then s
        else s\<lparr>sk_stored_bytes := sat_add (sk_stored_bytes s) (range_len line), sk_lines := (sk_lines s)(n \<mapsto> line)\<rparr>)"

definition commit_recent :: "content_sink \<Rightarrow> content_sink" where
  "commit_recent s = commit_lines (sk_recent s) (s\<lparr>sk_recent := [], sk_recent_bytes := 0\<rparr>)"

definition increment_entries_seen :: "content_sink \<Rightarrow> sink_error + content_sink" where
  "increment_entries_seen s =
     map_r (\<lambda>n. s\<lparr>sk_seen := n\<rparr>) (ok_or CountOverflow (checked_add (sk_seen s) 1))"

definition in_window :: "content_spec \<Rightarrow> content_sink \<Rightarrow> bool" where
  "in_window spec s \<longleftrightarrow>
     cs_skip spec < sk_seen s \<and> (case cs_limit spec of None \<Rightarrow> True | Some l \<Rightarrow> sk_selected s < l)"

definition select_entry :: "content_spec \<Rightarrow> content_entry list \<Rightarrow> nat \<Rightarrow> content_sink \<Rightarrow> sink_error + content_sink" where
  "select_entry spec entries line s =
     map_r (\<lambda>n.
       let s = commit_recent (s\<lparr>sk_selected := n, sk_entries := sk_entries s @ entries\<rparr>) in
       s\<lparr>sk_after_until := max (sk_after_until s) (sat_add line (cs_after spec))\<rparr>)
     (ok_or CountOverflow (checked_add (sk_selected s) 1))"

definition select_line :: "content_spec \<Rightarrow> nat \<Rightarrow> content_sink \<Rightarrow> sink_error + bool \<times> content_sink" where
  "select_line spec line s =
     (if sk_last_line s = Some line then Inr (sk_line_selected s, s)
      else
        bind_r (increment_entries_seen (s\<lparr>sk_last_line := Some line\<rparr>)) (\<lambda>s.
        let s = s\<lparr>sk_line_selected := in_window spec s\<rparr> in
        if sk_line_selected s then map_r (\<lambda>s. (True, s)) (select_entry spec [MatchingLine line] line s)
        else Inr (False, s)))"

definition select_occurrence :: "content_spec \<Rightarrow> nat \<Rightarrow> content_sink \<Rightarrow> sink_error + bool \<times> content_sink" where
  "select_occurrence spec end_line s =
     bind_r (increment_entries_seen s) (\<lambda>s.
     if in_window spec s then map_r (\<lambda>s. (True, s)) (select_entry spec [] end_line s)
     else Inr (False, s))"

definition limit_reached :: "content_spec \<Rightarrow> content_sink \<Rightarrow> bool" where
  "limit_reached spec s \<longleftrightarrow> (case cs_limit spec of None \<Rightarrow> False | Some l \<Rightarrow> l \<le> sk_selected s)"

record pending_occurrence =
  po_range :: text_range
  po_start :: nat
  po_end :: nat
  po_spans :: "match_span list"

text \<open>The sizes of \<open>Occurrence\<close> and \<open>LineMatchSpan\<close> in memory are a parameter of the platform.\<close>

definition store_occurrence ::
    "nat \<times> nat \<Rightarrow> content_mode \<Rightarrow> content_spec \<Rightarrow> pending_occurrence \<Rightarrow> content_sink \<Rightarrow> content_sink" where
  "store_occurrence Z mode spec p s =
     (let metadata = sat_add (fst Z) (sat_mul (length (po_spans p)) (snd Z));
          text = (if cs_capture_text spec then range_len (po_range p) else 0) in
      if \<not> reserve_ok spec (sat_add metadata text) s then s\<lparr>sk_overflow := True\<rparr>
      else
        let before = (case sk_occurrences s (po_start p) of None \<Rightarrow> [] | Some os \<Rightarrow> os);
            occ = \<lparr>oc_text = (if cs_capture_text spec then Some (po_range p) else None),
                   oc_start = po_start p, oc_end = po_end p, oc_spans = po_spans p\<rparr> in
        s\<lparr>sk_stored_bytes := sat_add (sat_add (sk_stored_bytes s) metadata) text,
          sk_occurrences := (sk_occurrences s)(po_start p \<mapsto> before @ [occ]),
          sk_entries := (if mode = OccurrenceMode
            then sk_entries s @ [OccurrenceEntry (po_start p) (length before)] else sk_entries s)\<rparr>)"

fun store_occurrences ::
    "nat \<times> nat \<Rightarrow> content_mode \<Rightarrow> content_spec \<Rightarrow> pending_occurrence list \<Rightarrow> content_sink \<Rightarrow> content_sink" where
  "store_occurrences Z mode spec [] s = s"
| "store_occurrences Z mode spec (p # ps) s =
     (let s = store_occurrence Z mode spec p s in
      if sk_overflow s then s else store_occurrences Z mode spec ps s)"

fun capture_callback_lines ::
    "content_spec \<Rightarrow> nat \<Rightarrow> nat \<Rightarrow> (nat \<times> nat) list \<Rightarrow> nat \<Rightarrow> logical_line list \<Rightarrow> nat \<Rightarrow> content_sink \<Rightarrow>
      sink_error + content_sink" where
  "capture_callback_lines spec first base intervals delta [] cursor s = Inr s"
| "capture_callback_lines spec first base intervals delta (l # ls) cursor s =
     (let n = sat_add first delta in
      case intervals_contain intervals n cursor of (selected, cursor) \<Rightarrow>
      bind_r (if selected \<or> n \<le> sk_after_until s
              then map_r (\<lambda>r. store_line spec n r s) (absolute_range base (ll_start l) (ll_content_end l))
              else Inr s) (\<lambda>s.
      bind_r (if 0 < cs_before spec
              then map_r (\<lambda>r. push_recent spec n r s) (absolute_range base (ll_start l) (ll_content_end l))
              else Inr s) (\<lambda>s.
      if sk_overflow s then Inr s
      else capture_callback_lines spec first base intervals (delta + 1) ls cursor s)))"

record match_scan =
  ms_sink :: content_sink
  ms_layout :: "line_layout option"
  ms_cursor :: "nat \<times> nat"
  ms_intervals :: "(nat \<times> nat) list"
  ms_pending :: "pending_occurrence list"

definition scan_layout :: "byte list \<Rightarrow> nat \<Rightarrow> match_scan \<Rightarrow> line_layout" where
  "scan_layout bs first s = (case ms_layout s of None \<Rightarrow> new_layout bs first | Some ly \<Rightarrow> ly)"

text \<open>A selected match: its lines join the selected intervals, its occurrence waits to be stored.\<close>

definition note_selected ::
    "byte list \<Rightarrow> nat \<Rightarrow> nat \<Rightarrow> found \<Rightarrow> (nat \<times> nat) option \<Rightarrow> match_scan \<Rightarrow> sink_error + match_scan" where
  "note_selected bs first base m located s =
     (let ly = scan_layout bs first s;
          indexes = (case located of Some ij \<Rightarrow> ij | None \<Rightarrow> locate ly m (ms_cursor s));
          start_line = sat_add first (fst indexes);
          end_line = sat_add first (snd indexes) in
      bind_r (absolute_range base (fst m) (snd m)) (\<lambda>r.
      case line_spans m [fst indexes..<snd indexes + 1] ly of (spans, ly) \<Rightarrow>
      Inr (s\<lparr>ms_layout := Some ly, ms_cursor := indexes,
             ms_intervals := intervals_insert start_line end_line (ms_intervals s),
             ms_pending := ms_pending s @
               [\<lparr>po_range = r, po_start = start_line, po_end = end_line, po_spans = spans\<rparr>]\<rparr>)))"

definition content_found ::
    "content_mode \<Rightarrow> content_spec \<Rightarrow> work_probe option \<Rightarrow> byte list \<Rightarrow> nat \<Rightarrow> nat \<Rightarrow> found \<Rightarrow> match_scan \<Rightarrow>
      sink_error + bool \<times> match_scan" where
  "content_found mode spec op bs first base m s =
     (if is_synthetic_trailing_empty bs m then Inr (True, s)
      else
        bind_r (occurrence_checkpoint op (snd m - fst m) (sk_control (ms_sink s))) (\<lambda>c.
        let sk = (ms_sink s)\<lparr>sk_control := c\<rparr> in
        bind_r
          (case mode of
             LineMode \<Rightarrow> map_r (\<lambda>(sel, sk). (sel, None, s\<lparr>ms_sink := sk\<rparr>)) (select_line spec first sk)
           | OccurrenceMode \<Rightarrow>
               let ly = scan_layout bs first s; ij = locate ly m (ms_cursor s) in
               map_r (\<lambda>(sel, sk). (sel, Some ij, s\<lparr>ms_sink := sk, ms_layout := Some ly, ms_cursor := ij\<rparr>))
                 (select_occurrence spec (sat_add first (snd ij)) sk)) (\<lambda>(sel, located, s).
        bind_r (ok_or CountOverflow (checked_add (sk_occurrence_total (ms_sink s)) 1)) (\<lambda>n.
        let s = s\<lparr>ms_sink := (ms_sink s)\<lparr>sk_occurrence_total := n\<rparr>\<rparr> in
        map_r (\<lambda>s. (case mode of LineMode \<Rightarrow> sel | OccurrenceMode \<Rightarrow> \<not> limit_reached spec (ms_sink s), s))
          (if sel then note_selected bs first base m located s else Inr s)))))"

definition content_matched ::
    "finder \<Rightarrow> nat \<times> nat \<Rightarrow> content_mode \<Rightarrow> content_spec \<Rightarrow> work_probe option \<Rightarrow> byte list \<Rightarrow> nat \<Rightarrow> nat option \<Rightarrow>
      content_sink \<Rightarrow> sink_error + bool \<times> content_sink" where
  "content_matched F Z mode spec op bs base line_number s =
     bind_r (sink_match_checkpoint op (sk_control s)) (\<lambda>c.
     let first = (case line_number of None \<Rightarrow> 1 | Some n \<Rightarrow> n) in
     bind_r (try_find_iter (content_found mode spec op bs first base) (F bs)
       \<lparr>ms_sink = s\<lparr>sk_control := c\<rparr>, ms_layout = None, ms_cursor = (0, 0), ms_intervals = [], ms_pending = []\<rparr>) (\<lambda>r.
     bind_r
       (if ms_pending r = [] then Inr (ms_sink r)
        else
          let s = store_occurrences Z mode spec (ms_pending r) (ms_sink r) in
          if sk_overflow s then Inr s
          else capture_callback_lines spec first base (ms_intervals r) 0 (ly_lines (scan_layout bs first r)) 0 s) (\<lambda>s.
     if sk_overflow s then Inl CaptureOverflow else Inr (\<not> limit_reached spec s, s))))"

datatype context_kind = ContextBefore | ContextAfter | ContextOther

definition capture_context_line ::
    "content_spec \<Rightarrow> context_kind \<Rightarrow> byte list \<Rightarrow> nat \<Rightarrow> nat \<Rightarrow> content_sink \<Rightarrow> sink_error + content_sink" where
  "capture_context_line spec kind bs base n s =
     (let capture_after = (n \<le> sk_after_until s);
          capture_recent = (0 < cs_before spec \<and> kind \<noteq> ContextOther) in
      if capture_after \<or> capture_recent then
        map_r (\<lambda>r.
          let s = (if capture_after then store_line spec n r s else s) in
          if capture_recent then push_recent spec n r s else s)
        (absolute_range base 0 (length (strip_line_terminator bs)))
      else Inr s)"

definition content_context ::
    "content_spec \<Rightarrow> work_probe option \<Rightarrow> context_kind \<Rightarrow> byte list \<Rightarrow> nat \<Rightarrow> nat option \<Rightarrow> content_sink \<Rightarrow>
      sink_error + bool \<times> content_sink" where
  "content_context spec op kind bs base line_number s =
     bind_r (checkpoint op (sk_control s)) (\<lambda>c.
     let s = s\<lparr>sk_control := c\<rparr> in
     bind_r (case line_number of None \<Rightarrow> Inr s | Some n \<Rightarrow> capture_context_line spec kind bs base n s) (\<lambda>s.
     if sk_overflow s then Inl CaptureOverflow else Inr (True, s)))"

definition content_break :: "work_probe option \<Rightarrow> content_sink \<Rightarrow> sink_error + bool \<times> content_sink" where
  "content_break op s =
     map_r (\<lambda>c. (True, s\<lparr>sk_control := c, sk_recent := [], sk_recent_bytes := 0, sk_after_until := 0\<rparr>))
       (checkpoint op (sk_control s))"

section \<open>A search\<close>

text \<open>What the searcher reports, in order; it stops when a callback answers False.\<close>

datatype callback =
    Matched "byte list" nat "nat option"
  | Context context_kind "byte list" nat "nat option"
  | ContextBreak

datatype plan_sink = ExistsSink "bool \<times> sink_control" | CountSink "nat \<times> sink_control" | ContentSink content_mode content_spec content_sink

definition new_plan_sink :: "search_plan \<Rightarrow> nat \<Rightarrow> plan_sink" where
  "new_plan_sink p k =
     (case p of
        PlanExists \<Rightarrow> ExistsSink (False, new_control k)
      | PlanCount \<Rightarrow> CountSink (0, new_control k)
      | PlanLine spec \<Rightarrow> ContentSink LineMode spec (new_content_sink k)
      | PlanOccurrence spec \<Rightarrow> ContentSink OccurrenceMode spec (new_content_sink k))"

definition plan_callback ::
    "finder \<Rightarrow> nat \<times> nat \<Rightarrow> work_probe option \<Rightarrow> callback \<Rightarrow> plan_sink \<Rightarrow> sink_error + bool \<times> plan_sink" where
  "plan_callback F Z op e s =
     (case s of
        ExistsSink v \<Rightarrow>
          (case e of
             Matched bs base n \<Rightarrow> map_r (\<lambda>(go, v). (go, ExistsSink v)) (exists_matched F op bs v)
           | _ \<Rightarrow> Inr (True, s))
      | CountSink v \<Rightarrow>
          (case e of
             Matched bs base n \<Rightarrow> map_r (\<lambda>(go, v). (go, CountSink v)) (count_matched F op bs v)
           | _ \<Rightarrow> Inr (True, s))
      | ContentSink mode spec v \<Rightarrow>
          map_r (\<lambda>(go, v). (go, ContentSink mode spec v))
            (case e of
               Matched bs base n \<Rightarrow> content_matched F Z mode spec op bs base n v
             | Context kind bs base n \<Rightarrow> content_context spec op kind bs base n v
             | ContextBreak \<Rightarrow> content_break op v))"

fun run_search ::
    "finder \<Rightarrow> nat \<times> nat \<Rightarrow> work_probe option \<Rightarrow> callback list \<Rightarrow> plan_sink \<Rightarrow> sink_error + plan_sink" where
  "run_search F Z op [] s = Inr s"
| "run_search F Z op (e # es) s =
     bind_r (plan_callback F Z op e s) (\<lambda>(go, s). if go then run_search F Z op es s else Inr s)"

text \<open>The result of a file, if it has one, and the entries seen in it.\<close>

definition into_output :: "utf8 \<Rightarrow> byte list \<Rightarrow> nat \<Rightarrow> bool \<Rightarrow> plan_sink \<Rightarrow> file_result option \<times> nat" where
  "into_output path backing total_lines trailing_newline s =
     (case s of
        ExistsSink (matched, c) \<Rightarrow>
          (if matched then Some \<lparr>fr_path = path, fr_payload = ExistsPayload\<rparr> else None, if matched then 1 else 0)
      | CountSink (n, c) \<Rightarrow>
          (if 0 < n then Some \<lparr>fr_path = path, fr_payload = CountPayload n\<rparr> else None, if 0 < n then 1 else 0)
      | ContentSink mode spec v \<Rightarrow>
          (if sk_entries v = [] then None
           else Some \<lparr>fr_path = path, fr_payload = ContentPayload
             \<lparr>cp_backing = backing, cp_lines = sk_lines v, cp_occurrences = sk_occurrences v,
              cp_entries = sk_entries v, cp_occurrence_total = sk_occurrence_total v,
              cp_total_lines = total_lines, cp_trailing_newline = trailing_newline\<rparr>\<rparr>,
           sk_seen v))"

end
