(* ===== verification/Grep_Capture.thy ===== *)
theory Grep_Capture
  imports Grep_Sink
begin

text \<open>
  The context capture of the content sink in line mode: for a stream of line callbacks as the searcher
  delivers it, the captured lines are exactly delivered lines, and every line within the requested
  distance of a matching line is among them.
\<close>

section \<open>Streams of lines\<close>

text \<open>A delivered line: whether it matches, its number and its text.\<close>

type_synonym line_event = "bool \<times> nat \<times> text_range"

definition match_line_range :: "nat \<Rightarrow> byte list \<Rightarrow> text_range" where
  "match_line_range base bs = (base, base + ll_content_end (hd (layout_lines bs)))"

definition event_of :: "callback \<Rightarrow> line_event option" where
  "event_of e =
     (case e of
        Matched bs base n \<Rightarrow> Some (True, the n, match_line_range base bs)
      | Context kind bs base n \<Rightarrow> Some (False, the n, (base, base + length (strip_line_terminator bs)))
      | ContextBreak \<Rightarrow> None)"

text \<open>The lines since the last break, and the finished runs of lines before it.\<close>

definition add_event :: "callback \<Rightarrow> line_event list list \<times> line_event list \<Rightarrow> line_event list list \<times> line_event list" where
  "add_event e r = (case event_of e of None \<Rightarrow> (fst r @ [snd r], []) | Some v \<Rightarrow> (fst r, snd r @ [v]))"

definition runs :: "callback list \<Rightarrow> line_event list list \<times> line_event list" where
  "runs es = fold add_event es ([], [])"

definition line_numbers :: "line_event list \<Rightarrow> nat list" where
  "line_numbers seg = map (fst \<circ> snd) seg"

definition all_lines :: "line_event list list \<times> line_event list \<Rightarrow> line_event list" where
  "all_lines r = concat (fst r) @ snd r"

definition has_real_match :: "finder \<Rightarrow> byte list \<Rightarrow> bool" where
  "has_real_match F bs \<longleftrightarrow> list_ex (\<lambda>m. \<not> is_synthetic_trailing_empty bs m) (F bs)"

definition line_callback :: "finder \<Rightarrow> callback \<Rightarrow> bool" where
  "line_callback F e \<longleftrightarrow>
     (case e of
        Matched bs base n \<Rightarrow> n \<noteq> None \<and> the n \<le> usize_max \<and> length (layout_lines bs) = 1 \<and> has_real_match F bs
      | Context kind bs base n \<Rightarrow> n \<noteq> None \<and> the n \<le> usize_max \<and> kind \<noteq> ContextOther
      | ContextBreak \<Rightarrow> True)"

definition consecutive :: "line_event list \<Rightarrow> bool" where
  "consecutive seg \<longleftrightarrow> (seg = [] \<or> line_numbers seg = [hd (line_numbers seg)..<hd (line_numbers seg) + length seg])"

text \<open>
  What the searcher guarantees: rising line numbers, and when it reports context, no gap between two
  breaks.
\<close>

definition line_stream :: "finder \<Rightarrow> nat \<Rightarrow> callback list \<Rightarrow> bool" where
  "line_stream F before es \<longleftrightarrow>
     list_all (line_callback F) es \<and>
     sorted_wrt (<) (line_numbers (all_lines (runs es))) \<and>
     (0 < before \<longrightarrow> list_all consecutive (fst (runs es) @ [snd (runs es)]))"

definition matching_lines :: "line_event list \<Rightarrow> nat list" where
  "matching_lines seg = map (fst \<circ> snd) (filter fst seg)"

text \<open>The lines a run owes to its matching lines, all present.\<close>

definition context_present :: "nat \<Rightarrow> nat \<Rightarrow> (nat \<Rightarrow> text_range option) \<Rightarrow> line_event list \<Rightarrow> bool" where
  "context_present before after lines seg \<longleftrightarrow>
     list_all (\<lambda>m. list_all (\<lambda>(b, l, r). m \<le> l + before \<longrightarrow> l \<le> m + after \<longrightarrow> lines l = Some r) seg)
       (matching_lines seg)"

section \<open>One line\<close>

lemma layout_single:
  assumes "length (layout_lines bs) = 1"
  shows "layout_lines bs = [hd (layout_lines bs)]" "ll_start (hd (layout_lines bs)) = 0"
proof -
  show s: "layout_lines bs = [hd (layout_lines bs)]" using assms by (cases "layout_lines bs") auto
  have first: "ls \<noteq> [] \<Longrightarrow> layout_loop bs i n c = (ls, k) \<Longrightarrow> ll_start (hd ls) = n" for bs i n c ls k
    by (induction bs i n c arbitrary: ls k rule: layout_loop.induct) (auto split: if_splits prod.splits)
  have none: "layout_loop bs i n c = ([], k) \<Longrightarrow> k = n" for bs i n c k
    by (induction bs i n c rule: layout_loop.induct) (auto split: if_splits prod.splits)
  obtain ls k where l: "layout_loop bs 0 0 False = (ls, k)" by fastforce
  show "ll_start (hd (layout_lines bs)) = 0"
    using first [OF _ l] none [of bs 0 0 False k] l by (cases ls) (auto simp: layout_lines_def)
qed

lemma advance_single: "length ls = 1 \<Longrightarrow> advance_cursor ls offset 0 = 0"
  by (simp add: advance_cursor.simps)

lemma contain_single: "intervals_contain [(n, n)] n 0 = (True, 0)"
  by (simp add: intervals_contain_def skip_intervals.simps)

text \<open>What of the sink the later matches of a selected line leave alone.\<close>

definition same_capture :: "content_sink \<Rightarrow> content_sink \<Rightarrow> bool" where
  "same_capture s s' \<longleftrightarrow>
     sk_lines s' = sk_lines s \<and> sk_recent s' = sk_recent s \<and> sk_after_until s' = sk_after_until s \<and>
     sk_entries s' = sk_entries s \<and> sk_seen s' = sk_seen s \<and> sk_selected s' = sk_selected s \<and>
     sk_last_line s' = sk_last_line s \<and> sk_line_selected s' = sk_line_selected s"

lemma same_capture_trans: "same_capture a b \<Longrightarrow> same_capture b c \<Longrightarrow> same_capture a c"
  by (simp add: same_capture_def)

lemma same_capture_control [simp]:
  "same_capture s (s\<lparr>sk_control := c\<rparr>)" "same_capture s (s\<lparr>sk_occurrence_total := n\<rparr>)" "same_capture s s"
  by (simp_all add: same_capture_def)

definition one_line_scan :: "byte list \<Rightarrow> nat \<Rightarrow> match_scan \<Rightarrow> bool" where
  "one_line_scan bs n s \<longleftrightarrow>
     ms_cursor s = (0, 0) \<and> ms_intervals s \<in> {[], [(n, n)]} \<and>
     (case ms_layout s of None \<Rightarrow> True | Some ly \<Rightarrow> ly_lines ly = layout_lines bs)"

lemma char_offset_lines: "char_offset i a ly = (x, ly') \<Longrightarrow> ly_lines ly' = ly_lines ly"
  by (auto simp: char_offset_def Let_def split: if_splits)

lemma line_span_of_lines: "line_span_of m i ly = (x, ly') \<Longrightarrow> ly_lines ly' = ly_lines ly"
  by (auto simp: line_span_of_def Let_def split: if_splits prod.splits dest!: char_offset_lines)

lemma line_spans_lines: "line_spans m is ly = (x, ly') \<Longrightarrow> ly_lines ly' = ly_lines ly"
  by (induction m "is" ly arbitrary: x ly' rule: line_spans.induct)
    (auto split: prod.splits dest!: line_span_of_lines)

lemma note_selected_single:
  assumes "note_selected bs n base m None s = Inr s'" "one_line_scan bs n s"
    and "length (layout_lines bs) = 1" "n \<le> usize_max"
  shows "one_line_scan bs n s' \<and> ms_sink s' = ms_sink s \<and> ms_intervals s' = [(n, n)] \<and> ms_pending s' \<noteq> [] \<and>
    ms_layout s' \<noteq> None"
proof -
  have ly: "ly_lines (scan_layout bs n s) = layout_lines bs"
    using assms(2) by (auto simp: scan_layout_def one_line_scan_def new_layout_def split: option.splits)
  have loc: "locate (scan_layout bs n s) m (ms_cursor s) = (0, 0)"
    using assms(2,3) by (simp add: locate_def ly advance_single one_line_scan_def Let_def)
  have n: "sat_add n 0 = n" using assms(4) by (simp add: sat_add_exact)
  have "n \<le> sat_add n 1" using assms(4) by (simp add: sat_add_def)
  then have ins: "intervals_insert n n (ms_intervals s) = [(n, n)]"
    using assms(2) by (auto simp: one_line_scan_def intervals_insert_def)
  obtain spans ly' where sp: "line_spans m [0] (scan_layout bs n s) = (spans, ly')" by fastforce
  have ly': "ly_lines ly' = layout_lines bs" using line_spans_lines [OF sp] ly by simp
  from assms(1) obtain r where "s' = s\<lparr>ms_layout := Some ly', ms_cursor := (0, 0), ms_intervals := [(n, n)],
      ms_pending := ms_pending s @ [\<lparr>po_range = r, po_start = n, po_end = n, po_spans = spans\<rparr>]\<rparr>"
    using sp by (auto simp: note_selected_def bind_simps loc n ins Let_def simp del: line_spans.simps)
  then show ?thesis by (simp add: one_line_scan_def ly')
qed

fun commit_map :: "(nat \<times> text_range) list \<Rightarrow> (nat \<Rightarrow> text_range option) \<Rightarrow> (nat \<Rightarrow> text_range option)" where
  "commit_map [] lines = lines"
| "commit_map ((n, r) # rs) lines = commit_map rs (if lines n \<noteq> None then lines else lines(n \<mapsto> r))"

lemma commit_lines_fields [simp]:
  "sk_lines (commit_lines rs s) = commit_map rs (sk_lines s)"
  "sk_recent (commit_lines rs s) = sk_recent s"
  "sk_after_until (commit_lines rs s) = sk_after_until s"
  "sk_entries (commit_lines rs s) = sk_entries s"
  "sk_seen (commit_lines rs s) = sk_seen s"
  "sk_selected (commit_lines rs s) = sk_selected s"
  "sk_last_line (commit_lines rs s) = sk_last_line s"
  "sk_line_selected (commit_lines rs s) = sk_line_selected s"
  "sk_overflow (commit_lines rs s) = sk_overflow s"
  by (induction rs s rule: commit_lines.induct) auto

definition room :: "content_spec \<Rightarrow> nat \<Rightarrow> bool" where
  "room spec k \<longleftrightarrow> (case cs_limit spec of None \<Rightarrow> True | Some l \<Rightarrow> k < l)"

lemma in_window_room: "cs_skip spec = 0 \<Longrightarrow> in_window spec s \<longleftrightarrow> 0 < sk_seen s \<and> room spec (sk_selected s)"
  by (simp add: in_window_def room_def)

definition selects :: "content_spec \<Rightarrow> nat \<Rightarrow> content_sink \<Rightarrow> content_sink \<Rightarrow> bool" where
  "selects spec n s s' \<longleftrightarrow>
     sk_lines s' = commit_map (sk_recent s) (sk_lines s) \<and> sk_recent s' = [] \<and>
     sk_after_until s' = max (sk_after_until s) (sat_add n (cs_after spec)) \<and>
     sk_entries s' = sk_entries s @ [MatchingLine n] \<and> sk_seen s' = sk_seen s + 1 \<and>
     sk_selected s' = sk_selected s + 1 \<and> sk_last_line s' = Some n \<and> sk_line_selected s'"

lemma select_line_fresh:
  assumes "select_line spec n s = Inr (sel, s')" "sk_last_line s \<noteq> Some n"
    and "cs_skip spec = 0" "room spec (sk_selected s)"
  shows "sel \<and> selects spec n s s' \<and> sk_overflow s' = sk_overflow s"
proof -
  from assms(1,2) obtain u where u: "increment_entries_seen (s\<lparr>sk_last_line := Some n\<rparr>) = Inr u"
    and r: "(let v = u\<lparr>sk_line_selected := in_window spec u\<rparr> in
        if sk_line_selected v then map_r (\<lambda>s. (True, s)) (select_entry spec [MatchingLine n] n v) else Inr (False, v)) =
        Inr (sel, s')"
    by (auto simp: select_line_def bind_simps)
  from u have u': "u = s\<lparr>sk_last_line := Some n, sk_seen := sk_seen s + 1\<rparr>"
    by (auto simp: increment_entries_seen_def bind_simps sat_simps)
  have win: "in_window spec u" using assms(3,4) by (simp add: u' in_window_room)
  obtain v where v: "v = u\<lparr>sk_line_selected := True\<rparr>" by blast
  from r win have "map_r (\<lambda>s. (True, s)) (select_entry spec [MatchingLine n] n v) = Inr (sel, s')"
    by (simp add: Let_def v)
  then obtain k where sel: "sel" and s': "s' = (let w = commit_recent (v\<lparr>sk_selected := sk_selected v + 1,
      sk_entries := sk_entries v @ [MatchingLine n]\<rparr>) in
      w\<lparr>sk_after_until := max (sk_after_until w) (sat_add n (cs_after spec))\<rparr>)"
    by (auto simp: select_entry_def bind_simps sat_simps)
  show ?thesis using sel by (simp add: s' selects_def commit_recent_def v u' Let_def)
qed

lemma content_found_line:
  assumes "content_found LineMode spec op bs n base m s = Inr (go, s')" "\<not> is_synthetic_trailing_empty bs m"
  shows "\<exists>c sel sk. select_line spec n ((ms_sink s)\<lparr>sk_control := c\<rparr>) = Inr (sel, sk) \<and> go = sel \<and>
    (\<exists>total. let s1 = s\<lparr>ms_sink := sk\<lparr>sk_occurrence_total := total\<rparr>\<rparr> in
      (if sel then note_selected bs n base m None s1 = Inr s' else s' = s1))"
  using assms by (auto simp: content_found_def bind_simps Let_def split: if_splits, blast+)

definition line_done :: "byte list \<Rightarrow> nat \<Rightarrow> match_scan \<Rightarrow> bool" where
  "line_done bs n s \<longleftrightarrow>
     one_line_scan bs n s \<and> ms_intervals s = [(n, n)] \<and> ms_pending s \<noteq> [] \<and> ms_layout s \<noteq> None \<and>
     sk_last_line (ms_sink s) = Some n \<and> sk_line_selected (ms_sink s)"

lemma content_found_again:
  assumes f: "content_found LineMode spec op bs n base m s = Inr (go, s')" and d: "line_done bs n s"
    and b: "length (layout_lines bs) = 1" "n \<le> usize_max"
  shows "go \<and> line_done bs n s' \<and> same_capture (ms_sink s) (ms_sink s') \<and> sk_overflow (ms_sink s') = sk_overflow (ms_sink s)"
proof (cases "is_synthetic_trailing_empty bs m")
  case True
  with f d show ?thesis by (simp add: content_found_def)
next
  case False
  from content_found_line [OF f False] d obtain c total where g: "go"
    and ns: "note_selected bs n base m None (s\<lparr>ms_sink := (ms_sink s)\<lparr>sk_control := c, sk_occurrence_total := total\<rparr>\<rparr>) = Inr s'"
    by (auto simp: select_line_def line_done_def Let_def)
  have "one_line_scan bs n (s\<lparr>ms_sink := (ms_sink s)\<lparr>sk_control := c, sk_occurrence_total := total\<rparr>\<rparr>)"
    using d by (simp add: line_done_def one_line_scan_def)
  from note_selected_single [OF ns this b] d g show ?thesis by (simp add: line_done_def same_capture_def)
qed

lemma scan_again:
  assumes b: "length (layout_lines bs) = 1" "n \<le> usize_max"
  shows "try_find_iter (content_found LineMode spec op bs n base) ms s = Inr s' \<Longrightarrow> line_done bs n s \<Longrightarrow>
    line_done bs n s' \<and> same_capture (ms_sink s) (ms_sink s') \<and> sk_overflow (ms_sink s') = sk_overflow (ms_sink s)"
proof (induction ms arbitrary: s)
  case (Cons m ms)
  then obtain go s1 where f: "content_found LineMode spec op bs n base m s = Inr (go, s1)"
    and r: "(if go then try_find_iter (content_found LineMode spec op bs n base) ms s1 else Inr s1) = Inr s'"
    by (auto simp: bind_simps)
  note one = content_found_again [OF f Cons.prems(2) b]
  with r have "try_find_iter (content_found LineMode spec op bs n base) ms s1 = Inr s'" by simp
  from Cons.IH [OF this] one show ?case using same_capture_trans by auto
qed simp

lemma scan_line:
  assumes b: "length (layout_lines bs) = 1" "n \<le> usize_max"
    and skip: "cs_skip spec = 0"
  shows "try_find_iter (content_found LineMode spec op bs n base) ms s = Inr s' \<Longrightarrow>
    list_ex (\<lambda>m. \<not> is_synthetic_trailing_empty bs m) ms \<Longrightarrow> one_line_scan bs n s \<Longrightarrow>
    sk_last_line (ms_sink s) \<noteq> Some n \<Longrightarrow>
    room spec (sk_selected (ms_sink s)) \<Longrightarrow>
    line_done bs n s' \<and> selects spec n (ms_sink s) (ms_sink s') \<and> sk_overflow (ms_sink s') = sk_overflow (ms_sink s)"
proof (induction ms arbitrary: s)
  case (Cons m ms)
  then obtain go s1 where f: "content_found LineMode spec op bs n base m s = Inr (go, s1)"
    and r: "(if go then try_find_iter (content_found LineMode spec op bs n base) ms s1 else Inr s1) = Inr s'"
    by (auto simp: bind_simps)
  show ?case
  proof (cases "is_synthetic_trailing_empty bs m")
    case True
    with f have s1: "go" "s1 = s" by (simp_all add: content_found_def)
    with r have "try_find_iter (content_found LineMode spec op bs n base) ms s = Inr s'" by simp
    from Cons.IH [OF this] Cons.prems(2-) True show ?thesis by simp
  next
    case False
    from content_found_line [OF f False] obtain c sel sk total where
      sel: "select_line spec n ((ms_sink s)\<lparr>sk_control := c\<rparr>) = Inr (sel, sk)" "go = sel"
      and ns: "let s2 = s\<lparr>ms_sink := sk\<lparr>sk_occurrence_total := total\<rparr>\<rparr> in
        (if sel then note_selected bs n base m None s2 = Inr s1 else s1 = s2)" by blast
    from select_line_fresh [OF sel(1)] Cons.prems skip have go: "sel" "selects spec n (ms_sink s) sk"
      "sk_overflow sk = sk_overflow (ms_sink s)" by (simp_all add: selects_def)
    let ?s2 = "s\<lparr>ms_sink := sk\<lparr>sk_occurrence_total := total\<rparr>\<rparr>"
    have o: "one_line_scan bs n ?s2" using Cons.prems(3) by (simp add: one_line_scan_def)
    from ns go have "note_selected bs n base m None ?s2 = Inr s1" by (simp add: Let_def)
    from note_selected_single [OF this o b] go have d: "line_done bs n s1" "selects spec n (ms_sink s) (ms_sink s1)"
      "sk_overflow (ms_sink s1) = sk_overflow (ms_sink s)"
      by (simp_all add: line_done_def selects_def)
    from r sel(2) go have "try_find_iter (content_found LineMode spec op bs n base) ms s1 = Inr s'" by simp
    from scan_again [OF b this d(1)] d show ?thesis by (simp add: selects_def same_capture_def)
  qed
qed simp

section \<open>The capture as a function of the lines\<close>

definition put_line :: "nat \<Rightarrow> text_range \<Rightarrow> (nat \<Rightarrow> text_range option) \<Rightarrow> (nat \<Rightarrow> text_range option)" where
  "put_line n r lines = (if lines n \<noteq> None then lines else lines(n \<mapsto> r))"

definition push_list :: "nat \<Rightarrow> nat \<Rightarrow> text_range \<Rightarrow> (nat \<times> text_range) list \<Rightarrow> (nat \<times> text_range) list" where
  "push_list b n r rs =
     (if b = 0 \<or> (rs \<noteq> [] \<and> fst (List.last rs) = n) then rs else drop (length rs + 1 - b) rs @ [(n, r)])"

type_synonym capture = "(nat \<Rightarrow> text_range option) \<times> (nat \<times> text_range) list \<times> nat"

definition capture_step :: "content_spec \<Rightarrow> callback \<Rightarrow> capture \<Rightarrow> capture" where
  "capture_step spec e c =
     (case c of (lines, recent, after) \<Rightarrow>
        (case event_of e of
           None \<Rightarrow> (lines, [], 0)
         | Some (True, n, r) \<Rightarrow>
             (put_line n r (commit_map recent lines), push_list (cs_before spec) n r [],
              max after (sat_add n (cs_after spec)))
         | Some (False, n, r) \<Rightarrow>
             (if n \<le> after then put_line n r lines else lines, push_list (cs_before spec) n r recent, after)))"

definition sink_capture :: "content_sink \<Rightarrow> capture" where
  "sink_capture s = (sk_lines s, sk_recent s, sk_after_until s)"

lemma pop_recent_list: "0 < b \<Longrightarrow> fst (pop_recent b rs bytes) = drop (length rs + 1 - b) rs"
proof (induction b rs bytes rule: pop_recent.induct)
  case (2 b r rs bytes)
  then show ?case by (auto simp: Suc_diff_le)
qed simp

lemma push_recent_effect:
  "\<not> sk_overflow (push_recent spec n r s) \<Longrightarrow>
     \<not> sk_overflow s \<and> sk_recent (push_recent spec n r s) = push_list (cs_before spec) n r (sk_recent s) \<and>
     sk_lines (push_recent spec n r s) = sk_lines s \<and> sk_after_until (push_recent spec n r s) = sk_after_until s"
  using pop_recent_list [of "cs_before spec" "sk_recent s" "sk_recent_bytes s"]
  by (cases "pop_recent (cs_before spec) (sk_recent s) (sk_recent_bytes s)")
    (auto simp: push_recent_def push_list_def Let_def split: if_splits)

lemma store_line_effect:
  "\<not> sk_overflow (store_line spec n r s) \<Longrightarrow>
     \<not> sk_overflow s \<and> sk_lines (store_line spec n r s) = put_line n r (sk_lines s) \<and>
     sk_recent (store_line spec n r s) = sk_recent s \<and> sk_after_until (store_line spec n r s) = sk_after_until s"
  by (auto simp: store_line_def put_line_def split: if_splits)

text \<open>The counters and entries, which neither storing nor pushing a line changes.\<close>

definition same_entries :: "content_sink \<Rightarrow> content_sink \<Rightarrow> bool" where
  "same_entries s s' \<longleftrightarrow>
     sk_entries s' = sk_entries s \<and> sk_selected s' = sk_selected s \<and> sk_last_line s' = sk_last_line s"

lemma same_entries_trans: "same_entries a b \<Longrightarrow> same_entries b c \<Longrightarrow> same_entries a c"
  by (simp add: same_entries_def)

lemma same_entries_steps: "same_entries s (store_line spec n r s)" "same_entries s (push_recent spec n r s)"
  by (auto simp: same_entries_def store_line_def push_recent_def Let_def split: prod.splits)

lemma store_occurrences_same:
  "same_capture s (store_occurrences Z LineMode spec ps s)"
proof (induction Z LineMode spec ps s rule: store_occurrences.induct)
  case (2 Z spec p ps s)
  have "same_capture s (store_occurrence Z LineMode spec p s)"
    by (auto simp: same_capture_def store_occurrence_def Let_def)
  with 2 show ?case using same_capture_trans by (auto simp: Let_def)
qed simp

lemma absolute_range_Inr: "absolute_range base a b = Inr r \<Longrightarrow> r = (base + a, base + b)"
  by (auto simp: absolute_range_def checked_add_Some split: option.splits if_splits)

lemma capture_single:
  assumes c: "capture_callback_lines spec n base [(n, n)] 0 [l] 0 v = Inr s'" and l: "ll_start l = 0" and n: "n \<le> usize_max"
  shows "\<exists>t. absolute_range base 0 (ll_content_end l) = Inr t \<and>
    s' = (if 0 < cs_before spec then push_recent spec n t (store_line spec n t v) else store_line spec n t v)"
proof -
  have n0: "sat_add n 0 = n" using n by (simp add: sat_add_exact)
  show ?thesis
  proof (cases "absolute_range base 0 (ll_content_end l)")
    case (Inl e)
    with c n0 l show ?thesis by (simp add: contain_single)
  next
    case (Inr t)
    with c n0 l have "s' = (if 0 < cs_before spec then push_recent spec n t (store_line spec n t v) else store_line spec n t v)"
      by (cases "0 < cs_before spec") (simp_all add: contain_single split: if_splits)
    with Inr show ?thesis by blast
  qed
qed

lemma matched_effect:
  assumes m: "content_matched F Z LineMode spec op bs base (Some n) s = Inr (go, s')"
    and b: "length (layout_lines bs) = 1" "n \<le> usize_max" "has_real_match F bs"
    and spec: "cs_skip spec = 0" "sk_last_line s \<noteq> Some n" "room spec (sk_selected s)"
  shows "sink_capture s' = capture_step spec (Matched bs base (Some n)) (sink_capture s) \<and> \<not> sk_overflow s' \<and>
    sk_entries s' = sk_entries s @ [MatchingLine n] \<and> sk_selected s' = sk_selected s + 1 \<and>
    sk_last_line s' = Some n \<and> go = room spec (sk_selected s')"
proof -
  let ?s0 = "\<lambda>c. \<lparr>ms_sink = s\<lparr>sk_control := c\<rparr>, ms_layout = None, ms_cursor = (0, 0), ms_intervals = [], ms_pending = []\<rparr>"
  from m obtain c r where scan: "try_find_iter (content_found LineMode spec op bs n base) (F bs) (?s0 c) = Inr r"
    and rest: "bind_r (if ms_pending r = [] then Inr (ms_sink r)
        else
          let v = store_occurrences Z LineMode spec (ms_pending r) (ms_sink r) in
          if sk_overflow v then Inr v
          else capture_callback_lines spec n base (ms_intervals r) 0 (ly_lines (scan_layout bs n r)) 0 v)
        (\<lambda>s. if sk_overflow s then Inl CaptureOverflow else Inr (\<not> limit_reached spec s, s)) = Inr (go, s')"
    by (auto simp: content_matched_def bind_simps Let_def)
  from scan_line [OF b(1,2) spec(1) scan] b(3) spec(2,3)
  have d: "line_done bs n r" "selects spec n s (ms_sink r)"
    by (simp_all add: has_real_match_def one_line_scan_def selects_def)
  define v where "v = store_occurrences Z LineMode spec (ms_pending r) (ms_sink r)"
  have v: "selects spec n s v"
    using d(2) store_occurrences_same [of "ms_sink r" Z spec "ms_pending r"]
    by (simp add: v_def selects_def same_capture_def)
  obtain ll where ll: "layout_lines bs = [ll]" "ll_start ll = 0" "match_line_range base bs = (base, base + ll_content_end ll)"
    using layout_single [OF b(1)] by (metis match_line_range_def list.sel(1))
  have lines: "ly_lines (scan_layout bs n r) = [ll]"
    using d(1) ll by (auto simp: line_done_def one_line_scan_def scan_layout_def split: option.splits)
  have int: "ms_intervals r = [(n, n)]" "ms_pending r \<noteq> []" using d(1) by (simp_all add: line_done_def)
  from rest int have cap: "capture_callback_lines spec n base [(n, n)] 0 [ll] 0 v = Inr s'" "\<not> sk_overflow s'"
    and go: "go = (\<not> limit_reached spec s')"
    by (auto simp: bind_simps lines v_def [symmetric] Let_def split: if_splits)
  obtain t where t: "absolute_range base 0 (ll_content_end ll) = Inr t"
    and s': "s' = (if 0 < cs_before spec then push_recent spec n t (store_line spec n t v) else store_line spec n t v)"
    using capture_single [OF cap(1) ll(2) b(2)] by blast
  have range: "t = match_line_range base bs"
    using absolute_range_Inr [OF t] ll(3) by simp
  define w where "w = store_line spec n t v"
  have s'': "s' = (if 0 < cs_before spec then push_recent spec n t w else w)" using s' by (simp add: w_def)
  have "\<not> sk_overflow w" using s'' cap(2) push_recent_effect [of spec n t w] by (auto split: if_splits)
  then have w: "sk_lines w = put_line n t (sk_lines v)" "sk_recent w = []" "sk_after_until w = sk_after_until v"
    "same_entries v w"
    using store_line_effect [of spec n t v] same_entries_steps(1) [of v spec n t] v by (auto simp: w_def selects_def)
  have "sk_lines s' = sk_lines w \<and> sk_recent s' = push_list (cs_before spec) n t [] \<and>
      sk_after_until s' = sk_after_until w \<and> same_entries w s'"
  proof (cases "0 < cs_before spec")
    case True
    with s'' cap(2) push_recent_effect [of spec n t w] same_entries_steps(2) [of w spec n t] w(2) show ?thesis by simp
  next
    case False
    with s'' w(2) show ?thesis by (simp add: push_list_def same_entries_def)
  qed
  with w v range cap(2) go show ?thesis
    by (simp add: sink_capture_def capture_step_def event_of_def selects_def same_entries_def limit_reached_def
        room_def not_le split: option.split)
qed

lemma context_effect:
  assumes m: "content_context spec op kind bs base (Some n) s = Inr (go, s')" and k: "kind \<noteq> ContextOther"
  shows "sink_capture s' = capture_step spec (Context kind bs base (Some n)) (sink_capture s) \<and> \<not> sk_overflow s' \<and>
    same_entries s s' \<and> go"
proof -
  from m obtain c v where v0: "capture_context_line spec kind bs base n (s\<lparr>sk_control := c\<rparr>) = Inr v"
    and o: "\<not> sk_overflow v" "go" "s' = v"
    by (auto simp: content_context_def bind_simps Let_def split: if_splits)
  define u where "u = s\<lparr>sk_control := c\<rparr>"
  define store where "store = (\<lambda>r. let s = (if n \<le> sk_after_until u then store_line spec n r u else u) in
    if 0 < cs_before spec then push_recent spec n r s else s)"
  have v: "(if n \<le> sk_after_until u \<or> 0 < cs_before spec
      then map_r store (absolute_range base 0 (length (strip_line_terminator bs))) else Inr u) = Inr v"
    using v0 k unfolding u_def [symmetric] capture_context_line_def store_def by (simp add: Let_def)
  have su: "sink_capture u = sink_capture s" "same_entries s u" by (simp_all add: u_def sink_capture_def same_entries_def)
  show ?thesis
  proof (cases "n \<le> sk_after_until u \<or> 0 < cs_before spec")
    case False
    with v have "v = u" by simp
    with False su o show ?thesis
      by (simp add: capture_step_def sink_capture_def event_of_def push_list_def)
  next
    case True
    with v obtain r where r: "absolute_range base 0 (length (strip_line_terminator bs)) = Inr r"
      and v': "v = store r"
      by (auto simp: bind_simps)
    have range: "r = (base, base + length (strip_line_terminator bs))"
      using absolute_range_Inr [OF r] by simp
    define w where "w = (if n \<le> sk_after_until u then store_line spec n r u else u)"
    have v'': "v = (if 0 < cs_before spec then push_recent spec n r w else w)" by (simp add: v' w_def store_def Let_def)
    with o(1) have ow: "\<not> sk_overflow w" using push_recent_effect [of spec n r w] by (auto split: if_splits)
    then have w: "sk_lines w = (if n \<le> sk_after_until u then put_line n r (sk_lines u) else sk_lines u)"
      "sk_recent w = sk_recent u" "sk_after_until w = sk_after_until u" "same_entries u w"
      using store_line_effect [of spec n r u] same_entries_steps(1) [of u spec n r]
      by (auto simp: w_def same_entries_def split: if_splits)
    have "sk_lines v = sk_lines w \<and> sk_recent v = push_list (cs_before spec) n r (sk_recent w) \<and>
        sk_after_until v = sk_after_until w \<and> same_entries w v"
      using v'' o(1) push_recent_effect [of spec n r w] same_entries_steps(2) [of w spec n r]
      by (auto simp: push_list_def same_entries_def split: if_splits)
    with w su o range show ?thesis
      by (auto simp: capture_step_def sink_capture_def event_of_def same_entries_def)
  qed
qed

lemma break_effect:
  "content_break op s = Inr (go, s') \<Longrightarrow>
     sink_capture s' = capture_step spec ContextBreak (sink_capture s) \<and> sk_overflow s' = sk_overflow s \<and>
     same_entries s s' \<and> go"
  by (auto simp: content_break_def bind_simps capture_step_def sink_capture_def event_of_def same_entries_def)

section \<open>What the capture holds\<close>

lemma commit_map_value: "commit_map rs L l = (case L l of None \<Rightarrow> map_of rs l | Some r \<Rightarrow> Some r)"
  by (induction rs L rule: commit_map.induct) (auto split: option.splits)

lemma runs_snoc: "runs (es @ [e]) = add_event e (runs es)"
  by (simp add: runs_def)

lemma all_lines_add: "all_lines (add_event e r) = all_lines r @ (case event_of e of None \<Rightarrow> [] | Some v \<Rightarrow> [v])"
  by (simp add: add_event_def all_lines_def split: option.split)

lemma line_numbers_append [simp]: "line_numbers (a @ b) = line_numbers a @ line_numbers b" "line_numbers [] = []"
  "line_numbers (v # b) = fst (snd v) # line_numbers b"
  by (simp_all add: line_numbers_def)

lemma matching_lines_simps [simp]:
  "matching_lines [] = []" "matching_lines (a @ b) = matching_lines a @ matching_lines b"
  "matching_lines (v # b) = (if fst v then [fst (snd v)] else []) @ matching_lines b"
  by (simp_all add: matching_lines_def)

lemma rising_gap:
  fixes xs :: "nat list"
  shows "sorted_wrt (<) xs \<Longrightarrow> i \<le> j \<Longrightarrow> j < length xs \<Longrightarrow> xs ! i + (j - i) \<le> xs ! j"
proof (induction "j - i" arbitrary: j)
  case (Suc d)
  then have "i < j" by simp
  with Suc.hyps(1) [of "j - 1"] Suc.hyps(2) Suc.prems have "xs ! i + (j - 1 - i) \<le> xs ! (j - 1)" by simp
  moreover have "xs ! (j - 1) < xs ! j" using Suc.prems \<open>i < j\<close> by (simp add: sorted_wrt_iff_nth_less)
  ultimately show ?case using \<open>i < j\<close> by simp
qed simp

text \<open>No recent line that a coming line may still need is dropped.\<close>

lemma push_list_keeps:
  assumes rs: "sorted_wrt (<) (map fst rs)" "\<forall>(l, r) \<in> set rs. l < n" and b: "0 < b"
    and l: "(l, r) \<in> set rs" "n < l + b"
  shows "(l, r) \<in> set (push_list b n t rs)"
proof -
  from l(1) obtain i where i: "i < length rs" "rs ! i = (l, r)" by (auto simp: in_set_conv_nth)
  have "l + (length rs - 1 - i) \<le> map fst rs ! (length rs - 1)"
    using rising_gap [OF rs(1), of i "length rs - 1"] i by simp
  also have "\<dots> < n" using rs(2) i by (auto simp: all_set_conv_all_nth dest!: spec [of _ "length rs - 1"])
  finally have "length rs - i < b" using l(2) i by linarith
  then have "length rs + 1 - b \<le> i" by simp
  then have "drop (length rs + 1 - b) rs ! (i - (length rs + 1 - b)) = (l, r)"
    "i - (length rs + 1 - b) < length (drop (length rs + 1 - b) rs)" using i by auto
  then have "(l, r) \<in> set (drop (length rs + 1 - b) rs)" by (metis nth_mem)
  then show ?thesis using l(1) by (auto simp: push_list_def)
qed

lemma push_list_new:
  assumes rs: "\<forall>(l, r) \<in> set rs. l < n" and b: "0 < b"
  shows "push_list b n t rs = drop (length rs + 1 - b) rs @ [(n, t)]"
proof -
  have "rs \<noteq> [] \<Longrightarrow> fst (List.last rs) < n" using rs last_in_set [of rs] by (cases "List.last rs") auto
  then show ?thesis using b by (auto simp: push_list_def)
qed

lemma push_list_sorted:
  assumes "sorted_wrt (<) (map fst rs)" "\<forall>(l, r) \<in> set rs. l < n"
  shows "sorted_wrt (<) (map fst (push_list b n t rs)) \<and> set (push_list b n t rs) \<subseteq> insert (n, t) (set rs)"
proof (cases "0 < b")
  case True
  have "sorted_wrt (<) (drop k (map fst rs))" for k using assms(1) by (rule sorted_wrt_drop)
  then show ?thesis
    using assms(2) set_drop_subset [of "length rs + 1 - b" rs]
    by (fastforce simp: push_list_new [OF assms(2) True] sorted_wrt_append drop_map)
qed (use assms(1) in \<open>auto simp: push_list_def\<close>)

definition capture_inv ::
    "content_spec \<Rightarrow> line_event list list \<times> line_event list \<Rightarrow> capture \<Rightarrow> bool" where
  "capture_inv spec rn c \<longleftrightarrow>
     (case c of (lines, recent, after) \<Rightarrow>
        (\<forall>l r. lines l = Some r \<longrightarrow> (\<exists>b. (b, l, r) \<in> set (all_lines rn))) \<and>
        (\<forall>(l, r) \<in> set recent. \<exists>b. (b, l, r) \<in> set (snd rn)) \<and>
        sorted_wrt (<) (map fst recent) \<and>
        (0 < cs_before spec \<longrightarrow> (\<forall>(b, l, r) \<in> set (snd rn).
           List.last (line_numbers (snd rn)) < l + cs_before spec \<longrightarrow> lines l = Some r \<or> (l, r) \<in> set recent)) \<and>
        (\<forall>m \<in> set (matching_lines (snd rn)). sat_add m (cs_after spec) \<le> after) \<and>
        (\<forall>seg \<in> set (fst rn @ [snd rn]). context_present (cs_before spec) (cs_after spec) lines seg))"

lemma capture_invD:
  assumes "capture_inv spec rn (L, R, A)"
  shows "L l = Some r \<Longrightarrow> \<exists>b. (b, l, r) \<in> set (all_lines rn)"
    and "(l, r) \<in> set R \<Longrightarrow> \<exists>b. (b, l, r) \<in> set (snd rn)"
    and "sorted_wrt (<) (map fst R)"
    and "0 < cs_before spec \<Longrightarrow> (b, l, r) \<in> set (snd rn) \<Longrightarrow>
      List.last (line_numbers (snd rn)) < l + cs_before spec \<Longrightarrow> L l = Some r \<or> (l, r) \<in> set R"
    and "m \<in> set (matching_lines (snd rn)) \<Longrightarrow> sat_add m (cs_after spec) \<le> A"
    and "seg \<in> set (fst rn @ [snd rn]) \<Longrightarrow> context_present (cs_before spec) (cs_after spec) L seg"
  using assms unfolding capture_inv_def prod.case by blast+

lemma context_present_mono:
  "context_present b a L seg \<Longrightarrow> (\<And>l r. L l = Some r \<Longrightarrow> L' l = Some r) \<Longrightarrow> context_present b a L' seg"
  by (fastforce simp: context_present_def list_all_iff)

lemma capture_inv_break:
  assumes "capture_inv spec rn c" "event_of e = None"
  shows "capture_inv spec (add_event e rn) (capture_step spec e c)"
proof -
  obtain L R A where c: "c = (L, R, A)" by (cases c)
  show ?thesis using assms
    by (auto simp: c capture_inv_def capture_step_def add_event_def all_lines_def context_present_def)
qed

text \<open>A coming line: higher than every line so far, and next in its run.\<close>

definition next_line :: "content_spec \<Rightarrow> line_event list list \<times> line_event list \<Rightarrow> nat \<Rightarrow> bool" where
  "next_line spec rn n \<longleftrightarrow>
     sorted_wrt (<) (line_numbers (all_lines rn)) \<and> (\<forall>(b, l, r) \<in> set (all_lines rn). l < n) \<and> n \<le> usize_max \<and>
     (0 < cs_before spec \<longrightarrow> snd rn \<noteq> [] \<longrightarrow> n = Suc (List.last (line_numbers (snd rn))))"

lemma line_unique:
  assumes "sorted_wrt (<) (line_numbers evs)" "(b, l, r) \<in> set evs" "(b', l, r') \<in> set evs"
  shows "r' = r"
proof -
  have "distinct (map (fst \<circ> snd) evs)"
    using assms(1) by (simp add: line_numbers_def strict_sorted_iff)
  then have "inj_on (fst \<circ> snd) (set evs)" by (simp add: distinct_map)
  from inj_onD [OF this _ assms(2,3)] show ?thesis by simp
qed

lemma next_line_less: "next_line spec rn n \<Longrightarrow> (b, l, r) \<in> set (snd rn) \<Longrightarrow> l < n"
  by (force simp: next_line_def all_lines_def)

lemma next_line_fresh: "next_line spec rn n \<Longrightarrow> (b, n, r) \<notin> set (all_lines rn)"
  by (force simp: next_line_def)

text \<open>What every line of the run owes once the new line is in.\<close>

lemma capture_inv_intro:
  assumes inv: "capture_inv spec rn (L, R, A)" and n: "next_line spec rn n"
    and e: "event_of e = Some (b, n, t)"
    and mono: "\<And>l r. L l = Some r \<Longrightarrow> L' l = Some r"
    and sound: "\<And>l r. L' l = Some r \<Longrightarrow> (l, r) = (n, t) \<or> (\<exists>b. (b, l, r) \<in> set (all_lines rn))"
    and recent: "set R' \<subseteq> insert (n, t) (set R)" "sorted_wrt (<) (map fst R')"
    and near: "\<And>b l r. 0 < cs_before spec \<Longrightarrow> (b, l, r) \<in> set (snd rn) \<Longrightarrow> n < l + cs_before spec \<Longrightarrow>
      L' l = Some r \<or> (l, r) \<in> set R'"
    and self: "0 < cs_before spec \<Longrightarrow> (n, t) \<in> set R'"
    and after: "A \<le> A'" "b \<Longrightarrow> sat_add n (cs_after spec) \<le> A'"
    and match: "b \<Longrightarrow> L' n = Some t"
      "\<And>b' l r. b \<Longrightarrow> (b', l, r) \<in> set (snd rn) \<Longrightarrow> n \<le> l + cs_before spec \<Longrightarrow> L' l = Some r"
    and cover: "n \<le> A \<Longrightarrow> L' n = Some t"
  shows "capture_inv spec (add_event e rn) (L', R', A')"
proof -
  have old: "context_present (cs_before spec) (cs_after spec) L' seg" if "seg \<in> set (fst rn @ [snd rn])" for seg
    by (rule context_present_mono [OF capture_invD(6) [OF inv that]]) (rule mono)
  note A = capture_invD(5) [OF inv]
  have due: "L' n = Some t" if "m \<in> set (matching_lines (snd rn))" "n \<le> m + cs_after spec" for m
  proof (rule cover)
    have "n \<le> sat_add m (cs_after spec)" using that(2) n by (simp add: sat_add_def next_line_def)
    then show "n \<le> A" using A [OF that(1)] by simp
  qed
  have runs': "snd (add_event e rn) = snd rn @ [(b, n, t)]" "fst (add_event e rn) = fst rn"
    "all_lines (add_event e rn) = all_lines rn @ [(b, n, t)]"
    by (simp_all add: e add_event_def all_lines_def)
  have seg: "context_present (cs_before spec) (cs_after spec) L' (snd rn @ [(b, n, t)])"
  proof -
    have "L' l = Some r" if "m \<in> set (matching_lines (snd rn @ [(b, n, t)]))" "(b', l, r) \<in> set (snd rn @ [(b, n, t)])"
      "m \<le> l + cs_before spec" "l \<le> m + cs_after spec" for m b' l r
    proof (cases "m \<in> set (matching_lines (snd rn))")
      case True
      show ?thesis
      proof (cases "(b', l, r) \<in> set (snd rn)")
        case in_run: True
        from old [of "snd rn"] True in_run that(3,4) show ?thesis
          by (fastforce simp: context_present_def list_all_iff)
      next
        case False
        with that(2) have "l = n" "r = t" by auto
        with due [OF True] that(4) show ?thesis by simp
      qed
    next
      case False
      with that(1) have "b" "m = n" by (auto split: if_splits)
      with that(2,3) match(1) match(2) [of b' l r] show ?thesis by auto
    qed
    then show ?thesis unfolding context_present_def list_all_iff by blast
  qed
  have last': "List.last (line_numbers (snd rn @ [(b, n, t)])) = n" by simp
  have "(b', l, r) \<in> set (snd rn @ [(b, n, t)]) \<Longrightarrow> 0 < cs_before spec \<Longrightarrow> n < l + cs_before spec \<Longrightarrow>
      L' l = Some r \<or> (l, r) \<in> set R'" for b' l r
    using near [of b' l r] self by auto
  moreover have "\<exists>b'. (b', l, r) \<in> set (all_lines rn @ [(b, n, t)])" if "L' l = Some r" for l r
    using sound [OF that] by (cases "(l, r) = (n, t)") auto
  moreover have "\<exists>b'. (b', l, r) \<in> set (snd rn @ [(b, n, t)])" if "(l, r) \<in> set R'" for l r
    using recent(1) that capture_invD(2) [OF inv, of l r] by (cases "(l, r) = (n, t)") auto
  moreover have "sat_add m (cs_after spec) \<le> A'" if "m \<in> set (matching_lines (snd rn @ [(b, n, t)]))" for m
    using that A [of m] after by (auto split: if_splits)
  moreover have "context_present (cs_before spec) (cs_after spec) L' s"
    if "s \<in> set (fst rn @ [snd rn @ [(b, n, t)]])" for s
    using that seg old by auto
  ultimately show ?thesis using recent(2) unfolding capture_inv_def prod.case runs' last' by blast
qed

lemma capture_inv_match:
  assumes inv: "capture_inv spec rn c" and e: "event_of e = Some (True, n, t)" and n: "next_line spec rn n"
  shows "capture_inv spec (add_event e rn) (capture_step spec e c)"
proof -
  obtain L R A where c: "c = (L, R, A)" by (cases c)
  define L0 where "L0 = commit_map R L"
  define L1 where "L1 = put_line n t L0"
  note inv' = inv [unfolded c]
  note R = capture_invD(2) [OF inv'] and sR = capture_invD(3) [OF inv']
  have mapR: "(l, r) \<in> set R \<Longrightarrow> map_of R l = Some r" for l r
    using sR by (intro map_of_is_SomeI) (simp_all add: strict_sorted_iff)
  have sound: "\<exists>b. (b, l, r) \<in> set (all_lines rn)" if "L0 l = Some r" for l r
    using that capture_invD(1) [OF inv', of l r] R [of l r]
    by (auto simp: L0_def commit_map_value all_lines_def split: option.splits dest!: map_of_SomeD)
  have fresh: "L0 n = None" using sound next_line_fresh [OF n] by (cases "L0 n") blast+
  then have L1: "L1 = L0(n \<mapsto> t)" by (simp add: L1_def put_line_def)
  have mono: "L1 l = Some r" if "L l = Some r" for l r
    using that fresh by (auto simp: L1 L0_def commit_map_value)
  have near: "L1 l = Some r" if "(b, l, r) \<in> set (snd rn)" "n \<le> l + cs_before spec" for b l r
  proof -
    have "l < n" using next_line_less [OF n that(1)] .
    with that(2) have pos: "0 < cs_before spec" by simp
    have "List.last (line_numbers (snd rn)) < l + cs_before spec"
      using n that pos by (cases "snd rn = []") (auto simp: next_line_def)
    with capture_invD(4) [OF inv' pos that(1)] have "L l = Some r \<or> (l, r) \<in> set R" by blast
    then show ?thesis
    proof
      assume r: "(l, r) \<in> set R"
      show ?thesis
      proof (cases "L l")
        case None
        with mapR [OF r] \<open>l < n\<close> show ?thesis by (simp add: L1 L0_def commit_map_value)
      next
        case (Some r')
        with capture_invD(1) [OF inv'] obtain b' where b': "(b', l, r') \<in> set (all_lines rn)" by blast
        have "(b, l, r) \<in> set (all_lines rn)" using that(1) by (simp add: all_lines_def)
        then have "r' = r" using line_unique [OF _ _ b'] n by (auto simp: next_line_def)
        with Some mono show ?thesis by simp
      qed
    qed (rule mono)
  qed
  let ?B = "cs_before spec"
  have step: "capture_step spec e c = (L1, push_list ?B n t [], max A (sat_add n (cs_after spec)))"
    using e by (simp add: c capture_step_def L1_def L0_def)
  show ?thesis unfolding step
  proof (rule capture_inv_intro [OF _ n e])
    show "capture_inv spec rn (L, R, A)" using inv c by simp
    show "L1 l = Some r" if "L l = Some r" for l r by (rule mono [OF that])
    show "(l, r) = (n, t) \<or> (\<exists>b. (b, l, r) \<in> set (all_lines rn))" if "L1 l = Some r" for l r
      using that sound by (auto simp: L1 split: if_splits)
    show "L1 l = Some r \<or> (l, r) \<in> set (push_list ?B n t [])"
      if "(b, l, r) \<in> set (snd rn)" "n < l + ?B" for b l r
      using near [OF that(1)] that(2) by simp
    show "L1 l = Some r" if "(b', l, r) \<in> set (snd rn)" "n \<le> l + ?B" for b' l r
      using near that by blast
  qed (auto simp: push_list_def L1)
qed

lemma capture_inv_context:
  assumes inv: "capture_inv spec rn c" and e: "event_of e = Some (False, n, t)" and n: "next_line spec rn n"
  shows "capture_inv spec (add_event e rn) (capture_step spec e c)"
proof -
  obtain L R A where c: "c = (L, R, A)" by (cases c)
  let ?B = "cs_before spec"
  define L1 where "L1 = (if n \<le> A then put_line n t L else L)"
  note inv' = inv [unfolded c]
  note sound = capture_invD(1) [OF inv'] and sR = capture_invD(3) [OF inv']
  have fresh: "L n = None" using sound next_line_fresh [OF n] by (cases "L n") blast+
  then have L1: "L1 = (if n \<le> A then L(n \<mapsto> t) else L)" by (simp add: L1_def put_line_def)
  have R: "\<forall>(l, r) \<in> set R. l < n"
    using capture_invD(2) [OF inv'] next_line_less [OF n] by fastforce
  have step: "capture_step spec e c = (L1, push_list ?B n t R, A)"
    using e by (simp add: c capture_step_def L1_def)
  show ?thesis unfolding step
  proof (rule capture_inv_intro [OF _ n e])
    show "capture_inv spec rn (L, R, A)" using inv c by simp
    show "L1 l = Some r" if "L l = Some r" for l r using that fresh by (auto simp: L1)
    show "(l, r) = (n, t) \<or> (\<exists>b. (b, l, r) \<in> set (all_lines rn))" if "L1 l = Some r" for l r
      using that sound by (auto simp: L1 split: if_splits)
    show "set (push_list ?B n t R) \<subseteq> insert (n, t) (set R)" "sorted_wrt (<) (map fst (push_list ?B n t R))"
      using push_list_sorted [OF sR R] by blast+
    show "L1 l = Some r \<or> (l, r) \<in> set (push_list ?B n t R)"
      if b: "0 < ?B" and l: "(b, l, r) \<in> set (snd rn)" "n < l + ?B" for b l r
    proof -
      have "List.last (line_numbers (snd rn)) < l + ?B"
        using n l b by (cases "snd rn = []") (auto simp: next_line_def)
      then have "L l = Some r \<or> (l, r) \<in> set R" using capture_invD(4) [OF inv' b l(1)] by blast
      moreover have "(l, r) \<in> set R \<Longrightarrow> (l, r) \<in> set (push_list ?B n t R)"
        by (rule push_list_keeps [OF sR R b _ l(2)])
      moreover have "L l = Some r \<Longrightarrow> L1 l = Some r" using fresh by (auto simp: L1)
      ultimately show ?thesis by blast
    qed
    show "(n, t) \<in> set (push_list ?B n t R)" if "0 < ?B" using push_list_new [OF R that] by simp
    show "n \<le> A \<Longrightarrow> L1 n = Some t" by (simp add: L1)
  qed auto
qed

section \<open>Every search captures its context\<close>

lemma capture_inv_start: "capture_inv spec ([], []) (Map.empty, [], 0)"
  by (simp add: capture_inv_def all_lines_def context_present_def)

definition search_inv :: "content_spec \<Rightarrow> callback list \<Rightarrow> content_sink \<Rightarrow> bool" where
  "search_inv spec pre s \<longleftrightarrow>
     capture_inv spec (runs pre) (sink_capture s) \<and>
     sk_entries s = map MatchingLine (matching_lines (all_lines (runs pre))) \<and>
     sk_selected s = length (sk_entries s) \<and>
     (\<forall>n. sk_last_line s = Some n \<longrightarrow> n \<in> set (line_numbers (all_lines (runs pre))))"

lemma consecutive_snoc:
  assumes "consecutive (seg @ [(b, n, t)])" "seg \<noteq> []"
  shows "consecutive seg" "n = Suc (List.last (line_numbers seg))"
proof -
  define a where "a = hd (line_numbers (seg @ [(b, n, t)]))"
  have "line_numbers (seg @ [(b, n, t)]) = [a..<a + length (seg @ [(b, n, t)])]"
    using assms(1) unfolding consecutive_def a_def by blast
  then have "line_numbers seg @ [n] = [a..<a + length seg] @ [a + length seg]" by simp
  then have l: "line_numbers seg = [a..<a + length seg]" "n = a + length seg" by simp_all
  then show "n = Suc (List.last (line_numbers seg))" using assms(2) by (cases seg) (auto simp: last_upt)
  have "hd (line_numbers seg) = a" using assms(2) by (simp add: l(1) hd_upt)
  with l(1) show "consecutive seg" by (simp add: consecutive_def)
qed

lemma line_stream_prefix:
  assumes "line_stream F before (pre @ [e])"
  shows "line_stream F before pre"
proof -
  have "sorted_wrt (<) (line_numbers (all_lines (add_event e (runs pre))))"
    using assms by (simp add: line_stream_def runs_snoc)
  then have s: "sorted_wrt (<) (line_numbers (all_lines (runs pre)))"
    by (simp add: all_lines_add sorted_wrt_append)
  have "list_all consecutive (fst (runs pre) @ [snd (runs pre)])" if "0 < before"
  proof -
    have c: "list_all consecutive (fst (add_event e (runs pre)) @ [snd (add_event e (runs pre))])"
      using assms that by (simp add: line_stream_def runs_snoc)
    show ?thesis
    proof (cases "event_of e")
      case None
      with c show ?thesis by (simp add: add_event_def)
    next
      case (Some v)
      obtain b n t where v: "v = (b, n, t)" by (cases v)
      have "consecutive (snd (runs pre))"
        using c consecutive_snoc(1) [of "snd (runs pre)" b n t]
        by (cases "snd (runs pre) = []") (auto simp: add_event_def Some v consecutive_def [of "[]"])
      with c show ?thesis by (simp add: add_event_def Some)
    qed
  qed
  with s assms show ?thesis by (simp add: line_stream_def)
qed

lemma line_stream_next:
  assumes "line_stream F (cs_before spec) (pre @ [e])" "event_of e = Some (b, n, t)" "n \<le> usize_max"
  shows "next_line spec (runs pre) n"
proof -
  let ?seg = "snd (runs pre)"
  have s: "sorted_wrt (<) (line_numbers (all_lines (runs pre) @ [(b, n, t)]))"
    using assms(1,2) by (simp add: line_stream_def runs_snoc all_lines_add)
  have "n = Suc (List.last (line_numbers ?seg))" if "0 < cs_before spec" "?seg \<noteq> []"
    using assms(1,2) that by (intro consecutive_snoc(2) [of _ b n t])
      (simp_all add: line_stream_def runs_snoc add_event_def)
  moreover have "\<forall>(b, l, r) \<in> set (all_lines (runs pre)). l < n"
    using s by (auto simp: sorted_wrt_append line_numbers_def)
  ultimately show ?thesis using s assms(3) by (simp add: next_line_def sorted_wrt_append)
qed

lemma search_step:
  assumes stream: "line_stream F (cs_before spec) (pre @ [e])" and inv: "search_inv spec pre s"
    and spec: "cs_skip spec = 0" "room spec (sk_selected s)"
    and step: "plan_callback F Z op e (ContentSink LineMode spec s) = Inr (go, v)"
  shows "\<exists>s'. v = ContentSink LineMode spec s' \<and> search_inv spec (pre @ [e]) s' \<and> go = room spec (sk_selected s')"
proof -
  have cb: "line_callback F e" using stream by (simp add: line_stream_def)
  note next' = line_stream_next [OF stream]
  have inv': "capture_inv spec (runs pre) (sink_capture s)" using inv by (simp add: search_inv_def)
  show ?thesis
  proof (cases e)
    case (Matched bs base k)
    with cb obtain n where k: "k = Some n" "n \<le> usize_max" "length (layout_lines bs) = 1" "has_real_match F bs"
      by (auto simp: line_callback_def)
    have ev: "event_of e = Some (True, n, match_line_range base bs)" by (simp add: Matched k event_of_def)
    from next' [OF ev k(2)] have nx: "next_line spec (runs pre) n" .
    have "n \<notin> set (line_numbers (all_lines (runs pre)))"
      using nx by (auto simp: next_line_def line_numbers_def)
    then have l: "sk_last_line s \<noteq> Some n" using inv by (auto simp: search_inv_def)
    from step obtain s' where v: "v = ContentSink LineMode spec s'"
      and m: "content_matched F Z LineMode spec op bs base (Some n) s = Inr (go, s')"
      by (auto simp: plan_callback_def Matched k(1) bind_simps)
    note eff = matched_effect [OF m k(3,2,4) spec(1) l spec(2)]
    have "search_inv spec (pre @ [e]) s'"
      using eff inv capture_inv_match [OF inv' ev nx] ev
      by (auto simp: search_inv_def runs_snoc all_lines_add Matched k(1))
    with eff v show ?thesis by blast
  next
    case (Context kind bs base k)
    with cb obtain n where k: "k = Some n" "n \<le> usize_max" "kind \<noteq> ContextOther"
      by (auto simp: line_callback_def)
    have ev: "event_of e = Some (False, n, (base, base + length (strip_line_terminator bs)))"
      by (simp add: Context k event_of_def)
    from next' [OF ev k(2)] have nx: "next_line spec (runs pre) n" .
    from step obtain s' where v: "v = ContentSink LineMode spec s'"
      and m: "content_context spec op kind bs base (Some n) s = Inr (go, s')"
      by (auto simp: plan_callback_def Context k(1) bind_simps)
    note eff = context_effect [OF m k(3)]
    have "search_inv spec (pre @ [e]) s'"
      using eff inv capture_inv_context [OF inv' ev nx] ev
      by (auto simp: search_inv_def runs_snoc all_lines_add Context k(1) same_entries_def)
    with eff v spec(2) show ?thesis by (auto simp: same_entries_def)
  next
    case ContextBreak
    have ev: "event_of e = None" by (simp add: ContextBreak event_of_def)
    from step obtain s' where v: "v = ContentSink LineMode spec s'" and m: "content_break op s = Inr (go, s')"
      by (auto simp: plan_callback_def ContextBreak bind_simps)
    note eff = break_effect [OF m]
    have "search_inv spec (pre @ [e]) s'"
      using eff inv capture_inv_break [OF inv' ev] ev
      by (auto simp: search_inv_def runs_snoc all_lines_add ContextBreak same_entries_def)
    with eff v spec(2) show ?thesis by (auto simp: same_entries_def)
  qed
qed

lemma run_search_inv:
  assumes "line_stream F (cs_before spec) (pre @ es)" "search_inv spec pre s" "cs_skip spec = 0"
    and "room spec (sk_selected s)" "run_search F Z op es (ContentSink LineMode spec s) = Inr v"
  shows "\<exists>done' rest s'. es = done' @ rest \<and> v = ContentSink LineMode spec s' \<and> search_inv spec (pre @ done') s' \<and>
    (rest = [] \<or> \<not> room spec (sk_selected s'))"
  using assms
proof (induction es arbitrary: pre s)
  case Nil
  then show ?case by auto
next
  case (Cons e es)
  have pre: "line_stream F (cs_before spec) (pre @ [e])"
  proof -
    have "line_stream F (cs_before spec) (a @ b) \<Longrightarrow> line_stream F (cs_before spec) a" for a b
      by (induction b rule: rev_induct) (simp_all add: line_stream_prefix flip: append_assoc)
    then show ?thesis using Cons.prems(1) by (metis append_Cons append_Nil append_assoc)
  qed
  from Cons.prems(5) obtain go w where step: "plan_callback F Z op e (ContentSink LineMode spec s) = Inr (go, w)"
    and rest: "(if go then run_search F Z op es w else Inr w) = Inr v"
    by (auto simp: bind_simps)
  from search_step [OF pre Cons.prems(2,3,4) step] obtain s' where
    w: "w = ContentSink LineMode spec s'" "search_inv spec (pre @ [e]) s'" "go = room spec (sk_selected s')" by blast
  show ?case
  proof (cases go)
    case False
    with rest w show ?thesis by (intro exI [of _ "[e]"] exI [of _ es] exI [of _ s']) simp
  next
    case True
    with rest w Cons.IH [of "pre @ [e]" s'] Cons.prems(1,3) obtain d r s'' where
      "es = d @ r" "v = ContentSink LineMode spec s''" "search_inv spec ((pre @ [e]) @ d) s''"
      "r = [] \<or> \<not> room spec (sk_selected s'')" by auto
    then show ?thesis by (intro exI [of _ "e # d"] exI [of _ r] exI [of _ s'']) simp
  qed
qed


section \<open>A concrete run\<close>

lemmas sat = sat_add_def checked_add_def usize_max_def sat_mul_def

definition letter_finder :: finder where
  "letter_finder bs = (if bs = [0x62, 0x0A] then [(0, 1)] else [])"

definition context_spec :: "nat \<Rightarrow> nat \<Rightarrow> nat option \<Rightarrow> content_spec" where
  "context_spec before after limit =
     \<lparr>cs_multiline = False, cs_skip = 0, cs_limit = limit, cs_capture_text = False,
      cs_before = before, cs_after = after, cs_heap_limit = 1000\<rparr>"

definition three_lines :: "callback list" where
  "three_lines =
     [Context ContextBefore [0x61, 0x0A] 0 (Some 1), Matched [0x62, 0x0A] 2 (Some 2),
      Context ContextAfter [0x63, 0x0A] 4 (Some 3)]"

definition seen_first :: content_sink where
  "seen_first = (new_content_sink 0)\<lparr>sk_recent := [(1, (0, 1))], sk_recent_bytes := 1\<rparr>"

definition one_control :: sink_control where
  "one_control = \<lparr>ct_occurrences = 1, ct_bytes = 1, ct_polls = 0\<rparr>"

definition moved_layout :: line_layout where
  "moved_layout = (new_layout [0x62, 0x0A] 2)\<lparr>ly_cursors := [(1, 1)]\<rparr>"

definition found_match :: pending_occurrence where
  "found_match =
     \<lparr>po_range = (2, 3), po_start = 2, po_end = 2, po_spans = [\<lparr>sp_line = 2, sp_start = 0, sp_len = 1\<rparr>]\<rparr>"

definition stored_match :: "nat \<Rightarrow> occurrence list option" where
  "stored_match =
     [2 \<mapsto> [\<lparr>oc_text = None, oc_start = 2, oc_end = 2, oc_spans = [\<lparr>sp_line = 2, sp_start = 0, sp_len = 1\<rparr>]\<rparr>]]"

definition sel_sink :: "content_sink \<Rightarrow> content_sink" where
  "sel_sink s =
     s\<lparr>sk_last_line := Some 2, sk_seen := 1, sk_line_selected := True, sk_selected := 1,
       sk_entries := [MatchingLine 2], sk_lines := [1 \<mapsto> (0, 1)], sk_stored_bytes := 1, sk_recent := [],
       sk_recent_bytes := 0, sk_after_until := 3\<rparr>"

definition selected_match :: content_sink where
  "selected_match = sel_sink ((new_content_sink 0)\<lparr>sk_control := one_control\<rparr>)"

lemma run_first: "content_context (context_spec 1 1 l) None ContextBefore [0x61, 0x0A] 0 (Some 1) (new_content_sink 0) =
  Inr (True, seen_first)"
  by (simp add: content_context_def checkpoint_def new_content_sink_def
      capture_context_line_def context_spec_def absolute_range_def sat
      strip_line_terminator_def push_recent_def reserve_ok_def range_len_def seen_first_def)

lemma run_layout: "layout_lines [0x62, 0x0A] = [\<lparr>ll_start = 0, ll_content_end = 1, ll_full_end = 2\<rparr>]"
  by (simp add: layout_lines_def)

lemma run_spans: "line_spans (0, 1) [0] (new_layout [0x62, 0x0A] 2) = 
   ([\<lparr>sp_line = 2, sp_start = 0, sp_len = 1\<rparr>], moved_layout)"
  by (simp add: moved_layout_def line_span_of_def char_offset_def new_layout_def run_layout char_count_def starts_char_def sat Let_def)

lemma run_locate: "locate (new_layout [0x62, 0x0A] 2) m (0, 0) = (0, 0)"
  by (simp add: locate_def advance_single new_layout_def run_layout Let_def)

lemma run_range: "absolute_range 2 0 1 = Inr (2, 3)" by (simp add: absolute_range_def sat)

lemma run_adds: "sat_add 2 0 = 2" "sat_add 0 1 = 1" by (simp_all add: sat)

lemma run_note: "note_selected [0x62, 0x0A] 2 2 (0, 1) None \<lparr>ms_sink = s, ms_layout = None, ms_cursor = (0,0), ms_intervals = [], ms_pending = []\<rparr> = 
  Inr \<lparr>ms_sink = s, ms_layout = Some moved_layout, ms_cursor = (0,0), ms_intervals = [(2,2)], ms_pending = [found_match]\<rparr>"
  by (simp add: found_match_def note_selected_def scan_layout_def run_locate run_range [simplified] run_adds intervals_insert_def  Let_def run_spans [simplified])

lemma run_select: "select_line (context_spec 1 1 None) 2 (seen_first\<lparr>sk_control := c\<rparr>) =
   Inr (True, sel_sink ((new_content_sink 0)\<lparr>sk_control := c\<rparr>))"
  by (simp add: select_line_def increment_entries_seen_def checked_add_def usize_max_def new_content_sink_def in_window_def context_spec_def select_entry_def commit_recent_def
   seen_first_def sel_sink_def sat_add_def range_len_def)

lemma run_checkpoint: "occurrence_checkpoint None 1 (new_control 0) = Inr one_control"
  by (simp add: one_control_def occurrence_checkpoint_def sat_add_def new_control_def usize_max_def occurrence_check_interval_def occurrence_byte_check_interval_def)

lemma run_found: "content_found LineMode (context_spec 1 1 None) None [0x62, 0x0A] 2 2 (0, 1)
   \<lparr>ms_sink = seen_first\<lparr>sk_control := new_control 0\<rparr>, ms_layout = None, ms_cursor = (0,0), ms_intervals = [], ms_pending = []\<rparr> =
  Inr (True, \<lparr>ms_sink = selected_match\<lparr>sk_occurrence_total := 1\<rparr>, ms_layout = Some moved_layout, ms_cursor = (0,0), ms_intervals = [(2,2)], ms_pending = [found_match]\<rparr>)"
  by (simp add: content_found_def is_synthetic_trailing_empty_def run_checkpoint [simplified]
    run_select [simplified] run_note [simplified] checked_add_def Let_def usize_max_def) (simp add: selected_match_def sel_sink_def new_content_sink_def usize_max_def)

definition after_match :: content_sink where
  "after_match = selected_match
     \<lparr>sk_occurrence_total := 1, sk_stored_bytes := 4, sk_occurrences := stored_match,
      sk_lines := [1 \<mapsto> (0, 1), 2 \<mapsto> (2, 3)], sk_recent := [(2, (2, 3))], sk_recent_bytes := 1\<rparr>"

lemma run_store: "store_occurrences (1, 1) LineMode (context_spec 1 1 None) [found_match]
   (selected_match\<lparr>sk_occurrence_total := 1\<rparr>) =
   selected_match\<lparr>sk_occurrence_total := 1, sk_stored_bytes := 3, 
     sk_occurrences := stored_match\<rparr>"
  by (simp add: found_match_def stored_match_def selected_match_def store_occurrence_def context_spec_def sat_add_def sat_mul_def usize_max_def reserve_ok_def sel_sink_def new_content_sink_def Let_def)

lemma run_capture: "capture_callback_lines (context_spec 1 1 None) 2 2 [(2,2)] 0 [\<lparr>ll_start = 0, ll_content_end = 1, ll_full_end = 2\<rparr>] 0
   (selected_match\<lparr>sk_occurrence_total := 1, sk_stored_bytes := 3, 
     sk_occurrences := stored_match\<rparr>) = Inr after_match"
  by (simp add: contain_single [simplified] run_adds run_range [simplified] after_match_def context_spec_def selected_match_def sel_sink_def new_content_sink_def store_line_def push_recent_def reserve_ok_def range_len_def sat_add_def usize_max_def)

lemma run_match: "content_matched letter_finder (1, 1) LineMode (context_spec 1 1 None) None [0x62, 0x0A] 2 (Some 2) seen_first = Inr (True, after_match)"
proof -
  have i: "is_synthetic_trailing_empty [0x62, 0x0A] (0, 1) = False" by (simp add: is_synthetic_trailing_empty_def)
  have c: "seen_first\<lparr>sk_control := new_control 0\<rparr> = seen_first" by (simp add: seen_first_def new_content_sink_def)
  have k: "sk_control seen_first = new_control 0" by (simp add: seen_first_def new_content_sink_def)
  have o: "\<not> sk_overflow after_match" "limit_reached (context_spec 1 1 None) after_match = False" by (simp_all add: after_match_def selected_match_def sel_sink_def new_content_sink_def limit_reached_def context_spec_def)
  have q: "sk_overflow selected_match = False" by (simp add: selected_match_def sel_sink_def new_content_sink_def)
  note st' = run_store [unfolded One_nat_def] and cap' = run_capture [unfolded One_nat_def]
  show ?thesis
    using o q by (simp add: content_matched_def sink_match_checkpoint_def checkpoint_def k [simplified] c [simplified] letter_finder_def run_found [unfolded c, simplified]
      st' scan_layout_def moved_layout_def new_layout_def run_layout cap' Let_def del: store_occurrences.simps capture_callback_lines.simps)
qed

lemma run_last: "content_context (context_spec 1 1 None) None ContextAfter [0x63, 0x0A] 4 (Some 3) after_match =
   Inr (True, after_match\<lparr>sk_lines := [1 \<mapsto> (0, 1), 2 \<mapsto> (2, 3), 3 \<mapsto> (4, 5)], sk_stored_bytes := 5, sk_recent := [(3, (4, 5))], sk_recent_bytes := 1\<rparr>)"
  by (simp add: content_context_def checkpoint_def capture_context_line_def context_spec_def absolute_range_def sat strip_line_terminator_def push_recent_def store_line_def
     reserve_ok_def range_len_def after_match_def selected_match_def sel_sink_def new_content_sink_def)

lemma three_lines_run: "\<exists>s. run_search letter_finder (1, 1) None three_lines (ContentSink LineMode (context_spec 1 1 None) (new_content_sink 0)) = 
   Inr (ContentSink LineMode (context_spec 1 1 None) s)"
  by (simp add: three_lines_def plan_callback_def run_first [simplified] run_match [simplified] run_last [simplified])

lemma three_lines_stream: "line_stream letter_finder 1 three_lines" 
  by (simp add: line_stream_def three_lines_def line_callback_def usize_max_def run_layout has_real_match_def letter_finder_def is_synthetic_trailing_empty_def
   runs_def add_event_def event_of_def all_lines_def line_numbers_def consecutive_def upt_rec)


end
