(* ===== verification/Grep_Search.thy ===== *)
theory Grep_Search
  imports Grep_Sink Path_Codec
begin

text \<open>
  The search of one file (\<open>src/src/grep_tool.rs\<close>, \<open>search_candidate\<close>) over its sealed snapshot, and the
  immutable search input its matches point into (\<open>src/src/search_text.rs\<close>). The regex engine and the
  searcher are parameters: the searcher turns an input into callbacks and possibly a final error.
\<close>

section \<open>The search input\<close>

definition memory_text_limit :: nat where
  "memory_text_limit = 8 * 1024 * 1024"

definition text_chunk_bytes :: nat where
  "text_chunk_bytes = 64 * 1024"

datatype text_storage = SnapshotText byte_range | MemoryText "byte list" | TempText "byte list"

record search_text =
  tx_len :: nat
  tx_storage :: text_storage

datatype text_failure = TextIo io_error | TextStopped work_stop

definition from_snapshot :: "byte_range \<Rightarrow> search_text" where
  "from_snapshot r = \<lparr>tx_len = br_len r, tx_storage = SnapshotText r\<rparr>"

definition text_checkpoint :: "work_probe option \<Rightarrow> nat \<Rightarrow> text_failure + nat" where
  "text_checkpoint op k =
     (case op of
        None \<Rightarrow> Inr k
      | Some p \<Rightarrow> (case p k of Some stop \<Rightarrow> Inl (TextStopped stop) | None \<Rightarrow> Inr (Suc k)))"

definition decoding_changed :: io_error where
  "decoding_changed = invalid_data ''file changed after encoding validation''"

definition left_to_read :: "utf8_reader \<Rightarrow> nat" where
  "left_to_read r = length (ur_pending r) - ur_offset r"

lemma reader_read_size:
  assumes "reader_read D n r = Inr (bs, r')" "bs \<noteq> []"
  shows "reader_size (ur_decoder r') < reader_size (ur_decoder r) \<or>
    ur_decoder r' = ur_decoder r \<and> left_to_read r' < left_to_read r"
proof (cases "ur_offset r < length (ur_pending r)")
  case True
  with assms show ?thesis
    by (auto simp: reader_read_def take_pending_def left_to_read_def Let_def split: if_splits)
next
  case False
  with assms obtain chunk d where "next_chunk D (ur_decoder r) = Inr (Some chunk, d)" "ur_decoder r' = d"
    by (auto simp: reader_read_def take_pending_def Let_def split: if_splits sum.splits option.splits)
  with next_chunk_size show ?thesis by blast
qed

text \<open>\<open>SearchText::capture\<close>: \<open>temp\<close> holds the bytes of the temporary file once there is one.\<close>

definition store_text ::
    "temp_host \<Rightarrow> byte list \<Rightarrow> byte list \<times> byte list option \<Rightarrow> text_failure + byte list \<times> byte list option" where
  "store_text H bs v =
     bind_r
       (if snd v = None \<and> memory_text_limit < sat_add (length (fst v)) (length bs) then
          (case th_create H of
             Some e \<Rightarrow> Inl (TextIo e)
           | None \<Rightarrow> (case th_write H 0 of Some e \<Rightarrow> Inl (TextIo e) | None \<Rightarrow> Inr ([], Some (fst v))))
        else Inr v) (\<lambda>(memory, temp).
     case temp of
       Some all' \<Rightarrow>
         (case th_write H (length all') of
            Some e \<Rightarrow> Inl (TextIo e)
          | None \<Rightarrow> Inr (memory, Some (all' @ bs)))
     | None \<Rightarrow> Inr (memory @ bs, None))"

function capture_text ::
    "encoding_crates \<Rightarrow> temp_host \<Rightarrow> work_probe option \<Rightarrow> utf8_reader \<Rightarrow> byte list \<times> byte list option \<Rightarrow> nat \<Rightarrow> nat \<Rightarrow>
      text_failure + (byte list \<times> byte list option) \<times> nat \<times> nat" where
  "capture_text D H op r v total' k =
     bind_r (text_checkpoint op k) (\<lambda>k.
     case reader_read D text_chunk_bytes r of
       Inl _ \<Rightarrow> Inl (TextIo decoding_changed)
     | Inr (bs, r') \<Rightarrow>
         bind_r (text_checkpoint op k) (\<lambda>k.
         if bs = [] then Inr (v, total', k)
         else
           bind_r (ok_or (TextIo \<lparr>ie_kind = IoOther, ie_text = ''search text is too large''\<rparr>)
               (checked_add total' (length bs))) (\<lambda>total'.
           bind_r (store_text H bs v) (\<lambda>v.
           capture_text D H op r' v total' k))))"
  by pat_completeness auto
termination
  by (relation "inv_image (less_than <*lex*> less_than)
      (\<lambda>(D, H, op, r, v, total', k). (reader_size (ur_decoder r), left_to_read r))")
    (auto dest: reader_read_size)

declare capture_text.simps [simp del]

definition search_text_capture ::
    "encoding_crates \<Rightarrow> temp_host \<Rightarrow> work_probe option \<Rightarrow> utf8_reader \<Rightarrow> nat \<Rightarrow> text_failure + search_text \<times> nat" where
  "search_text_capture D H op r k =
     bind_r (capture_text D H op r ([], None) 0 k) (\<lambda>((memory, temp), total', k).
     bind_r (text_checkpoint op k) (\<lambda>k.
     case temp of
       None \<Rightarrow> Inr (\<lparr>tx_len = total', tx_storage = MemoryText memory\<rparr>, k)
     | Some all' \<Rightarrow>
         (case th_flush H of
            Some e \<Rightarrow> Inl (TextIo e)
          | None \<Rightarrow> map_r (\<lambda>k. (\<lparr>tx_len = total', tx_storage = TempText all'\<rparr>, k)) (text_checkpoint op k))))"

definition text_memory_bytes :: "search_text \<Rightarrow> byte list option" where
  "text_memory_bytes t =
     (case tx_storage t of
        SnapshotText r \<Rightarrow> range_memory_bytes r
      | MemoryText bs \<Rightarrow> Some bs
      | TempText _ \<Rightarrow> None)"

definition open_text_reader :: "search_text \<Rightarrow> io_error + byte list" where
  "open_text_reader t =
     (case tx_storage t of
        SnapshotText r \<Rightarrow> open_range_reader r
      | MemoryText bs \<Rightarrow> Inr bs
      | TempText bs \<Rightarrow> Inr bs)"

text \<open>How the standard library shows a \<open>Utf8Error\<close>.\<close>

definition display_utf8_error :: "nat \<Rightarrow> nat option \<Rightarrow> utf8" where
  "display_utf8_error valid_up_to error_len =
     (case error_len of
        Some n \<Rightarrow> ''invalid utf-8 sequence of '' @ show_nat n @ '' bytes from index '' @ show_nat valid_up_to
      | None \<Rightarrow> ''incomplete utf-8 byte sequence from index '' @ show_nat valid_up_to)"

definition invalid_utf8_range :: "nat \<Rightarrow> nat option \<Rightarrow> io_error" where
  "invalid_utf8_range valid_up_to error_len =
     invalid_data (''ripgrep reported a range that is not valid UTF-8: '' @ display_utf8_error valid_up_to error_len)"

definition checked_text :: "byte list \<Rightarrow> io_error + utf8" where
  "checked_text bs =
     (case from_utf8 bs of Valid \<Rightarrow> Inr (utf8_text bs) | Invalid v e \<Rightarrow> Inl (invalid_utf8_range v e))"

definition borrowed_utf8_range :: "byte list \<Rightarrow> nat \<Rightarrow> nat \<Rightarrow> io_error + utf8" where
  "borrowed_utf8_range bs first final =
     bind_r (ok_or (invalid_data ''captured text range lies outside its immutable search input'')
       (get_range bs first final)) checked_text"

definition temp_read_range :: "byte list \<Rightarrow> nat \<Rightarrow> nat \<Rightarrow> io_error + byte list" where
  "temp_read_range bs first final =
     (if final < first then Inl (invalid_data ''captured text range is reversed'')
      else ok_or \<lparr>ie_kind = IoOther, ie_text = ''failed to fill whole buffer''\<rparr> (get_range bs first final))"

definition validate_range :: "search_text \<Rightarrow> nat \<Rightarrow> nat \<Rightarrow> io_error + unit" where
  "validate_range t first final =
     (if first \<le> final \<and> final \<le> tx_len t then Inr ()
      else Inl (invalid_data ''ripgrep reported a byte range outside its immutable search input''))"

definition range_str :: "search_text \<Rightarrow> nat \<Rightarrow> nat \<Rightarrow> io_error + utf8" where
  "range_str t first final =
     bind_r (validate_range t first final) (\<lambda>_.
     case tx_storage t of
       SnapshotText r \<Rightarrow>
         (case range_memory_bytes r of
            Some bs \<Rightarrow> borrowed_utf8_range bs first final
          | None \<Rightarrow> bind_r (read_range r first final) checked_text)
     | MemoryText bs \<Rightarrow> borrowed_utf8_range bs first final
     | TempText bs \<Rightarrow> bind_r (temp_read_range bs first final) checked_text)"

section \<open>Skips and failures\<close>

type_synonym candidate = "file_identity path_record"

definition candidate_display :: "candidate \<Rightarrow> utf8" where
  "candidate_display c = utf8_text (display c)"

datatype candidate_skip =
    SkipEncoding encoding_rejection
  | ChangedWhileSearched
  | SkipSearchFailure utf8 utf8

definition skip_why :: "candidate_skip \<Rightarrow> utf8" where
  "skip_why s =
     (case s of
        SkipEncoding rejection \<Rightarrow> skip_reason rejection
      | ChangedWhileSearched \<Rightarrow> ''changed while being searched''
      | SkipSearchFailure reason _ \<Rightarrow> reason)"

definition single_file_message :: "candidate \<Rightarrow> candidate_skip \<Rightarrow> utf8" where
  "single_file_message c s =
     (case s of
        SkipEncoding rejection \<Rightarrow> rejection_message (candidate_display c) rejection
      | ChangedWhileSearched \<Rightarrow>
          ''File changed while it was being searched: '' @ candidate_display c @ ''. Retry the grep request.''
      | SkipSearchFailure _ message \<Rightarrow> message)"

datatype search_failure =
    FailOverflow
  | FailCancelled
  | FailRetired
  | FailCandidate candidate_skip
  | FailFatal utf8

definition capture_limit_error :: "candidate \<Rightarrow> utf8" where
  "capture_limit_error c =
     ''Cannot search file '' @ candidate_display c @
     '': matching content and context exceed the 64 MiB safety limit. Narrow the pattern or reduce context.''"

text \<open>Speculative work that was retired never reaches the reducer, so its message is not defined.\<close>

definition failure_message :: "candidate \<Rightarrow> search_failure \<Rightarrow> utf8" where
  "failure_message c f =
     (case f of
        FailOverflow \<Rightarrow> capture_limit_error c
      | FailCancelled \<Rightarrow> ''Request cancelled.''
      | FailCandidate skip \<Rightarrow> single_file_message c skip
      | FailFatal message \<Rightarrow> message)"

fun split_once :: "utf8 \<Rightarrow> utf8 \<Rightarrow> (utf8 \<times> utf8) option" where
  "split_once sep [] = (if sep = [] then Some ([], []) else None)"
| "split_once sep (c # cs) =
     (if take (length sep) (c # cs) = sep then Some ([], drop (length sep) (c # cs))
      else map_option (\<lambda>(a, b). (c # a, b)) (split_once sep cs))"

definition trim_dots :: "utf8 \<Rightarrow> utf8" where
  "trim_dots t = rev (dropWhile ((=) CHR ''.'') (rev t))"

definition candidate_failure :: "candidate \<Rightarrow> utf8 \<Rightarrow> search_failure" where
  "candidate_failure c message =
     (let remainder =
        (case strip_prefix (''Cannot search file '' @ candidate_display c @ '': '') message of
           Some r \<Rightarrow> r
         | None \<Rightarrow>
             (case strip_prefix (''Cannot create a stable search snapshot for '' @ candidate_display c @ '': '') message of
                Some r \<Rightarrow> r
              | None \<Rightarrow> message));
          reason = trim_dots (case split_once ''. '' remainder of None \<Rightarrow> remainder | Some (first, _) \<Rightarrow> first) in
      FailCandidate (SkipSearchFailure reason message))"

definition capture_overflow_skip :: "candidate \<Rightarrow> candidate_skip" where
  "capture_overflow_skip c =
     SkipSearchFailure ''matching content and context exceed the 64 MiB safety limit'' (capture_limit_error c)"

definition stable_snapshot_error :: "utf8 \<Rightarrow> io_error \<Rightarrow> utf8" where
  "stable_snapshot_error path e =
     ''Cannot create a stable search snapshot for '' @ path @ '': '' @ ie_text e @
     ''. Free temporary-disk space or retry after the file stops changing.''"

definition snapshot_error_message :: "candidate \<Rightarrow> io_error \<Rightarrow> utf8" where
  "snapshot_error_message c e = stable_snapshot_error (candidate_display c) e"

definition search_error_message :: "candidate \<Rightarrow> io_error \<Rightarrow> utf8" where
  "search_error_message c e =
     (let lower = map Token_Budget.ascii_lower (ie_text e) in
      if contains lower ''heap limit'' \<or> contains lower ''allocation limit''
      then ''Cannot search file '' @ candidate_display c @
        '': a line or multiline buffer exceeds the 64 MiB safety limit. Narrow the path or search without multiline.''
      else ''Cannot search file '' @ candidate_display c @ '': '' @ ie_text e)"

definition open_failure_of :: "io_error \<Rightarrow> open_failure" where
  "open_failure_of e = (if ie_kind e = IoPermissionDenied then PermissionDenied else OtherFailure (ie_text e))"

definition check_search_operation :: "work_probe option \<Rightarrow> nat \<Rightarrow> search_failure + nat" where
  "check_search_operation op k =
     (case op of
        None \<Rightarrow> Inr k
      | Some p \<Rightarrow>
          (case p k of
             Some RequestCancelled \<Rightarrow> Inl FailCancelled
           | Some EpochRetired \<Rightarrow> Inl FailRetired
           | None \<Rightarrow> Inr (Suc k)))"

section \<open>The search of a candidate\<close>

record search_outcome =
  so_result :: "file_result option"
  so_seen :: nat
  so_skip :: "candidate_skip option"
  so_note :: "utf8 option"
  so_fallback :: bool

definition no_outcome :: "candidate_skip option \<Rightarrow> search_outcome" where
  "no_outcome skip = \<lparr>so_result = None, so_seen = 0, so_skip = skip, so_note = None, so_fallback = False\<rparr>"

record search_encoding =
  sc_explicit :: "utf8 option"
  sc_fallback :: "utf8 option"

text \<open>
  The searcher of a request: what it reports of an input (the bytes it could read, and the error that
  ended them), given multiline mode and the context distances.
\<close>

record search_engine =
  se_find :: finder
  se_report :: "bool \<Rightarrow> nat \<Rightarrow> nat \<Rightarrow> byte list \<times> io_error option \<Rightarrow> callback list \<times> io_error option"
  se_sizes :: "nat \<times> nat"

fun run_report ::
    "finder \<Rightarrow> nat \<times> nat \<Rightarrow> work_probe option \<Rightarrow> callback list \<Rightarrow> io_error option \<Rightarrow> plan_sink \<Rightarrow> sink_error + plan_sink" where
  "run_report F Z op [] failure s = (case failure of None \<Rightarrow> Inr s | Some e \<Rightarrow> Inl (SinkIo e))"
| "run_report F Z op (e # es) failure s =
     bind_r (plan_callback F Z op e s) (\<lambda>(go, s). if go then run_report F Z op es failure s else Inr s)"

text \<open>Everything a decoding reader delivers, and the error that ends it.\<close>

function drain_reader :: "encoding_crates \<Rightarrow> utf8_reader \<Rightarrow> byte list \<times> io_error option" where
  "drain_reader D r =
     (case reader_read D text_chunk_bytes r of
        Inl _ \<Rightarrow> ([], Some decoding_changed)
      | Inr (bs, r') \<Rightarrow>
          if bs = [] then ([], None)
          else case drain_reader D r' of (rest, e) \<Rightarrow> (bs @ rest, e))"
  by pat_completeness auto
termination
  by (relation "inv_image (less_than <*lex*> less_than)
      (\<lambda>(D, r). (reader_size (ur_decoder r), left_to_read r))")
    (auto dest: reader_read_size)

declare drain_reader.simps [simp del]

definition open_source_reader :: "validated_encoding \<Rightarrow> captured_snapshot \<Rightarrow> utf8_reader" where
  "open_source_reader v snapshot =
     \<lparr>ur_decoder = open_chunk_reader
        (chunks_of text_chunk_bytes (open_snapshot_reader snapshot (de_bom_len (ve_detected v)))) (ve_detected v),
      ur_pending = [], ur_offset = 0\<rparr>"

text \<open>
  The validation reads the snapshot in chunks; its own polls are taken together with the checks before and
  after it.
\<close>

definition validate_snapshot :: "encoding_crates \<Rightarrow> captured_snapshot \<Rightarrow> utf8 option \<Rightarrow> encoding_decision" where
  "validate_snapshot D snapshot explicit =
     validate_source D (chunks_of text_chunk_bytes (backing_bytes (cp_storage snapshot))) explicit"

definition resolve_encoding ::
    "encoding_crates \<Rightarrow> captured_snapshot \<Rightarrow> search_encoding \<Rightarrow> search_outcome + validated_encoding \<times> bool" where
  "resolve_encoding D snapshot enc =
     (case validate_snapshot D snapshot (sc_explicit enc) of
        TextFile v \<Rightarrow> Inr (v, False)
      | Binary \<Rightarrow> Inl (no_outcome None)
      | Rejected rejection \<Rightarrow>
          (case sc_fallback enc of
             Some fallback \<Rightarrow>
               if sc_explicit enc = None \<and> \<not> (case rejection of BomMismatch _ \<Rightarrow> True | _ \<Rightarrow> False) then
                 (case validate_snapshot D snapshot (Some fallback) of
                    TextFile v \<Rightarrow> Inr (v, True)
                  | _ \<Rightarrow> Inl (no_outcome (Some (SkipEncoding rejection))))
               else Inl (no_outcome (Some (SkipEncoding rejection)))
           | None \<Rightarrow> Inl (no_outcome (Some (SkipEncoding rejection)))))"

definition text_failure_of :: "candidate \<Rightarrow> text_failure \<Rightarrow> search_failure" where
  "text_failure_of c f =
     (case f of
        TextIo e \<Rightarrow> candidate_failure c (snapshot_error_message c e)
      | TextStopped RequestCancelled \<Rightarrow> FailCancelled
      | TextStopped EpochRetired \<Rightarrow> FailRetired)"

text \<open>The input of a content search, whose ranges the result keeps.\<close>

definition content_backing ::
    "encoding_crates \<Rightarrow> temp_host \<Rightarrow> work_probe option \<Rightarrow> candidate \<Rightarrow> captured_snapshot \<Rightarrow> validated_encoding \<Rightarrow> nat \<Rightarrow>
      search_failure + search_text \<times> nat" where
  "content_backing D H op c snapshot v k =
     (case utf8_snapshot_start v of
        Some start \<Rightarrow>
          map_r (\<lambda>r. (from_snapshot r, k))
            (map_err (\<lambda>e. candidate_failure c (snapshot_error_message c e)) (shared_range snapshot start))
      | None \<Rightarrow>
          map_err (text_failure_of c) (search_text_capture D H op (open_source_reader v snapshot) k))"

text \<open>What the searcher reads, from the content backing or from the snapshot itself.\<close>

definition search_input ::
    "encoding_crates \<Rightarrow> candidate \<Rightarrow> captured_snapshot \<Rightarrow> validated_encoding \<Rightarrow> search_text option \<Rightarrow>
      search_failure + byte list \<times> io_error option" where
  "search_input D c snapshot v text =
     (case text of
        Some t \<Rightarrow>
          (case text_memory_bytes t of
             Some bs \<Rightarrow> Inr (bs, None)
           | None \<Rightarrow>
               map_r (\<lambda>bs. (bs, None))
                 (map_err (\<lambda>e. candidate_failure c (snapshot_error_message c e)) (open_text_reader t)))
      | None \<Rightarrow>
          (case snapshot_memory_bytes snapshot of
             Some bs \<Rightarrow>
               (case decode_for_search D v bs of
                  Some decoded \<Rightarrow> Inr (decoded, None)
                | None \<Rightarrow> Inl (candidate_failure c (rejection_message (candidate_display c) (malformed_rejection v))))
           | None \<Rightarrow> Inr (drain_reader D (open_source_reader v snapshot))))"

definition sink_failure :: "candidate \<Rightarrow> validated_encoding \<Rightarrow> sink_error \<Rightarrow> search_failure" where
  "sink_failure c v e =
     (case e of
        SinkStopped RequestCancelled \<Rightarrow> FailCancelled
      | SinkStopped EpochRetired \<Rightarrow> FailRetired
      | CaptureOverflow \<Rightarrow> FailOverflow
      | CountOverflow \<Rightarrow>
          candidate_failure c (''Cannot search file '' @ candidate_display c @ '': the occurrence count overflowed.'')
      | SinkSearch message \<Rightarrow> candidate_failure c (''Cannot search file '' @ candidate_display c @ '': '' @ message)
      | SinkIo e \<Rightarrow>
          if ie_kind e = IoInvalidData
          then candidate_failure c (rejection_message (candidate_display c) (malformed_rejection v))
          else
            let lower = map Token_Budget.ascii_lower (ie_text e) in
            candidate_failure c
              (if contains lower ''heap limit'' \<or> contains lower ''allocation limit''
               then search_error_message c e else snapshot_error_message c e))"

definition sink_polls :: "plan_sink \<Rightarrow> nat" where
  "sink_polls s =
     (case s of
        ExistsSink v \<Rightarrow> ct_polls (snd v)
      | CountSink v \<Rightarrow> ct_polls (snd v)
      | ContentSink _ _ v \<Rightarrow> ct_polls (sk_control v))"

text \<open>The bytes a content result points into; the other plans keep none.\<close>

definition backing_text :: "search_text option \<Rightarrow> byte list" where
  "backing_text t =
     (case t of
        None \<Rightarrow> []
      | Some t \<Rightarrow> (case open_text_reader t of Inl _ \<Rightarrow> [] | Inr bs \<Rightarrow> bs))"

definition search_snapshot ::
    "encoding_crates \<Rightarrow> temp_host \<Rightarrow> search_engine \<Rightarrow> work_probe option \<Rightarrow> candidate \<Rightarrow> search_plan \<Rightarrow> bool \<Rightarrow>
      search_encoding \<Rightarrow> captured_snapshot \<Rightarrow> nat \<Rightarrow> search_failure + search_outcome" where
  "search_snapshot D H E op c plan multiline enc snapshot k =
     bind_r (check_search_operation op k) (\<lambda>k.
     bind_r (check_search_operation op k) (\<lambda>k.
     case resolve_encoding D snapshot enc of
       Inl outcome \<Rightarrow> Inr outcome
     | Inr (v, used_fallback) \<Rightarrow>
         bind_r (check_search_operation op k) (\<lambda>k.
         let note = (if used_fallback then None else encoding_note v) in
         bind_r (if content_multiline plan \<noteq> None
                 then map_r (\<lambda>(t, k). (Some t, k)) (content_backing D H op c snapshot v k)
                 else Inr (None, k)) (\<lambda>(text, k).
         bind_r (check_search_operation op k) (\<lambda>k.
         bind_r (check_search_operation op k) (\<lambda>k.
         bind_r (search_input D c snapshot v text) (\<lambda>input.
         case se_report E multiline (plan_before plan) (plan_after plan) input of
           (callbacks, failure) \<Rightarrow>
             let found = run_report (se_find E) (se_sizes E) op callbacks failure (new_plan_sink plan k) in
             bind_r (check_search_operation op (case found of Inl _ \<Rightarrow> k | Inr s \<Rightarrow> sink_polls s)) (\<lambda>_.
             bind_r (map_err (sink_failure c v) found) (\<lambda>s.
             case into_output (candidate_display c) (backing_text text) (ve_total_lines v) (ve_trailing_newline v) s of
               (result, seen) \<Rightarrow>
                 Inr \<lparr>so_result = result, so_seen = seen, so_skip = None, so_note = note, so_fallback = used_fallback\<rparr>)))))))))"

definition search_candidate ::
    "encoding_crates \<Rightarrow> (candidate \<Rightarrow> candidate_file) \<Rightarrow> search_engine \<Rightarrow> work_probe option \<Rightarrow> candidate \<Rightarrow> search_plan \<Rightarrow>
      bool \<Rightarrow> search_encoding \<Rightarrow> nat \<Rightarrow> search_failure + search_outcome" where
  "search_candidate D files E op c plan multiline enc k =
     (case capture_classify D op (files c) c (sc_explicit enc) (sc_fallback enc) k of
        Inr (Searchable snapshot, k) \<Rightarrow>
          search_snapshot D (cf_temp (files c)) E op c plan multiline enc snapshot k
      | Inr (BinarySkipped _, k) \<Rightarrow> Inr (no_outcome None)
      | Inr (EncodingRejected rejection _, k) \<Rightarrow> Inr (no_outcome (Some (SkipEncoding rejection)))
      | Inr (FileChanged, k) \<Rightarrow> Inr (no_outcome (Some ChangedWhileSearched))
      | Inl CaptureCancelled \<Rightarrow> Inl FailCancelled
      | Inl CaptureRetired \<Rightarrow> Inl FailRetired
      | Inl (CaptureInvalidEncoding rejection) \<Rightarrow>
          Inl (candidate_failure c (rejection_message (candidate_display c) rejection))
      | Inl (CaptureIo e) \<Rightarrow> Inl (candidate_failure c (encoded_io_error (utf8_text (native c)) (open_failure_of e)))
      | Inl (CaptureSnapshot e) \<Rightarrow> Inl (candidate_failure c (snapshot_error_message c e)))"

text \<open>Stops become stops of the speculative work.\<close>

definition search_candidate_for_work ::
    "encoding_crates \<Rightarrow> (candidate \<Rightarrow> candidate_file) \<Rightarrow> search_engine \<Rightarrow> work_probe option \<Rightarrow> candidate \<Rightarrow> search_plan \<Rightarrow>
      bool \<Rightarrow> search_encoding \<Rightarrow> nat \<Rightarrow> work_stop + (search_failure + search_outcome)" where
  "search_candidate_for_work D files E op c plan multiline enc k =
     (case search_candidate D files E op c plan multiline enc k of
        Inl FailCancelled \<Rightarrow> Inl RequestCancelled
      | Inl FailRetired \<Rightarrow> Inl EpochRetired
      | outcome \<Rightarrow> Inr outcome)"

end
