(* ===== verification/Capture_Soundness.thy ===== *)
theory Capture_Soundness
  imports Snapshot
begin

text \<open>
  The capture of a search candidate against the decision over the complete file: a capture that ends
  early has decided as the whole file would be decided, whatever the unread bytes are, and a complete
  capture holds exactly the bytes of the file.
\<close>

section \<open>Prefixes that settle the encoding\<close>

lemma begins_take: "length q \<le> n \<Longrightarrow> begins (take n bs) q = begins bs q"
  by (simp add: begins_def min_def)

lemma bom_detected_take: "4 \<le> n \<Longrightarrow> bom_detected_encoding (take n bs) = bom_detected_encoding bs"
  by (simp add: bom_detected_encoding_def begins_take)

lemma bom_len_take: "4 \<le> n \<Longrightarrow> matching_bom_len kind (take n bs) = matching_bom_len kind bs"
  by (simp add: matching_bom_len_def begins_take)

lemma explicit_detected_take: "4 \<le> n \<Longrightarrow> explicit_detected_encoding D l (take n bs) = explicit_detected_encoding D l bs"
  by (simp add: explicit_detected_encoding_def bom_len_take Let_def split: option.splits)

lemma bom_len_bound: "matching_bom_len kind bs \<le> 4"
  by (simp add: matching_bom_len_def)

lemma explicit_len_bound: "explicit_detected_encoding D l bs = Inr d \<Longrightarrow> de_bom_len d \<le> 4"
  using bom_len_bound
  by (auto simp: explicit_detected_encoding_def Let_def split: option.splits if_splits)

lemma bom_detected_fields:
  "bom_detected_encoding bs = Some d \<Longrightarrow> de_bom_len d \<le> 4 \<and> (\<exists>name. de_origin d = Bom name \<and>
     (de_source d = Some name \<or> de_source d = None \<and> name = ''UTF-8''))"
  by (auto simp: bom_detected_encoding_def Let_def split: if_splits)

lemma no_bom_to_strip: "bom_detected_encoding bs = None \<Longrightarrow> matching_bom_len kind bs = 0"
  by (auto simp: bom_detected_encoding_def matching_bom_len_def Let_def split: if_splits)

lemma explicit_detected_bom: "explicit_detected_encoding D l bs = Inr d \<Longrightarrow> de_bom_len d = matching_bom_len (de_kind d) bs"
  by (auto simp: explicit_detected_encoding_def Let_def split: option.splits if_splits)

lemma conflict_malformed:
  assumes inv: "scanner_inv s p" and push: "scanner_push x s = (Some c, s')"
  shows "\<exists>v k. from_utf8 (p @ x) = Invalid v (Some k)"
proof -
  from push have na: "\<not> ps_abandoned s" by (auto simp: scanner_push_def)
  with inv obtain q where q: "p = q @ ps_carry s" "is_utf8 q" by (auto simp: scanner_inv_def)
  from push na obtain v k where "from_utf8 (ps_carry s @ x) = Invalid v (Some k)"
    by (auto simp: scanner_push_def Let_def split: utf8_result.splits if_splits)
  with from_utf8_after [OF q(2), of "ps_carry s @ x"] q(1) show ?thesis by simp
qed

lemma utf8_malformed:
  assumes "validator_inv D (EncodingRs utf_8) s p"
  shows "sv_malformed s \<longleftrightarrow> (\<exists>v k. from_utf8 p = Invalid v (Some k))"
  using assms
  by (cases "from_utf8 p") (auto simp: validator_inv_def decoder_push_def new_decoder_def utf8_chunk_def split: option.splits if_splits)

section \<open>The classifier after a prefix\<close>

definition validator_at :: "encoding_crates \<Rightarrow> detected_encoding \<Rightarrow> strict_validator \<Rightarrow> bool \<Rightarrow> byte list \<Rightarrow> bool" where
  "validator_at D d v m p \<longleftrightarrow>
     validator_inv D (de_kind d) v (drop (de_bom_len d) p) \<and> m = sv_malformed v \<and> de_bom_len d \<le> 4"

lemma validator_at_start:
  assumes "crates_ok D" "validator_feed D (drop (de_bom_len d) p) (new_validator d) = (m, v)" "de_bom_len d \<le> 4"
  shows "validator_at D d v m p"
  using validator_step [OF assms(1) validator_new [OF assms(1)] assms(2)] assms(3) by (simp add: validator_at_def)

lemma validator_at_step:
  assumes D: "crates_ok D" and v: "validator_at D d v m p" and f: "validator_feed D x v = (m', v')" and p: "4 \<le> length p"
  shows "validator_at D d v' (m \<or> m') (p @ x)"
proof -
  have d: "drop (de_bom_len d) (p @ x) = drop (de_bom_len d) p @ x" using v p by (simp add: validator_at_def)
  have "m \<longrightarrow> m'" using v f by (auto simp: validator_at_def validator_feed_def)
  with validator_step [OF D _ f, of "de_kind d" "drop (de_bom_len d) p"] v show ?thesis
    unfolding validator_at_def d by auto
qed

lemma validator_at_final:
  assumes D: "crates_ok D" and v: "validator_at D d v True p" and p: "4 \<le> length p"
  shows "strict_decode D (de_kind d) (drop (de_bom_len d) (p @ y)) = None"
proof -
  have d: "drop (de_bom_len d) (p @ y) = drop (de_bom_len d) p @ y" using v p by (simp add: validator_at_def)
  have f: "validator_feed D [] v = (True, v)" using v by (simp add: validator_at_def validator_feed_def)
  from validator_step [OF D _ f, of "de_kind d" "drop (de_bom_len d) p" y] v show ?thesis
    unfolding d by (simp add: validator_at_def)
qed

definition mode_inv :: "encoding_crates \<Rightarrow> utf8 option \<Rightarrow> utf8 option \<Rightarrow> byte list \<Rightarrow> classifier_mode \<Rightarrow> bool" where
  "mode_inv D explicit fallback p m \<longleftrightarrow>
     (case m of
        ExplicitMode encoding v bad \<Rightarrow>
          explicit = Some encoding \<and>
          (\<exists>d. explicit_detected_encoding D encoding p = Inr d \<and> validator_at D d v bad p)
      | BomMode v name utf8_mark bad \<Rightarrow>
          explicit = None \<and>
          (\<exists>d. bom_detected_encoding p = Some d \<and> de_origin d = Bom name \<and>
             utf8_mark = (de_kind d = EncodingRs utf_8) \<and> validator_at D d v bad p)
      | AutomaticMode v bad scanner conflict w w_bad \<Rightarrow>
          explicit = None \<and> bom_detected_encoding p = None \<and>
          validator_at D plain_utf8 v bad p \<and> watch_inv p scanner conflict \<and> (conflict \<noteq> None \<longrightarrow> bad) \<and>
          (case fallback of
             None \<Rightarrow> w = None
           | Some label \<Rightarrow>
               (\<exists>d u. w = Some u \<and> explicit_detected_encoding D label p = Inr d \<and> de_bom_len d = 0 \<and>
                  validator_at D d u w_bad p)))"

definition classifier_inv :: "encoding_crates \<Rightarrow> utf8 option \<Rightarrow> utf8 option \<Rightarrow> byte list \<Rightarrow> classifier \<Rightarrow> bool" where
  "classifier_inv D explicit fallback p c \<longleftrightarrow>
     cl_explicit c = explicit \<and> cl_fallback c = fallback \<and> cl_probe c = take preflight_bytes p \<and>
     (case cl_mode c of None \<Rightarrow> length p < 4 | Some m \<Rightarrow> 4 \<le> length p \<and> mode_inv D explicit fallback p m)"

lemma detected_stable:
  assumes "4 \<le> length p"
  shows "explicit_detected_encoding D l (p @ x) = explicit_detected_encoding D l p"
    "bom_detected_encoding (p @ x) = bom_detected_encoding p"
proof -
  have "take (length p) (p @ x) = p" by simp
  with explicit_detected_take [OF assms, of D l "p @ x"] bom_detected_take [OF assms, of "p @ x"]
  show "explicit_detected_encoding D l (p @ x) = explicit_detected_encoding D l p"
    "bom_detected_encoding (p @ x) = bom_detected_encoding p" by simp_all
qed

lemma plain_utf8_fields: "de_kind plain_utf8 = EncodingRs utf_8" "de_bom_len plain_utf8 = 0"
  by (simp_all add: plain_utf8_def)

lemma watch_malformed:
  assumes w: "watch_inv p scanner conflict" and c: "conflict \<noteq> None \<longrightarrow> m" and v: "validator_at D plain_utf8 u (m \<or> m') (p @ x)"
    and push: "(if conflict = None then scanner_push x scanner else (conflict, scanner)) = (conflict', scanner')"
  shows "conflict' \<noteq> None \<longrightarrow> m \<or> m'"
proof (cases conflict)
  case None
  show ?thesis
  proof
    assume "conflict' \<noteq> None"
    then obtain c where "scanner_push x scanner = (Some c, scanner')" using push None by auto
    from conflict_malformed [OF _ this, of p] w None have "\<exists>v k. from_utf8 (p @ x) = Invalid v (Some k)"
      by (simp add: watch_inv_def)
    with v utf8_malformed [of D u "p @ x"] show "m \<or> m'"
      by (simp add: validator_at_def plain_utf8_fields)
  qed
next
  case (Some a)
  with c push show ?thesis by auto
qed

lemma mode_step:
  assumes D: "crates_ok D" and inv: "mode_inv D explicit fallback p m" and p: "4 \<le> length p"
    and size: "length (p @ x) \<le> usize_max"
  shows "mode_inv D explicit fallback (p @ x) (feed_mode D x m)"
proof (cases m)
  case (ExplicitMode encoding v bad)
  obtain b' v' where f: "validator_feed D x v = (b', v')" by fastforce
  with inv validator_at_step [OF D _ f p] show ?thesis
    by (auto simp: ExplicitMode mode_inv_def detected_stable [OF p])
next
  case (BomMode v name mark bad)
  obtain b' v' where f: "validator_feed D x v = (b', v')" by fastforce
  with inv validator_at_step [OF D _ f p] show ?thesis
    by (auto simp: BomMode mode_inv_def detected_stable [OF p])
next
  case (AutomaticMode v bad scanner conflict w w_bad)
  obtain b' v' where f: "validator_feed D x v = (b', v')" by fastforce
  obtain conflict' scanner' where
    s: "(if conflict = None then scanner_push x scanner else (conflict, scanner)) = (conflict', scanner')"
    by fastforce
  from inv have i: "explicit = None" "bom_detected_encoding p = None" "validator_at D plain_utf8 v bad p"
    "watch_inv p scanner conflict" "conflict \<noteq> None \<longrightarrow> bad" by (simp_all add: AutomaticMode mode_inv_def)
  note v' = validator_at_step [OF D i(3) f p]
  note facts = v' watch_step [OF i(4) size s] watch_malformed [OF i(4,5) v' s]
  show ?thesis
  proof (cases fallback)
    case None
    with inv facts i f s show ?thesis
      by (simp add: AutomaticMode mode_inv_def detected_stable [OF p])
  next
    case (Some label)
    with inv obtain d u where d: "w = Some u" "explicit_detected_encoding D label p = Inr d" "de_bom_len d = 0"
        "validator_at D d u w_bad p" by (auto simp: AutomaticMode mode_inv_def)
    obtain b'' u' where g: "validator_feed D x u = (b'', u')" by fastforce
    from validator_at_step [OF D d(4) g p] facts i f s g d Some show ?thesis
      by (simp add: AutomaticMode mode_inv_def detected_stable [OF p])
  qed
qed

definition utf8_label_known :: "encoding_crates \<Rightarrow> bool" where
  "utf8_label_known D \<longleftrightarrow> for_label D ''utf-8'' = Some utf_8"

lemma utf8_validator:
  assumes "utf8_label_known D"
  shows "explicit_streaming_validator D ''utf-8'' p = Inr (new_validator plain_utf8, matching_bom_len (EncodingRs utf_8) p)"
proof -
  have "trim_label ''utf-8'' = ''utf-8''" "map Encoding_Detection.ascii_lower ''utf-8'' = ''utf-8''"
    by code_simp+
  with assms show ?thesis
    by (simp add: explicit_streaming_validator_def explicit_detected_encoding_def utf8_label_known_def plain_utf8_def
        new_validator_def Let_def)
qed

lemma initialize_inv:
  assumes D: "crates_ok D" "utf8_label_known D" and c: "cl_explicit c = explicit" "cl_fallback c = fallback" "cl_probe c = p"
    and init: "initialize D c = Inr c'" and p: "4 \<le> length p" "length p \<le> usize_max"
  shows "\<exists>m. c' = c\<lparr>cl_mode := Some m\<rparr> \<and> mode_inv D explicit fallback p m"
proof (cases explicit)
  case (Some encoding)
  with init c obtain d where d: "explicit_detected_encoding D encoding p = Inr d"
    and r: "(case validator_feed D (drop (de_bom_len d) p) (new_validator d) of
      (malformed, decoder) \<Rightarrow> Inr (c\<lparr>cl_mode := Some (ExplicitMode encoding decoder malformed)\<rparr>)) = (Inr c' :: encoding_rejection + classifier)"
    by (auto simp: initialize_def explicit_streaming_validator_def bind_simps)
  obtain b v where f: "validator_feed D (drop (de_bom_len d) p) (new_validator d) = (b, v)" by fastforce
  from validator_at_start [OF D(1) f explicit_len_bound [OF d]] d r f Some show ?thesis
    by (intro exI [of _ "ExplicitMode encoding v b"]) (auto simp: mode_inv_def)
next
  case None
  show ?thesis
  proof (cases "bom_detected_encoding p")
    case (Some d)
    from bom_detected_fields [OF Some] obtain name where name: "de_origin d = Bom name" "de_bom_len d \<le> 4" by blast
    obtain b v where f: "validator_feed D (drop (de_bom_len d) p) (new_validator d) = (b, v)" by fastforce
    have s: "bom_streaming_validator p = Some \<lparr>bv_validator = new_validator d, bv_bom_len = de_bom_len d,
        bv_encoding = name, bv_is_utf8 = (de_kind d = EncodingRs utf_8)\<rparr>"
      by (simp add: bom_streaming_validator_def Some name)
    from validator_at_start [OF D(1) f name(2)] init c None s f name Some show ?thesis
      by (intro exI [of _ "BomMode v name (de_kind d = EncodingRs utf_8) b"]) (auto simp: mode_inv_def initialize_def)
  next
    case no: None
    have s: "bom_streaming_validator p = None" by (simp add: bom_streaming_validator_def no)
    obtain b v where f: "validator_feed D p (new_validator plain_utf8) = (b, v)" by fastforce
    have v: "validator_at D plain_utf8 v b p"
      using validator_at_start [OF D(1), of plain_utf8 p b v] f by (simp add: plain_utf8_fields)
    obtain conflict scanner where k: "scanner_push p new_scanner = (conflict, scanner)" by fastforce
    have w0: "watch_inv [] new_scanner None" by (simp add: watch_inv_def scanner_new)
    have w: "watch_inv p scanner conflict" using watch_step [OF w0, of p conflict scanner] k p(2) by simp
    have m: "conflict \<noteq> None \<longrightarrow> b"
      using watch_malformed [OF w0, of False D v b p conflict scanner] v k by simp
    show ?thesis
    proof (cases fallback)
      case None
      with init c \<open>explicit = None\<close> s utf8_validator [OF D(2), of p] f k
      have "c' = c\<lparr>cl_mode := Some (AutomaticMode v b scanner conflict None False)\<rparr>" by (simp add: initialize_def)
      with None v w m no \<open>explicit = None\<close> show ?thesis
        by (intro exI [of _ "AutomaticMode v b scanner conflict None False"]) (simp add: mode_inv_def)
    next
      case (Some label)
      with init c None s utf8_validator [OF D(2), of p] f k
      obtain d where d: "explicit_detected_encoding D label p = Inr d"
        by (auto simp: initialize_def explicit_streaming_validator_def bind_simps)
      have z: "de_bom_len d = 0" using explicit_detected_bom [OF d] no_bom_to_strip [OF no] by simp
      obtain b' u where g: "validator_feed D p (new_validator d) = (b', u)" by fastforce
      have u: "validator_at D d u b' p" using validator_at_start [OF D(1), of d p b' u] g z by simp
      from Some init c None s utf8_validator [OF D(2), of p] f k d g
      have "c' = c\<lparr>cl_mode := Some (AutomaticMode v b scanner conflict (Some u) b')\<rparr>"
        by (simp add: initialize_def explicit_streaming_validator_def [of D label])
      with Some v w m no None d z u show ?thesis
        by (intro exI [of _ "AutomaticMode v b scanner conflict (Some u) b'"]) (simp add: mode_inv_def)
    qed
  qed
qed

lemma feed_inv:
  assumes D: "crates_ok D" "utf8_label_known D" and inv: "classifier_inv D explicit fallback p c"
    and feed: "classifier_feed D x c = Inr (r, c')"
    and size: "length (p @ x) \<le> usize_max" and first: "cl_mode c = None \<Longrightarrow> length (p @ x) \<le> preflight_bytes"
  shows "classifier_inv D explicit fallback (p @ x) c' \<and> r = classifier_proof c'"
proof -
  define c1 where "c1 = c\<lparr>cl_probe := cl_probe c @ take (min (length x) (preflight_bytes - length (cl_probe c))) x\<rparr>"
  have probe: "cl_probe c1 = take preflight_bytes (p @ x)"
    using inv by (auto simp: c1_def classifier_inv_def min_def)
  have fields: "cl_explicit c1 = explicit" "cl_fallback c1 = fallback" "cl_mode c1 = cl_mode c"
    using inv by (simp_all add: c1_def classifier_inv_def)
  have "classifier_feed D x c = (case cl_mode c of
        None \<Rightarrow>
          if length (cl_probe c1) < 4 then Inr (None, c1)
          else map_r (\<lambda>c. (classifier_proof c, c)) (initialize D c1)
      | Some m \<Rightarrow> Inr (classifier_proof (c1\<lparr>cl_mode := Some (feed_mode D x m)\<rparr>), c1\<lparr>cl_mode := Some (feed_mode D x m)\<rparr>))"
    by (simp only: classifier_feed_def Let_def c1_def [symmetric] fields(3))
  note f = trans [OF this [symmetric] feed]
  show ?thesis
  proof (cases "cl_mode c")
    case None
    then have whole: "cl_probe c1 = p @ x" using first probe by simp
    show ?thesis
    proof (cases "length (p @ x) < 4")
      case True
      with f None whole have r: "r = None" "c' = c1" by auto
      with True fields probe None show ?thesis
        by (simp add: classifier_inv_def classifier_proof_def)
    next
      case False
      with f None whole have i: "initialize D c1 = Inr c'" "r = classifier_proof c'" by (auto simp: bind_simps)
      from initialize_inv [OF D fields(1,2) whole i(1)] False size obtain m where
        "c' = c1\<lparr>cl_mode := Some m\<rparr>" "mode_inv D explicit fallback (p @ x) m" by auto
      with i fields probe False show ?thesis by (simp add: classifier_inv_def)
    qed
  next
    case (Some m)
    with inv have m: "4 \<le> length p" "mode_inv D explicit fallback p m" by (simp_all add: classifier_inv_def)
    from f Some have r: "c' = c1\<lparr>cl_mode := Some (feed_mode D x m)\<rparr>" "r = classifier_proof c'" by auto
    with mode_step [OF D(1) m(2,1) size] fields probe m(1) show ?thesis by (simp add: classifier_inv_def)
  qed
qed

text \<open>What no unread byte can overturn.\<close>

definition proof_sound :: "encoding_crates \<Rightarrow> utf8 option \<Rightarrow> utf8 option \<Rightarrow> byte list \<Rightarrow> terminal_proof \<Rightarrow> bool" where
  "proof_sound D explicit fallback bs p \<longleftrightarrow>
     (case proof_rejection p of
        None \<Rightarrow> reference_decision D bs explicit = Binary
      | Some r \<Rightarrow>
          reference_decision D bs explicit = Rejected r \<and>
          (case (explicit, fallback, r) of
             (None, Some label, MixedOrInconsistent _) \<Rightarrow> \<exists>r'. reference_decision D bs (Some label) = Rejected r'
           | _ \<Rightarrow> True))"

lemma pass_none:
  "strict_decode D (de_kind d) (drop (de_bom_len d) bs) = None \<Longrightarrow> pr_stats (reference_pass D j k bs d options) = None"
  by (simp add: reference_pass_def invalid_pass_def Let_def)

lemma explicit_rejected:
  assumes "explicit_detected_encoding D label (take binary_probe_bytes bs) = Inr d"
    and "strict_decode D (de_kind d) (drop (de_bom_len d) bs) = None"
  shows "reference_decision D bs (Some label) = Rejected (ExplicitMalformed label)"
  using assms(1) pass_none [OF assms(2), of "plain_judge D" "()"] by (simp add: reference_decision_def decide_def Let_def)

lemma probe_sizes: "preflight_bytes = binary_probe_bytes" "4 \<le> binary_probe_bytes"
  by (simp_all add: preflight_bytes_def binary_probe_bytes_def)

lemma nul_in_probe: "0 \<in> set (take preflight_bytes p) \<Longrightarrow> has_binary_nul (take binary_probe_bytes (p @ y))"
  by (auto simp: has_binary_nul_def probe_sizes take_append)

lemma classifier_proof_sound:
  assumes D: "crates_ok D" and inv: "classifier_inv D explicit fallback p c" and t: "classifier_proof c = Some q"
  shows "proof_sound D explicit fallback (p @ y) q"
proof -
  from t obtain m where m: "cl_mode c = Some m" by (auto simp: classifier_proof_def split: option.splits)
  with inv have p: "4 \<le> length p" and mi: "mode_inv D explicit fallback p m"
    and probe: "cl_probe c = take preflight_bytes p" by (simp_all add: classifier_inv_def)
  let ?pre = "take binary_probe_bytes (p @ y)"
  have settled: "probe_is_settled c \<Longrightarrow> ?pre = cl_probe c"
    by (simp add: probe_is_settled_def probe probe_sizes min_def split: if_splits)
  have det: "explicit_detected_encoding D l ?pre = explicit_detected_encoding D l p" "bom_detected_encoding ?pre = bom_detected_encoding p" for l
    using explicit_detected_take [OF probe_sizes(2), of D l "p @ y"] bom_detected_take [OF probe_sizes(2), of "p @ y"]
    by (simp_all add: detected_stable [OF p])
  show ?thesis
  proof (cases m)
    case (ExplicitMode encoding v bad)
    with mi obtain d where d: "explicit = Some encoding" "explicit_detected_encoding D encoding p = Inr d" "validator_at D d v bad p"
      by (auto simp: mode_inv_def)
    from t m ExplicitMode have q: "bad" "q = ExplicitDecoderMalformed encoding"
      by (auto simp: classifier_proof_def split: if_splits)
    from explicit_rejected [of D encoding "p @ y" d] det d(1,2) validator_at_final [OF D _ p, of d v y] d(3) q
    show ?thesis by (simp add: proof_sound_def proof_rejection_def)
  next
    case (BomMode v name mark bad)
    with mi obtain d where d: "explicit = None" "bom_detected_encoding p = Some d" "de_origin d = Bom name"
        "mark = (de_kind d = EncodingRs utf_8)" "validator_at D d v bad p"
      by (auto simp: mode_inv_def)
    show ?thesis
    proof (cases "mark \<and> 0 \<in> set (cl_probe c)")
      case True
      with t m BomMode have "q = NulWithinFrozenProbe" by (simp add: classifier_proof_def)
      moreover have "reference_decision D (p @ y) None = Binary"
        using True d det nul_in_probe [of p y] by (simp add: reference_decision_def decide_def probe)
      ultimately show ?thesis using d by (simp add: proof_sound_def proof_rejection_def)
    next
      case False
      with t m BomMode have q: "bad" "\<not> mark \<or> probe_is_settled c" "q = BomDecoderMalformed name"
        by (auto simp: classifier_proof_def split: if_splits)
      have nul: "\<not> (mark \<and> has_binary_nul ?pre)"
      proof
        assume a: "mark \<and> has_binary_nul ?pre"
        with q(2) settled have e: "?pre = cl_probe c" by blast
        from a have "0 \<in> set ?pre" unfolding has_binary_nul_def by (meson in_set_takeD)
        with a False show False unfolding e by blast
      qed
      have "pr_stats (reference_pass D (plain_judge D) () (p @ y) d plain_options) = None"
        using validator_at_final [OF D _ p, of d v y] d(5) q(1) by (intro pass_none) simp
      moreover have "(case (de_source d, de_origin d) of (Some source, _) \<Rightarrow> source | (None, Bom name) \<Rightarrow> name | _ \<Rightarrow> ''UTF-8'') = name"
        using bom_detected_fields [OF d(2)] d(3) by auto
      ultimately have "reference_decision D (p @ y) None = Rejected (BomMismatch name)"
        using nul d det by (simp add: reference_decision_def decide_def)
      with d(1) q(3) show ?thesis by (simp add: proof_sound_def proof_rejection_def split: option.split)
    qed
  next
    case (AutomaticMode v bad scanner conflict w w_bad)
    with mi have i: "explicit = None" "bom_detected_encoding p = None" "validator_at D plain_utf8 v bad p"
      "watch_inv p scanner conflict" "conflict \<noteq> None \<longrightarrow> bad" by (simp_all add: mode_inv_def)
    have auto: "reference_decision D (p @ y) None =
        decide_automatic D (reference_pass D (plain_judge D) () (p @ y)) (reference_nomination D (p @ y)) ?pre"
      using det i by (simp add: reference_decision_def decide_def)
    show ?thesis
    proof (cases "0 \<in> set (cl_probe c)")
      case True
      with t m AutomaticMode have "q = NulWithinFrozenProbe" by (simp add: classifier_proof_def)
      moreover have "has_binary_nul ?pre" using True nul_in_probe [of p y] by (simp add: probe)
      ultimately show ?thesis using auto i by (simp add: proof_sound_def proof_rejection_def decide_automatic_def)
    next
      case False
      with t m AutomaticMode have s: "probe_is_settled c" by (auto simp: classifier_proof_def split: if_splits)
      note pre = settled [OF s]
      have nul: "\<not> has_binary_nul ?pre" unfolding pre has_binary_nul_def using False by (meson in_set_takeD)
      have b: "bad" using t m AutomaticMode False s i(5)
        by (auto simp: classifier_proof_def split: if_splits option.splits)
      have u: "pr_stats (reference_pass D (plain_judge D) () (p @ y) plain_utf8 plain_options) = None"
        using validator_at_final [OF D _ p, of plain_utf8 v y] i(3) b by (intro pass_none) simp
      have auto': "reference_decision D (p @ y) None =
          (if detect_binary_type (cl_probe c) \<noteq> None then Binary
           else decide_legacy D (reference_pass D (plain_judge D) () (p @ y)) (reference_nomination D (p @ y)))"
        using auto nul u pre by (simp add: decide_automatic_def plain_utf8_def [symmetric] Let_def)
      show ?thesis
      proof (cases "detect_binary_type (cl_probe c)")
        case (Some k)
        with t m AutomaticMode False s b have "q = BinaryMagicAfterUtf8Failure" by (simp add: classifier_proof_def)
        with Some auto' i show ?thesis by (simp add: proof_sound_def proof_rejection_def)
      next
        case None
        from t m AutomaticMode False s None obtain offset st where
          q: "conflict = Some offset" "q = AutomaticRejected offset st" "w \<noteq> None \<longrightarrow> w_bad"
          by (auto simp: classifier_proof_def split: if_splits option.splits)
        have "no_conflict (reference_nomination D (p @ y)) = Some offset"
          using i(4) q(1) by (simp add: watch_inv_def reference_nomination_def)
        then have r: "reference_decision D (p @ y) None = Rejected (MixedOrInconsistent (Some offset))"
          using auto' None by (simp add: decide_legacy_def)
        have "\<exists>r'. reference_decision D (p @ y) (Some label) = Rejected r'" if "fallback = Some label" for label
        proof -
          from mi that AutomaticMode obtain d u where d: "w = Some u" "explicit_detected_encoding D label p = Inr d"
            "validator_at D d u w_bad p" by (auto simp: mode_inv_def)
          with q(3) explicit_rejected [of D label "p @ y" d] det validator_at_final [OF D _ p, of d u y]
          show ?thesis by auto
        qed
        with r q i show ?thesis by (simp add: proof_sound_def proof_rejection_def split: option.split)
      qed
    qed
  qed
qed

section \<open>The capture reads the file\<close>

text \<open>A source that delivers the bytes \<open>bs\<close> without an error.\<close>

definition delivers :: "read_source \<Rightarrow> byte list \<Rightarrow> bool" where
  "delivers src bs \<longleftrightarrow> (\<exists>chunks. src = map Inr chunks \<and> [] \<notin> set chunks \<and> concat chunks = bs)"

lemma delivers_read:
  assumes "delivers src bs" "0 < n" "source_read n src = (r, src')"
  shows "\<exists>x y. r = Inr x \<and> bs = x @ y \<and> delivers src' y \<and> (x = [] \<longrightarrow> bs = [])"
proof -
  from assms(1) obtain chunks where c: "src = map Inr chunks" "[] \<notin> set chunks" "concat chunks = bs"
    by (auto simp: delivers_def)
  show ?thesis
  proof (cases chunks)
    case Nil
    with c assms(3) show ?thesis by (auto simp: delivers_def)
  next
    case (Cons b cs)
    let ?rest = "if n < length b then drop n b # cs else cs"
    have "r = Inr (take n b)" "src' = map Inr ?rest" using assms(3) c(1) Cons by auto
    moreover have "delivers (map Inr ?rest) (concat ?rest)"
      unfolding delivers_def using c(2) Cons by (intro exI [of _ ?rest]) auto
    moreover have "bs = take n b @ concat ?rest"
      using c(3) Cons by (cases "n < length b") (simp_all flip: append_assoc)
    moreover have "take n b \<noteq> []" using c(2) Cons assms(2) by auto
    ultimately show ?thesis by (intro exI [of _ "take n b"] exI [of _ "concat ?rest"]) simp
  qed
qed

definition small_memory :: "backing \<Rightarrow> bool" where
  "small_memory b \<longleftrightarrow> (case b of MemoryBacking bs \<Rightarrow> length bs \<le> memory_snapshot_limit | TempBacking _ \<Rightarrow> True)"

lemma write_chunk_bytes: "write_snapshot_chunk H op bs v = Inr w \<Longrightarrow> fst w = fst v @ bs"
  by (auto simp: write_snapshot_chunk_def bind_simps split: option.splits)

lemma write_chunks_bytes: "write_chunks H op cs v = Inr w \<Longrightarrow> fst w = fst v @ concat cs"
  by (induction H op cs v arbitrary: w rule: write_chunks.induct)
    (fastforce simp: bind_simps dest: write_chunk_bytes)+

lemma concat_pieces: "0 < n \<Longrightarrow> concat (chunks_of n xs) = xs"
  by (induction n xs rule: chunks_of.induct) (subst chunks_of.simps, auto)

lemma append_bytes:
  assumes "snapshot_append H op bs v = Inr (b, k)"
  shows "backing_bytes b = backing_bytes (fst v) @ bs \<and> small_memory b"
proof (cases "fst v")
  case (TempBacking written)
  with assms show ?thesis
    by (cases v) (auto simp: snapshot_append_def bind_simps small_memory_def dest!: write_chunk_bytes)
next
  case (MemoryBacking memory)
  show ?thesis
  proof (cases "memory_snapshot_limit < sat_add (length memory) (length bs)")
    case True
    with assms MemoryBacking obtain k1 written k2 where
      w: "write_chunks H op (chunks_of snapshot_chunk_bytes memory) ([], k1) = Inr (written, k2)"
      and r: "map_r (\<lambda>(written, k). (TempBacking written, k)) (write_snapshot_chunk H op bs (written, k2)) = Inr (b, k)"
      by (auto simp: snapshot_append_def bind_simps split: option.splits)
    from r obtain all' where f: "b = TempBacking all'" "all' = written @ bs"
      by (auto simp: bind_simps dest!: write_chunk_bytes)
    have "written = memory"
      using write_chunks_bytes [OF w] by (simp add: concat_pieces snapshot_chunk_bytes_def)
    with f MemoryBacking show ?thesis by (simp add: small_memory_def)
  next
    case False
    with assms MemoryBacking show ?thesis
      by (cases v) (auto simp: snapshot_append_def small_memory_def sat_add_def memory_snapshot_limit_def usize_max_def split: if_splits)
  qed
qed

definition capturing :: "encoding_crates \<Rightarrow> utf8 option \<Rightarrow> utf8 option \<Rightarrow> byte list \<Rightarrow> byte list \<Rightarrow> capture_state \<Rightarrow> bool" where
  "capturing D explicit fallback bs p s \<longleftrightarrow>
     (\<exists>y. bs = p @ y \<and> delivers (ca_source s) y) \<and> classifier_inv D explicit fallback p (ca_classifier s) \<and>
     backing_bytes (ca_builder s) = p \<and> small_memory (ca_builder s)"

lemma capture_chunk_sound:
  assumes D: "crates_ok D" "utf8_label_known D" and size: "length bs \<le> usize_max"
    and inv: "capturing D explicit fallback bs p s" and n: "0 < n"
    and first: "length p < 4 \<Longrightarrow> length p + n \<le> preflight_bytes"
    and step: "capture_chunk D H op n s = Inr r"
  shows "case r of
      ChunkEof k \<Rightarrow> p = bs
    | ChunkTerminal q k \<Rightarrow> proof_sound D explicit fallback bs q
    | ChunkMore m s' \<Rightarrow> (\<exists>x. m = length x \<and> m \<le> n \<and> capturing D explicit fallback bs (p @ x) s')"
proof -
  from inv obtain y where y: "bs = p @ y" "delivers (ca_source s) y" by (auto simp: capturing_def)
  have ci: "classifier_inv D explicit fallback p (ca_classifier s)" using inv by (simp add: capturing_def)
  have read: "\<exists>y'. y = x @ y' \<and> delivers src y' \<and> length x \<le> n"
    if "source_read n (ca_source s) = (Inr x, src)" for x src
    using delivers_read [OF y(2) n that] source_read_bound [OF that] by auto
  have fed: "classifier_inv D explicit fallback (p @ x) c \<and> q = classifier_proof c"
    if r: "source_read n (ca_source s) = (Inr x, src)" and f: "classifier_feed D x (ca_classifier s) = Inr (q, c)" for x src c q
  proof (rule feed_inv [OF D ci f])
    from read [OF r] y size show "length (p @ x) \<le> usize_max" by auto
    assume "cl_mode (ca_classifier s) = None"
    with ci have "length p < 4" by (simp add: classifier_inv_def)
    with first read [OF r] show "length (p @ x) \<le> preflight_bytes" by auto
  qed
  from step show ?thesis
  proof (cases rule: capture_chunk_cases)
    case (eof k src)
    with delivers_read [OF y(2) n eof(2)] y show ?thesis by simp
  next
    case (more x src c k)
    obtain b k' where a: "snapshot_append H op x (ca_builder s, k) = Inr (b, k')"
      and r: "r = ChunkMore (length x) \<lparr>ca_source = src, ca_classifier = c, ca_builder = b, ca_polls = k'\<rparr>"
      using more(4) by blast
    from read [OF more(1)] fed [OF more(1,3)] append_bytes [OF a] y inv show ?thesis
      by (simp add: r capturing_def) (metis append_assoc)
  next
    case (proof' x src c k q)
    from read [OF proof'(1)] obtain y' where y': "y = x @ y'" by blast
    from fed [OF proof'(1,3)] classifier_proof_sound [OF D(1), of explicit fallback "p @ x" c q y'] y y' proof'(4)
    show ?thesis by simp
  qed
qed

definition loop_result :: "encoding_crates \<Rightarrow> utf8 option \<Rightarrow> utf8 option \<Rightarrow> byte list \<Rightarrow> terminal_proof option \<Rightarrow> capture_state \<Rightarrow> bool" where
  "loop_result D explicit fallback bs q s \<longleftrightarrow>
     (case q of
        Some q \<Rightarrow> proof_sound D explicit fallback bs q
      | None \<Rightarrow> capturing D explicit fallback bs bs s)"

lemma capturing_polls [simp]: "capturing D e f bs p (s\<lparr>ca_polls := k\<rparr>) = capturing D e f bs p s"
  by (simp add: capturing_def)

lemma capture_rest_sound:
  assumes size: "length bs \<le> usize_max"
  shows "capture_rest D H op s = Inr (q, s') \<Longrightarrow> crates_ok D \<Longrightarrow> utf8_label_known D \<Longrightarrow> capturing D explicit fallback bs p s \<Longrightarrow> 4 \<le> length p \<Longrightarrow>
    loop_result D explicit fallback bs q s'"
proof (induction D H op s arbitrary: p rule: capture_rest.induct)
  case (1 D H op s)
  from 1(2) obtain r where r: "capture_chunk D H op snapshot_chunk_bytes s = Inr r"
    by (subst (asm) capture_rest.simps) (auto split: sum.splits)
  have n: "0 < snapshot_chunk_bytes" by (simp add: snapshot_chunk_bytes_def)
  have sound: "case r of
      ChunkEof k \<Rightarrow> p = bs
    | ChunkTerminal q k \<Rightarrow> proof_sound D explicit fallback bs q
    | ChunkMore m s' \<Rightarrow> (\<exists>x. m = length x \<and> m \<le> snapshot_chunk_bytes \<and> capturing D explicit fallback bs (p @ x) s')"
    using capture_chunk_sound [OF 1(3,4) size 1(5) n _ r] 1(6) by simp
  show ?case
  proof (cases r)
    case (ChunkEof k)
    with 1(2,5) r sound show ?thesis by (subst (asm) capture_rest.simps) (auto simp: loop_result_def)
  next
    case (ChunkTerminal q k)
    with 1(2) r sound show ?thesis by (subst (asm) capture_rest.simps) (auto simp: loop_result_def)
  next
    case (ChunkMore m t)
    with sound obtain x where x: "capturing D explicit fallback bs (p @ x) t" by auto
    from 1(2) r ChunkMore have "capture_rest D H op t = Inr (q, s')" by (subst (asm) capture_rest.simps) simp
    from 1(1) [OF r ChunkMore this 1(3,4) x] 1(6) show ?thesis by simp
  qed
qed

lemma capture_preflight_sound:
  assumes size: "length bs \<le> usize_max"
  shows "capture_preflight D H op m s = Inr (q, reached_eof, s') \<Longrightarrow> crates_ok D \<Longrightarrow> utf8_label_known D \<Longrightarrow>
    capturing D explicit fallback bs p s \<Longrightarrow> m = length p \<Longrightarrow> m \<le> preflight_bytes \<Longrightarrow>
    (if q = None \<and> \<not> reached_eof
     then \<exists>p'. capturing D explicit fallback bs p' s' \<and> 4 \<le> length p'
     else loop_result D explicit fallback bs q s')"
proof (induction D H op m s arbitrary: p rule: capture_preflight.induct)
  case (1 D H op m s)
  show ?case
  proof (cases "m < preflight_bytes")
    case False
    from 1(2) False have "q = None" "\<not> reached_eof" "s' = s"
      by (simp_all add: capture_preflight.simps [of D H op m])
    moreover have "4 \<le> length p" using False 1(6) by (simp add: preflight_bytes_def)
    ultimately show ?thesis using 1(5) by auto
  next
    case True
    from 1(2) True obtain r where r: "capture_chunk D H op (preflight_bytes - m) s = Inr r"
      by (subst (asm) capture_preflight.simps) (auto split: sum.splits)
    have sound: "case r of
        ChunkEof k \<Rightarrow> p = bs
      | ChunkTerminal q k \<Rightarrow> proof_sound D explicit fallback bs q
      | ChunkMore n s' \<Rightarrow> (\<exists>x. n = length x \<and> n \<le> preflight_bytes - m \<and> capturing D explicit fallback bs (p @ x) s')"
      using capture_chunk_sound [OF 1(3,4) size 1(5) _ _ r] 1(6) True by simp
    show ?thesis
    proof (cases r)
      case (ChunkEof k)
      with 1(2,5) r True sound show ?thesis
        by (subst (asm) capture_preflight.simps) (auto simp: loop_result_def)
    next
      case (ChunkTerminal q k)
      with 1(2) r True sound show ?thesis
        by (subst (asm) capture_preflight.simps) (auto simp: loop_result_def)
    next
      case (ChunkMore n t)
      with sound obtain x where x: "capturing D explicit fallback bs (p @ x) t" "n = length x" "n \<le> preflight_bytes - m"
        by auto
      from 1(2) r ChunkMore True have "capture_preflight D H op (m + n) t = Inr (q, reached_eof, s')"
        by (subst (asm) capture_preflight.simps) simp
      from 1(1) [OF True r ChunkMore this 1(3,4) x(1)] 1(6) x(2,3) True show ?thesis by simp
    qed
  qed
qed

lemma capture_exact:
  assumes D: "crates_ok D" "utf8_label_known D" and src: "delivers src bs" and size: "length bs \<le> usize_max"
    and run: "capture_reader D H op src explicit fallback k = Inr (r, k')"
  shows "case r of
      CaptureTerminal q \<Rightarrow> proof_sound D explicit fallback bs q
    | CaptureComplete c \<Rightarrow> backing_bytes (cp_storage c) = bs \<and> cp_len c = length bs \<and> small_memory (cp_storage c)"
proof -
  let ?s0 = "\<lparr>ca_source = src, ca_classifier = new_classifier explicit fallback, ca_builder = MemoryBacking [], ca_polls = k\<rparr>"
  define fin where "fin = (\<lambda>(q, s :: capture_state). case q of
       Some p \<Rightarrow> Inr (CaptureTerminal p, ca_polls s)
     | None \<Rightarrow>
         bind_r (capture_checkpoint op (ca_polls s)) (\<lambda>k.
         case classifier_finish_eof (ca_classifier s) of
           Some p \<Rightarrow> Inr (CaptureTerminal p, k)
         | None \<Rightarrow>
             map_r (\<lambda>(c, k). (CaptureComplete c, k)) (snapshot_finish H op (ca_builder s, k))))"
  have "bind_r (capture_preflight D H op 0 ?s0) (\<lambda>(q, eof, s).
      bind_r (if q \<noteq> None then Inr (q, s) else if eof then Inr (None, s) else capture_rest D H op s) fin) = Inr (r, k')"
    using run unfolding capture_reader_def fin_def Let_def .
  then obtain q eof s where pre: "capture_preflight D H op 0 ?s0 = Inr (q, eof, s)"
    and rest: "bind_r (if q \<noteq> None then Inr (q, s) else if eof then Inr (None, s) else capture_rest D H op s) fin = Inr (r, k')"
    by (auto simp: bind_r_Inr)
  have c0: "capturing D explicit fallback bs [] ?s0"
    using src by (simp add: capturing_def classifier_inv_def new_classifier_def small_memory_def)
  have p0: "if q = None \<and> \<not> eof
     then \<exists>p'. capturing D explicit fallback bs p' s \<and> 4 \<le> length p'
     else loop_result D explicit fallback bs q s"
    using capture_preflight_sound [OF size pre D c0] by simp
  from rest obtain q' s' where
    l: "(if q \<noteq> None then Inr (q, s) else if eof then Inr (None, s) else capture_rest D H op s) = Inr (q', s')"
    and fin: "fin (q', s') = Inr (r, k')"
    unfolding bind_r_Inr by auto
  have loop: "loop_result D explicit fallback bs q' s'"
  proof (cases "q = None \<and> \<not> eof")
    case True
    with p0 obtain p' where "capturing D explicit fallback bs p' s" "4 \<le> length p'" by auto
    with capture_rest_sound [OF size _ D] l True show ?thesis by auto
  next
    case False
    with p0 l show ?thesis by (auto split: if_splits)
  qed
  show ?thesis
  proof (cases q')
    case (Some p)
    with fin loop show ?thesis by (auto simp: loop_result_def fin_def)
  next
    case None
    with loop have cap: "capturing D explicit fallback bs bs s'" by (simp add: loop_result_def)
    show ?thesis
    proof (cases "classifier_finish_eof (ca_classifier s')")
      case (Some p)
      with fin None have "r = CaptureTerminal p" by (auto simp: fin_def bind_r_Inr)
      moreover have "proof_sound D explicit fallback bs p"
        using classifier_proof_sound [OF D(1), of explicit fallback bs "ca_classifier s'" p "[]"] Some cap
        by (simp add: capturing_def classifier_finish_eof_def)
      ultimately show ?thesis by simp
    next
      case no: None
      with fin None obtain c k1 where "snapshot_finish H op (ca_builder s', k1) = Inr (c, k')" "r = CaptureComplete c"
        by (auto simp: fin_def bind_r_Inr map_r_Inr)
      with cap show ?thesis by (auto simp: snapshot_finish_def map_r_Inr capturing_def)
    qed
  qed
qed

definition plain_temp :: temp_host where
  "plain_temp = \<lparr>th_create = None, th_write = (\<lambda>_. None), th_flush = None\<rparr>"


lemma classify_result:
  assumes "capture_classify D op f candidate explicit fallback k = Inr (d, k')" "d \<noteq> FileChanged"
  shows "\<exists>i r k1 k2. cf_before f = Inr (i, True) \<and> cf_after f = Inr (i, True) \<and> cf_path f = Inr (i, True) \<and>
    matches_hint i (traversal_fingerprint candidate) \<and>
    capture_reader D (cf_temp f) op (cf_source f) explicit fallback k1 = Inr (r, k2) \<and> d = disposition_of r"
proof -
  from assms have o: "cf_open f = None"
    by (cases "cf_open f") (auto simp: capture_classify_def bind_simps split: if_splits)
  from assms o obtain i b where before: "cf_before f = Inr (i, b)"
    by (cases "cf_before f") (auto simp: capture_classify_def bind_simps)
  from assms o before have b: "b" "matches_hint i (traversal_fingerprint candidate)"
    by (auto simp: capture_classify_def bind_simps split: if_splits)
  from assms o before b obtain k1 r k2 k3 where r: "capture_reader D (cf_temp f) op (cf_source f) explicit fallback k1 = Inr (r, k2)"
    and rest: "(case cf_after f of
        Inl e \<Rightarrow> Inl (prefer_stop op k3 (CaptureIo e))
      | Inr (after, is_regular) \<Rightarrow>
          (case cf_path f of
             Inl e \<Rightarrow>
               if ie_kind e = IoNotFound then map_r (\<lambda>k. (FileChanged, k)) (capture_checkpoint op k3)
               else Inl (prefer_stop op k3 (CaptureIo e))
           | Inr (path_identity, path_regular) \<Rightarrow>
               bind_r (capture_checkpoint op k3) (\<lambda>k.
               if \<not> is_regular \<or> \<not> path_regular \<or> i \<noteq> after \<or> after \<noteq> path_identity \<or>
                  \<not> matches_hint after (traversal_fingerprint candidate)
               then Inr (FileChanged, k)
               else Inr (disposition_of r, k)))) = Inr (d, k')"
    by (auto simp: capture_classify_def bind_r_Inr)
  from rest obtain after ar where after: "cf_after f = Inr (after, ar)" by (cases "cf_after f") auto
  from rest after assms(2) obtain p pr where path: "cf_path f = Inr (p, pr)"
    by (cases "cf_path f") (auto simp: bind_simps split: if_splits)
  from rest after path assms(2) have "ar" "pr" "i = after" "after = p" "d = disposition_of r"
    by (auto simp: bind_simps split: if_splits)
  with r before b after path show ?thesis
    by (intro exI [of _ i] exI [of _ r] exI [of _ k1] exI [of _ k2]) simp
qed

text \<open>
  C38. The capture of a search candidate is sound. A capture that ends before the end of the file, because
  the bytes read prove it binary or undecodable, has decided as the decision over the complete file does,
  whatever the unread bytes are: the file is binary, or rejected with the same rejection, and then the
  fallback encoding, if one applies, rejects it too. A searchable snapshot holds exactly the bytes of
  the file, in memory only up to the limit, and only of a regular file whose identity was the same before and after
  the capture, under its path, and in the traversal.
\<close>

theorem capture_sound:
  assumes "crates_ok D" "utf8_label_known D" "delivers (cf_source f) bs" "length bs \<le> usize_max"
    and "capture_classify D op f candidate explicit fallback k = Inr (d, k')"
  shows "case d of
      FileChanged \<Rightarrow> True
    | BinarySkipped q \<Rightarrow> reference_decision D bs explicit = Binary
    | EncodingRejected r q \<Rightarrow>
        reference_decision D bs explicit = Rejected r \<and>
        (case (explicit, fallback, r) of
           (None, Some label, MixedOrInconsistent _) \<Rightarrow> \<exists>r'. reference_decision D bs (Some label) = Rejected r'
         | _ \<Rightarrow> True)
    | Searchable c \<Rightarrow>
        backing_bytes (cp_storage c) = bs \<and> cp_len c = length bs \<and> small_memory (cp_storage c) \<and>
        (\<exists>i. cf_before f = Inr (i, True) \<and> cf_after f = Inr (i, True) \<and> cf_path f = Inr (i, True) \<and>
          matches_hint i (traversal_fingerprint candidate))"
proof (cases "d = FileChanged")
  case False
  from classify_result [OF assms(5) this] obtain i r k1 k2 where
    i: "cf_before f = Inr (i, True) \<and> cf_after f = Inr (i, True) \<and> cf_path f = Inr (i, True) \<and>
      matches_hint i (traversal_fingerprint candidate)"
    and r: "capture_reader D (cf_temp f) op (cf_source f) explicit fallback k1 = Inr (r, k2)" "d = disposition_of r"
    by blast
  note exact = capture_exact [OF assms(1-4) r(1)]
  show ?thesis
  proof (cases r)
    case (CaptureTerminal q)
    with exact r(2) show ?thesis by (auto simp: disposition_of_def proof_sound_def split: option.splits)
  next
    case (CaptureComplete c)
    with exact r(2) i show ?thesis by (auto simp: disposition_of_def)
  qed
qed simp

definition sample_identity :: file_identity where
  "sample_identity =
     \<lparr>fi_device = 1, fi_inode = 2, fi_len = 4, fi_modified_seconds = 0, fi_modified_nanoseconds = 0,
      fi_changed_seconds = 0, fi_changed_nanoseconds = 0\<rparr>"

definition nul_file :: candidate_file where
  "nul_file =
     \<lparr>cf_open = None, cf_before = Inr (sample_identity, True), cf_source = [Inr [0x61, 0x62, 0x63, 0]],
      cf_after = Inr (sample_identity, True), cf_path = Inr (sample_identity, True), cf_temp = plain_temp\<rparr>"

definition nul_record :: "file_identity path_record" where
  "nul_record =
     \<lparr>native = [], display = [], relative_match = [], native_key = [], modified = None,
      traversal_len_hint = None, traversal_fingerprint = Some sample_identity\<rparr>"

lemma byte_crates_label: "utf8_label_known byte_crates"
proof -
  have "map Encoding_Detection.ascii_lower ''utf-8'' = ''utf-8''" by code_simp
  then show ?thesis by (simp add: utf8_label_known_def byte_crates_def)
qed

lemma nul_file_delivers: "delivers (cf_source nul_file) [0x61, 0x62, 0x63, 0]"
  unfolding delivers_def nul_file_def by (intro exI [of _ "[[0x61, 0x62, 0x63, 0]]"]) simp

lemma nul_file_capture:
  "\<exists>k. capture_classify byte_crates None nul_file nul_record None None 0 = Inr (BinarySkipped NulWithinFrozenProbe, k)"
proof -
  have "\<exists>c. classifier_feed byte_crates [0x61, 0x62, 0x63, 0] (new_classifier None None) = Inr (Some NulWithinFrozenProbe, c)"
    using utf8_validator [OF byte_crates_label, of "[0x61, 0x62, 0x63, 0]"]
    by (simp add: classifier_feed_def new_classifier_def initialize_def bom_streaming_validator_def bom_detected_encoding_def
        begins_def preflight_bytes_def classifier_proof_def Let_def split: prod.split)
  then obtain k where "capture_reader byte_crates plain_temp None [Inr [0x61, 0x62, 0x63, 0]] None None 0 =
      Inr (CaptureTerminal NulWithinFrozenProbe, k)"
    by (auto simp: capture_reader_def capture_preflight.simps [of _ _ _ 0] capture_chunk_def capture_checkpoint_def
        preflight_bytes_def)
  then show ?thesis
    by (simp add: capture_classify_def nul_file_def nul_record_def capture_checkpoint_def matches_hint_def
        disposition_of_def proof_rejection_def)
qed

theorem capture_sound_witness: "reference_decision byte_crates [0x61, 0x62, 0x63, 0] None = Binary"
proof -
  from nul_file_capture obtain k where
    "capture_classify byte_crates None nul_file nul_record None None 0 = Inr (BinarySkipped NulWithinFrozenProbe, k)" by blast
  from capture_sound [OF byte_crates_ok byte_crates_label nul_file_delivers _ this] show ?thesis
    by (simp add: usize_max_def)
qed

end
