(* ===== verification/Grep_Ranges.thy ===== *)
theory Grep_Ranges
  imports Grep_Search Capture_Soundness
begin

text \<open>
  The immutable search input: whatever backs it (the sealed snapshot, memory or a temporary file), it holds
  the decoded text of the file, and a captured range reads back exactly those bytes.
\<close>

definition stored :: "byte list \<times> byte list option \<Rightarrow> byte list" where
  "stored v = (case snd v of None \<Rightarrow> fst v | Some all' \<Rightarrow> all')"

lemma store_text_stored: "store_text H bs v = Inr w \<Longrightarrow> stored w = stored v @ bs"
  by (cases v) (auto simp: store_text_def stored_def bind_simps split: option.splits if_splits)

lemma capture_text_stored:
  "capture_text D H op r v n k = Inr (w, n', k') \<Longrightarrow> crates_ok D \<Longrightarrow> utf8_reader_text D r = Some t \<Longrightarrow>
     n = length (stored v) \<Longrightarrow> stored w = stored v @ t \<and> n' = length (stored w)"
proof (induction D H op r v n k arbitrary: t rule: capture_text.induct)
  case (1 D H op r v n k)
  from 1(2) obtain k1 where k1: "text_checkpoint op k = Inr k1"
    by (subst (asm) capture_text.simps) (auto simp: bind_simps)
  from reader_read_text [OF 1(3,4), of text_chunk_bytes] obtain out r' u where
    r: "reader_read D text_chunk_bytes r = Inr (out, r')" "utf8_reader_text D r' = Some u" "t = out @ u" "out = [] \<longrightarrow> t = []"
    by (auto simp: text_chunk_bytes_def)
  from 1(2) k1 r(1) obtain k2 where k2: "text_checkpoint op k1 = Inr k2"
    by (subst (asm) capture_text.simps) (auto simp: bind_simps)
  show ?case
  proof (cases "out = []")
    case True
    with 1(2,5) k1 k2 r show ?thesis by (subst (asm) capture_text.simps) auto
  next
    case False
    from 1(2) k1 k2 r(1) False obtain m v' where m: "checked_add n (length out) = Some m" "store_text H out v = Inr v'"
      and rest: "capture_text D H op r' v' m k2 = Inr (w, n', k')"
      by (subst (asm) capture_text.simps) (auto simp: bind_simps)
    note s = store_text_stored [OF m(2)]
    have n: "m = length (stored v')" using m(1) 1(5) s by (simp add: checked_add_def split: if_splits)
    from m(1) have ok: "ok_or (TextIo \<lparr>ie_kind = IoOther, ie_text = ''search text is too large''\<rparr>) (checked_add n (length out)) = Inr m"
      by simp
    from 1(1) [OF k1 r(1) refl k2 False ok m(2) rest 1(3) r(2) n] s r(3) show ?thesis by simp
  qed
qed

definition text_bytes :: "search_text \<Rightarrow> byte list" where
  "text_bytes t =
     (case tx_storage t of
        SnapshotText r \<Rightarrow> drop (br_start r) (backing_bytes (br_backing r))
      | MemoryText bs \<Rightarrow> bs
      | TempText bs \<Rightarrow> bs)"

definition text_sealed :: "search_text \<Rightarrow> bool" where
  "text_sealed t \<longleftrightarrow>
     tx_len t = length (text_bytes t) \<and>
     (case tx_storage t of
        SnapshotText r \<Rightarrow> br_len r = tx_len t \<and> br_start r + br_len r = length (backing_bytes (br_backing r)) \<and>
          length (backing_bytes (br_backing r)) \<le> usize_max
      | _ \<Rightarrow> True)"

lemma sealed_input: "text_sealed t \<Longrightarrow> open_text_reader t = Inr (text_bytes t)"
  by (cases "tx_storage t")
    (auto simp: text_sealed_def text_bytes_def open_text_reader_def open_range_reader_def checked_add_def
      get_range_def split: backing.splits)

lemma sealed_memory: "text_sealed t \<Longrightarrow> text_memory_bytes t = Some bs \<Longrightarrow> bs = text_bytes t"
  by (cases "tx_storage t")
    (auto simp: text_sealed_def text_bytes_def text_memory_bytes_def range_memory_bytes_def checked_add_def
      get_range_def split: backing.splits if_splits)

lemma range_str_sealed:
  assumes t: "text_sealed t"
  shows "range_str t a b =
    (if a \<le> b \<and> b \<le> length (text_bytes t) then checked_text (take (b - a) (drop a (text_bytes t)))
     else Inl (invalid_data ''ripgrep reported a byte range outside its immutable search input''))"
proof -
  have len: "tx_len t = length (text_bytes t)" using t by (simp add: text_sealed_def)
  show ?thesis
  proof (cases "a \<le> b \<and> b \<le> length (text_bytes t)")
    case False
    then show ?thesis by (auto simp: range_str_def validate_range_def len)
  next
    case True
    then have v: "validate_range t a b = Inr ()" by (simp add: validate_range_def len)
    show ?thesis
    proof (cases "tx_storage t")
      case (SnapshotText r)
      with t have r: "br_len r = length (text_bytes t)" "br_start r + br_len r = length (backing_bytes (br_backing r))"
        "length (backing_bytes (br_backing r)) \<le> usize_max" "text_bytes t = drop (br_start r) (backing_bytes (br_backing r))"
        by (simp_all add: text_sealed_def text_bytes_def)
      show ?thesis
      proof (cases "br_backing r")
        case (MemoryBacking bs)
        have "range_memory_bytes r = Some (text_bytes t)"
          using r MemoryBacking by (simp add: range_memory_bytes_def checked_add_def get_range_def)
        with SnapshotText v True show ?thesis
          by (simp add: range_str_def borrowed_utf8_range_def get_range_def)
      next
        case (TempBacking bs)
        have m: "range_memory_bytes r = None" using TempBacking by (simp add: range_memory_bytes_def)
        have "read_range r a b = Inr (take (b - a) (drop a (text_bytes t)))"
          using r True TempBacking
          by (auto simp: read_range_def checked_add_def get_range_def add.commute)
        with SnapshotText v True m show ?thesis by (simp add: range_str_def)
      qed
    next
      case (MemoryText bs)
      with v True show ?thesis by (simp add: range_str_def borrowed_utf8_range_def get_range_def text_bytes_def)
    next
      case (TempText bs)
      with v True show ?thesis by (simp add: range_str_def temp_read_range_def get_range_def text_bytes_def)
    qed
  qed
qed

text \<open>What the sealed snapshot and its validated encoding decode to.\<close>

definition sealed_snapshot :: "captured_snapshot \<Rightarrow> byte list \<Rightarrow> bool" where
  "sealed_snapshot s bs \<longleftrightarrow> backing_bytes (cp_storage s) = bs \<and> cp_len s = length bs \<and> length bs \<le> usize_max"

lemma open_source_text:
  assumes "sealed_snapshot s bs"
  shows "utf8_reader_text D (open_source_reader v s) =
    map_option utf8_bytes (strict_decode D (de_kind (ve_detected v)) (drop (de_bom_len (ve_detected v)) bs))"
proof -
  have "open_snapshot_reader s n = drop n bs" for n
    using assms by (cases "cp_storage s") (auto simp: open_snapshot_reader_def sealed_snapshot_def min_def)
  then show ?thesis
    by (simp add: utf8_reader_text_def open_source_reader_def reader_text_open concat_pieces text_chunk_bytes_def)
qed

text \<open>
  C39. The input of a content search is the decoded text of the file: its bytes are those of the strict
  decoding of the snapshot after its mark, wherever they are kept; the searcher reads exactly them; and a
  captured range reads back exactly its bytes when it lies inside the text and is well-formed, and is an
  error otherwise, for the sealed snapshot, the memory copy and the temporary file alike.
\<close>

theorem search_text_exact:
  assumes D: "crates_ok D" and s: "sealed_snapshot snapshot bs"
    and v: "reference_decision D bs explicit = TextFile v"
    and run: "content_backing D H op c snapshot v k = Inr (t, k')"
  shows "\<exists>u. strict_decode D (de_kind (ve_detected v)) (drop (de_bom_len (ve_detected v)) bs) = Some u \<and>
    search_input D c snapshot v (Some t) = Inr (utf8_bytes u, None) \<and>
    backing_text (Some t) = utf8_bytes u \<and>
    (\<forall>a b. range_str t a b =
       (if a \<le> b \<and> b \<le> length (utf8_bytes u) then checked_text (take (b - a) (drop a (utf8_bytes u)))
        else Inl (invalid_data ''ripgrep reported a byte range outside its immutable search input'')))"
proof -
  from decision_decodes [OF v] obtain u where
    u: "strict_decode D (de_kind (ve_detected v)) (drop (de_bom_len (ve_detected v)) bs) = Some u" by blast
  have t: "text_sealed t \<and> text_bytes t = utf8_bytes u"
  proof (cases "utf8_snapshot_start v")
    case (Some start)
    then have kind: "de_kind (ve_detected v) = EncodingRs utf_8" "start = de_bom_len (ve_detected v)"
      by (auto simp: utf8_snapshot_start_def split: if_splits)
    from run Some have t: "t = from_snapshot \<lparr>br_backing = cp_storage snapshot, br_start = start, br_len = length bs - start\<rparr>"
      "start \<le> length bs"
      using s by (auto simp: content_backing_def bind_simps shared_range_def sealed_snapshot_def split: if_splits)
    have d: "drop start bs = utf8_bytes u" using u kind by (auto simp: strict_decode_def split: if_splits)
    then have "length bs - start = length (utf8_bytes u)" by (metis length_drop)
    with d t s show ?thesis by (simp add: text_sealed_def text_bytes_def from_snapshot_def sealed_snapshot_def)
  next
    case None
    with run have c: "search_text_capture D H op (open_source_reader v snapshot) k = Inr (t, k')"
      by (simp add: content_backing_def bind_simps)
    then obtain w n k1 where w: "capture_text D H op (open_source_reader v snapshot) ([], None) 0 k = Inr (w, n, k1)"
      by (auto simp: search_text_capture_def bind_simps)
    have r: "tx_len t = n \<and> tx_storage t = (case snd w of None \<Rightarrow> MemoryText (fst w) | Some all' \<Rightarrow> TempText all')"
      using c w by (cases w; cases "snd w") (auto simp: search_text_capture_def bind_simps split: option.splits)
    have "utf8_reader_text D (open_source_reader v snapshot) = Some (utf8_bytes u)"
      using open_source_text [OF s, of D v] u by simp
    from capture_text_stored [OF w D this] r show ?thesis
      by (cases "snd w") (auto simp: text_sealed_def text_bytes_def stored_def)
  qed
  then have i: "open_text_reader t = Inr (utf8_bytes u)" "\<And>bs. text_memory_bytes t = Some bs \<Longrightarrow> bs = utf8_bytes u"
    using sealed_input [of t] sealed_memory [of t] by auto
  have "search_input D c snapshot v (Some t) = Inr (utf8_bytes u, None)"
    using i by (cases "text_memory_bytes t") (simp_all add: search_input_def)
  moreover have "backing_text (Some t) = utf8_bytes u" using i by (simp add: backing_text_def)
  ultimately show ?thesis using u range_str_sealed [of t] t by auto
qed

definition short_snapshot :: captured_snapshot where
  "short_snapshot = \<lparr>cp_len = 2, cp_storage = MemoryBacking [0x61, 0x0A]\<rparr>"

lemma short_decision:
  "reference_decision byte_crates [0x61, 0x0A] None =
     TextFile \<lparr>ve_detected = plain_utf8, ve_total_lines = 2, ve_trailing_newline = True, ve_utf8_warning = False\<rparr>"
proof -
  let ?bs = "[0x61, 0x0A] :: byte list"
  have bs: "is_utf8 ?bs" "bom_detected_encoding (take binary_probe_bytes ?bs) = None" "\<not> has_binary_nul ?bs"
    by (simp_all add: follow_def in_range_def cont_def bom_detected_encoding_def begins_def has_binary_nul_def binary_probe_bytes_def)
  have t: "utf8_text ?bs = [CHR 0x61, nl]" by code_simp
  have "\<not> vs_iso_2022 (observe [CHR 0x61, nl] new_stats)" "text_lines [CHR 0x61, nl] = 2"
    by (simp_all add: observe_def observe_escape_def new_stats_def text_lines_def usize_max_def Let_def)
  then show ?thesis unfolding utf8_decision [OF bs, of byte_crates] t Let_def by simp
qed

theorem search_text_exact_witness:
  "\<exists>t k'. content_backing byte_crates plain_temp None nul_record short_snapshot
      \<lparr>ve_detected = plain_utf8, ve_total_lines = 2, ve_trailing_newline = True, ve_utf8_warning = False\<rparr> 0 = Inr (t, k') \<and>
    backing_text (Some t) = [0x61, 0x0A] \<and> range_str t 0 1 = Inr ''a''"
proof -
  let ?v = "\<lparr>ve_detected = plain_utf8, ve_total_lines = 2, ve_trailing_newline = True, ve_utf8_warning = False\<rparr>"
  have s: "sealed_snapshot short_snapshot [0x61, 0x0A]"
    by (simp add: sealed_snapshot_def short_snapshot_def usize_max_def)
  have "\<exists>t. content_backing byte_crates plain_temp None nul_record short_snapshot ?v 0 = Inr (t, 0)"
    by (simp add: content_backing_def utf8_snapshot_start_def plain_utf8_def shared_range_def short_snapshot_def)
  then obtain t where t: "content_backing byte_crates plain_temp None nul_record short_snapshot ?v 0 = Inr (t, 0)" by blast
  from search_text_exact [OF byte_crates_ok s short_decision t] obtain u where
    u: "strict_decode byte_crates (EncodingRs utf_8) [0x61, 0x0A] = Some u" "backing_text (Some t) = utf8_bytes u"
      "range_str t 0 1 = (if (0::nat) \<le> 1 \<and> 1 \<le> length (utf8_bytes u) then checked_text (take (1 - 0) (drop 0 (utf8_bytes u)))
        else Inl (invalid_data ''ripgrep reported a byte range outside its immutable search input''))"
    by (auto simp: plain_utf8_def)
  have "is_utf8 [0x61, 0x0A]" by (simp add: follow_def in_range_def cont_def)
  with u(1) have "u = utf8_text [0x61, 0x0A]" by (simp only: strict_decode_def source_kind.case option.inject if_True simp_thms)
  then have b: "utf8_bytes u = [0x61, 0x0A]" by (simp only: utf8_bytes_text)
  have "from_utf8 [0x61] = Valid" "utf8_text [0x61] = ''a''" by code_simp+
  with u(3) b have "range_str t 0 1 = Inr ''a''" by (simp add: checked_text_def)
  with t u(2) b show ?thesis by auto
qed

end
