(* ===== verification/Spec2Isabelle.thy ===== *)
theory Spec2Isabelle
  imports Search_Order Ordered_Execution Glob_Render Replacement Shell_Output Log_Reader Batch_Read Path_Codec Grep_Capture Grep_Ranges
begin

text \<open>
  A verification development for FastCtx, a server that gives a language model three kinds of local
  tools: inspecting files (read, grep, glob), editing them (replace), and running shell commands in the
  foreground or as background jobs. All answers are bounded: the size of a response in tokens of the
  o200k tokenizer never exceeds a configured budget, and an answer that is cut says how to resume.

  \<^bold>\<open>How the parts interact.\<close> A request is admitted with a cancellation token (Operation) and a tool
  budget (Token_Budget). Grep and glob resolve their root (Path_Codec), sort the files found
  (Bounded_Sort with the orders of Search_Order), and search them in parallel: the executor hands out
  bounded extra lanes (Executor), an ordered window runs workers ahead of a sequential consumer
  (Ordered_Window, Ordered_Execution); each file is captured in a sealed snapshot (Snapshot), decoded
  into an immutable input (Grep_Search) and its matches collected by a sink (Grep_Sink). Reads decide the encoding of a file (Encoding_Detection and
  the theories under it), decode it in chunks (Encoding_Reader) and list lines (Text_Read, Hex_View,
  Batch_Read). Edits view a file as LF text (Document), replace matches and write back the original
  encoding and line endings (Replacement, Text_Encoding). Command output is normalised as a stream
  (Normalizer), kept in a ring (Line_Ring) or in a log with an index (Output_Log), decoded
  (Shell_Encoding) and presented (Shell_Output). Pages and notes are fitted to the budget with
  incremental token counters (Tokens, Render_Plan, Glob_Render).

  \<^bold>\<open>Theories and sources\<close> (under \<open>src/src\<close>; a record field or operation keeps the name of the code,
  with a two-letter prefix for fields):
  \<^item> Prelude: \<open>usize\<close> arithmetic, results, joined text, decimal numbers.
  \<^item> Operation: \<open>operation.rs\<close>. Ordering, Bounded_Sort: \<open>bounded_sort.rs\<close>. Search_Order: the
    comparisons of \<open>traversal.rs\<close> and \<open>glob_tool.rs\<close>.
  \<^item> Executor: \<open>file_executor.rs\<close>, \<open>search_parallelism.rs\<close>. Ordered_Window, Ordered_Execution:
    \<open>ordered_window.rs\<close>, its runners as an inductive step relation.
  \<^item> Tokens, Token_Budget: \<open>budget.rs\<close>, \<open>model.rs\<close>. Render_Plan: \<open>render_plan.rs\<close>. Glob_Render:
    \<open>glob_tool.rs\<close> (pages), \<open>skip_report.rs\<close>.
  \<^item> Characters, Text_Encoding: the fragment encoder of \<open>encoding.rs\<close>. Document, Replacement:
    \<open>edit/document.rs\<close>, \<open>edit/replace.rs\<close>.
  \<^item> Normalizer, Line_Ring, Shell_Encoding, Shell_Output: \<open>shell/normalize.rs\<close>, \<open>shell/buffer.rs\<close>,
    \<open>shell/encoding.rs\<close>, \<open>shell/output.rs\<close>, \<open>shell/apply_patch_hint.rs\<close>. Output_Log, Log_Reader:
    \<open>shell/jobs/output_log.rs\<close>.
  \<^item> Utf8_Validation, Legacy_Segments, Encoding_Detection, Encoding_Pass, Encoding_Trust:
    \<open>encoding.rs\<close>, \<open>encoding/snapshot_pipeline.rs\<close>, \<open>binary.rs\<close>. Encoding_Reader: the readers and
    messages of \<open>encoding.rs\<close>.
  \<^item> Snapshot, Capture_Soundness: \<open>file_snapshot.rs\<close> (a candidate is opened once and captured; the
    classifier may end the capture early). Grep_Sink, Grep_Capture: \<open>grep_sink.rs\<close> (what a search keeps
    of one file: existence, counts, selected entries and context). Grep_Search, Grep_Ranges: the search
    of one candidate in \<open>grep_tool.rs\<close> and its immutable input, \<open>search_text.rs\<close>.
  \<^item> Text_Read, Hex_View, Batch_Read: \<open>read_tool/text_file.rs\<close>, \<open>read_tool/hex_file.rs\<close>,
    \<open>read_tool/batch.rs\<close>, \<open>read_tool/mod.rs\<close>. Paths: \<open>paths.rs\<close>. Path_Codec: \<open>path_codec.rs\<close>.

  \<^bold>\<open>What the lemmas show.\<close> Every component theory has the invariants of its state first, then the
  behaviour of each operation on every branch, then its properties (the numbered claims):
  functional correctness against a short reference definition (the sort, the normaliser, the log, the
  encoding decision, the pages of a read), round trips (logs, replacements, offsets, paths, hex dumps,
  UTF-32), budget safety and maximality of responses, ordered delivery and progress of the parallel
  search under every interleaving, and the agreement of counts predicted incrementally with the count
  of the finished text. Interfaces are locales (comparators, line sources, decoders, event sinks and
  others), each interpreted on the definitions of the component that provides it.

  \<^bold>\<open>Parameters.\<close> Third-party code is an argument: the tokenizer (with the laws a property needs, such as
  that a text whose boundary is closed counts additively, as named hypotheses), the legacy encoding
  tables and detector (\<open>encoding_crates\<close>), the regex engine and searcher, the URL parser, the JSON
  printer, the file system. Each property with such a hypothesis has a witness over a concrete
  instance (a byte tokenizer, an identity table). Cancellation is a probe that answers every poll;
  reads deliver arbitrary chunks.

  \<^bold>\<open>Bounds and fuel.\<close> \<open>usize\<close> and \<open>u64\<close> are natural numbers with saturating and checked operations at
  \<open>2 ^ 64 - 1\<close> written out; bytes are 8-bit words; text is its UTF-8 bytes. Loops are structural
  recursion or functions with a termination proof; nothing runs on fuel.

  \<^bold>\<open>Not modelled.\<close> The directory walk (the ignore crate), the temporary files behind a snapshot
  beyond their bytes, file locks, process creation and signals, sockets, the operating-system side of background jobs, the PDF engine and image
  codecs, the terminal interface, argument parsing, message catalogues, the editing of third-party
  configuration files, the updater and the registration with the protocol library: their code is calls
  of the operating system and of crates, or tables of prose, about which nothing can be proved here.
  Failing system calls inside modelled components are left out where the code only passes them on.
  Windows branches are left out; the model is the Unix build.
\<close>

section \<open>Properties across components\<close>

text \<open>
  C40. UTF-32 text round-trips between the two halves of the program: what the fragment encoder of the
  edit path writes for any Unicode text, the decoder of command output reads back exactly, in both
  byte orders, with no sequence reported as invalid.
\<close>

theorem utf32_roundtrip:
  assumes "list_all is_scalar vs" and t: "t = concat (map utf8_of vs)"
  shows "\<exists>le be. encode_fragment encoding_kind.Utf32Le t = Some le \<and>
    encode_fragment encoding_kind.Utf32Be t = Some be \<and>
    length le = 4 * length vs \<and> length be = 4 * length vs \<and>
    decode_bytes cs le (WideKind stream_encoding.Utf32Le) = (t, []) \<and>
    decode_bytes cs be (WideKind stream_encoding.Utf32Be) = (t, [])"
proof -
  have c: "map scalar (chars t) = vs"
    using assms by (simp add: chars_scalars t) (induction vs, auto simp: utf8_of_char)
  have "concat (map (f \<circ> scalar) (chars t)) = concat (map f vs)" for f :: "nat \<Rightarrow> byte list"
    unfolding c [symmetric] by (simp add: comp_def)
  moreover have "length (concat (map (le_bytes 4) vs)) = 4 * length vs"
    "length (concat (map (be_bytes 4) vs)) = 4 * length vs"
    by (induction vs) (auto simp: be_bytes_def)
  ultimately show ?thesis
    using utf32_chunks [OF assms(1), of "[]" "[]"] t
    by (simp add: encode_fragment_def encode_chars_def decode_bytes_def decode_utf32_def)
qed

lemma utf32_roundtrip_witness:
  "\<exists>le. encode_fragment encoding_kind.Utf32Le (utf8_of 0x41 @ utf8_of 0x20AC @ utf8_of 0x1F600) = Some le \<and>
     length le = 12"
  using utf32_roundtrip [of "[0x41, 0x20AC, 0x1F600]", OF _ refl] by (auto simp: is_scalar_def)

end
